(* ===== verification/Kernel_Prelude.thy ===== *)
theory Kernel_Prelude
  imports Main "HOL-Library.Word"
begin

text \<open>
  Shared foundations of the development.

  \<^item> The type \<open>('a, 's) run\<close> of kernel code: a function of the state that either does not
    return (\<open>None\<close>), stops with a fault (\<open>Inl\<close>: a call of \<open>panic\<close>, an access beyond a
    static array, a dereferenced null pointer) or returns a value and the new state
    (\<open>Inr\<close>). Loops that the C code does not bound are \<^theory_text>\<open>partial_function (option)\<close>
    over this type, so every claim that a routine returns has to be proved.
  \<^item> Linked lists as the C code has them: \<open>chain nxt p xs\<close> says that following the
    \<open>next\<close> fields from the pointer \<open>p\<close> visits the nodes \<open>xs\<close> and ends in NULL.
  \<^item> Generic facts on lists and 64-bit words.
\<close>

unbundle bit_operations_syntax

named_theorems run_simps \<open>unfolding one step of kernel code\<close>

type_synonym uint64 = "64 word"
type_synonym addr = "64 word"
type_synonym byte = "8 word"

section \<open>Kernel code as state transformers\<close>

text \<open>The ways a kernel routine can stop without returning.\<close>

datatype fault =
    Panic string
  | OutOfBounds
  | NullDeref

type_synonym ('a, 's) run = "'s \<Rightarrow> (fault + 'a \<times> 's) option"

abbreviation Ok :: "'a \<Rightarrow> 's \<Rightarrow> (fault + 'a \<times> 's) option" where
  "Ok x s \<equiv> Some (Inr (x, s))"

abbreviation Fault :: "fault \<Rightarrow> (fault + 'a \<times> 's) option" where
  "Fault e \<equiv> Some (Inl e)"

definition return :: "'a \<Rightarrow> ('a, 's) run" where
  "return x s = Ok x s"

definition raise :: "fault \<Rightarrow> ('a, 's) run" where
  "raise e s = Fault e"

definition gets :: "('s \<Rightarrow> 'a) \<Rightarrow> ('a, 's) run" where
  "gets f s = Ok (f s) s"

definition modify :: "('s \<Rightarrow> 's) \<Rightarrow> (unit, 's) run" where
  "modify f s = Ok () (f s)"

definition bind :: "('a, 's) run \<Rightarrow> ('a \<Rightarrow> ('b, 's) run) \<Rightarrow> ('b, 's) run" where
  "bind m k s =
     (case m s of
        None \<Rightarrow> None
      | Some (Inl e) \<Rightarrow> Some (Inl e)
      | Some (Inr (x, s')) \<Rightarrow> k x s')"

text \<open>\<open>if_then c m\<close> is an \<open>if\<close> statement without an \<open>else\<close>.\<close>

definition if_then :: "bool \<Rightarrow> (unit, 's) run \<Rightarrow> (unit, 's) run" where
  "if_then c m = (if c then m else return ())"

lemmas [run_simps] = return_def raise_def gets_def modify_def if_then_def

lemma bind_return [simp]: "bind (return x) k = k x"
  by (rule ext) (simp add: bind_def return_def)

lemma bind_raise [simp]: "bind (raise e) k = raise e"
  by (rule ext) (simp add: bind_def raise_def)

lemma bind_return_right [simp]: "bind m return = m"
  by (rule ext) (auto simp: bind_def return_def split: option.splits sum.splits)

lemma bind_gets [run_simps]: "bind (gets f) k s = k (f s) s"
  by (simp add: bind_def gets_def)

lemma bind_modify [run_simps]: "bind (modify f) k s = k () (f s)"
  by (simp add: bind_def modify_def)

lemma bind_assoc [run_simps]: "bind (bind m k) l = bind m (\<lambda>x. bind (k x) l)"
  by (rule ext) (auto simp: bind_def split: option.splits sum.splits)

text \<open>Running the first part of a sequence whose result is known.\<close>

lemma bind_Ok: "m s = Ok x s' \<Longrightarrow> bind m k s = k x s'"
  by (simp add: bind_def)

lemma bind_Fault: "m s = Fault e \<Longrightarrow> bind m k s = Fault e"
  by (simp add: bind_def)

lemma bind_if: "bind (if c then m else n) k s = (if c then bind m k s else bind n k s)"
  by simp

lemma bind_Ok_cases:
  assumes "bind m k s = Ok y t"
  obtains x s' where "m s = Ok x s'" and "k x s' = Ok y t"
  using assms by (auto simp: bind_def split: option.splits sum.splits)

subsection \<open>Loops over kernel code\<close>

lemma bind_mono [partial_function_mono]:
  fixes B :: "('f \<Rightarrow> 'c option) \<Rightarrow> ('a, 's) run"
    and C :: "('f \<Rightarrow> 'c option) \<Rightarrow> 'a \<Rightarrow> ('b, 's) run"
  assumes m: "\<And>s. mono_option (\<lambda>f. B f s)"
    and k: "\<And>y s. mono_option (\<lambda>f. C f y s)"
  shows "mono_option (\<lambda>f. bind (B f) (\<lambda>y. C f y) s)"
proof (rule monotoneI)
  fix f g :: "'f \<Rightarrow> 'c option"
  assume fg: "option.le_fun f g"
  from m fg have b: "\<And>s. option_ord (B f s) (B g s)"
    unfolding monotone_def by blast
  from k fg have c: "\<And>y s. option_ord (C f y s) (C g y s)"
    unfolding monotone_def by blast
  show "option_ord (bind (B f) (\<lambda>y. C f y) s) (bind (B g) (\<lambda>y. C g y) s)"
  proof (cases "B f s")
    case None
    then show ?thesis by (simp add: flat_ord_def bind_def)
  next
    case (Some r)
    with b [of s] have "B g s = Some r" by (simp add: flat_ord_def)
    with Some c show ?thesis by (auto simp: bind_def flat_ord_def split: sum.splits)
  qed
qed

lemma if_run_mono [partial_function_mono]:
  "\<lbrakk>mono_option (\<lambda>f. B f s); mono_option (\<lambda>f. C f s)\<rbrakk>
   \<Longrightarrow> mono_option (\<lambda>f. (if c then B f else C f) s)"
  by (cases c) simp_all

text \<open>Continuations and loop states that are tuples.\<close>

lemma case_prod_run_mono [partial_function_mono]:
  "(\<And>x y. p = (x, y) \<Longrightarrow> mono_option (\<lambda>f. B f x y s))
   \<Longrightarrow> mono_option (\<lambda>f. (case p of (x, y) \<Rightarrow> B f x y) s)"
  "(\<And>x y. p = (x, y) \<Longrightarrow> mono_option (\<lambda>f. B2 f x y t s))
   \<Longrightarrow> mono_option (\<lambda>f. (case p of (x, y) \<Rightarrow> B2 f x y) t s)"
  "(\<And>x y. p = (x, y) \<Longrightarrow> mono_option (\<lambda>f. B3 f x y u t s))
   \<Longrightarrow> mono_option (\<lambda>f. (case p of (x, y) \<Rightarrow> B3 f x y) u t s)"
  "(\<And>x y. p = (x, y) \<Longrightarrow> mono_option (\<lambda>f. B4 f x y v u t s))
   \<Longrightarrow> mono_option (\<lambda>f. (case p of (x, y) \<Rightarrow> B4 f x y) v u t s)"
  "(\<And>x y. p = (x, y) \<Longrightarrow> mono_option (\<lambda>f. B5 f x y w v u t s))
   \<Longrightarrow> mono_option (\<lambda>f. (case p of (x, y) \<Rightarrow> B5 f x y) w v u t s)"
  "(\<And>x y. p = (x, y) \<Longrightarrow> mono_option (\<lambda>f. B6 f x y z w v u t s))
   \<Longrightarrow> mono_option (\<lambda>f. (case p of (x, y) \<Rightarrow> B6 f x y) z w v u t s)"
  "(\<And>x y. p = (x, y) \<Longrightarrow> mono_option (\<lambda>f. B7 f x y z' z w v u t s))
   \<Longrightarrow> mono_option (\<lambda>f. (case p of (x, y) \<Rightarrow> B7 f x y) z' z w v u t s)"
  by (cases p; simp)+

lemma let_run_mono [partial_function_mono]:
  "mono_option (\<lambda>f. B f a s) \<Longrightarrow> mono_option (\<lambda>f. (let x = a in B f x) s)"
  by simp

section \<open>Chains of next pointers\<close>

text \<open>
  NULL is address 0. A chain is the list of nodes met when the \<open>next\<close> field is followed
  from a pointer until NULL.
\<close>

primrec chain :: "(addr \<Rightarrow> addr) \<Rightarrow> addr \<Rightarrow> addr list \<Rightarrow> bool" where
  "chain nxt p [] \<longleftrightarrow> p = 0"
| "chain nxt p (x # xs) \<longleftrightarrow> p = x \<and> x \<noteq> 0 \<and> chain nxt (nxt x) xs"

lemma chain_null [simp]: "chain nxt 0 xs \<longleftrightarrow> xs = []"
  by (cases xs) auto

lemma chain_nonnull: "p \<noteq> 0 \<Longrightarrow> chain nxt p xs \<longleftrightarrow> (\<exists>ys. xs = p # ys \<and> chain nxt (nxt p) ys)"
  by (cases xs) auto

lemma chain_zero_notin: "chain nxt p xs \<Longrightarrow> 0 \<notin> set xs"
  by (induction xs arbitrary: p) auto

lemma chain_unique: "chain nxt p xs \<Longrightarrow> chain nxt p ys \<Longrightarrow> xs = ys"
  by (induction xs arbitrary: p ys) (auto simp: chain_nonnull)

text \<open>A chain only depends on the next fields of its own nodes.\<close>

lemma chain_cong:
  "(\<And>x. x \<in> set xs \<Longrightarrow> nxt x = nxt' x) \<Longrightarrow> chain nxt p xs \<longleftrightarrow> chain nxt' p xs"
  by (induction xs arbitrary: p) auto

lemma chain_upd_notin [simp]: "x \<notin> set xs \<Longrightarrow> chain (nxt(x := v)) p xs \<longleftrightarrow> chain nxt p xs"
  by (rule chain_cong) auto

text \<open>A chain segment from \<open>p\<close> to \<open>q\<close>, for splitting a chain in the middle.\<close>

primrec segment :: "(addr \<Rightarrow> addr) \<Rightarrow> addr \<Rightarrow> addr list \<Rightarrow> addr \<Rightarrow> bool" where
  "segment nxt p [] q \<longleftrightarrow> p = q"
| "segment nxt p (x # xs) q \<longleftrightarrow> p = x \<and> x \<noteq> 0 \<and> segment nxt (nxt x) xs q"

lemma chain_append: "chain nxt p (xs @ ys) \<longleftrightarrow> (\<exists>q. segment nxt p xs q \<and> chain nxt q ys)"
  by (induction xs arbitrary: p) auto

lemma segment_append: "segment nxt p (xs @ ys) q \<longleftrightarrow> (\<exists>r. segment nxt p xs r \<and> segment nxt r ys q)"
  by (induction xs arbitrary: p) auto

lemma segment_chain: "segment nxt p xs 0 \<longleftrightarrow> chain nxt p xs"
  by (induction xs arbitrary: p) auto

lemma segment_cong:
  "(\<And>x. x \<in> set xs \<Longrightarrow> nxt x = nxt' x) \<Longrightarrow> segment nxt p xs q \<longleftrightarrow> segment nxt' p xs q"
  by (induction xs arbitrary: p) auto

lemma segment_upd_notin [simp]:
  "x \<notin> set xs \<Longrightarrow> segment (nxt(x := v)) p xs q \<longleftrightarrow> segment nxt p xs q"
  by (rule segment_cong) auto

lemma segment_zero_notin: "segment nxt p xs q \<Longrightarrow> 0 \<notin> set xs"
  by (induction xs arbitrary: p) auto

text \<open>Redirecting the last node of a segment redirects the segment.\<close>

lemma segment_redirect:
  "segment nxt p (xs @ [x]) q \<Longrightarrow> x \<notin> set xs \<Longrightarrow> segment (nxt(x := r)) p (xs @ [x]) r"
  by (auto simp: segment_append)

lemma chain_distinct: "chain nxt p xs \<Longrightarrow> distinct xs"
proof (induction xs arbitrary: p)
  case Nil
  then show ?case by simp
next
  case (Cons x xs)
  have "x \<notin> set xs"
  proof
    assume "x \<in> set xs"
    then obtain us vs where xs: "xs = us @ x # vs"
      by (meson split_list)
    with Cons.prems have "chain nxt (nxt x) vs"
      by (auto simp: chain_append)
    moreover from Cons.prems have "chain nxt (nxt x) xs" by simp
    ultimately have "vs = xs" by (rule chain_unique)
    with xs show False by simp
  qed
  with Cons show ?case by auto
qed

section \<open>Words\<close>

lemma unat_lt_64: "unat (a :: uint64) < 2 ^ 64"
  using unsigned_less [of a] by simp

lemma unat_diff_64:
  fixes a b :: uint64
  shows "unat (a - b) = (if unat b \<le> unat a then unat a - unat b else unat a + 2 ^ 64 - unat b)"
  using unat_lt_64 [of a] unat_lt_64 [of b] by (simp add: unat_sub_if' word_le_nat_alt)

lemma unat_add_no_overflow:
  fixes a b :: uint64
  assumes "unat a + unat b < 2 ^ 64"
  shows "unat (a + b) = unat a + unat b"
  using assms by (simp add: unat_word_ariths)

lemma unat_sub_no_borrow:
  fixes a b :: uint64
  assumes "b \<le> a"
  shows "unat (a - b) = unat a - unat b"
  using assms by (rule unat_sub)

lemma uint64_eq_iff_unat: "(a :: uint64) = b \<longleftrightarrow> unat a = unat b"
  by (simp add: word_unat_eq_iff)

lemma uint64_eq_iff_bit: "(a :: uint64) = b \<longleftrightarrow> (\<forall>n<64. bit a n \<longleftrightarrow> bit b n)"
  by (auto intro: bit_word_eqI)

lemma unat_of_nat_64: "n < 2 ^ 64 \<Longrightarrow> unat (of_nat n :: uint64) = n"
  by (simp add: unat_of_nat take_bit_nat_eq_self)

lemma of_nat_64_inj:
  "m < 2 ^ 64 \<Longrightarrow> n < 2 ^ 64 \<Longrightarrow> (of_nat m :: uint64) = of_nat n \<longleftrightarrow> m = n"
  by (metis unat_of_nat_64)

lemma of_nat_64_less:
  "m < 2 ^ 64 \<Longrightarrow> n < 2 ^ 64 \<Longrightarrow> (of_nat m :: uint64) < of_nat n \<longleftrightarrow> m < n"
  by (simp add: word_less_nat_alt unat_of_nat_64)

lemma of_nat_64_le:
  "m < 2 ^ 64 \<Longrightarrow> n < 2 ^ 64 \<Longrightarrow> (of_nat m :: uint64) \<le> of_nat n \<longleftrightarrow> m \<le> n"
  by (simp add: word_le_nat_alt unat_of_nat_64)

text \<open>Clearing the low bits of a word rounds it down.\<close>

lemma and_not_mask_unat: "unat (w AND NOT (mask n)) = unat w div 2 ^ n * 2 ^ n" for w :: uint64
proof -
  have "unat (w AND NOT (mask n)) = push_bit n (drop_bit n (unat w))"
    by (rule bit_eqI) (auto simp: bit_simps dest: bit_imp_le_length)
  then show ?thesis by (simp add: push_bit_eq_mult drop_bit_eq_div)
qed

end
