(* ===== verification/Phys_Memory.thy ===== *)
theory Phys_Memory
  imports Kernel_Prelude
begin

text \<open>
  Physical memory: one byte per 64-bit address, with the little-endian 64-bit accesses that
  the compiled C code makes for pointers, page table entries and struct fields, and the
  byte loops \<open>memset\<close> and \<open>memcpy\<close> of \<open>kernel/utility.h\<close>.
\<close>

named_theorems mem_simps \<open>reading memory after a write\<close>

type_synonym memory = "addr \<Rightarrow> byte"

definition load64 :: "memory \<Rightarrow> addr \<Rightarrow> uint64" where
  "load64 m a = word_of_int (horner_sum uint 256 (map (\<lambda>i. m (a + of_nat i)) [0..<8]))"

definition store64 :: "memory \<Rightarrow> addr \<Rightarrow> uint64 \<Rightarrow> memory" where
  "store64 m a v = (\<lambda>x. if x - a < 8 then ucast (drop_bit (8 * unat (x - a)) v) else m x)"

text \<open>The byte loops; the index \<open>i\<close> is the C code's \<open>size_t\<close> counter.\<close>

lemma unat_inc_less:
  fixes i n :: uint64
  assumes "i < n"
  shows "unat (i + 1) = unat i + 1"
proof -
  have "unat i < unat n" using assms by (simp add: word_less_nat_alt)
  with unat_lt_64 [of n] have "unat i + 1 < 2 ^ 64" by linarith
  then show ?thesis using unat_add_no_overflow [of i 1] by simp
qed

function memset_loop :: "memory \<Rightarrow> addr \<Rightarrow> byte \<Rightarrow> uint64 \<Rightarrow> uint64 \<Rightarrow> memory" where
  "memset_loop m dest c sz i =
     (if i < sz then memset_loop (m(dest + i := c)) dest c sz (i + 1) else m)"
  by pat_completeness auto
termination
  by (relation "measure (\<lambda>(m, dest, c, sz, i). unat sz - unat i)")
    (simp_all add: unat_inc_less word_less_nat_alt)

definition memset :: "memory \<Rightarrow> addr \<Rightarrow> byte \<Rightarrow> uint64 \<Rightarrow> memory" where
  "memset m dest c sz = memset_loop m dest c sz 0"

function memcpy_loop :: "memory \<Rightarrow> addr \<Rightarrow> addr \<Rightarrow> uint64 \<Rightarrow> uint64 \<Rightarrow> memory" where
  "memcpy_loop m dest src sz i =
     (if i < sz then memcpy_loop (m(dest + i := m (src + i))) dest src sz (i + 1) else m)"
  by pat_completeness auto
termination
  by (relation "measure (\<lambda>(m, dest, src, sz, i). unat sz - unat i)")
    (simp_all add: unat_inc_less word_less_nat_alt)

definition memcpy :: "memory \<Rightarrow> addr \<Rightarrow> addr \<Rightarrow> uint64 \<Rightarrow> memory" where
  "memcpy m dest src sz = memcpy_loop m dest src sz 0"

declare memset_loop.simps [simp del] memcpy_loop.simps [simp del]

section \<open>64-bit cells\<close>

lemma bit_load64:
  "bit (load64 m a) n \<longleftrightarrow> n < 64 \<and> bit (m (a + of_nat (n div 8))) (n mod 8)"
proof -
  have "bit (horner_sum uint (2 ^ LENGTH(8)) (map (\<lambda>i. m (a + of_nat i)) [0..<8])) n \<longleftrightarrow>
      n div LENGTH(8) < 8 \<and> bit (map (\<lambda>i. m (a + of_nat i)) [0..<8] ! (n div LENGTH(8))) (n mod LENGTH(8))"
    by (subst bit_horner_sum_uint_exp_iff) simp
  then have "bit (horner_sum uint 256 (map (\<lambda>i. m (a + of_nat i)) [0..<8])) n \<longleftrightarrow>
      n div 8 < 8 \<and> bit (map (\<lambda>i. m (a + of_nat i)) [0..<8] ! (n div 8)) (n mod 8)"
    by simp
  moreover have "n div 8 < 8 \<longleftrightarrow> n < 64" by auto
  ultimately show ?thesis
    by (auto simp: load64_def bit_word_of_int_iff nth_map simp del: upt_Suc upt_rec_numeral)
qed

lemma load64_cong:
  "(\<And>i. i < 8 \<Longrightarrow> m (a + of_nat i) = m' (a + of_nat i)) \<Longrightarrow> load64 m a = load64 m' a"
  unfolding load64_def by (intro arg_cong [where f = word_of_int] arg_cong [where f = "horner_sum uint 256"]) auto

lemma load64_store64_same [simp, mem_simps]: "load64 (store64 m a v) a = v"
proof (rule bit_word_eqI)
  fix n assume "n < LENGTH(64)"
  then have n: "n < 64" by simp
  then have "n div 8 < 8" by auto
  then have u: "unat (of_nat (n div 8) :: uint64) = n div 8"
    and l: "(of_nat (n div 8) :: uint64) < 8"
    by (simp_all add: unat_of_nat_64 word_less_nat_alt)
  have "n mod 8 + 8 * (n div 8) = n" by simp
  with n u l show "bit (load64 (store64 m a v) a) n = bit v n"
    by (simp add: bit_load64 store64_def bit_ucast_iff bit_drop_bit_eq)
qed

text \<open>
  Two cells do not overlap when each starts at least eight bytes after the other, the
  distances being taken around the address space.
\<close>

lemma load64_store64_apart:
  assumes "8 \<le> b - a" and "8 \<le> a - b"
  shows "load64 (store64 m a v) b = load64 m b"
proof (rule load64_cong)
  fix i :: nat
  assume i: "i < 8"
  have "8 \<le> b + of_nat i - a"
  proof -
    have d: "8 \<le> unat (b - a)" "unat (b - a) + 8 \<le> 2 ^ 64"
      using assms unat_lt_64 [of a] unat_lt_64 [of b]
      by (auto simp: word_le_nat_alt unat_diff_64 split: if_splits)
    have "unat ((b - a) + of_nat i) = unat (b - a) + i"
      using d i by (subst unat_add_no_overflow) (auto simp: unat_of_nat_64)
    then have "8 \<le> (b - a) + of_nat i" using d by (simp add: word_le_nat_alt)
    then show ?thesis by (simp add: algebra_simps)
  qed
  then show "store64 m a v (b + of_nat i) = m (b + of_nat i)"
    by (simp add: store64_def leD)
qed

subsection \<open>Aligned cells\<close>

definition aligned8 :: "addr \<Rightarrow> bool" where
  "aligned8 a \<longleftrightarrow> 8 dvd unat a"

lemma aligned8_add [simp, intro]: "aligned8 a \<Longrightarrow> aligned8 b \<Longrightarrow> aligned8 (a + b)"
  by (simp add: aligned8_def unat_word_ariths dvd_mod)

lemma aligned8_diff [simp, intro]: "aligned8 a \<Longrightarrow> aligned8 b \<Longrightarrow> aligned8 (a - b)"
proof -
  assume a: "aligned8 a" "aligned8 b"
  have "8 dvd unat a - unat b" "8 dvd unat a + 2 ^ 64 - unat b"
    using a by (auto simp: aligned8_def intro!: dvd_diff_nat dvd_add)
  then show ?thesis by (simp add: aligned8_def unat_diff_64)
qed

lemma aligned8_ge: "aligned8 a \<Longrightarrow> a \<noteq> 0 \<Longrightarrow> 8 \<le> a"
  by (auto simp: aligned8_def word_le_nat_alt dest!: dvd_imp_le simp: unat_gt_0)

lemma load64_store64_aligned [mem_simps]:
  assumes "aligned8 a" and "aligned8 b" and "a \<noteq> b"
  shows "load64 (store64 m a v) b = load64 m b"
  using assms by (intro load64_store64_apart aligned8_ge) auto

lemma load64_store64:
  "aligned8 a \<Longrightarrow> aligned8 b \<Longrightarrow>
   load64 (store64 m a v) b = (if a = b then v else load64 m b)"
  by (simp add: load64_store64_aligned)

lemma store64_other: "8 \<le> x - a \<Longrightarrow> store64 m a v x = m x"
  by (simp add: store64_def leD)

section \<open>The byte loops in closed form\<close>

lemma word_le_step:
  fixes i y :: uint64
  assumes "i < n"
  shows "i + 1 \<le> y \<longleftrightarrow> i < y"
  using unat_inc_less [OF assms] by (auto simp: word_le_nat_alt word_less_nat_alt)

lemma memset_loop_eq:
  "memset_loop m dest c sz i = (\<lambda>x. if i \<le> x - dest \<and> x - dest < sz then c else m x)"
proof (induction m dest c sz i rule: memset_loop.induct)
  case (1 m dest c sz i)
  show ?case
  proof (cases "i < sz")
    case True
    have "(if i + 1 \<le> x - dest \<and> x - dest < sz then c else (m(dest + i := c)) x) =
        (if i \<le> x - dest \<and> x - dest < sz then c else m x)" for x
      by (cases "x = dest + i") (use True in \<open>auto simp: word_le_step [OF True]\<close>)
    then show ?thesis
      by (subst memset_loop.simps) (simp only: True if_True "1.IH" [OF True])
  next
    case False
    then show ?thesis by (subst memset_loop.simps) (auto simp: fun_eq_iff)
  qed
qed

lemma memset_eq: "memset m dest c sz = (\<lambda>x. if x - dest < sz then c else m x)"
  by (simp add: memset_def memset_loop_eq)

definition ranges_apart :: "addr \<Rightarrow> addr \<Rightarrow> uint64 \<Rightarrow> bool" where
  "ranges_apart a b sz \<longleftrightarrow> sz \<le> a - b \<and> sz \<le> b - a"

lemma memcpy_loop_eq:
  assumes "ranges_apart dest src sz"
  shows "memcpy_loop m dest src sz i =
    (\<lambda>x. if i \<le> x - dest \<and> x - dest < sz then m (src + (x - dest)) else m x)"
  using assms
proof (induction m dest src sz i rule: memcpy_loop.induct)
  case (1 m dest src sz i)
  show ?case
  proof (cases "i < sz")
    case True
    have src: "src + j \<noteq> dest + i" if "j < sz" for j
    proof
      assume "src + j = dest + i"
      then have "dest - src = j - i" and "src - dest = i - j"
        by (simp_all add: algebra_simps eq_diff_eq diff_eq_eq)
      moreover have "j - i < sz \<or> i - j < sz"
        using that True by (auto simp: word_less_nat_alt unat_diff_64)
      ultimately show False
        using "1.prems" by (auto simp: ranges_apart_def)
    qed
    have "(if i + 1 \<le> x - dest \<and> x - dest < sz then (m(dest + i := m (src + i))) (src + (x - dest))
            else (m(dest + i := m (src + i))) x) =
        (if i \<le> x - dest \<and> x - dest < sz then m (src + (x - dest)) else m x)" for x
      by (cases "x = dest + i") (use True src in \<open>auto simp: word_le_step [OF True]\<close>)
    then show ?thesis
      by (subst memcpy_loop.simps) (simp only: True if_True "1.IH" [OF True "1.prems"])
  next
    case False
    then show ?thesis by (subst memcpy_loop.simps) (auto simp: fun_eq_iff)
  qed
qed

lemma memcpy_eq:
  "ranges_apart dest src sz \<Longrightarrow>
   memcpy m dest src sz = (\<lambda>x. if x - dest < sz then m (src + (x - dest)) else m x)"
  by (simp add: memcpy_def memcpy_loop_eq)

lemma load64_zeroed:
  assumes "\<And>i. i < 8 \<Longrightarrow> m (a + of_nat i) = 0"
  shows "load64 m a = 0"
  by (rule bit_word_eqI) (use assms in \<open>auto simp: bit_load64\<close>)

text \<open>Bytes before and after a stored word.\<close>

lemma store64_outside:
  assumes "unat x < unat a \<or> unat a + 8 \<le> unat x" and "unat a + 8 \<le> 2 ^ 64"
  shows "store64 m a v x = m x"
proof (rule store64_other)
  have "8 \<le> unat (x - a)"
    using assms unat_lt_64 [of x] by (auto simp: unat_diff_64)
  then show "8 \<le> x - a" by (simp add: word_le_nat_alt)
qed

lemma aligned8_numeral [simp]:
  "aligned8 0" "aligned8 8" "aligned8 16" "aligned8 24" "aligned8 32" "aligned8 40"
  by (simp_all add: aligned8_def)

lemma aligned8_of_nat: "8 dvd n \<Longrightarrow> aligned8 (of_nat n)"
  unfolding aligned8_def unat_of_nat by (auto simp: dvd_mod_iff)

end
