(* ===== verification/Riscv.thy ===== *)
theory Riscv
  imports Phys_Memory
begin

text \<open>
  The machine below the kernel: physical memory and the supervisor status register, the
  interrupt switches of \<open>kernel/riscv.h\<close>, and the constants and address macros of
  \<open>kernel/riscv_defs.h\<close> and \<open>kernel/memlayout.h\<close>. Every component extends the record
  \<open>machine\<close> with its own global variables.
\<close>

record machine =
  mem :: memory
  sstatus :: uint64

section \<open>Interrupt switches\<close>

definition SSTATUS_SIE :: uint64 where "SSTATUS_SIE = push_bit 1 1"
definition SSTATUS_SPIE :: uint64 where "SSTATUS_SPIE = push_bit 5 1"
definition SSTATUS_SPP :: uint64 where "SSTATUS_SPP = push_bit 8 1"

definition interrupt_on :: "(unit, 'z machine_scheme) run" where
  "interrupt_on = modify (\<lambda>s. s\<lparr>sstatus := sstatus s OR SSTATUS_SIE\<rparr>)"

definition interrupt_off :: "(unit, 'z machine_scheme) run" where
  "interrupt_off = modify (\<lambda>s. s\<lparr>sstatus := sstatus s AND NOT SSTATUS_SIE\<rparr>)"

definition interrupt_status :: "'z machine_scheme \<Rightarrow> bool" where
  "interrupt_status s \<longleftrightarrow> sstatus s AND SSTATUS_SIE \<noteq> 0"

definition set_interrupt_status :: "bool \<Rightarrow> (bool, 'z machine_scheme) run" where
  "set_interrupt_status status =
     bind (gets interrupt_status) (\<lambda>last_status.
     bind (if status then interrupt_on else interrupt_off) (\<lambda>_.
     return last_status))"

text \<open>Writing and reading memory as steps.\<close>

definition write64 :: "addr \<Rightarrow> uint64 \<Rightarrow> (unit, 'z machine_scheme) run" where
  "write64 a v = modify (\<lambda>s. s\<lparr>mem := store64 (mem s) a v\<rparr>)"

definition read64 :: "addr \<Rightarrow> (uint64, 'z machine_scheme) run" where
  "read64 a = gets (\<lambda>s. load64 (mem s) a)"

text \<open>A field of a struct, at an offset from the pointer; NULL is not mapped.\<close>

definition get_field :: "addr \<Rightarrow> uint64 \<Rightarrow> (uint64, 'z machine_scheme) run" where
  "get_field p off = (if p = 0 then raise NullDeref else read64 (p + off))"

definition set_field :: "addr \<Rightarrow> uint64 \<Rightarrow> uint64 \<Rightarrow> (unit, 'z machine_scheme) run" where
  "set_field p off v = (if p = 0 then raise NullDeref else write64 (p + off) v)"

section \<open>Constants\<close>

definition PGSIZE :: uint64 where "PGSIZE = 4096"
definition PGSHIFT :: nat where "PGSHIFT = 12"
definition MAXVA :: uint64 where "MAXVA = push_bit (9 + 9 + 9 + 12 - 1) 1"
definition KERNBASE :: uint64 where "KERNBASE = 0x80000000"
definition PHYSTOP :: uint64 where "PHYSTOP = KERNBASE + 128 * 1024 * 1024"
definition TRAMPOLINE :: uint64 where "TRAMPOLINE = MAXVA - PGSIZE"
definition TRAPFRAME :: uint64 where "TRAPFRAME = TRAMPOLINE - PGSIZE"
definition SHARED_MEMORY :: uint64 where "SHARED_MEMORY = TRAMPOLINE - PGSIZE * 2"
definition MIN_STACK_ADDR :: uint64 where "MIN_STACK_ADDR = SHARED_MEMORY - PGSIZE * 1024"

definition PTE_V :: uint64 where "PTE_V = push_bit 0 1"
definition PTE_R :: uint64 where "PTE_R = push_bit 1 1"
definition PTE_W :: uint64 where "PTE_W = push_bit 2 1"
definition PTE_X :: uint64 where "PTE_X = push_bit 3 1"
definition PTE_U :: uint64 where "PTE_U = push_bit 4 1"

definition PGROUNDUP :: "uint64 \<Rightarrow> uint64" where
  "PGROUNDUP sz = (sz + PGSIZE - 1) AND NOT (PGSIZE - 1)"

definition PGROUNDDOWN :: "uint64 \<Rightarrow> uint64" where
  "PGROUNDDOWN a = a AND NOT (PGSIZE - 1)"

definition PGOFFSET :: "uint64 \<Rightarrow> uint64" where
  "PGOFFSET va = va AND (PGSIZE - 1)"

definition PA2PTE :: "uint64 \<Rightarrow> uint64" where
  "PA2PTE pa = push_bit 10 (drop_bit 12 pa)"

definition PTE2PA :: "uint64 \<Rightarrow> uint64" where
  "PTE2PA pte = push_bit 12 (drop_bit 10 pte)"

definition PTE_FLAGS :: "uint64 \<Rightarrow> uint64" where
  "PTE_FLAGS pte = pte AND 0x3FF"

definition PX :: "nat \<Rightarrow> uint64 \<Rightarrow> uint64" where
  "PX level va = drop_bit (PGSHIFT + 9 * level) va AND 0x1FF"

lemmas page_consts =
  PGSIZE_def PGSHIFT_def MAXVA_def KERNBASE_def PHYSTOP_def TRAMPOLINE_def TRAPFRAME_def
  SHARED_MEMORY_def MIN_STACK_ADDR_def

lemmas pte_consts = PTE_V_def PTE_R_def PTE_W_def PTE_X_def PTE_U_def

section \<open>Facts about the switches\<close>

lemmas [run_simps] =
  interrupt_on_def interrupt_off_def write64_def read64_def

lemma interrupt_on_status [simp]:
  "interrupt_status (s\<lparr>sstatus := sstatus s OR SSTATUS_SIE\<rparr>)"
  by (auto simp: interrupt_status_def SSTATUS_SIE_def uint64_eq_iff_bit bit_simps)

lemma interrupt_off_status [simp]:
  "\<not> interrupt_status (s\<lparr>sstatus := sstatus s AND NOT SSTATUS_SIE\<rparr>)"
  by (auto simp: interrupt_status_def SSTATUS_SIE_def uint64_eq_iff_bit bit_simps)

lemma get_field_nonnull [run_simps]: "p \<noteq> 0 \<Longrightarrow> get_field p off = read64 (p + off)"
  by (simp add: get_field_def)

lemma set_field_nonnull [run_simps]: "p \<noteq> 0 \<Longrightarrow> set_field p off v = write64 (p + off) v"
  by (simp add: set_field_def)

text \<open>Switching off and back to what it was leaves the register as it was.\<close>

lemma sstatus_restore:
  "(if interrupt_status s then (sstatus s AND NOT SSTATUS_SIE) OR SSTATUS_SIE
    else (sstatus s AND NOT SSTATUS_SIE) AND NOT SSTATUS_SIE) = sstatus s"
  by (auto simp: interrupt_status_def SSTATUS_SIE_def uint64_eq_iff_bit bit_simps)

abbreviation irq_off :: "'z machine_scheme \<Rightarrow> 'z machine_scheme" where
  "irq_off s \<equiv> s\<lparr>sstatus := sstatus s AND NOT SSTATUS_SIE\<rparr>"

lemma irq_off_idem [simp]: "(x AND NOT SSTATUS_SIE) AND NOT SSTATUS_SIE = x AND NOT SSTATUS_SIE"
  for x :: uint64
  by (simp add: ac_simps)

lemma set_interrupt_off: "set_interrupt_status False s = Ok (interrupt_status s) (irq_off s)"
  by (simp add: set_interrupt_status_def run_simps)

lemma restore_interrupts:
  assumes "sstatus t = sstatus s AND NOT SSTATUS_SIE"
  shows "\<exists>x. set_interrupt_status (interrupt_status s) t = Ok x (t\<lparr>sstatus := sstatus s\<rparr>)"
  using sstatus_restore [of s] assms
  by (cases "interrupt_status s") (simp_all add: set_interrupt_status_def run_simps)

lemma bind_restore_interrupts:
  assumes "sstatus t = sstatus s AND NOT SSTATUS_SIE"
  shows "bind (set_interrupt_status (interrupt_status s)) (\<lambda>_. k) t = k (t\<lparr>sstatus := sstatus s\<rparr>)"
proof -
  obtain x where "set_interrupt_status (interrupt_status s) t = Ok x (t\<lparr>sstatus := sstatus s\<rparr>)"
    using restore_interrupts [OF assms] ..
  then show ?thesis by (rule bind_Ok)
qed

end
