(* ===== verification/Buddy_Spec.thy ===== *)
theory Buddy_Spec
  imports Kernel_Prelude
begin

text \<open>
  What the buddy allocator of \<open>kernel/mem_manage.c\<close> promises, stated on page numbers.

  A state is one list of free blocks per order; the block of order \<open>i\<close> at page \<open>p\<close> is the
  run of \<open>2 ^ i\<close> pages from \<open>p\<close>. \<open>buddy_wf\<close> is the representation invariant: sorted
  lists, aligned blocks inside the managed range, no two blocks overlapping, and no block
  free together with its buddy. \<open>spec_dealloc\<close> and \<open>spec_alloc\<close> are the operations; the
  lemmas show what they do to the set of free pages, and that an allocation fails only when
  no aligned run of that many pages is free.
\<close>

definition BUDDY_MAX_ORDER :: nat where "BUDDY_MAX_ORDER = 15"

text \<open>The managed range: 128 MiB of RAM from \<open>0x80000000\<close>, in pages of 4 KiB.\<close>

definition first_page :: nat where "first_page = 0x80000"
definition end_page :: nat where "end_page = 0x88000"

type_synonym free_lists = "nat \<Rightarrow> nat list"

definition block :: "nat \<Rightarrow> nat \<Rightarrow> nat set" where
  "block i p = {p..<p + 2 ^ i}"

definition buddy :: "nat \<Rightarrow> nat \<Rightarrow> nat" where
  "buddy i p = (if even (p div 2 ^ i) then p + 2 ^ i else p - 2 ^ i)"

definition free_pages :: "free_lists \<Rightarrow> nat set" where
  "free_pages fl = (\<Union>i\<in>{..BUDDY_MAX_ORDER}. \<Union>p\<in>set (fl i). block i p)"

definition valid_block :: "nat \<Rightarrow> nat \<Rightarrow> bool" where
  "valid_block i p \<longleftrightarrow>
     i \<le> BUDDY_MAX_ORDER \<and> 2 ^ i dvd p \<and> first_page \<le> p \<and> p + 2 ^ i \<le> end_page"

definition disjoint_blocks :: "free_lists \<Rightarrow> bool" where
  "disjoint_blocks fl \<longleftrightarrow>
     (\<forall>i j p q. i \<le> BUDDY_MAX_ORDER \<longrightarrow> j \<le> BUDDY_MAX_ORDER \<longrightarrow> p \<in> set (fl i) \<longrightarrow>
        q \<in> set (fl j) \<longrightarrow> (i, p) \<noteq> (j, q) \<longrightarrow> block i p \<inter> block j q = {})"

definition coalesced :: "free_lists \<Rightarrow> bool" where
  "coalesced fl \<longleftrightarrow> (\<forall>i p. i \<le> BUDDY_MAX_ORDER \<longrightarrow> p \<in> set (fl i) \<longrightarrow> buddy i p \<notin> set (fl i))"

definition buddy_wf :: "free_lists \<Rightarrow> bool" where
  "buddy_wf fl \<longleftrightarrow>
     (\<forall>i\<le>BUDDY_MAX_ORDER. sorted_wrt (<) (fl i)) \<and>
     (\<forall>i\<le>BUDDY_MAX_ORDER. \<forall>p\<in>set (fl i). valid_block i p) \<and>
     disjoint_blocks fl \<and> coalesced fl"

section \<open>The operations\<close>

function spec_dealloc :: "nat \<Rightarrow> nat \<Rightarrow> free_lists \<Rightarrow> free_lists" where
  "spec_dealloc i p fl =
     (if i > BUDDY_MAX_ORDER then fl
      else if buddy i p \<in> set (fl i)
      then spec_dealloc (i + 1) (min p (buddy i p)) (fl(i := remove1 (buddy i p) (fl i)))
      else fl(i := insort p (fl i)))"
  by pat_completeness auto
termination
  by (relation "measure (\<lambda>(i, p, fl). Suc BUDDY_MAX_ORDER - i)") auto

declare spec_dealloc.simps [simp del]

function spec_find :: "nat \<Rightarrow> free_lists \<Rightarrow> nat option" where
  "spec_find l fl =
     (if l > BUDDY_MAX_ORDER then None
      else if fl l \<noteq> [] then Some l
      else spec_find (l + 1) fl)"
  by pat_completeness auto
termination
  by (relation "measure (\<lambda>(l, fl). Suc BUDDY_MAX_ORDER - l)") auto

declare spec_find.simps [simp del]

fun spec_split :: "nat \<Rightarrow> nat \<Rightarrow> nat \<Rightarrow> free_lists \<Rightarrow> free_lists" where
  "spec_split 0 k p fl = fl"
| "spec_split (Suc l) k p fl =
     (if k < Suc l then spec_split l k p (spec_dealloc l (p + 2 ^ l) fl) else fl)"

definition spec_alloc :: "nat \<Rightarrow> free_lists \<Rightarrow> (nat \<times> free_lists) option" where
  "spec_alloc k fl =
     (case spec_find k fl of
        None \<Rightarrow> None
      | Some l \<Rightarrow> Some (hd (fl l), spec_split l k (hd (fl l)) (fl(l := tl (fl l)))))"

section \<open>Blocks and buddies\<close>

lemma block_nonempty [simp]: "block i p \<noteq> {}"
  by (simp add: block_def)

lemma finite_block [simp]: "finite (block i p)"
  by (simp add: block_def)

lemma card_block [simp]: "card (block i p) = 2 ^ i"
  by (simp add: block_def)

lemma mem_block_self [simp]: "p \<in> block i p"
  by (simp add: block_def)

lemma free_pages_iff:
  "x \<in> free_pages fl \<longleftrightarrow> (\<exists>i\<le>BUDDY_MAX_ORDER. \<exists>p\<in>set (fl i). x \<in> block i p)"
  by (auto simp: free_pages_def)

lemma block_subset_free:
  "i \<le> BUDDY_MAX_ORDER \<Longrightarrow> p \<in> set (fl i) \<Longrightarrow> block i p \<subseteq> free_pages fl"
  by (auto simp: free_pages_def)

lemma buddy_even: "2 ^ Suc i dvd p \<Longrightarrow> buddy i p = p + 2 ^ i"
  by (auto simp: buddy_def elim!: dvdE)

lemma buddy_odd: "2 ^ Suc i dvd p \<Longrightarrow> buddy i (p + 2 ^ i) = p"
  by (auto simp: buddy_def div_add_self2 elim!: dvdE)

text \<open>An aligned block is the lower or the upper half of an aligned block of the next order.\<close>

lemma aligned_halves:
  assumes "2 ^ i dvd (p :: nat)"
  obtains (lower) "2 ^ Suc i dvd p" | (upper) q where "p = q + 2 ^ i" and "2 ^ Suc i dvd q"
proof -
  from assms obtain k where k: "p = 2 ^ i * k" by (elim dvdE)
  show thesis
  proof (cases "even k")
    case True
    with k show thesis by (intro lower) (auto elim!: evenE)
  next
    case False
    then obtain m where "k = 2 * m + 1" by (elim oddE)
    with k have "p = 2 ^ Suc i * m + 2 ^ i" by (simp add: algebra_simps)
    then show thesis by (intro upper) auto
  qed
qed

lemma buddy_aligned: "2 ^ i dvd p \<Longrightarrow> 2 ^ i dvd buddy i p"
proof (erule aligned_halves)
  assume "2 ^ Suc i dvd p"
  moreover from this have "2 ^ i dvd p" by (rule dvd_trans [rotated]) simp
  ultimately show ?thesis by (simp add: buddy_even)
next
  fix q assume p: "p = q + 2 ^ i" and q: "2 ^ Suc i dvd q"
  from q have "2 ^ i dvd q" by (rule dvd_trans [rotated]) simp
  with p q show ?thesis by (simp add: buddy_odd)
qed

lemma buddy_buddy: "2 ^ i dvd p \<Longrightarrow> buddy i (buddy i p) = p"
  by (erule aligned_halves) (simp_all add: buddy_even buddy_odd)

lemma buddy_neq: "2 ^ i dvd p \<Longrightarrow> buddy i p \<noteq> p"
  by (erule aligned_halves) (simp_all add: buddy_even buddy_odd)

lemma block_merge:
  assumes "2 ^ i dvd p"
  shows "block i p \<union> block i (buddy i p) = block (Suc i) (min p (buddy i p))"
  using assms by (rule aligned_halves) (auto simp: buddy_even buddy_odd block_def)

lemma merge_aligned: "2 ^ i dvd p \<Longrightarrow> 2 ^ Suc i dvd min p (buddy i p)"
  by (erule aligned_halves) (auto simp: buddy_even buddy_odd)

lemma block_Suc: "block (Suc i) p = block i p \<union> block i (p + 2 ^ i)"
  by (auto simp: block_def)

lemma block_halves_disjoint: "block i p \<inter> block i (p + 2 ^ i) = {}"
  by (auto simp: block_def)

text \<open>Aligned blocks are nested or disjoint.\<close>

lemma aligned_step:
  assumes "n dvd (a :: nat)" and "n dvd b" and "a < b"
  shows "a + n \<le> b"
proof -
  from assms have "n dvd b - a" and "0 < b - a" by (simp_all add: dvd_diff_nat)
  then have "n \<le> b - a" by (rule dvd_imp_le)
  with \<open>a < b\<close> show ?thesis by simp
qed

lemma aligned_block_contains:
  assumes a: "2 ^ i dvd p" and b: "2 ^ j dvd q" and ij: "i \<le> j" and m: "p \<in> block j q"
  shows "block i p \<subseteq> block j q"
proof -
  from ij have "(2 :: nat) ^ i dvd 2 ^ j" by (rule le_imp_power_dvd)
  with b have "2 ^ i dvd q + 2 ^ j" by (metis dvd_add dvd_trans)
  with a m have "p + 2 ^ i \<le> q + 2 ^ j"
    by (intro aligned_step) (simp_all add: block_def)
  with m show ?thesis by (auto simp: block_def)
qed

lemma aligned_same_order:
  assumes "2 ^ i dvd p" and "2 ^ i dvd q" and "p \<in> block i q"
  shows "p = q"
proof (rule ccontr)
  assume "p \<noteq> q"
  with assms have "q + 2 ^ i \<le> p" by (intro aligned_step) (auto simp: block_def)
  with assms(3) show False by (simp add: block_def)
qed

section \<open>The invariant\<close>

lemma wf_sorted: "buddy_wf fl \<Longrightarrow> i \<le> BUDDY_MAX_ORDER \<Longrightarrow> sorted_wrt (<) (fl i)"
  by (simp add: buddy_wf_def)

lemma wf_distinct: "buddy_wf fl \<Longrightarrow> i \<le> BUDDY_MAX_ORDER \<Longrightarrow> distinct (fl i)"
  using wf_sorted by (auto simp: strict_sorted_iff)

lemma wf_valid: "buddy_wf fl \<Longrightarrow> i \<le> BUDDY_MAX_ORDER \<Longrightarrow> p \<in> set (fl i) \<Longrightarrow> valid_block i p"
  by (simp add: buddy_wf_def)

lemma wf_disjoint:
  "\<lbrakk>buddy_wf fl; i \<le> BUDDY_MAX_ORDER; j \<le> BUDDY_MAX_ORDER; p \<in> set (fl i); q \<in> set (fl j);
    (i, p) \<noteq> (j, q)\<rbrakk> \<Longrightarrow> block i p \<inter> block j q = {}"
  unfolding buddy_wf_def disjoint_blocks_def by blast

lemma wf_coalesced:
  "buddy_wf fl \<Longrightarrow> i \<le> BUDDY_MAX_ORDER \<Longrightarrow> p \<in> set (fl i) \<Longrightarrow> buddy i p \<notin> set (fl i)"
  unfolding buddy_wf_def coalesced_def by blast

lemma valid_order: "valid_block i p \<Longrightarrow> i \<le> BUDDY_MAX_ORDER"
  by (simp add: valid_block_def)

lemma valid_aligned: "valid_block i p \<Longrightarrow> 2 ^ i dvd p"
  by (simp add: valid_block_def)

lemma free_pages_in_range: "buddy_wf fl \<Longrightarrow> free_pages fl \<subseteq> {first_page..<end_page}"
  by (fastforce simp: free_pages_iff block_def valid_block_def dest: wf_valid)

text \<open>Two buddies inside the range merge to a block inside the range.\<close>

lemma valid_merge:
  assumes "valid_block i p" and "valid_block i (buddy i p)"
  shows "valid_block (Suc i) (min p (buddy i p))"
proof -
  have al: "2 ^ i dvd p" using assms(1) by (rule valid_aligned)
  have "i < BUDDY_MAX_ORDER"
  proof (rule ccontr)
    assume "\<not> ?thesis"
    with assms(1) have i: "i = 15" by (simp add: valid_block_def BUDDY_MAX_ORDER_def)
    with assms have "p = first_page" and "buddy i p = first_page"
      by (simp_all add: valid_block_def first_page_def end_page_def)
    with buddy_neq [OF al] show False by simp
  qed
  moreover have "min p (buddy i p) + 2 ^ Suc i \<le> end_page"
    using al assms by (rule_tac aligned_halves [OF al])
      (auto simp: buddy_even buddy_odd valid_block_def)
  ultimately show ?thesis
    using merge_aligned [OF al] assms by (auto simp: valid_block_def)
qed

subsection \<open>Adding and removing one block\<close>

lemma free_pages_upd:
  assumes "i \<le> BUDDY_MAX_ORDER"
  shows "x \<in> free_pages (fl(i := l)) \<longleftrightarrow> (\<exists>p\<in>set l. x \<in> block i p) \<or>
     (\<exists>j\<le>BUDDY_MAX_ORDER. j \<noteq> i \<and> (\<exists>p\<in>set (fl j). x \<in> block j p))" (is "?l \<longleftrightarrow> ?r")
proof
  assume ?l
  then show ?r by (fastforce simp: free_pages_iff split: if_splits)
next
  assume ?r
  with assms show ?l unfolding free_pages_iff by (metis fun_upd_apply)
qed

lemma free_pages_self:
  assumes "i \<le> BUDDY_MAX_ORDER"
  shows "x \<in> free_pages fl \<longleftrightarrow> (\<exists>p\<in>set (fl i). x \<in> block i p) \<or>
     (\<exists>j\<le>BUDDY_MAX_ORDER. j \<noteq> i \<and> (\<exists>p\<in>set (fl j). x \<in> block j p))"
  using free_pages_upd [OF assms, of x fl "fl i"] by simp

lemma free_pages_insort:
  assumes "i \<le> BUDDY_MAX_ORDER"
  shows "free_pages (fl(i := insort p (fl i))) = free_pages fl \<union> block i p"
  by (rule set_eqI)
    (auto simp: free_pages_upd [OF assms] free_pages_self [OF assms, of _ fl] set_insort_key)

lemma wf_insert:
  assumes wf: "buddy_wf fl" and v: "valid_block i p"
    and dis: "block i p \<inter> free_pages fl = {}" and nb: "buddy i p \<notin> set (fl i)"
  shows "buddy_wf (fl(i := insort p (fl i)))"
proof -
  let ?fl = "fl(i := insort p (fl i))"
  note i = valid_order [OF v]
  have apart: "block i p \<inter> block j q = {}" if "j \<le> BUDDY_MAX_ORDER" "q \<in> set (fl j)" for j q
    using dis that block_subset_free by blast
  have new: "p \<notin> set (fl i)"
    using apart [OF i] mem_block_self by blast
  have "sorted_wrt (<) (insort p (fl i))"
    using wf_sorted [OF wf i] new by (simp add: strict_sorted_iff distinct_insort sorted_insort)
  moreover have "disjoint_blocks ?fl"
    unfolding disjoint_blocks_def
    using wf_disjoint [OF wf] apart by (auto simp: set_insort_key) blast+
  moreover have "coalesced ?fl"
    unfolding coalesced_def
  proof (intro allI impI)
    fix j q assume j: "j \<le> BUDDY_MAX_ORDER" and q: "q \<in> set (?fl j)"
    show "buddy j q \<notin> set (?fl j)"
    proof (cases "j = i")
      case False
      with j q wf_coalesced [OF wf] show ?thesis by simp
    next
      case True
      have "buddy i q \<noteq> p" if "q \<in> set (fl i)"
        using that nb buddy_buddy [OF valid_aligned [OF wf_valid [OF wf i that]]] by auto
      moreover have "buddy i p \<noteq> p" by (rule buddy_neq [OF valid_aligned [OF v]])
      ultimately show ?thesis
        using True q nb wf_coalesced [OF wf i] by (auto simp: set_insort_key)
    qed
  qed
  ultimately show ?thesis
    using wf v unfolding buddy_wf_def by (auto simp: set_insort_key)
qed

lemma wf_remove:
  assumes wf: "buddy_wf fl" and i: "i \<le> BUDDY_MAX_ORDER" and q: "q \<in> set (fl i)"
  shows "buddy_wf (fl(i := remove1 q (fl i)))"
proof -
  have "set (remove1 q (fl i)) \<subseteq> set (fl i)" by (rule set_remove1_subset)
  moreover have "sorted_wrt (<) (remove1 q (fl i))"
    using wf_sorted [OF wf i] by (simp add: strict_sorted_iff sorted_remove1)
  ultimately show ?thesis
    using wf unfolding buddy_wf_def disjoint_blocks_def coalesced_def
    by (auto split: if_splits) blast+
qed

lemma free_pages_remove:
  assumes wf: "buddy_wf fl" and i: "i \<le> BUDDY_MAX_ORDER" and q: "q \<in> set (fl i)"
  shows "free_pages (fl(i := remove1 q (fl i))) = free_pages fl - block i q"
proof -
  have s: "set (remove1 q (fl i)) = set (fl i) - {q}"
    using wf_distinct [OF wf i] by simp
  have out: "x \<notin> block i q"
    if "j \<le> BUDDY_MAX_ORDER" "p \<in> set (fl j)" "x \<in> block j p" "(i, q) \<noteq> (j, p)" for j p x
    using wf_disjoint [OF wf i that(1) q that(2,4)] that(3) by blast
  show ?thesis
  proof (rule set_eqI)
    fix x
    show "x \<in> free_pages (fl(i := remove1 q (fl i))) \<longleftrightarrow> x \<in> free_pages fl - block i q"
      using out i by (fastforce simp: free_pages_upd [OF i] free_pages_self [OF i, of x fl] s)
  qed
qed

subsection \<open>Releasing a block\<close>

theorem spec_dealloc_ok:
  assumes "buddy_wf fl" and "valid_block i p" and "block i p \<inter> free_pages fl = {}"
  shows "buddy_wf (spec_dealloc i p fl) \<and>
    free_pages (spec_dealloc i p fl) = free_pages fl \<union> block i p"
  using assms
proof (induction i p fl rule: spec_dealloc.induct)
  case (1 i p fl)
  let ?b = "buddy i p" and ?rest = "fl(i := remove1 (buddy i p) (fl i))"
  note wf = "1.prems"(1) and v = "1.prems"(2) and dis = "1.prems"(3)
  note i = valid_order [OF v] and al = valid_aligned [OF v]
  from i have ni: "\<not> BUDDY_MAX_ORDER < i" by simp
  show ?case
  proof (cases "?b \<in> set (fl i)")
    case True
    note vb = wf_valid [OF wf i True]
    have rest: "buddy_wf ?rest" "free_pages ?rest = free_pages fl - block i ?b"
      using wf i True by (rule wf_remove, rule free_pages_remove)
    have d: "block (i + 1) (min p ?b) \<inter> free_pages ?rest = {}"
      using dis rest(2) block_merge [OF al] by auto
    have v': "valid_block (i + 1) (min p ?b)" using valid_merge [OF v vb] by simp
    have step: "spec_dealloc i p fl = spec_dealloc (i + 1) (min p ?b) ?rest"
      using ni True by (subst spec_dealloc.simps) (simp only: if_True if_False)
    have "block i ?b \<subseteq> free_pages fl"
      using i True by (rule block_subset_free)
    moreover have "buddy_wf (spec_dealloc (i + 1) (min p ?b) ?rest) \<and>
        free_pages (spec_dealloc (i + 1) (min p ?b) ?rest) = free_pages ?rest \<union> block (i + 1) (min p ?b)"
      using ni True rest(1) v' d by (rule "1.IH")
    ultimately show ?thesis
      unfolding step using rest(2) block_merge [OF al] by auto
  next
    case False
    then show ?thesis
      using wf_insert [OF wf v dis False] free_pages_insort [OF i] ni
      by (subst (1 2) spec_dealloc.simps) simp
  qed
qed

lemma spec_dealloc_empty:
  "i \<le> BUDDY_MAX_ORDER \<Longrightarrow> fl i = [] \<Longrightarrow> spec_dealloc i p fl = fl(i := [p])"
  by (subst spec_dealloc.simps) simp

subsection \<open>Taking a block\<close>

lemma spec_find_Some:
  "spec_find k fl = Some l \<Longrightarrow>
   k \<le> l \<and> l \<le> BUDDY_MAX_ORDER \<and> fl l \<noteq> [] \<and> (\<forall>j. k \<le> j \<longrightarrow> j < l \<longrightarrow> fl j = [])"
proof (induction k fl rule: spec_find.induct)
  case (1 k fl)
  show ?case
  proof (cases "k \<le> BUDDY_MAX_ORDER \<and> fl k = []")
    case True
    with "1.prems" have "spec_find (k + 1) fl = Some l" by (simp add: spec_find.simps [of k])
    with "1.IH" True have "k + 1 \<le> l \<and> l \<le> BUDDY_MAX_ORDER \<and> fl l \<noteq> [] \<and>
        (\<forall>j. k + 1 \<le> j \<longrightarrow> j < l \<longrightarrow> fl j = [])" by simp
    with True show ?thesis by (metis Suc_eq_plus1 Suc_leD le_antisym not_less_eq_eq)
  next
    case False
    with "1.prems" show ?thesis by (auto simp: spec_find.simps [of k] split: if_splits)
  qed
qed

lemma spec_find_None: "spec_find k fl = None \<longleftrightarrow> (\<forall>j. k \<le> j \<longrightarrow> j \<le> BUDDY_MAX_ORDER \<longrightarrow> fl j = [])"
proof (induction k fl rule: spec_find.induct)
  case (1 k fl)
  have "(\<forall>j. k \<le> j \<longrightarrow> j \<le> BUDDY_MAX_ORDER \<longrightarrow> fl j = []) \<longleftrightarrow>
      (k \<le> BUDDY_MAX_ORDER \<longrightarrow> fl k = []) \<and> (\<forall>j. k + 1 \<le> j \<longrightarrow> j \<le> BUDDY_MAX_ORDER \<longrightarrow> fl j = [])"
    by (metis Suc_eq_plus1 Suc_leD le_antisym not_less_eq_eq order_refl)
  with 1 show ?case by (subst spec_find.simps) auto
qed

text \<open>Splitting: the upper halves go back to the free lists, the lower half is kept.\<close>

lemma spec_split_ok:
  assumes "buddy_wf fl" and "valid_block l p" and "block l p \<inter> free_pages fl = {}" and "k \<le> l"
    and "\<forall>j. k \<le> j \<longrightarrow> j < l \<longrightarrow> fl j = []"
  shows "buddy_wf (spec_split l k p fl) \<and>
    free_pages (spec_split l k p fl) = free_pages fl \<union> (block l p - block k p)"
  using assms
proof (induction l arbitrary: fl)
  case 0
  then show ?case by simp
next
  case (Suc l)
  show ?case
  proof (cases "k < Suc l")
    case False
    with Suc.prems have "k = Suc l" by simp
    with Suc.prems show ?thesis by simp
  next
    case True
    let ?fl = "spec_dealloc l (p + 2 ^ l) fl"
    from Suc.prems(2) have al: "2 ^ Suc l dvd p" by (rule valid_aligned)
    then have al': "2 ^ l dvd p" by (rule dvd_trans [rotated]) simp
    with Suc.prems(2) have v: "valid_block l p" "valid_block l (p + 2 ^ l)"
      by (auto simp: valid_block_def)
    note halves = block_Suc [of l p] block_halves_disjoint [of l p]
    from Suc.prems(3) halves have d: "block l (p + 2 ^ l) \<inter> free_pages fl = {}" by auto
    note ok = spec_dealloc_ok [OF Suc.prems(1) v(2) d]
    have "fl l = []" using Suc.prems(5) True by simp
    then have "?fl = fl(l := [p + 2 ^ l])"
      using valid_order [OF v(1)] by (rule spec_dealloc_empty [rotated])
    then have "\<forall>j. k \<le> j \<longrightarrow> j < l \<longrightarrow> ?fl j = []" using Suc.prems(5) by simp
    moreover have "block l p \<inter> free_pages ?fl = {}"
      using ok Suc.prems(3) halves by auto
    ultimately have IH: "buddy_wf (spec_split l k p ?fl) \<and>
        free_pages (spec_split l k p ?fl) = free_pages ?fl \<union> (block l p - block k p)"
      using ok v(1) True by (intro Suc.IH) auto
    have "block k p \<subseteq> block l p"
      using True by (auto simp: block_def intro: less_le_trans power_increasing)
    with IH ok halves True show ?thesis by auto
  qed
qed

theorem spec_alloc_ok:
  assumes wf: "buddy_wf fl" and a: "spec_alloc k fl = Some (p, fl')"
  shows "buddy_wf fl' \<and> valid_block k p \<and> block k p \<subseteq> free_pages fl \<and>
    free_pages fl' = free_pages fl - block k p"
proof -
  from a obtain l where l: "spec_find k fl = Some l" and p: "p = hd (fl l)"
    and fl': "fl' = spec_split l k p (fl(l := tl (fl l)))"
    by (auto simp: spec_alloc_def split: option.splits)
  from spec_find_Some [OF l] have kl: "k \<le> l" and lo: "l \<le> BUDDY_MAX_ORDER"
    and ne: "fl l \<noteq> []" and em: "\<forall>j. k \<le> j \<longrightarrow> j < l \<longrightarrow> fl j = []" by auto
  let ?r = "fl(l := tl (fl l))"
  from ne p have pin: "p \<in> set (fl l)" and tl: "tl (fl l) = remove1 p (fl l)"
    by (cases "fl l"; simp)+
  note v = wf_valid [OF wf lo pin]
  have r: "buddy_wf ?r" "free_pages ?r = free_pages fl - block l p"
    unfolding tl using wf lo pin by (rule wf_remove, rule free_pages_remove)
  have "buddy_wf fl' \<and> free_pages fl' = free_pages ?r \<union> (block l p - block k p)"
    unfolding fl' using r v kl em by (intro spec_split_ok) auto
  moreover have "block l p \<subseteq> free_pages fl" using lo pin by (rule block_subset_free)
  moreover have "block k p \<subseteq> block l p"
    using kl by (auto simp: block_def intro: less_le_trans power_increasing)
  moreover have "valid_block k p"
    using v kl \<open>block k p \<subseteq> block l p\<close>
    by (auto simp: valid_block_def intro: dvd_trans [OF le_imp_power_dvd]
        order_trans [OF add_left_mono [OF power_increasing]])
  ultimately show ?thesis using r by auto
qed

subsection \<open>An allocation fails only when there is no room\<close>

text \<open>Because buddies are always merged, an aligned free run lies inside one free block.\<close>

lemma free_run_in_block:
  assumes wf: "buddy_wf fl"
  shows "2 ^ k dvd q \<Longrightarrow> block k q \<subseteq> free_pages fl \<Longrightarrow>
    \<exists>j p. k \<le> j \<and> j \<le> BUDDY_MAX_ORDER \<and> p \<in> set (fl j) \<and> block k q \<subseteq> block j p"
proof (induction k arbitrary: q)
  case 0
  then show ?case by (auto simp: block_def free_pages_iff)
next
  case (Suc k)
  from Suc.prems(1) have al: "2 ^ k dvd q" by (rule dvd_trans [rotated]) simp
  note halves = block_Suc [of k q]
  obtain j p where j: "k \<le> j" "j \<le> BUDDY_MAX_ORDER" "p \<in> set (fl j)" "block k q \<subseteq> block j p"
    using Suc.IH [OF al] Suc.prems(2) halves by auto
  obtain j' p' where j': "k \<le> j'" "j' \<le> BUDDY_MAX_ORDER" "p' \<in> set (fl j')"
      "block k (q + 2 ^ k) \<subseteq> block j' p'"
    using Suc.IH [of "q + 2 ^ k"] al Suc.prems(2) halves by auto
  have in1: "q \<in> block j p" and in2: "q + 2 ^ k \<in> block j' p'"
    using j(4) j'(4) mem_block_self by blast+
  note ap = valid_aligned [OF wf_valid [OF wf j(2,3)]]
    and ap' = valid_aligned [OF wf_valid [OF wf j'(2,3)]]
  consider "Suc k \<le> j" | "Suc k \<le> j'" "j = k" | "j = k" "j' = k" using j(1) j'(1) by linarith
  then show ?case
  proof cases
    case 1
    with aligned_block_contains [OF Suc.prems(1) ap 1 in1] j show ?thesis by blast
  next
    case 2
    from ap' 2 have "2 ^ Suc k dvd p'" by (meson dvd_trans le_imp_power_dvd)
    have "q \<in> block j' p'"
    proof -
      have "p' \<le> q"
      proof (rule ccontr)
        assume "\<not> p' \<le> q"
        with Suc.prems(1) \<open>2 ^ Suc k dvd p'\<close> have "q + 2 ^ Suc k \<le> p'"
          by (intro aligned_step) auto
        moreover have "p' \<le> q + 2 ^ k" using in2 by (simp add: block_def)
        moreover have "0 < (2 :: nat) ^ k" by simp
        ultimately show False unfolding power_Suc by linarith
      qed
      with in2 show ?thesis by (simp add: block_def)
    qed
    with aligned_block_contains [OF Suc.prems(1) ap' 2(1)] j' 2 show ?thesis by blast
  next
    case 3
    then have "p = q" and "p' = q + 2 ^ k"
      using aligned_same_order ap ap' in1 in2 al by (metis dvd_add dvd_refl)+
    with 3 j j' have "q \<in> set (fl k)" "buddy k q \<in> set (fl k)"
      using buddy_even [OF Suc.prems(1)] by auto
    with wf_coalesced [OF wf] j 3 show ?thesis by blast
  qed
qed

theorem spec_alloc_None:
  assumes wf: "buddy_wf fl"
  shows "spec_alloc k fl = None \<longleftrightarrow> (\<nexists>q. 2 ^ k dvd q \<and> block k q \<subseteq> free_pages fl)"
proof
  assume n: "spec_alloc k fl = None"
  then have "spec_find k fl = None" by (auto simp: spec_alloc_def split: option.splits)
  then have em: "\<forall>j. k \<le> j \<longrightarrow> j \<le> BUDDY_MAX_ORDER \<longrightarrow> fl j = []" by (simp add: spec_find_None)
  show "\<nexists>q. 2 ^ k dvd q \<and> block k q \<subseteq> free_pages fl"
  proof
    assume "\<exists>q. 2 ^ k dvd q \<and> block k q \<subseteq> free_pages fl"
    then obtain j p where "k \<le> j" "j \<le> BUDDY_MAX_ORDER" "p \<in> set (fl j)"
      using free_run_in_block [OF wf] by blast
    with em show False by auto
  qed
next
  assume no: "\<nexists>q. 2 ^ k dvd q \<and> block k q \<subseteq> free_pages fl"
  show "spec_alloc k fl = None"
  proof (rule ccontr)
    assume "spec_alloc k fl \<noteq> None"
    then obtain p fl' where "spec_alloc k fl = Some (p, fl')" by auto
    from spec_alloc_ok [OF wf this] no show False by (auto dest: valid_aligned)
  qed
qed

end
