(* ===== verification/Buddy.thy ===== *)
theory Buddy
  imports Riscv Buddy_Spec
begin

text \<open>
  The buddy allocator of \<open>kernel/mem_manage.c\<close> (\<open>init_mem_manage\<close>, \<open>allocate\<close>,
  \<open>deallocate\<close>, \<open>remove_tag\<close>), pointer by pointer: the free lists are threaded through
  the free blocks themselves, the heads are the static array \<open>buddy_pool.space\<close>.
  The theory shows that it implements \<^theory_text>\<open>Buddy_Spec\<close>.
\<close>

record buddy = machine +
  space :: "addr list"

definition KERNEL_START :: uint64 where "KERNEL_START = 0x80000000"
definition KERNEL_MEM_SIZE :: uint64 where "KERNEL_MEM_SIZE = 128 * 1024 * 1024"
definition PAGE_SIZE :: uint64 where "PAGE_SIZE = 4096"

text \<open>\<open>node *\<close> points into the array \<open>buddy_pool.space\<close> or at a free block.\<close>

datatype node_ptr = Space nat | Node addr

definition get_next :: "node_ptr \<Rightarrow> (addr, 'z buddy_scheme) run" where
  "get_next r =
     (case r of
        Space i \<Rightarrow> (\<lambda>s. if i < length (space s) then return (space s ! i) s else raise OutOfBounds s)
      | Node a \<Rightarrow> read64 a)"

definition set_next :: "node_ptr \<Rightarrow> addr \<Rightarrow> (unit, 'z buddy_scheme) run" where
  "set_next r v =
     (case r of
        Space i \<Rightarrow> (\<lambda>s. if i < length (space s) then return () (s\<lparr>space := (space s)[i := v]\<rparr>)
                      else raise OutOfBounds s)
      | Node a \<Rightarrow> write64 a v)"

section \<open>Releasing a block\<close>

definition remove_tag :: "addr \<Rightarrow> nat \<Rightarrow> addr" where
  "remove_tag a pwr = a AND NOT (push_bit pwr PAGE_SIZE)"

text \<open>The search loop of the odd case: \<open>while (next && addr > next)\<close>.\<close>

partial_function (option) odd_walk ::
  "addr \<Rightarrow> node_ptr \<Rightarrow> addr \<Rightarrow> addr \<Rightarrow> 'z buddy_scheme \<Rightarrow>
   (fault + (node_ptr \<times> addr \<times> addr) \<times> 'z buddy_scheme) option" where
  "odd_walk a prev_prev prev nxt s =
     (if nxt \<noteq> 0 \<and> a > nxt then
        bind (get_next (Node nxt)) (\<lambda>nxt'. odd_walk a (Node prev) nxt nxt') s
      else return (prev_prev, prev, nxt) s)"

text \<open>The search loop of the even case: \<open>while (next && next < addr)\<close>.\<close>

partial_function (option) even_walk ::
  "addr \<Rightarrow> node_ptr \<Rightarrow> addr \<Rightarrow> 'z buddy_scheme \<Rightarrow>
   (fault + (node_ptr \<times> addr) \<times> 'z buddy_scheme) option" where
  "even_walk a prev nxt s =
     (if nxt \<noteq> 0 \<and> nxt < a then
        bind (get_next (Node nxt)) (\<lambda>nxt'. even_walk a (Node nxt) nxt') s
      else return (prev, nxt) s)"

partial_function (option) deallocate ::
  "addr \<Rightarrow> nat \<Rightarrow> 'z buddy_scheme \<Rightarrow> (fault + unit \<times> 'z buddy_scheme) option" where
  "deallocate a pwr s =
     (if a = 0 then return () s
      else
        bind (set_interrupt_status False) (\<lambda>old_interrupt_status.
        bind (get_next (Space pwr)) (\<lambda>first.
        if first = 0 then
          bind (set_next (Space pwr) a) (\<lambda>_.
          bind (write64 a 0) (\<lambda>_.
          bind (set_interrupt_status old_interrupt_status) (\<lambda>_. return ())))
        else if a AND push_bit pwr PAGE_SIZE \<noteq> 0 then
          bind (get_next (Node first)) (\<lambda>nxt.
          if a < first then
            bind (set_next (Node a) first) (\<lambda>_.
            set_next (Space pwr) a)
          else
            bind (odd_walk a (Space pwr) first nxt) (\<lambda>(prev_prev, prev, nxt).
            bind (if remove_tag a pwr = prev then
                    bind (set_next prev_prev nxt) (\<lambda>_. deallocate prev (pwr + 1))
                  else
                    bind (set_next (Node a) nxt) (\<lambda>_. set_next (Node prev) a)) (\<lambda>_.
            bind (set_interrupt_status old_interrupt_status) (\<lambda>_. return ()))))
        else
          bind (even_walk a (Space pwr) first) (\<lambda>(prev, nxt).
          bind (if nxt \<noteq> 0 \<and> a = remove_tag nxt pwr then
                  bind (get_next (Node nxt)) (\<lambda>next_next.
                  bind (set_next prev next_next) (\<lambda>_. deallocate a (pwr + 1)))
                else
                  bind (set_next (Node a) nxt) (\<lambda>_. set_next prev a)) (\<lambda>_.
          bind (set_interrupt_status old_interrupt_status) (\<lambda>_. return ()))))) s)"

section \<open>Taking a block\<close>

text \<open>The search for the smallest available block: \<open>while (level <= BUDDY_MAX_ORDER)\<close>.\<close>

partial_function (option) find_block ::
  "nat \<Rightarrow> 'z buddy_scheme \<Rightarrow> (fault + (addr \<times> nat) \<times> 'z buddy_scheme) option" where
  "find_block level s =
     (if level \<le> BUDDY_MAX_ORDER then
        bind (get_next (Space level)) (\<lambda>p.
        if p \<noteq> 0 then
          bind (get_next (Node p)) (\<lambda>q.
          bind (set_next (Space level) q) (\<lambda>_.
          return (p, level)))
        else find_block (level + 1)) s
      else return (0, level) s)"

text \<open>The loop that splits the block: \<open>while (level > power)\<close>.\<close>

primrec split_block :: "nat \<Rightarrow> nat \<Rightarrow> addr \<Rightarrow> (unit, 'z buddy_scheme) run" where
  "split_block 0 pwr a = return ()"
| "split_block (Suc level) pwr a =
     (if pwr < Suc level then
        bind (deallocate (a + push_bit level PAGE_SIZE) level) (\<lambda>_. split_block level pwr a)
      else return ())"

definition allocate :: "nat \<Rightarrow> (addr, 'z buddy_scheme) run" where
  "allocate pwr =
     bind (set_interrupt_status False) (\<lambda>old_interrupt_status.
     bind (find_block pwr) (\<lambda>(a, level).
     bind (set_interrupt_status old_interrupt_status) (\<lambda>_.
     if a = 0 \<or> level > BUDDY_MAX_ORDER then return 0
     else bind (split_block level pwr a) (\<lambda>_. return a))))"

section \<open>Initialisation\<close>

text \<open>
  \<open>PAGE_SIZE << index\<close> with the C code's signed index. The last round of the second loop
  shifts by -1, which C leaves undefined; the machine's shift uses the low six bits of the
  amount. The result of that shift is not used.
\<close>

definition page_shl :: "int \<Rightarrow> uint64" where
  "page_shl index = push_bit (nat (index mod 64)) PAGE_SIZE"

partial_function (option) init_high ::
  "uint64 \<Rightarrow> uint64 \<Rightarrow> int \<Rightarrow> 'z buddy_scheme \<Rightarrow>
   (fault + (uint64 \<times> int) \<times> 'z buddy_scheme) option" where
  "init_high kernel_size buddy_size index s =
     (if buddy_size \<ge> kernel_size \<and> index \<ge> 0 then
        bind (set_next (Space (nat index)) (KERNEL_START + buddy_size)) (\<lambda>_.
        bind (get_next (Space (nat index))) (\<lambda>p.
        bind (set_next (Node p) 0) (\<lambda>_.
        init_high kernel_size (drop_bit 1 buddy_size) (index - 1)))) s
      else return (buddy_size, index) s)"

partial_function (option) init_low ::
  "addr \<Rightarrow> addr \<Rightarrow> int \<Rightarrow> 'z buddy_scheme \<Rightarrow> (fault + unit \<times> 'z buddy_scheme) option" where
  "init_low start_addr tmp index s =
     (if index \<ge> 0 then
        (if tmp \<ge> start_addr then
           bind (set_next (Space (nat index)) tmp) (\<lambda>_.
           bind (get_next (Space (nat index))) (\<lambda>p.
           bind (set_next (Node p) 0) (\<lambda>_.
           init_low start_addr (tmp - page_shl (index - 1)) (index - 1))))
         else
           bind (set_next (Space (nat index)) 0) (\<lambda>_.
           init_low start_addr (tmp + page_shl (index - 1)) (index - 1))) s
      else return () s)"

definition init_mem_manage :: "addr \<Rightarrow> (unit, 'z buddy_scheme) run" where
  "init_mem_manage start_addr =
     (let kernel_size = start_addr - KERNEL_START;
          buddy_size = KERNEL_MEM_SIZE div 2;
          index = int BUDDY_MAX_ORDER - 1 in
      bind (set_next (Space BUDDY_MAX_ORDER) 0) (\<lambda>_.
      bind (init_high kernel_size buddy_size index) (\<lambda>(buddy_size, index).
      init_low start_addr (KERNEL_START + buddy_size) index)))"

lemmas [code] =
  odd_walk.simps even_walk.simps deallocate.simps find_block.simps init_high.simps init_low.simps

section \<open>Page addresses\<close>

definition page_addr :: "nat \<Rightarrow> addr" where
  "page_addr p = of_nat (4096 * p)"

definition page_of :: "addr \<Rightarrow> nat" where
  "page_of a = unat a div 4096"

text \<open>Physical pages have numbers below \<open>2 ^ 52\<close>; all bounds below follow from it.\<close>

lemma unat_page_addr: "p < 2 ^ 52 \<Longrightarrow> unat (page_addr p) = 4096 * p"
  unfolding page_addr_def by (rule unat_of_nat_64) simp

lemma page_of_page_addr: "p < 2 ^ 52 \<Longrightarrow> page_of (page_addr p) = p"
  by (simp add: page_of_def unat_page_addr)

lemma page_addr_eq_iff:
  "p < 2 ^ 52 \<Longrightarrow> q < 2 ^ 52 \<Longrightarrow> page_addr p = page_addr q \<longleftrightarrow> p = q"
  by (metis page_of_page_addr)

lemma page_addr_less_iff:
  "p < 2 ^ 52 \<Longrightarrow> q < 2 ^ 52 \<Longrightarrow> page_addr p < page_addr q \<longleftrightarrow> p < q"
  by (simp add: word_less_nat_alt unat_page_addr)

lemma page_addr_zero_iff: "p < 2 ^ 52 \<Longrightarrow> page_addr p = 0 \<longleftrightarrow> p = 0"
  using page_addr_eq_iff [of p 0] by (simp add: page_addr_def)

lemma aligned8_page_addr [simp]: "aligned8 (page_addr p)"
proof -
  have "unat (page_addr p) = (4096 * p) mod 2 ^ 64"
    unfolding page_addr_def unat_of_nat by simp
  then show ?thesis by (simp add: aligned8_def dvd_mod)
qed

lemma page_addr_add: "page_addr (p + q) = page_addr p + page_addr q"
  by (simp add: page_addr_def distrib_left)

lemma page_addr_pow: "page_addr (2 ^ i) = push_bit i PAGE_SIZE"
  by (simp add: page_addr_def PAGE_SIZE_def push_bit_eq_mult mult.commute)

lemma page_shift: "push_bit i PAGE_SIZE = push_bit (12 + i) 1"
  by (simp add: PAGE_SIZE_def push_bit_eq_mult power_add)

lemma page_addr_shift: "page_addr p = push_bit 12 (of_nat p)"
  by (simp add: page_addr_def push_bit_eq_mult mult.commute)

text \<open>A free block lies in the managed range, so its number is small and not 0.\<close>

lemma valid_page_bounds: "valid_block i p \<Longrightarrow> p < 2 ^ 52 \<and> p \<noteq> 0"
  by (auto simp: valid_block_def first_page_def end_page_def)

lemma valid_addr_nonzero: "valid_block i p \<Longrightarrow> page_addr p \<noteq> 0"
  using valid_page_bounds [of i p] by (simp add: page_addr_zero_iff)

subsection \<open>The order bit of an address\<close>

lemma odd_test:
  assumes "p < 2 ^ 52" and "i \<le> BUDDY_MAX_ORDER"
  shows "page_addr p AND push_bit i PAGE_SIZE \<noteq> 0 \<longleftrightarrow> odd (p div 2 ^ i)"
proof -
  have i: "12 + i < 64" using assms(2) by (simp add: BUDDY_MAX_ORDER_def)
  have "page_addr p AND push_bit i PAGE_SIZE \<noteq> 0 \<longleftrightarrow> bit (page_addr p) (12 + i)"
    using i by (auto simp: page_shift uint64_eq_iff_bit bit_simps)
  also have "\<dots> \<longleftrightarrow> bit (of_nat p :: uint64) i"
    using i by (simp add: page_addr_shift bit_simps)
  also have "\<dots> \<longleftrightarrow> bit p i"
    using i by (simp add: bit_simps)
  finally show ?thesis by (simp add: bit_iff_odd)
qed

lemma remove_tag_even:
  assumes "p < 2 ^ 52" and "i \<le> BUDDY_MAX_ORDER" and "even (p div 2 ^ i)"
  shows "remove_tag (page_addr p) i = page_addr p"
proof -
  have z: "page_addr p AND push_bit i PAGE_SIZE = 0" using odd_test assms by blast
  have "bit (page_addr p AND push_bit i PAGE_SIZE) n \<longleftrightarrow> False" for n unfolding z by simp
  then show ?thesis by (auto simp: remove_tag_def uint64_eq_iff_bit bit_and_iff bit_not_iff)
qed

lemma remove_tag_odd:
  assumes "q + 2 ^ i < 2 ^ 52" and "i \<le> BUDDY_MAX_ORDER" and "even (q div 2 ^ i)"
  shows "remove_tag (page_addr (q + 2 ^ i)) i = page_addr q"
proof -
  have z: "page_addr q AND push_bit i PAGE_SIZE = 0" using odd_test [of q i] assms by force
  then have "page_addr (q + 2 ^ i) = page_addr q OR push_bit i PAGE_SIZE"
    unfolding page_addr_add page_addr_pow
    by (intro disjunctive_add_eq_or)
  moreover have "\<not> (bit (page_addr q) n \<and> bit (push_bit i PAGE_SIZE) n)" for n
    using z by (metis bit_0_eq bit_and_iff bot_apply bot_bool_def)
  ultimately show ?thesis
    by (auto simp: remove_tag_def uint64_eq_iff_bit bit_and_iff bit_not_iff bit_or_iff)
qed

section \<open>The free lists in memory\<close>

definition pool_repr :: "'z buddy_scheme \<Rightarrow> free_lists \<Rightarrow> bool" where
  "pool_repr s fl \<longleftrightarrow>
     length (space s) = Suc BUDDY_MAX_ORDER \<and>
     (\<forall>i\<le>BUDDY_MAX_ORDER. chain (load64 (mem s)) (space s ! i) (map page_addr (fl i)))"

text \<open>What an operation may change: the pages of \<open>P\<close>, the list heads, the status register.\<close>

definition frame :: "nat set \<Rightarrow> 'z buddy_scheme \<Rightarrow> 'z buddy_scheme \<Rightarrow> bool" where
  "frame P s s' \<longleftrightarrow>
     (\<forall>x. page_of x \<notin> P \<longrightarrow> mem s' x = mem s x) \<and> buddy.more s' = buddy.more s"

lemma frame_refl [simp]: "frame P s s"
  by (simp add: frame_def)

lemma frame_trans: "frame P s t \<Longrightarrow> frame P t u \<Longrightarrow> frame P s u"
  by (simp add: frame_def)

lemma frame_mono: "frame P s t \<Longrightarrow> P \<subseteq> Q \<Longrightarrow> frame Q s t"
  by (auto simp: frame_def)

lemma frame_sstatus [simp]: "frame P s (t\<lparr>sstatus := x\<rparr>) = frame P s t"
  "frame P (s\<lparr>sstatus := x\<rparr>) t = frame P s t"
  by (simp_all add: frame_def)

lemma pool_repr_sstatus [simp]: "pool_repr (s\<lparr>sstatus := x\<rparr>) fl = pool_repr s fl"
  by (simp add: pool_repr_def)

lemma store64_other_page:
  assumes "page_of x \<noteq> p" and p: "p < 2 ^ 52"
  shows "store64 m (page_addr p) v x = m x"
proof (rule store64_other, rule ccontr)
  assume "\<not> 8 \<le> x - page_addr p"
  then have "unat (x - page_addr p) < 8" by (simp add: word_le_nat_alt)
  with p have "4096 * p \<le> unat x \<and> unat x < 4096 * p + 8"
    using unat_lt_64 [of x] by (auto simp: unat_diff_64 unat_page_addr split: if_splits)
  then have "page_of x = p" by (auto simp: page_of_def)
  with assms show False by simp
qed

lemma chain_store64:
  assumes "aligned8 a" and "\<forall>x\<in>set xs. aligned8 x" and "a \<notin> set xs"
  shows "chain (load64 (store64 m a v)) q xs \<longleftrightarrow> chain (load64 m) q xs"
  by (rule chain_cong) (use assms in \<open>auto simp: load64_store64\<close>)

lemma segment_store64:
  assumes "aligned8 a" and "\<forall>x\<in>set xs. aligned8 x" and "a \<notin> set xs"
  shows "segment (load64 (store64 m a v)) q xs r \<longleftrightarrow> segment (load64 m) q xs r"
  by (rule segment_cong) (use assms in \<open>auto simp: load64_store64\<close>)

definition head_ptr :: "addr list \<Rightarrow> addr" where
  "head_ptr xs = (case xs of [] \<Rightarrow> 0 | x # _ \<Rightarrow> x)"

definition ref_at :: "node_ptr \<Rightarrow> addr list \<Rightarrow> node_ptr" where
  "ref_at r us = (if us = [] then r else Node (last us))"

lemma head_ptr_simps [simp]: "head_ptr [] = 0" "head_ptr (x # xs) = x"
  by (simp_all add: head_ptr_def)

lemma chain_head: "chain nxt q xs \<Longrightarrow> q = head_ptr xs"
  by (cases xs) auto

lemma get_next_Node [run_simps]: "get_next (Node a) = read64 a"
  by (simp add: get_next_def)

lemma set_next_Node [run_simps]: "set_next (Node a) v = write64 a v"
  by (simp add: set_next_def)

lemma get_next_Space: "i < length (space s) \<Longrightarrow> get_next (Space i) s = Ok (space s ! i) s"
  by (simp add: get_next_def return_def)

lemma set_next_Space:
  "i < length (space s) \<Longrightarrow> set_next (Space i) v s = Ok () (s\<lparr>space := (space s)[i := v]\<rparr>)"
  by (simp add: set_next_def return_def)

subsection \<open>The search loops\<close>

lemma odd_walk_ok:
  "chain (load64 (mem s)) nxt vs \<Longrightarrow>
   odd_walk a pp prev nxt s =
     Ok (ref_at pp (butlast (prev # takeWhile (\<lambda>x. x < a) vs)),
         last (prev # takeWhile (\<lambda>x. x < a) vs),
         head_ptr (dropWhile (\<lambda>x. x < a) vs)) s"
proof (induction vs arbitrary: pp prev nxt)
  case Nil
  then show ?case by (simp add: odd_walk.simps return_def ref_at_def)
next
  case (Cons v vs)
  then have v: "nxt = v" "v \<noteq> 0" and ch: "chain (load64 (mem s)) (load64 (mem s) v) vs" by auto
  show ?case
  proof (cases "v < a")
    case True
    with v Cons.IH [OF ch, of "Node prev" v] show ?thesis
      by (subst odd_walk.simps) (auto simp: run_simps ref_at_def)
  next
    case False
    with v show ?thesis by (subst odd_walk.simps) (auto simp: run_simps ref_at_def)
  qed
qed

lemma even_walk_ok:
  "chain (load64 (mem s)) nxt vs \<Longrightarrow>
   even_walk a prev nxt s =
     Ok (ref_at prev (takeWhile (\<lambda>x. x < a) vs), head_ptr (dropWhile (\<lambda>x. x < a) vs)) s"
proof (induction vs arbitrary: prev nxt)
  case Nil
  then show ?case by (simp add: even_walk.simps return_def ref_at_def)
next
  case (Cons v vs)
  then have v: "nxt = v" "v \<noteq> 0" and ch: "chain (load64 (mem s)) (load64 (mem s) v) vs" by auto
  show ?case
  proof (cases "v < a")
    case True
    with v Cons.IH [OF ch, of "Node v"] show ?thesis
      by (subst even_walk.simps) (auto simp: run_simps ref_at_def)
  next
    case False
    with v show ?thesis by (subst even_walk.simps) (auto simp: run_simps ref_at_def)
  qed
qed

subsection \<open>Linking and unlinking one block\<close>

lemma wf_page_bounds:
  "buddy_wf fl \<Longrightarrow> i \<le> BUDDY_MAX_ORDER \<Longrightarrow> p \<in> set (fl i) \<Longrightarrow> p < 2 ^ 52 \<and> p \<noteq> 0"
  using valid_page_bounds wf_valid by blast

lemma wf_same_order:
  "\<lbrakk>buddy_wf fl; i \<le> BUDDY_MAX_ORDER; j \<le> BUDDY_MAX_ORDER; p \<in> set (fl i); p \<in> set (fl j)\<rbrakk> \<Longrightarrow> i = j"
  using wf_disjoint [of fl i j p p] mem_block_self by blast

text \<open>
  Redirecting the pointer after \<open>us\<close> in the list of order \<open>i\<close>: the list becomes \<open>us\<close>
  followed by the chain that the pointer now leads to, every other list is as before.
\<close>

lemma redirect:
  assumes repr: "pool_repr s fl" and wf: "buddy_wf fl" and i: "i \<le> BUDDY_MAX_ORDER"
    and l: "fl i = us @ vs" and ch: "chain (load64 (mem s)) q (map page_addr ws)"
    and ws: "\<forall>p\<in>set ws. p < 2 ^ 52 \<and> p \<notin> set us"
  shows "\<exists>s'. set_next (ref_at (Space i) (map page_addr us)) q s = Ok () s' \<and>
    pool_repr s' (fl(i := us @ ws)) \<and> frame (set us) s s' \<and> sstatus s' = sstatus s"
proof (cases us rule: rev_cases)
  case Nil
  have len: "length (space s) = Suc BUDDY_MAX_ORDER" using repr by (simp add: pool_repr_def)
  with i Nil ch repr show ?thesis
    by (auto simp: ref_at_def set_next_Space pool_repr_def frame_def nth_list_update)
next
  case (snoc us' x)
  let ?m = "store64 (mem s) (page_addr x) q"
  have al: "\<forall>a\<in>set (map page_addr zs). aligned8 a" for zs by auto
  have xb: "x < 2 ^ 52" and xi: "x \<in> set (fl i)"
    using wf_page_bounds [OF wf i] l snoc by auto
  have bounds: "y < 2 ^ 52" if "j \<le> BUDDY_MAX_ORDER" "y \<in> set (fl j)" for j y
    using wf_page_bounds [OF wf that] by simp
  have dist: "distinct (us' @ [x] @ vs)" using wf_distinct [OF wf i] l snoc by simp
  have "page_addr x \<notin> set (map page_addr us')"
    using dist bounds [OF i] xb l snoc by (auto simp: page_addr_eq_iff)
  moreover have "page_addr x \<notin> set (map page_addr ws)"
    using ws xb snoc by (auto simp: page_addr_eq_iff)
  moreover have "chain (load64 (mem s)) (space s ! i) (map page_addr us' @ page_addr x # map page_addr vs)"
    using repr i l snoc by (auto simp: pool_repr_def)
  ultimately have new: "chain (load64 ?m) (space s ! i) (map page_addr (us @ ws))"
    using ch snoc by (auto simp: chain_append segment_append segment_store64 chain_store64 al)
  have old: "chain (load64 ?m) (space s ! j) (map page_addr (fl j))" if "j \<le> BUDDY_MAX_ORDER" "j \<noteq> i" for j
  proof -
    have "x \<notin> set (fl j)" using wf_same_order [OF wf i that(1) xi] that(2) by blast
    then have "page_addr x \<notin> set (map page_addr (fl j))"
      using bounds [OF that(1)] xb by (auto simp: page_addr_eq_iff)
    then show ?thesis using repr that(1) by (simp add: pool_repr_def chain_store64 al)
  qed
  have "pool_repr (s\<lparr>mem := ?m\<rparr>) (fl(i := us @ ws))"
    using repr new old by (simp add: pool_repr_def)
  moreover have "frame (set us) s (s\<lparr>mem := ?m\<rparr>)"
    using snoc xb by (auto simp: frame_def intro!: store64_other_page)
  moreover have "set_next (ref_at (Space i) (map page_addr us)) q s = Ok () (s\<lparr>mem := ?m\<rparr>)"
    using snoc by (simp add: ref_at_def run_simps)
  ultimately show ?thesis by auto
qed

lemma pool_len: "pool_repr s fl \<Longrightarrow> length (space s) = Suc BUDDY_MAX_ORDER"
  by (simp add: pool_repr_def)

lemma pool_head:
  "pool_repr s fl \<Longrightarrow> i \<le> BUDDY_MAX_ORDER \<Longrightarrow> get_next (Space i) s = Ok (head_ptr (map page_addr (fl i))) s"
  using chain_head by (auto simp: get_next_Space pool_repr_def)

lemma pool_suffix:
  assumes "pool_repr s fl" and "i \<le> BUDDY_MAX_ORDER" and "fl i = us @ vs"
  shows "chain (load64 (mem s)) (head_ptr (map page_addr vs)) (map page_addr vs)"
proof -
  from assms have "chain (load64 (mem s)) (space s ! i) (map page_addr us @ map page_addr vs)"
    by (auto simp: pool_repr_def)
  then obtain q where "chain (load64 (mem s)) q (map page_addr vs)" by (auto simp: chain_append)
  with chain_head show ?thesis by blast
qed

lemma link_block:
  assumes repr: "pool_repr s fl" and wf: "buddy_wf fl" and i: "i \<le> BUDDY_MAX_ORDER"
    and l: "fl i = us @ ws" and p: "p < 2 ^ 52" "p \<noteq> 0"
    and new: "\<forall>j\<le>BUDDY_MAX_ORDER. p \<notin> set (fl j)"
  shows "\<exists>s'. bind (set_next (Node (page_addr p)) (head_ptr (map page_addr ws)))
      (\<lambda>_. set_next (ref_at (Space i) (map page_addr us)) (page_addr p)) s = Ok () s' \<and>
    pool_repr s' (fl(i := us @ p # ws)) \<and> frame (insert p (set us)) s s' \<and> sstatus s' = sstatus s"
proof -
  let ?s = "s\<lparr>mem := store64 (mem s) (page_addr p) (head_ptr (map page_addr ws))\<rparr>"
  have al: "\<forall>a\<in>set (map page_addr zs). aligned8 a" for zs by auto
  have out: "page_addr p \<notin> set (map page_addr (fl j))" if "j \<le> BUDDY_MAX_ORDER" for j
    using new that p wf_page_bounds [OF wf that] by (auto simp: page_addr_eq_iff)
  have repr': "pool_repr ?s fl"
    using repr out by (simp add: pool_repr_def chain_store64 al)
  have "page_addr p \<notin> set (map page_addr ws)" using out [OF i] l by auto
  then have "chain (load64 (mem ?s)) (page_addr p) (map page_addr (p # ws))"
    using pool_suffix [OF repr i l] p by (simp add: chain_store64 al page_addr_zero_iff)
  moreover have "\<forall>q\<in>set (p # ws). q < 2 ^ 52 \<and> q \<notin> set us"
    using p new i l wf_page_bounds [OF wf i] wf_distinct [OF wf i] by auto
  ultimately obtain s' where s': "set_next (ref_at (Space i) (map page_addr us)) (page_addr p) ?s = Ok () s'"
      "pool_repr s' (fl(i := us @ p # ws))" "frame (set us) ?s s'" "sstatus s' = sstatus ?s"
    using redirect [OF repr' wf i l] by blast
  moreover have "frame {p} s ?s"
    using p by (auto simp: frame_def intro!: store64_other_page)
  ultimately have "frame (insert p (set us)) s s'"
    by (intro frame_trans [of _ s ?s s']) (auto intro: frame_mono)
  with s' show ?thesis by (auto simp: run_simps)
qed

lemma unlink_block:
  assumes repr: "pool_repr s fl" and wf: "buddy_wf fl" and i: "i \<le> BUDDY_MAX_ORDER"
    and l: "fl i = us @ x # ws"
  shows "\<exists>s'. set_next (ref_at (Space i) (map page_addr us)) (head_ptr (map page_addr ws)) s = Ok () s' \<and>
    pool_repr s' (fl(i := us @ ws)) \<and> frame (set us) s s' \<and> sstatus s' = sstatus s"
proof (rule redirect [OF repr wf i l])
  have "fl i = (us @ [x]) @ ws" using l by simp
  then show "chain (load64 (mem s)) (head_ptr (map page_addr ws)) (map page_addr ws)"
    by (rule pool_suffix [OF repr i])
  show "\<forall>p\<in>set ws. p < 2 ^ 52 \<and> p \<notin> set us"
    using l wf_page_bounds [OF wf i] wf_distinct [OF wf i] by auto
qed

subsection \<open>Page lists and address lists\<close>

lemma takeWhile_page_addr:
  assumes "p < 2 ^ 52" and "\<forall>q\<in>set l. q < 2 ^ 52"
  shows "takeWhile (\<lambda>x. x < page_addr p) (map page_addr l) = map page_addr (takeWhile (\<lambda>q. q < p) l)"
  using assms by (induction l) (auto simp: page_addr_less_iff)

lemma dropWhile_page_addr:
  assumes "p < 2 ^ 52" and "\<forall>q\<in>set l. q < 2 ^ 52"
  shows "dropWhile (\<lambda>x. x < page_addr p) (map page_addr l) = map page_addr (dropWhile (\<lambda>q. q < p) l)"
  using assms by (induction l) (auto simp: page_addr_less_iff)

lemma insort_split:
  fixes p :: nat
  assumes "sorted_wrt (<) l" and "p \<notin> set l"
  shows "insort p l = takeWhile (\<lambda>q. q < p) l @ p # dropWhile (\<lambda>q. q < p) l"
  using assms by (induction l) auto

text \<open>The neighbours of \<open>p\<close> in a sorted list of blocks of its own order.\<close>

lemma sorted_pred:
  fixes l :: "nat list"
  assumes "sorted_wrt (<) l" and "q \<in> set l" and "q < p" and "\<And>x. x \<in> set l \<Longrightarrow> \<not> (q < x \<and> x < p)"
  shows "takeWhile (\<lambda>x. x < p) l \<noteq> [] \<and> last (takeWhile (\<lambda>x. x < p) l) = q"
  using assms
proof (induction l)
  case Nil
  then show ?case by simp
next
  case (Cons y l)
  show ?case
  proof (cases "q = y")
    case True
    with Cons.prems have "takeWhile (\<lambda>x. x < p) l = []"
      by (cases l) auto
    with True Cons.prems show ?thesis by simp
  next
    case False
    with Cons.prems have "y < p" "q \<in> set l" by auto
    with Cons show ?thesis by simp
  qed
qed

lemma sorted_succ:
  fixes l :: "nat list"
  assumes "sorted_wrt (<) l" and "q \<in> set l" and "p \<le> q" and "\<And>x. x \<in> set l \<Longrightarrow> \<not> (p \<le> x \<and> x < q)"
  shows "\<exists>ws. dropWhile (\<lambda>x. x < p) l = q # ws"
  using assms
proof (induction l)
  case Nil
  then show ?case by simp
next
  case (Cons y l)
  show ?case
  proof (cases "y < p")
    case True
    with Cons.prems have "q \<in> set l" by auto
    with True Cons show ?thesis by simp
  next
    case False
    with Cons.prems have "q = y" by (metis linorder_not_less list.set_intros(1) set_ConsD sorted_wrt.simps(2))
    with False show ?thesis by simp
  qed
qed

subsection \<open>The two merge tests\<close>

lemma order_shift: "2 ^ i dvd (p :: nat) \<Longrightarrow> odd (p div 2 ^ i) \<Longrightarrow> \<exists>q. p = q + 2 ^ i \<and> 2 ^ Suc i dvd q \<and> even (q div 2 ^ i)"
  by (erule aligned_halves) (auto elim!: dvdE)

lemma odd_merge_test:
  assumes wf: "buddy_wf fl" and v: "valid_block i p" and new: "p \<notin> set (fl i)"
    and odd: "odd (p div 2 ^ i)" and us: "takeWhile (\<lambda>q. q < p) (fl i) \<noteq> []"
  shows "remove_tag (page_addr p) i = page_addr (last (takeWhile (\<lambda>q. q < p) (fl i))) \<longleftrightarrow>
      buddy i p \<in> set (fl i)"
    and "buddy i p \<in> set (fl i) \<Longrightarrow> last (takeWhile (\<lambda>q. q < p) (fl i)) = buddy i p"
proof -
  note i = valid_order [OF v]
  let ?x = "last (takeWhile (\<lambda>q. q < p) (fl i))"
  have xin: "?x \<in> set (fl i)"
    using us by (meson last_in_set set_takeWhileD)
  from order_shift [OF valid_aligned [OF v] odd]
  obtain q where q: "p = q + 2 ^ i" "2 ^ Suc i dvd q" "even (q div 2 ^ i)" by auto
  then have b: "buddy i p = q" by (simp add: buddy_odd)
  have "p < 2 ^ 52" using valid_page_bounds [OF v] by simp
  then have r: "remove_tag (page_addr p) i = page_addr q"
    using q i by (simp add: remove_tag_odd)
  have gap: "\<not> (q < x \<and> x < p)" if "x \<in> set (fl i)" for x
  proof
    assume "q < x \<and> x < p"
    moreover have "2 ^ i dvd q" using q(2) by (rule dvd_trans [rotated]) simp
    ultimately have "q + 2 ^ i \<le> x"
      using valid_aligned [OF wf_valid [OF wf i that]] by (intro aligned_step) auto
    with q(1) \<open>q < x \<and> x < p\<close> show False by simp
  qed
  show last: "?x = buddy i p" if "buddy i p \<in> set (fl i)"
    using sorted_pred [OF wf_sorted [OF wf i], of q p] that gap b q(1) by simp
  have "q < 2 ^ 52" using \<open>p < 2 ^ 52\<close> q(1) by simp
  then have "remove_tag (page_addr p) i = page_addr ?x \<longleftrightarrow> buddy i p = ?x"
    using wf_page_bounds [OF wf i xin] unfolding r b by (simp add: page_addr_eq_iff)
  with last xin show "remove_tag (page_addr p) i = page_addr ?x \<longleftrightarrow> buddy i p \<in> set (fl i)"
    by metis
qed

lemma even_merge_test:
  assumes wf: "buddy_wf fl" and v: "valid_block i p" and new: "p \<notin> set (fl i)"
    and even: "even (p div 2 ^ i)"
  shows "head_ptr (map page_addr (dropWhile (\<lambda>q. q < p) (fl i))) \<noteq> 0 \<and>
      page_addr p = remove_tag (head_ptr (map page_addr (dropWhile (\<lambda>q. q < p) (fl i)))) i \<longleftrightarrow>
      buddy i p \<in> set (fl i)"
    and "buddy i p \<in> set (fl i) \<Longrightarrow> \<exists>ws. dropWhile (\<lambda>q. q < p) (fl i) = buddy i p # ws"
proof -
  note i = valid_order [OF v] and al = valid_aligned [OF v]
  have b: "buddy i p = p + 2 ^ i" using even by (simp add: buddy_def)
  have pb: "p < 2 ^ 52" using valid_page_bounds [OF v] by simp
  have gap: "\<not> (p \<le> x \<and> x < p + 2 ^ i)" if "x \<in> set (fl i)" for x
  proof
    assume x: "p \<le> x \<and> x < p + 2 ^ i"
    then have "p < x" using that new by (metis le_neq_implies_less)
    then have "p + 2 ^ i \<le> x"
      using al valid_aligned [OF wf_valid [OF wf i that]] by (intro aligned_step) auto
    with x show False by simp
  qed
  show succ: "\<exists>ws. dropWhile (\<lambda>q. q < p) (fl i) = buddy i p # ws" if "buddy i p \<in> set (fl i)"
    using sorted_succ [OF wf_sorted [OF wf i], of "p + 2 ^ i" p] that gap b by simp
  show "head_ptr (map page_addr (dropWhile (\<lambda>q. q < p) (fl i))) \<noteq> 0 \<and>
      page_addr p = remove_tag (head_ptr (map page_addr (dropWhile (\<lambda>q. q < p) (fl i)))) i \<longleftrightarrow>
      buddy i p \<in> set (fl i)"
  proof (cases "dropWhile (\<lambda>q. q < p) (fl i)")
    case Nil
    with succ have "buddy i p \<notin> set (fl i)" by fastforce
    then show ?thesis unfolding Nil by simp
  next
    case (Cons n ws)
    then have nin: "n \<in> set (fl i)" by (metis list.set_intros(1) set_dropWhileD)
    then have n: "n \<noteq> p" "n < 2 ^ 52" "n \<noteq> 0" using new wf_page_bounds [OF wf i nin] by auto
    show ?thesis
    proof (cases "odd (n div 2 ^ i)")
      case False
      then have "remove_tag (page_addr n) i = page_addr n" using n i by (simp add: remove_tag_even)
      moreover have "buddy i p \<notin> set (fl i)"
      proof
        assume "buddy i p \<in> set (fl i)"
        with succ Cons b have "n = p + 2 ^ i" by auto
        with False even show False by (simp add: div_add_self2)
      qed
      ultimately show ?thesis using n pb Cons by (auto simp: page_addr_eq_iff)
    next
      case True
      from order_shift [OF valid_aligned [OF wf_valid [OF wf i nin]] True]
      obtain m where m: "n = m + 2 ^ i" "even (m div 2 ^ i)" by auto
      then have "remove_tag (page_addr n) i = page_addr m" using n i by (simp add: remove_tag_odd)
      then show ?thesis
        using n m pb Cons succ nin b by (auto simp: page_addr_eq_iff page_addr_zero_iff)
    qed
  qed
qed

section \<open>Releasing a block, on every branch\<close>

text \<open>
  The only path that returns with interrupts still switched off is the early return of the
  odd case, when the block goes to the front of a non-empty list.
\<close>

definition early_return :: "nat \<Rightarrow> nat \<Rightarrow> free_lists \<Rightarrow> bool" where
  "early_return i p fl \<longleftrightarrow> odd (p div 2 ^ i) \<and> fl i \<noteq> [] \<and> p < hd (fl i)"

lemma deallocate_empty:
  assumes "pool_repr s fl" and "buddy_wf fl" and "i \<le> BUDDY_MAX_ORDER" and "fl i = []"
    and "p < 2 ^ 52" and "p \<noteq> 0" and "\<forall>j\<le>BUDDY_MAX_ORDER. p \<notin> set (fl j)"
  shows "\<exists>s'. deallocate (page_addr p) i s = Ok () s' \<and> pool_repr s' (fl(i := [p])) \<and>
    frame {p} s s' \<and> sstatus s' = sstatus s"
proof -
  let ?m = "store64 (mem s) (page_addr p) 0"
  let ?s = "s\<lparr>space := (space s)[i := page_addr p], mem := ?m, sstatus := sstatus s\<rparr>"
  have i: "i < length (space s)" using assms by (simp add: pool_len)
  have nz: "page_addr p \<noteq> 0" using assms by (simp add: page_addr_zero_iff)
  have al: "\<forall>a\<in>set (map page_addr zs). aligned8 a" for zs by auto
  have out: "page_addr p \<notin> set (map page_addr (fl j))" if "j \<le> BUDDY_MAX_ORDER" for j
    using assms that wf_page_bounds [OF assms(2) that] by (auto simp: page_addr_eq_iff)
  have "get_next (Space i) (irq_off s) = Ok 0 (irq_off s)"
    using pool_head [of "irq_off s" fl i] assms by simp
  then have "deallocate (page_addr p) i s = Ok () ?s"
    using nz i by (subst deallocate.simps)
      (simp add: bind_Ok [OF set_interrupt_off] bind_Ok bind_Ok [OF set_next_Space]
        bind_restore_interrupts run_simps)
  moreover have "pool_repr ?s (fl(i := [p]))"
    using assms(1) out nz i unfolding pool_repr_def
    by (auto simp: nth_list_update chain_store64 al)
  moreover have "frame {p} s ?s"
    using assms by (auto simp: frame_def intro!: store64_other_page)
  ultimately show ?thesis by auto
qed

text \<open>What every branch on a non-empty list knows about the block and its list.\<close>

definition releasing :: "'z buddy_scheme \<Rightarrow> free_lists \<Rightarrow> nat \<Rightarrow> nat \<Rightarrow> bool" where
  "releasing s fl i p \<longleftrightarrow>
     pool_repr s fl \<and> buddy_wf fl \<and> valid_block i p \<and> fl i \<noteq> [] \<and>
     (\<forall>j\<le>BUDDY_MAX_ORDER. p \<notin> set (fl j))"

lemma releasingD:
  assumes "releasing s fl i p"
  shows "pool_repr s fl" and "buddy_wf fl" and "valid_block i p" and "fl i \<noteq> []"
    and "\<forall>j\<le>BUDDY_MAX_ORDER. p \<notin> set (fl j)" and "i \<le> BUDDY_MAX_ORDER"
    and "p < 2 ^ 52" and "p \<noteq> 0" and "\<forall>q\<in>set (fl i). q < 2 ^ 52" and "p \<notin> set (fl i)"
  using assms valid_page_bounds [of i p] wf_page_bounds [of fl i] valid_order [of i p]
  by (auto simp: releasing_def)

abbreviation below :: "free_lists \<Rightarrow> nat \<Rightarrow> nat \<Rightarrow> nat list" where
  "below fl i p \<equiv> takeWhile (\<lambda>q. q < p) (fl i)"

abbreviation above :: "free_lists \<Rightarrow> nat \<Rightarrow> nat \<Rightarrow> nat list" where
  "above fl i p \<equiv> dropWhile (\<lambda>q. q < p) (fl i)"

lemma releasing_head:
  assumes r: "releasing s fl i p"
  shows "get_next (Space i) (irq_off s) = Ok (page_addr (hd (fl i))) (irq_off s)"
    and "page_addr (hd (fl i)) \<noteq> 0"
proof -
  note [simp] = releasingD [OF r]
  show "get_next (Space i) (irq_off s) = Ok (page_addr (hd (fl i))) (irq_off s)"
    using pool_head [of "irq_off s" fl i] releasingD(4) [OF r] by (cases "fl i") auto
  show "page_addr (hd (fl i)) \<noteq> 0"
    using wf_page_bounds [of fl i "hd (fl i)"] by (simp add: page_addr_zero_iff)
qed

lemma deallocate_start:
  assumes r: "releasing s fl i p"
  shows "deallocate (page_addr p) i s =
   (if odd (p div 2 ^ i) then
      bind (get_next (Node (page_addr (hd (fl i))))) (\<lambda>nxt.
      if p < hd (fl i) then
        bind (set_next (Node (page_addr p)) (page_addr (hd (fl i)))) (\<lambda>_. set_next (Space i) (page_addr p))
      else
        bind (odd_walk (page_addr p) (Space i) (page_addr (hd (fl i))) nxt) (\<lambda>(prev_prev, prev, nxt).
        bind (if remove_tag (page_addr p) i = prev then
                bind (set_next prev_prev nxt) (\<lambda>_. deallocate prev (i + 1))
              else
                bind (set_next (Node (page_addr p)) nxt) (\<lambda>_. set_next (Node prev) (page_addr p))) (\<lambda>_.
        bind (set_interrupt_status (interrupt_status s)) (\<lambda>_. return ()))))
    else
      bind (even_walk (page_addr p) (Space i) (page_addr (hd (fl i)))) (\<lambda>(prev, nxt).
      bind (if nxt \<noteq> 0 \<and> page_addr p = remove_tag nxt i then
              bind (get_next (Node nxt)) (\<lambda>next_next.
              bind (set_next prev next_next) (\<lambda>_. deallocate (page_addr p) (i + 1)))
            else
              bind (set_next (Node (page_addr p)) nxt) (\<lambda>_. set_next prev (page_addr p))) (\<lambda>_.
      bind (set_interrupt_status (interrupt_status s)) (\<lambda>_. return ())))) (irq_off s)"
proof -
  note h = bind_Ok [OF set_interrupt_off] bind_Ok [where m = "get_next (Space i)", OF releasing_head(1) [OF r]]
  have lt: "page_addr p < page_addr (hd (fl i)) \<longleftrightarrow> p < hd (fl i)"
    using releasingD [OF r] by (simp add: page_addr_less_iff)
  have od: "page_addr p AND push_bit i PAGE_SIZE \<noteq> 0 \<longleftrightarrow> odd (p div 2 ^ i)"
    using releasingD [OF r] by (intro odd_test)
  show ?thesis
    using valid_addr_nonzero [OF releasingD(3) [OF r]] releasing_head(2) [OF r]
    by (subst deallocate.simps) (simp only: h lt od if_False not_False_eq_True)
qed

lemma releasing_walk_odd:
  assumes r: "releasing s fl i p" and "hd (fl i) < p"
  shows "bind (get_next (Node (page_addr (hd (fl i))))) (\<lambda>nxt.
      bind (odd_walk (page_addr p) (Space i) (page_addr (hd (fl i))) nxt) k) (irq_off s) =
    k (ref_at (Space i) (map page_addr (butlast (below fl i p))), page_addr (last (below fl i p)),
       head_ptr (map page_addr (above fl i p))) (irq_off s)"
proof -
  obtain x l where l: "fl i = x # l" using releasingD(4) [OF r] by (cases "fl i") auto
  have "chain (load64 (mem (irq_off s))) (page_addr x) (map page_addr (x # l))"
    using pool_suffix [OF releasingD(1,6) [OF r], of "[]"] l by simp
  then have ch: "chain (load64 (mem (irq_off s))) (load64 (mem s) (page_addr x)) (map page_addr l)"
    by simp
  have "x < p" and "\<forall>q\<in>set l. q < 2 ^ 52" using assms l releasingD(9) [OF r] by auto
  then show ?thesis
    using odd_walk_ok [OF ch, of "page_addr p" "Space i" "page_addr x"] releasingD(7) [OF r]
    by (auto simp: l run_simps bind_Ok takeWhile_page_addr dropWhile_page_addr map_butlast last_map)
qed

lemma releasing_walk_even:
  assumes r: "releasing s fl i p"
  shows "bind (even_walk (page_addr p) (Space i) (page_addr (hd (fl i)))) k (irq_off s) =
    k (ref_at (Space i) (map page_addr (below fl i p)), head_ptr (map page_addr (above fl i p)))
      (irq_off s)"
proof -
  have "head_ptr (map page_addr (fl i)) = page_addr (hd (fl i))"
    using releasingD(4) [OF r] by (cases "fl i") auto
  then have ch: "chain (load64 (mem (irq_off s))) (page_addr (hd (fl i))) (map page_addr (fl i))"
    using pool_suffix [OF releasingD(1,6) [OF r], of "[]" "fl i"] by simp
  show ?thesis
    using even_walk_ok [OF ch, of "page_addr p" "Space i"] releasingD(7,9) [OF r]
    by (simp add: bind_Ok takeWhile_page_addr dropWhile_page_addr)
qed

text \<open>All three ways of inserting end in the same list.\<close>

lemma releasing_link:
  assumes r: "releasing s fl i p"
  shows "\<exists>s'. bind (set_next (Node (page_addr p)) (head_ptr (map page_addr (above fl i p))))
      (\<lambda>_. set_next (ref_at (Space i) (map page_addr (below fl i p))) (page_addr p)) (irq_off s) = Ok () s' \<and>
    pool_repr s' (fl(i := insort p (fl i))) \<and> frame (insert p (set (fl i))) s s' \<and>
    sstatus s' = sstatus s AND NOT SSTATUS_SIE"
proof -
  note d = releasingD [OF r]
  have "pool_repr (irq_off s) fl" using d(1) by simp
  moreover have "fl i = below fl i p @ above fl i p" by simp
  ultimately obtain s' where s': "bind (set_next (Node (page_addr p)) (head_ptr (map page_addr (above fl i p))))
      (\<lambda>_. set_next (ref_at (Space i) (map page_addr (below fl i p))) (page_addr p)) (irq_off s) = Ok () s'"
    "pool_repr s' (fl(i := below fl i p @ p # above fl i p))"
    "frame (insert p (set (below fl i p))) (irq_off s) s'" "sstatus s' = sstatus (irq_off s)"
    using link_block [OF _ d(2,6) _ d(7,8,5)] by blast
  moreover have "insert p (set (below fl i p)) \<subseteq> insert p (set (fl i))"
    by (auto dest: set_takeWhileD)
  ultimately show ?thesis
    using insort_split [OF wf_sorted [OF d(2,6)] d(10)] by (auto intro: frame_mono)
qed

lemma releasing_front: "releasing s fl i p \<Longrightarrow> \<not> p < hd (fl i) \<Longrightarrow> hd (fl i) < p"
  using releasingD(4,10) [of s fl i p] by (metis list.set_sel(1) nat_neq_iff)

lemma below_nonempty: "fl i \<noteq> [] \<Longrightarrow> hd (fl i) < p \<Longrightarrow> below fl i p \<noteq> []"
  by (cases "fl i") auto

lemma deallocate_insert:
  assumes r: "releasing s fl i p" and nb: "buddy i p \<notin> set (fl i)"
  shows "\<exists>s'. deallocate (page_addr p) i s = Ok () s' \<and> pool_repr s' (fl(i := insort p (fl i))) \<and>
    frame (insert p (set (fl i))) s s' \<and>
    sstatus s' = (if early_return i p fl then sstatus s AND NOT SSTATUS_SIE else sstatus s)"
proof -
  note d = releasingD [OF r]
  obtain t where t: "bind (set_next (Node (page_addr p)) (head_ptr (map page_addr (above fl i p))))
      (\<lambda>_. set_next (ref_at (Space i) (map page_addr (below fl i p))) (page_addr p)) (irq_off s) = Ok () t"
    "pool_repr t (fl(i := insort p (fl i)))" "frame (insert p (set (fl i))) s t"
    "sstatus t = sstatus s AND NOT SSTATUS_SIE"
    using releasing_link [OF r] by blast
  have tk: "bind (bind (set_next (Node (page_addr p)) (head_ptr (map page_addr (above fl i p))))
      (\<lambda>_. set_next (ref_at (Space i) (map page_addr (below fl i p))) (page_addr p))) k (irq_off s) = k () t"
    for k :: "unit \<Rightarrow> (unit, 'a buddy_scheme) run" using t(1) by (rule bind_Ok)
  consider (front) "odd (p div 2 ^ i)" "p < hd (fl i)" | (odd) "odd (p div 2 ^ i)" "\<not> p < hd (fl i)"
    | (even) "even (p div 2 ^ i)" by blast
  then show ?thesis
  proof cases
    case front
    then have "below fl i p = []" and "head_ptr (map page_addr (above fl i p)) = page_addr (hd (fl i))"
      using d(4) by (cases "fl i"; simp)+
    with t(1) front have "deallocate (page_addr p) i s = Ok () t"
      by (simp add: deallocate_start [OF r] ref_at_def run_simps)
    with t front d(4) show ?thesis by (auto simp: early_return_def)
  next
    case odd
    from releasing_front [OF r] odd have lt: "hd (fl i) < p" by simp
    note ne = below_nonempty [where fl = fl and i = i and p = p, OF d(4) lt]
    have "remove_tag (page_addr p) i \<noteq> page_addr (last (below fl i p))"
      using odd_merge_test(1) [OF d(2,3,10) odd(1) ne] nb by simp
    moreover have "ref_at (Space i) (map page_addr (below fl i p)) = Node (page_addr (last (below fl i p)))"
      using ne by (simp add: ref_at_def last_map)
    ultimately have "deallocate (page_addr p) i s = Ok () (t\<lparr>sstatus := sstatus s\<rparr>)"
      using tk t(4) odd
      by (simp add: deallocate_start [OF r] releasing_walk_odd [OF r lt] bind_restore_interrupts return_def)
    with t odd show ?thesis by (auto simp: early_return_def)
  next
    case even
    then have "deallocate (page_addr p) i s = Ok () (t\<lparr>sstatus := sstatus s\<rparr>)"
      using tk t(4) even_merge_test(1) [OF d(2,3,10) even] nb
      by (auto simp: deallocate_start [OF r] releasing_walk_even [OF r] bind_restore_interrupts return_def)
    with t even show ?thesis by (auto simp: early_return_def)
  qed
qed

lemma deallocate_merge:
  assumes r: "releasing s fl i p" and b: "buddy i p \<in> set (fl i)"
  shows "\<exists>t. pool_repr t (fl(i := remove1 (buddy i p) (fl i))) \<and> frame (set (fl i)) s t \<and>
    sstatus t = sstatus s AND NOT SSTATUS_SIE \<and> \<not> early_return i p fl \<and>
    deallocate (page_addr p) i s =
      bind (deallocate (page_addr (min p (buddy i p))) (i + 1)) (\<lambda>_.
      bind (set_interrupt_status (interrupt_status s)) (\<lambda>_. return ())) t"
proof -
  note d = releasingD [OF r]
  have repr: "pool_repr (irq_off s) fl" using d(1) by simp
  have dist: "distinct (fl i)" using wf_distinct d(2,6) by blast
  show ?thesis
  proof (cases "odd (p div 2 ^ i)")
    case True
    then have bp: "buddy i p < p" using d(8) by (simp add: buddy_def)
    have nlt: "\<not> p < hd (fl i)"
      using bp b wf_sorted [OF d(2,6)] d(4) by (cases "fl i") auto
    from releasing_front [OF r] nlt have lt: "hd (fl i) < p" by simp
    note ne = below_nonempty [where fl = fl and i = i and p = p, OF d(4) lt]
    note mt = odd_merge_test [OF d(2,3,10) True ne]
    let ?us = "butlast (below fl i p)" and ?ws = "above fl i p"
    have l: "fl i = ?us @ buddy i p # ?ws"
      using ne mt(2) [OF b] by (metis append.assoc append_Cons append_Nil append_butlast_last_id takeWhile_dropWhile_id)
    obtain t where t: "set_next (ref_at (Space i) (map page_addr ?us)) (head_ptr (map page_addr ?ws)) (irq_off s) = Ok () t"
      "pool_repr t (fl(i := ?us @ ?ws))" "frame (set ?us) (irq_off s) t" "sstatus t = sstatus (irq_off s)"
      using unlink_block [OF repr d(2,6) l] by blast
    have tk: "bind (set_next (ref_at (Space i) (map page_addr ?us)) (head_ptr (map page_addr ?ws))) k (irq_off s) = k () t"
      for k :: "unit \<Rightarrow> (unit, 'a buddy_scheme) run" using t(1) by (rule bind_Ok)
    have "remove1 (buddy i p) (fl i) = ?us @ ?ws"
      using dist by (subst l, subst (asm) l) (simp add: remove1_append)
    moreover have "set ?us \<subseteq> set (fl i)"
      by (auto dest!: in_set_butlastD set_takeWhileD)
    moreover have "deallocate (page_addr p) i s =
        bind (deallocate (page_addr (buddy i p)) (i + 1)) (\<lambda>_.
        bind (set_interrupt_status (interrupt_status s)) (\<lambda>_. return ())) t"
      using mt b True nlt
      by (simp add: deallocate_start [OF r] releasing_walk_odd [OF r lt] bind_assoc tk)
    ultimately show ?thesis
      using t bp nlt by (auto simp: early_return_def min_def intro: frame_mono)
  next
    case False
    then have bp: "min p (buddy i p) = p" by (simp add: buddy_def)
    note mt = even_merge_test [OF d(2,3,10), unfolded not_not] 
    have ev: "even (p div 2 ^ i)" using False by simp
    let ?us = "below fl i p"
    obtain ws where ws: "above fl i p = buddy i p # ws" using mt(2) [OF ev b] by blast
    then have l: "fl i = ?us @ buddy i p # ws" by (metis takeWhile_dropWhile_id)
    have rt: "page_addr (buddy i p) \<noteq> 0" "remove_tag (page_addr (buddy i p)) i = page_addr p"
      using mt(1) [OF ev] b ws by auto
    have "chain (load64 (mem s)) (page_addr (buddy i p)) (map page_addr (buddy i p # ws))"
      using pool_suffix [OF d(1,6) l] by simp
    then have nn: "load64 (mem s) (page_addr (buddy i p)) = head_ptr (map page_addr ws)"
      using chain_head by auto
    obtain t where t: "set_next (ref_at (Space i) (map page_addr ?us)) (head_ptr (map page_addr ws)) (irq_off s) = Ok () t"
      "pool_repr t (fl(i := ?us @ ws))" "frame (set ?us) (irq_off s) t" "sstatus t = sstatus (irq_off s)"
      using unlink_block [OF repr d(2,6) l] by blast
    have tk: "bind (set_next (ref_at (Space i) (map page_addr ?us)) (head_ptr (map page_addr ws))) k (irq_off s) = k () t"
      for k :: "unit \<Rightarrow> (unit, 'a buddy_scheme) run" using t(1) by (rule bind_Ok)
    have "remove1 (buddy i p) (fl i) = ?us @ ws"
      using dist by (subst l, subst (asm) l) (simp add: remove1_append)
    moreover have "set ?us \<subseteq> set (fl i)" by (auto dest!: set_takeWhileD)
    moreover have "deallocate (page_addr p) i s =
        bind (deallocate (page_addr p) (i + 1)) (\<lambda>_.
        bind (set_interrupt_status (interrupt_status s)) (\<lambda>_. return ())) t"
      using ev nn ws rt
      by (simp add: deallocate_start [OF r] releasing_walk_even [OF r] run_simps tk)
    ultimately show ?thesis
      using t bp ev by (auto simp: early_return_def intro: frame_mono)
  qed
qed

lemma deallocate_refines:
  assumes "pool_repr s fl" and "buddy_wf fl" and "valid_block i p" and "block i p \<inter> free_pages fl = {}"
  shows "\<exists>s'. deallocate (page_addr p) i s = Ok () s' \<and> pool_repr s' (spec_dealloc i p fl) \<and>
    frame (free_pages fl \<union> block i p) s s' \<and>
    sstatus s' = (if early_return i p fl then sstatus s AND NOT SSTATUS_SIE else sstatus s)"
  using assms
proof (induction i p fl arbitrary: s rule: spec_dealloc.induct)
  case (1 i p fl)
  let ?b = "buddy i p" and ?rest = "fl(i := remove1 (buddy i p) (fl i))"
  note repr = "1.prems"(1) and wf = "1.prems"(2) and v = "1.prems"(3) and dis = "1.prems"(4)
  note i = valid_order [OF v] and pb = valid_page_bounds [OF v]
  have new: "\<forall>j\<le>BUDDY_MAX_ORDER. p \<notin> set (fl j)"
    using dis block_subset_free mem_block_self by blast
  have sub: "set (fl i) \<subseteq> free_pages fl"
    using block_subset_free [OF i] mem_block_self by blast
  consider (empty) "fl i = []" | (insert) "fl i \<noteq> []" "?b \<notin> set (fl i)" | (merge) "?b \<in> set (fl i)" by blast
  then show ?case
  proof cases
    case empty
    then have eq: "spec_dealloc i p fl = fl(i := [p])" and "\<not> early_return i p fl"
      by (simp_all add: spec_dealloc_empty [OF i] early_return_def)
    moreover have "{p} \<subseteq> free_pages fl \<union> block i p" by simp
    ultimately show ?thesis
      unfolding eq using deallocate_empty [OF repr wf i empty _ _ new] pb frame_mono by metis
  next
    case insert
    then have r: "releasing s fl i p" using repr wf v new by (simp add: releasing_def)
    have eq: "spec_dealloc i p fl = fl(i := insort p (fl i))"
      using insert i by (subst spec_dealloc.simps) simp
    have "insert p (set (fl i)) \<subseteq> free_pages fl \<union> block i p" using sub by auto
    then show ?thesis
      unfolding eq using deallocate_insert [OF r insert(2)] frame_mono by metis
  next
    case merge
    then have "fl i \<noteq> []" by auto
    then have r: "releasing s fl i p" using repr wf v new by (simp add: releasing_def)
    obtain t where t: "pool_repr t ?rest" "frame (set (fl i)) s t" "sstatus t = sstatus s AND NOT SSTATUS_SIE"
        "\<not> early_return i p fl"
        "deallocate (page_addr p) i s = bind (deallocate (page_addr (min p ?b)) (i + 1)) (\<lambda>_.
           bind (set_interrupt_status (interrupt_status s)) (\<lambda>_. return ())) t"
      using deallocate_merge [OF r merge] by blast
    have ni: "\<not> BUDDY_MAX_ORDER < i" using i by simp
    have bsub: "block i ?b \<subseteq> free_pages fl" using i merge by (rule block_subset_free)
    have rest: "buddy_wf ?rest" "free_pages ?rest = free_pages fl - block i ?b"
      using wf i merge by (rule wf_remove, rule free_pages_remove)
    have mg: "block (i + 1) (min p ?b) = block i p \<union> block i ?b"
      using block_merge [OF valid_aligned [OF v]] by simp
    have v': "valid_block (i + 1) (min p ?b)"
      using valid_merge [OF v wf_valid [OF wf i merge]] by simp
    have d: "block (i + 1) (min p ?b) \<inter> free_pages ?rest = {}"
      using dis rest(2) mg by auto
    obtain t' where t': "deallocate (page_addr (min p ?b)) (i + 1) t = Ok () t'"
        "pool_repr t' (spec_dealloc (i + 1) (min p ?b) ?rest)"
        "frame (free_pages ?rest \<union> block (i + 1) (min p ?b)) t t'"
        "sstatus t' = sstatus t \<or> sstatus t' = sstatus t AND NOT SSTATUS_SIE"
    proof -
      have "\<exists>s'. deallocate (page_addr (min p ?b)) (i + 1) t = Ok () s' \<and>
          pool_repr s' (spec_dealloc (i + 1) (min p ?b) ?rest) \<and>
          frame (free_pages ?rest \<union> block (i + 1) (min p ?b)) t s' \<and>
          sstatus s' = (if early_return (i + 1) (min p ?b) ?rest
            then sstatus t AND NOT SSTATUS_SIE else sstatus t)"
        using ni merge t(1) rest(1) v' d by (rule "1.IH")
      then show thesis using that by metis
    qed
    have "sstatus t' = sstatus s AND NOT SSTATUS_SIE" using t(3) t'(4) by auto
    then have "deallocate (page_addr p) i s = Ok () (t'\<lparr>sstatus := sstatus s\<rparr>)"
      using t(5) t'(1) by (simp add: bind_Ok bind_restore_interrupts return_def)
    moreover have eq: "spec_dealloc i p fl = spec_dealloc (i + 1) (min p ?b) ?rest"
      using ni merge by (subst spec_dealloc.simps) (simp only: if_True if_False)
    moreover have "frame (free_pages fl \<union> block i p) s (t'\<lparr>sstatus := sstatus s\<rparr>)"
    proof -
      have "set (fl i) \<subseteq> free_pages fl \<union> block i p"
        "free_pages ?rest \<union> block (i + 1) (min p ?b) \<subseteq> free_pages fl \<union> block i p"
        using sub bsub rest(2) mg by auto
      then show ?thesis
        unfolding frame_sstatus by (intro frame_trans [OF frame_mono [OF t(2)] frame_mono [OF t'(3)]])
    qed
    moreover have "pool_repr (t'\<lparr>sstatus := sstatus s\<rparr>) (spec_dealloc (i + 1) (min p ?b) ?rest)"
      using t'(2) by (simp only: pool_repr_sstatus)
    ultimately show ?thesis unfolding eq using t(4) by force
  qed
qed

section \<open>Taking a block\<close>

lemma pool_head_nz:
  "pool_repr s fl \<Longrightarrow> buddy_wf fl \<Longrightarrow> i \<le> BUDDY_MAX_ORDER \<Longrightarrow> fl i \<noteq> [] \<Longrightarrow>
   get_next (Space i) s = Ok (page_addr (hd (fl i))) s \<and> page_addr (hd (fl i)) \<noteq> 0"
  using pool_head [of s fl i] wf_page_bounds [of fl i "hd (fl i)"]
  by (cases "fl i") (auto simp: page_addr_zero_iff)

lemma find_block_here:
  assumes repr: "pool_repr s fl" and wf: "buddy_wf fl" and k: "k \<le> BUDDY_MAX_ORDER" and ne: "fl k \<noteq> []"
  shows "\<exists>s'. find_block k s = Ok (page_addr (hd (fl k)), k) s' \<and> pool_repr s' (fl(k := tl (fl k))) \<and>
    frame {} s s' \<and> sstatus s' = sstatus s"
proof -
  obtain x l where l: "fl k = [] @ x # l" using ne by (cases "fl k") auto
  have "chain (load64 (mem s)) (page_addr x) (map page_addr (x # l))"
    using pool_suffix [OF repr k l] by simp
  then have nn: "load64 (mem s) (page_addr x) = head_ptr (map page_addr l)"
    using chain_head by auto
  obtain s' where s': "set_next (Space k) (head_ptr (map page_addr l)) s = Ok () s'"
      "pool_repr s' (fl(k := l))" "frame {} s s'" "sstatus s' = sstatus s"
    using unlink_block [OF repr wf k l] by (auto simp: ref_at_def)
  have sk: "bind (set_next (Space k) (head_ptr (map page_addr l))) c s = c () s'"
    for c :: "unit \<Rightarrow> (addr \<times> nat, 'a buddy_scheme) run" using s'(1) by (rule bind_Ok)
  have gk: "bind (get_next (Space k)) c s = c (page_addr x) s"
    for c :: "addr \<Rightarrow> (addr \<times> nat, 'a buddy_scheme) run"
    using pool_head_nz [OF repr wf k ne] l by (intro bind_Ok) simp
  have "find_block k s = Ok (page_addr x, k) s'"
    using k gk sk nn pool_head_nz [OF repr wf k ne] l
    by (subst find_block.simps) (simp add: run_simps)
  with s' l show ?thesis by auto
qed

lemma find_block_next:
  assumes "pool_repr s fl" and "k \<le> BUDDY_MAX_ORDER" and "fl k = []"
  shows "find_block k s = find_block (k + 1) s"
proof -
  have "bind (get_next (Space k)) c s = c 0 s"
    for c :: "addr \<Rightarrow> (addr \<times> nat, 'a buddy_scheme) run"
    using pool_head [OF assms(1,2)] assms(3) by (intro bind_Ok) simp
  then show ?thesis using assms by (subst find_block.simps) simp
qed

lemma find_block_Some:
  "pool_repr s fl \<Longrightarrow> buddy_wf fl \<Longrightarrow> spec_find k fl = Some l \<Longrightarrow>
    \<exists>s'. find_block k s = Ok (page_addr (hd (fl l)), l) s' \<and> pool_repr s' (fl(l := tl (fl l))) \<and>
      frame {} s s' \<and> sstatus s' = sstatus s"
proof (induction k fl rule: spec_find.induct)
  case (1 k fl)
  show ?case
  proof (cases "k \<le> BUDDY_MAX_ORDER \<and> fl k = []")
    case True
    then have "spec_find (k + 1) fl = Some l" using "1.prems" by (simp add: spec_find.simps [of k])
    with True 1 show ?thesis by (simp add: find_block_next)
  next
    case False
    with "1.prems"(3) have lk: "l = k" and k: "k \<le> BUDDY_MAX_ORDER" "fl k \<noteq> []"
      by (auto simp: spec_find.simps [of k] split: if_splits)
    from "1.prems"(1,2) k show ?thesis unfolding lk by (rule find_block_here)
  qed
qed

lemma find_block_None:
  "pool_repr s fl \<Longrightarrow> spec_find k fl = None \<Longrightarrow> \<exists>l>BUDDY_MAX_ORDER. find_block k s = Ok (0, l) s"
proof (induction k fl rule: spec_find.induct)
  case (1 k fl)
  show ?case
  proof (cases "k \<le> BUDDY_MAX_ORDER")
    case True
    with "1.prems"(2) have "fl k = []" "spec_find (k + 1) fl = None"
      by (auto simp: spec_find.simps [of k] split: if_splits)
    with True 1 show ?thesis by (simp add: find_block_next)
  next
    case False
    then show ?thesis by (subst find_block.simps) (simp add: return_def)
  qed
qed

lemma split_block_refines:
  assumes "pool_repr s fl" and "buddy_wf fl" and "valid_block l p" and "block l p \<inter> free_pages fl = {}"
    and "k \<le> l" and "\<forall>j. k \<le> j \<longrightarrow> j < l \<longrightarrow> fl j = []"
  shows "\<exists>s'. split_block l k (page_addr p) s = Ok () s' \<and> pool_repr s' (spec_split l k p fl) \<and>
    frame (block l p - block k p) s s' \<and> sstatus s' = sstatus s"
  using assms
proof (induction l arbitrary: fl s)
  case 0
  then show ?case by (simp add: return_def)
next
  case (Suc l)
  show ?case
  proof (cases "k < Suc l")
    case False
    with Suc.prems show ?thesis by (simp add: return_def)
  next
    case True
    let ?q = "p + 2 ^ l"
    let ?fl = "spec_dealloc l ?q fl"
    from Suc.prems(3) have "2 ^ Suc l dvd p" by (rule valid_aligned)
    then have "2 ^ l dvd p" by (rule dvd_trans [rotated]) simp
    with Suc.prems(3) have v: "valid_block l p" "valid_block l ?q"
      by (auto simp: valid_block_def)
    note halves = block_Suc [of l p] block_halves_disjoint [of l p]
    from Suc.prems(4) halves have d: "block l ?q \<inter> free_pages fl = {}" by auto
    have em: "fl l = []" using Suc.prems(6) True by simp
    have eq: "?fl = fl(l := [?q])" using valid_order [OF v(1)] em by (rule spec_dealloc_empty)
    have new: "\<forall>j\<le>BUDDY_MAX_ORDER. ?q \<notin> set (fl j)"
      using d block_subset_free mem_block_self by blast
    obtain t where t: "deallocate (page_addr ?q) l s = Ok () t" "pool_repr t ?fl" "frame {?q} s t"
        "sstatus t = sstatus s"
      using deallocate_empty [OF Suc.prems(1,2) valid_order [OF v(1)] em _ _ new]
        valid_page_bounds [OF v(2)] unfolding eq by auto
    note ok = spec_dealloc_ok [OF Suc.prems(2) v(2) d]
    have "\<forall>j. k \<le> j \<longrightarrow> j < l \<longrightarrow> ?fl j = []" using Suc.prems(6) by (simp add: eq)
    moreover have "block l p \<inter> free_pages ?fl = {}" using ok Suc.prems(4) halves by auto
    ultimately obtain s' where s': "split_block l k (page_addr p) t = Ok () s'"
        "pool_repr s' (spec_split l k p ?fl)" "frame (block l p - block k p) t s'" "sstatus s' = sstatus t"
      using Suc.IH [OF t(2)] ok v(1) True by (metis less_Suc_eq_le)
    have "block k p \<inter> block l ?q = {}"
      using True power_increasing [of k l 2] by (auto simp: block_def)
    then have "{?q} \<subseteq> block (Suc l) p - block k p" "block l p - block k p \<subseteq> block (Suc l) p - block k p"
      using halves mem_block_self [of ?q l] by blast+
    then have "frame (block (Suc l) p - block k p) s s'"
      by (intro frame_trans [OF frame_mono [OF t(3)] frame_mono [OF s'(3)]])
    moreover have "split_block (Suc l) k (page_addr p) s = Ok () s'"
      using True t(1) s'(1) by (simp add: page_addr_add page_addr_pow bind_Ok)
    ultimately show ?thesis using s' t(4) True by auto
  qed
qed

lemma allocate_refines:
  assumes repr: "pool_repr s fl" and wf: "buddy_wf fl"
  shows "case spec_alloc k fl of
      None \<Rightarrow> allocate k s = Ok 0 s
    | Some (p, fl') \<Rightarrow> \<exists>s'. allocate k s = Ok (page_addr p) s' \<and> pool_repr s' fl' \<and>
        frame (free_pages fl') s s' \<and> sstatus s' = sstatus s"
proof -
  have repr': "pool_repr (irq_off s) fl" using repr by simp
  show ?thesis
  proof (cases "spec_find k fl")
    case None
    then obtain l where l: "l > BUDDY_MAX_ORDER" "find_block k (irq_off s) = Ok (0, l) (irq_off s)"
      using find_block_None [OF repr'] by blast
    have fk: "bind (find_block k) c (irq_off s) = c (0, l) (irq_off s)"
      for c :: "addr \<times> nat \<Rightarrow> (addr, 'a buddy_scheme) run" using l(2) by (rule bind_Ok)
    have "allocate k s = Ok 0 s"
      by (simp add: allocate_def bind_Ok [OF set_interrupt_off] fk bind_restore_interrupts return_def)
    with None show ?thesis by (simp add: spec_alloc_def)
  next
    case (Some l)
    let ?p = "hd (fl l)" and ?r = "fl(l := tl (fl l))"
    from spec_find_Some [OF Some] have kl: "k \<le> l" and lo: "l \<le> BUDDY_MAX_ORDER"
      and ne: "fl l \<noteq> []" and em: "\<forall>j. k \<le> j \<longrightarrow> j < l \<longrightarrow> fl j = []" by auto
    from ne have pin: "?p \<in> set (fl l)" and tl: "tl (fl l) = remove1 ?p (fl l)"
      by (cases "fl l"; simp)+
    note v = wf_valid [OF wf lo pin]
    have r: "buddy_wf ?r" "free_pages ?r = free_pages fl - block l ?p"
      unfolding tl using wf lo pin by (rule wf_remove, rule free_pages_remove)
    obtain t where t: "find_block k (irq_off s) = Ok (page_addr ?p, l) t" "pool_repr t ?r"
        "frame {} (irq_off s) t" "sstatus t = sstatus (irq_off s)"
      using find_block_Some [OF repr' wf Some] by blast
    have fk: "bind (find_block k) c (irq_off s) = c (page_addr ?p, l) t"
      for c :: "addr \<times> nat \<Rightarrow> (addr, 'a buddy_scheme) run" using t(1) by (rule bind_Ok)
    have split: "buddy_wf (spec_split l k ?p ?r) \<and>
        free_pages (spec_split l k ?p ?r) = free_pages ?r \<union> (block l ?p - block k ?p)"
      using r v kl em by (intro spec_split_ok) auto
    let ?t = "t\<lparr>sstatus := sstatus s\<rparr>"
    obtain s' where s': "split_block l k (page_addr ?p) ?t = Ok () s'" "pool_repr s' (spec_split l k ?p ?r)"
        "frame (block l ?p - block k ?p) ?t s'" "sstatus s' = sstatus ?t"
      using split_block_refines [of ?t ?r l ?p k] t(2) r v kl em by auto
    have sk: "bind (split_block l k (page_addr ?p)) c ?t = c () s'"
      for c :: "unit \<Rightarrow> (addr, 'a buddy_scheme) run" using s'(1) by (rule bind_Ok)
    have "allocate k s = Ok (page_addr ?p) s'"
      using t(4) lo valid_addr_nonzero [OF v]
      by (simp add: allocate_def bind_Ok [OF set_interrupt_off] fk bind_restore_interrupts sk return_def)
    moreover have "frame (free_pages (spec_split l k ?p ?r)) s s'"
      using t(3) s'(3) split
      by (intro frame_trans [OF frame_mono [of "{}" s t] frame_mono [of "block l ?p - block k ?p" t s']]) auto
    ultimately show ?thesis using Some s' by (auto simp: spec_alloc_def)
  qed
qed

section \<open>Initialisation\<close>

text \<open>
  The state of initialisation after the orders \<open>k\<close> and above are set up: their lists
  hold the pages from \<open>U\<close> to the end of memory, the lower lists are still to be written.
\<close>

definition init_inv :: "nat \<Rightarrow> nat \<Rightarrow> nat \<Rightarrow> 'z buddy_scheme \<Rightarrow> 'z buddy_scheme \<Rightarrow> bool" where
  "init_inv e k U s0 s \<longleftrightarrow>
     length (space s) = Suc BUDDY_MAX_ORDER \<and> frame {e..<end_page} s0 s \<and> sstatus s = sstatus s0 \<and>
     (\<exists>fl. (\<forall>i\<le>BUDDY_MAX_ORDER. k \<le> i \<longrightarrow> chain (load64 (mem s)) (space s ! i) (map page_addr (fl i))) \<and>
           (\<forall>i<k. fl i = []) \<and> buddy_wf fl \<and> free_pages fl = {U..<end_page})"

lemma init_inv_skip:
  assumes inv: "init_inv e (Suc k) U s0 s" and k: "k \<le> BUDDY_MAX_ORDER"
  shows "init_inv e k U s0 (s\<lparr>space := (space s)[k := 0]\<rparr>)"
proof -
  obtain fl where "\<forall>i\<le>BUDDY_MAX_ORDER. Suc k \<le> i \<longrightarrow> chain (load64 (mem s)) (space s ! i) (map page_addr (fl i))"
      "\<forall>i<Suc k. fl i = []" "buddy_wf fl" "free_pages fl = {U..<end_page}"
    using inv by (auto simp: init_inv_def)
  then show ?thesis
    using inv k unfolding init_inv_def
    by (intro conjI exI [of _ fl]) (auto simp: nth_list_update frame_def not_less_eq_eq le_Suc_eq)
qed

lemma init_inv_block:
  assumes inv: "init_inv e (Suc k) U s0 s" and v: "valid_block k p" and U: "U = p + 2 ^ k" and e: "e \<le> p"
  shows "init_inv e k p s0
    (s\<lparr>space := (space s)[k := page_addr p], mem := store64 (mem s) (page_addr p) 0\<rparr>)" (is "init_inv e k p s0 ?s")
proof -
  note k = valid_order [OF v] and pb = valid_page_bounds [OF v]
  obtain fl where fl: "\<forall>i\<le>BUDDY_MAX_ORDER. Suc k \<le> i \<longrightarrow> chain (load64 (mem s)) (space s ! i) (map page_addr (fl i))"
      "\<forall>i<Suc k. fl i = []" and wf: "buddy_wf fl" and free: "free_pages fl = {U..<end_page}"
    using inv by (auto simp: init_inv_def)
  have len: "length (space s) = Suc BUDDY_MAX_ORDER" and fr: "frame {e..<end_page} s0 s"
    using inv by (simp_all add: init_inv_def)
  have top: "p + 2 ^ k \<le> end_page" using v by (simp add: valid_block_def)
  have eq: "fl(k := [p]) = fl(k := insort p (fl k))" using fl(2) by simp
  have blk: "block k p = {p..<U}" by (simp add: block_def U)
  have "buddy_wf (fl(k := [p]))"
    unfolding eq using wf v by (rule wf_insert) (use fl(2) free blk in auto)
  moreover have "free_pages (fl(k := [p])) = {p..<end_page}"
    unfolding eq free_pages_insort [OF k] free blk using U top by auto
  moreover have "chain (load64 (mem ?s)) (space ?s ! i) (map page_addr ((fl(k := [p])) i))"
    if i: "i \<le> BUDDY_MAX_ORDER" "k \<le> i" for i
  proof (cases "i = k")
    case True
    with len k pb show ?thesis by (simp add: page_addr_zero_iff)
  next
    case False
    have "p \<notin> set (fl i)"
      using subsetD [OF block_subset_free [OF i(1)] mem_block_self] free U by fastforce
    then have "page_addr p \<notin> set (map page_addr (fl i))"
      using wf_page_bounds [OF wf i(1)] pb by (auto simp: page_addr_eq_iff)
    with False fl(1) i show ?thesis by (simp add: chain_store64)
  qed
  moreover have "0 < (2 :: nat) ^ k" by simp
  then have "p \<in> {e..<end_page}" using e top unfolding atLeastLessThan_iff by linarith
  then have "frame {e..<end_page} s0 ?s"
    using fr pb by (auto simp: frame_def store64_other_page)
  moreover have "\<forall>i<k. (fl(k := [p])) i = []" using fl(2) by simp
  moreover have "sstatus ?s = sstatus s0" using inv by (simp add: init_inv_def)
  ultimately show ?thesis
    using len unfolding init_inv_def by (intro conjI exI [of _ "fl(k := [p])"]) simp_all
qed

text \<open>One round that fills the list of order \<open>k\<close> with one block.\<close>

lemma set_head_block:
  assumes "k < length (space s)"
  shows "bind (set_next (Space k) a) (\<lambda>_. bind (get_next (Space k)) (\<lambda>p.
     bind (set_next (Node p) 0) (\<lambda>_. c))) s =
   c (s\<lparr>space := (space s)[k := a], mem := store64 (mem s) a 0\<rparr>)"
  using assms by (simp add: bind_Ok [OF set_next_Space] bind_Ok [OF get_next_Space] run_simps)

lemma page_shl_nat: "page_shl (int k) = page_addr (2 ^ k)" if "k < 64"
  using that by (simp add: page_shl_def page_addr_pow flip: zmod_int)

lemma page_addr_diff: "q \<le> p \<Longrightarrow> page_addr (p - q) = page_addr p - page_addr q"
  using page_addr_add [of "p - q" q] by simp

lemma page_addr_le_iff:
  "p < 2 ^ 52 \<Longrightarrow> q < 2 ^ 52 \<Longrightarrow> page_addr p \<le> page_addr q \<longleftrightarrow> p \<le> q"
  by (simp add: word_le_nat_alt unat_page_addr)

text \<open>The second loop: \<open>U\<close> is the lowest free page, and the block below it of order \<open>k - 1\<close> is next.\<close>

lemma init_low_ok:
  assumes "init_inv e k U s0 s" and "first_page < e" and "e \<le> U" and "U < e + 2 ^ k"
    and "U \<le> end_page" and "2 ^ k dvd U" and "k \<le> Suc BUDDY_MAX_ORDER" and "first_page + 2 ^ k \<le> U"
    and "k \<noteq> 0 \<Longrightarrow> tmp = page_addr (U - 2 ^ (k - 1))"
  shows "\<exists>s'. init_low (page_addr e) tmp (int k - 1) s = Ok () s' \<and> init_inv e 0 e s0 s'"
  using assms
proof (induction k arbitrary: U tmp s)
  case 0
  then have "U = e" by simp
  with 0 show ?case by (subst init_low.simps) (simp add: return_def)
next
  case (Suc k)
  let ?p = "U - 2 ^ k"
  have p: "U = ?p + 2 ^ k" "first_page + 2 ^ k \<le> ?p" and k: "k \<le> BUDDY_MAX_ORDER"
    using Suc.prems(7,8) by (simp_all add: algebra_simps)
  have al: "2 ^ k dvd U" using Suc.prems(6) by (rule dvd_trans [rotated]) simp
  then have v: "valid_block k ?p"
    using p k Suc.prems(5) by (simp add: valid_block_def dvd_diff_nat)
  have len: "k < length (space s)" using Suc.prems(1) k by (simp add: init_inv_def)
  have tmp: "tmp = page_addr ?p" using Suc.prems(9) by simp
  have U52: "U < 2 ^ 52" "e < 2 ^ 52" using Suc.prems(3,5) by (simp_all add: end_page_def)
  have test: "page_addr e \<le> tmp \<longleftrightarrow> e \<le> ?p" unfolding tmp using U52 by (simp add: page_addr_le_iff)
  have half: "k = Suc j \<Longrightarrow> page_shl (int k - 1) = page_addr (2 ^ j) \<and> (2::nat) ^ k = 2 ^ j + 2 ^ j" for j
    using page_shl_nat [of j] k by (simp add: BUDDY_MAX_ORDER_def)
  show ?case
  proof (cases "e \<le> ?p")
    case True
    let ?s = "s\<lparr>space := (space s)[k := page_addr ?p], mem := store64 (mem s) (page_addr ?p) 0\<rparr>"
    have "init_inv e k ?p s0 ?s" using Suc.prems(1) v p(1) True by (rule init_inv_block)
    moreover have "k \<noteq> 0 \<Longrightarrow> tmp - page_shl (int k - 1) = page_addr (?p - 2 ^ (k - 1))"
    proof -
      assume "k \<noteq> 0"
      then obtain j where j: "k = Suc j" by (cases k) auto
      have "2 ^ j \<le> ?p" using conjunct2 [OF half [OF j]] p(2) by linarith
      then have "page_addr (?p - 2 ^ j) = page_addr ?p - page_addr (2 ^ j)" by (rule page_addr_diff)
      moreover have "k - 1 = j" using j by simp
      ultimately show ?thesis unfolding tmp using conjunct1 [OF half [OF j]] by argo
    qed
    moreover have "?p < e + 2 ^ k" "?p \<le> end_page" "2 ^ k dvd ?p" "k \<le> Suc BUDDY_MAX_ORDER"
      using Suc.prems(4,5) al k p(1) by (simp_all add: dvd_diff_nat)
    ultimately have "\<exists>s'. init_low (page_addr e) (tmp - page_shl (int k - 1)) (int k - 1) ?s = Ok () s' \<and>
        init_inv e 0 e s0 s'"
      using Suc.prems(2) True p(2) by (intro Suc.IH)
    then show ?thesis
      using test True by (subst init_low.simps) (simp add: set_head_block [OF len] tmp)
  next
    case False
    let ?s = "s\<lparr>space := (space s)[k := 0]\<rparr>"
    have inv: "init_inv e k U s0 ?s" using Suc.prems(1) k by (rule init_inv_skip)
    have tmp': "k \<noteq> 0 \<Longrightarrow> tmp + page_shl (int k - 1) = page_addr (U - 2 ^ (k - 1))"
    proof -
      assume "k \<noteq> 0"
      then obtain j where j: "k = Suc j" by (cases k) auto
      have eq: "U - 2 ^ (k - 1) = ?p + 2 ^ j" using conjunct2 [OF half [OF j]] p(1) j by simp
      show ?thesis unfolding eq page_addr_add tmp conjunct1 [OF half [OF j]] by (rule refl)
    qed
    have lo: "U < e + 2 ^ k" using False p(1) by linarith
    have hi: "k \<le> Suc BUDDY_MAX_ORDER" "first_page + 2 ^ k \<le> U" using p(2) k by simp_all
    have "\<exists>s'. init_low (page_addr e) (tmp + page_shl (int k - 1)) (int k - 1) ?s = Ok () s' \<and>
        init_inv e 0 e s0 s'"
      using inv Suc.prems(2,3) lo Suc.prems(5) al hi tmp' by (rule Suc.IH)
    then show ?thesis
      using test False by (subst init_low.simps) (simp add: bind_Ok [OF set_next_Space] len tmp)
  qed
qed

text \<open>The first loop: every block that lies above the kernel image is free.\<close>

lemma page_addr_half: "drop_bit 1 (page_addr (2 ^ Suc j)) = page_addr (2 ^ j)" if "j < 51"
proof -
  have "(2 :: nat) ^ Suc j < 2 ^ 52" "(2 :: nat) ^ j < 2 ^ 52"
    using that by (auto simp only: power_strict_increasing_iff)
  then show ?thesis
    by (simp only: uint64_eq_iff_unat unat_drop_bit_eq unat_page_addr) (simp add: drop_bit_eq_div)
qed

lemma first_page_addr: "page_addr first_page = KERNEL_START"
  by (simp add: page_addr_def first_page_def KERNEL_START_def)

lemma order_pow_le: "k \<le> BUDDY_MAX_ORDER \<Longrightarrow> first_page + 2 ^ k \<le> end_page"
  using power_increasing [of k 15 "2 :: nat"]
  by (simp add: first_page_def end_page_def BUDDY_MAX_ORDER_def)

lemma order_dvd_first: "k \<le> BUDDY_MAX_ORDER \<Longrightarrow> 2 ^ k dvd first_page"
  using le_imp_power_dvd [of k 19 "2 :: nat"] by (simp add: first_page_def BUDDY_MAX_ORDER_def)

lemma init_high_ok:
  assumes "init_inv e k (first_page + 2 ^ k) s0 s" and "first_page < e" and "e \<le> first_page + 2 ^ k"
    and "k \<le> BUDDY_MAX_ORDER" and "k \<noteq> 0 \<Longrightarrow> bsz = page_addr (2 ^ (k - 1))"
  shows "\<exists>s' k' bsz'. init_high (page_addr (e - first_page)) bsz (int k - 1) s = Ok (bsz', int k' - 1) s' \<and>
    init_inv e k' (first_page + 2 ^ k') s0 s' \<and> k' \<le> BUDDY_MAX_ORDER \<and> e \<le> first_page + 2 ^ k' \<and>
    (k' \<noteq> 0 \<longrightarrow> bsz' = page_addr (2 ^ (k' - 1)))"
  using assms
proof (induction k arbitrary: bsz s)
  case 0
  then show ?case by (subst init_high.simps) (auto simp: return_def intro!: exI [of _ "0 :: nat"])
next
  case (Suc k)
  let ?p = "first_page + 2 ^ k"
  have k: "k \<le> BUDDY_MAX_ORDER" using Suc.prems(4) by simp
  have bsz: "bsz = page_addr (2 ^ k)" using Suc.prems(5) by simp
  have k52: "(2 :: nat) ^ k < 2 ^ 52" using power_strict_increasing [of k 52 "2 :: nat"] k
    by (simp add: BUDDY_MAX_ORDER_def)
  have "e - first_page < 2 ^ 52" using Suc.prems(3) order_pow_le [OF Suc.prems(4)]
    by (simp add: end_page_def)
  then have test: "page_addr (e - first_page) \<le> bsz \<longleftrightarrow> e \<le> ?p"
    unfolding bsz using k52 Suc.prems(2) by (simp add: page_addr_le_iff le_diff_conv add.commute)
  have len: "k < length (space s)" using Suc.prems(1) k by (simp add: init_inv_def)
  show ?case
  proof (cases "e \<le> ?p")
    case True
    let ?s = "s\<lparr>space := (space s)[k := page_addr ?p], mem := store64 (mem s) (page_addr ?p) 0\<rparr>"
    have v: "valid_block k ?p"
      using k order_dvd_first [OF k] order_pow_le [OF Suc.prems(4)] by (simp add: valid_block_def)
    have "first_page + 2 ^ Suc k = ?p + 2 ^ k" by simp
    with Suc.prems(1) v have "init_inv e k ?p s0 ?s" using True by (rule init_inv_block)
    moreover have "k \<noteq> 0 \<Longrightarrow> drop_bit 1 bsz = page_addr (2 ^ (k - 1))"
      using page_addr_half [of "k - 1"] k by (cases k) (simp_all add: bsz BUDDY_MAX_ORDER_def)
    ultimately have "\<exists>s' k' bsz'. init_high (page_addr (e - first_page)) (drop_bit 1 bsz) (int k - 1) ?s =
          Ok (bsz', int k' - 1) s' \<and>
        init_inv e k' (first_page + 2 ^ k') s0 s' \<and> k' \<le> BUDDY_MAX_ORDER \<and> e \<le> first_page + 2 ^ k' \<and>
        (k' \<noteq> 0 \<longrightarrow> bsz' = page_addr (2 ^ (k' - 1)))"
      using Suc.prems(2) True k by (intro Suc.IH)
    moreover have "KERNEL_START + bsz = page_addr ?p" by (simp add: bsz page_addr_add first_page_addr)
    ultimately show ?thesis
      using test True by (subst init_high.simps) (simp add: set_head_block [OF len])
  next
    case False
    with Suc.prems test show ?thesis
      by (subst init_high.simps) (auto simp: return_def intro!: exI [of _ "Suc k"])
  qed
qed

lemma init_mem_manage_ok:
  assumes e: "first_page < e" "e \<le> end_page" and len: "length (space s) = Suc BUDDY_MAX_ORDER"
  shows "\<exists>s' fl. init_mem_manage (page_addr e) s = Ok () s' \<and> pool_repr s' fl \<and> buddy_wf fl \<and>
    free_pages fl = {e..<end_page} \<and> frame {e..<end_page} s s' \<and> sstatus s' = sstatus s"
proof -
  let ?s = "s\<lparr>space := (space s)[BUDDY_MAX_ORDER := 0]\<rparr>"
  have end_pow: "first_page + 2 ^ BUDDY_MAX_ORDER = end_page"
    by (simp add: first_page_def end_page_def BUDDY_MAX_ORDER_def)
  have "init_inv e BUDDY_MAX_ORDER end_page s ?s"
    unfolding init_inv_def using len
    by (intro conjI exI [of _ "\<lambda>_. []"])
      (auto simp: frame_def buddy_wf_def disjoint_blocks_def coalesced_def free_pages_def)
  then obtain t k bsz where t: "init_high (page_addr (e - first_page)) (page_addr (2 ^ 14)) (int BUDDY_MAX_ORDER - 1) ?s =
        Ok (bsz, int k - 1) t" "init_inv e k (first_page + 2 ^ k) s t" "k \<le> BUDDY_MAX_ORDER"
      "e \<le> first_page + 2 ^ k" "k \<noteq> 0 \<longrightarrow> bsz = page_addr (2 ^ (k - 1))"
    using init_high_ok [of e BUDDY_MAX_ORDER s ?s "page_addr (2 ^ 14)"] e end_pow
    by (auto simp: BUDDY_MAX_ORDER_def)
  have "KERNEL_START + bsz = page_addr (first_page + 2 ^ k - 2 ^ (k - 1))" if "k \<noteq> 0"
    using that t(5) by (cases k) (simp_all add: page_addr_add first_page_addr)
  then obtain s' where s': "init_low (page_addr e) (KERNEL_START + bsz) (int k - 1) t = Ok () s'"
      "init_inv e 0 e s s'"
    using init_low_ok [OF t(2) e(1) t(4)] e(1) t(3) order_pow_le [OF t(3)] order_dvd_first [OF t(3)] by auto
  have eq: "page_addr e - KERNEL_START = page_addr (e - first_page)" "KERNEL_MEM_SIZE div 2 = page_addr (2 ^ 14)"
    using e page_addr_diff [of first_page e]
    by (simp_all add: first_page_addr) (simp add: KERNEL_MEM_SIZE_def page_addr_def)
  have hk: "bind (init_high (page_addr (e - first_page)) (page_addr (2 ^ 14)) (int BUDDY_MAX_ORDER - 1)) c ?s =
      c (bsz, int k - 1) t" for c :: "uint64 \<times> int \<Rightarrow> (unit, 'a buddy_scheme) run"
    using t(1) by (rule bind_Ok)
  have "init_mem_manage (page_addr e) s = Ok () s'"
    unfolding init_mem_manage_def Let_def eq using s'(1) len
    by (simp add: bind_Ok [OF set_next_Space] hk del: power_numeral)
  with s'(2) show ?thesis unfolding init_inv_def pool_repr_def by auto
qed

section \<open>The interface of the page allocator\<close>

text \<open>
  What the rest of the kernel relies on. \<open>inv s F\<close>: the pages \<open>F\<close> are free in state \<open>s\<close>;
  \<open>same P s s'\<close>: outside the pages \<open>P\<close> the two states agree.
\<close>

locale page_allocator =
  fixes alloc :: "nat \<Rightarrow> (addr, 's) run"
    and release :: "addr \<Rightarrow> nat \<Rightarrow> (unit, 's) run"
    and inv :: "'s \<Rightarrow> nat set \<Rightarrow> bool"
    and same :: "nat set \<Rightarrow> 's \<Rightarrow> 's \<Rightarrow> bool"
  assumes alloc_ok: "inv s F \<Longrightarrow> \<exists>q. 2 ^ k dvd q \<and> block k q \<subseteq> F \<Longrightarrow>
      \<exists>p s'. alloc k s = Ok (page_addr p) s' \<and> valid_block k p \<and> block k p \<subseteq> F \<and>
        inv s' (F - block k p) \<and> same (F - block k p) s s'"
    and alloc_fails: "inv s F \<Longrightarrow> \<nexists>q. 2 ^ k dvd q \<and> block k q \<subseteq> F \<Longrightarrow> alloc k s = Ok 0 s"
    and release_ok: "inv s F \<Longrightarrow> valid_block k p \<Longrightarrow> block k p \<inter> F = {} \<Longrightarrow>
      \<exists>s'. release (page_addr p) k s = Ok () s' \<and> inv s' (F \<union> block k p) \<and> same (F \<union> block k p) s s'"
    and release_null: "release 0 k s = Ok () s"
    and same_trans: "same P s t \<Longrightarrow> same P t u \<Longrightarrow> same P s u"
    and same_mono: "same P s t \<Longrightarrow> P \<subseteq> Q \<Longrightarrow> same Q s t"
begin

text \<open>Whatever the state, taking a block returns 0 or a block of free pages.\<close>

lemma alloc_returns:
  assumes "inv s F"
  obtains "alloc k s = Ok 0 s" | p s' where "alloc k s = Ok (page_addr p) s'" "valid_block k p"
    "block k p \<subseteq> F" "inv s' (F - block k p)" "same (F - block k p) s s'"
  using alloc_ok [OF assms] alloc_fails [OF assms] by meson

text \<open>Giving a block back makes the pool what it was; nothing outside it has changed.\<close>

lemma alloc_release:
  assumes inv: "inv s F" and a: "alloc k s = Ok a s'" and nz: "a \<noteq> 0"
  shows "\<exists>s''. release a k s' = Ok () s'' \<and> inv s'' F \<and> same F s s''"
  using inv
proof (cases rule: alloc_returns [where k = k])
  case 1
  with a nz show ?thesis by simp
next
  case (2 p t)
  with a have a: "a = page_addr p" "t = s'" by simp_all
  have "block k p \<inter> (F - block k p) = {}" and F: "F - block k p \<union> block k p = F" using 2(3) by auto
  with release_ok [OF 2(4,2)] a obtain s'' where
    "release a k s' = Ok () s''" "inv s'' F" "same F s' s''" by auto
  moreover have "same F s s'" using 2(5) a same_mono by blast
  ultimately show ?thesis using same_trans by blast
qed

text \<open>Blocks taken one after the other do not overlap.\<close>

lemma alloc_alloc_disjoint:
  assumes inv: "inv s F" and a: "alloc j s = Ok a s'" and b: "alloc k s' = Ok b s''"
    and nz: "a \<noteq> 0" "b \<noteq> 0"
  shows "\<exists>p q. a = page_addr p \<and> b = page_addr q \<and> block j p \<subseteq> F \<and> block k q \<subseteq> F \<and>
    block j p \<inter> block k q = {}"
  using inv
proof (cases rule: alloc_returns [where k = j])
  case 1
  with a nz show ?thesis by simp
next
  case (2 p t)
  with a have "inv s' (F - block j p)" by simp
  then show ?thesis
  proof (cases rule: alloc_returns [where k = k])
    case 1
    with b nz show ?thesis by simp
  next
    case q: (2 q t')
    with 2 a b show ?thesis by (intro exI [of _ p] exI [of _ q]) auto
  qed
qed

end

definition page_pool :: "'z buddy_scheme \<Rightarrow> nat set \<Rightarrow> bool" where
  "page_pool s F \<longleftrightarrow> (\<exists>fl. pool_repr s fl \<and> buddy_wf fl \<and> free_pages fl = F)"

text \<open>The pool only depends on the list heads and on the bytes of the free pages.\<close>

lemma load64_page_cong:
  assumes "\<And>x. page_of x = p \<Longrightarrow> m x = m' x" and p: "p < 2 ^ 52"
  shows "load64 m (page_addr p) = load64 m' (page_addr p)"
proof (rule load64_cong)
  fix i :: nat assume "i < 8"
  with p have "unat (page_addr p + of_nat i) = 4096 * p + i"
    by (subst unat_add_no_overflow) (simp_all add: unat_page_addr unat_of_nat_64)
  with \<open>i < 8\<close> show "m (page_addr p + of_nat i) = m' (page_addr p + of_nat i)"
    by (intro assms(1)) (simp add: page_of_def)
qed

lemma page_pool_cong:
  assumes "page_pool s F" and "space s' = space s" and "\<And>x. page_of x \<in> F \<Longrightarrow> mem s' x = mem s x"
  shows "page_pool s' F"
proof -
  obtain fl where fl: "pool_repr s fl" "buddy_wf fl" "free_pages fl = F"
    using assms(1) by (auto simp: page_pool_def)
  have "chain (load64 (mem s')) (space s ! i) (map page_addr (fl i))" if i: "i \<le> BUDDY_MAX_ORDER" for i
  proof -
    have "load64 (mem s') a = load64 (mem s) a" if "a \<in> set (map page_addr (fl i))" for a
    proof -
      from that obtain q where q: "q \<in> set (fl i)" "a = page_addr q" by auto
      then have "q \<in> F" using block_subset_free [where fl = fl, OF i q(1)] fl(3) mem_block_self by blast
      then show ?thesis
        unfolding q(2) using assms(3) wf_page_bounds [OF fl(2) i q(1)] by (intro load64_page_cong) auto
    qed
    then have "chain (load64 (mem s')) (space s ! i) (map page_addr (fl i)) \<longleftrightarrow>
        chain (load64 (mem s)) (space s ! i) (map page_addr (fl i))" by (rule chain_cong)
    then show ?thesis using fl(1) i by (simp add: pool_repr_def)
  qed
  then have "pool_repr s' fl" using fl(1) assms(2) by (simp add: pool_repr_def)
  with fl show ?thesis by (auto simp: page_pool_def)
qed

lemma page_pool_alloc:
  assumes "page_pool s F" and "\<exists>q. 2 ^ k dvd q \<and> block k q \<subseteq> F"
  shows "\<exists>p s'. allocate k s = Ok (page_addr p) s' \<and> valid_block k p \<and> block k p \<subseteq> F \<and>
    page_pool s' (F - block k p) \<and> frame (F - block k p) s s' \<and> sstatus s' = sstatus s"
proof -
  obtain fl where repr: "pool_repr s fl" and wf: "buddy_wf fl" and F: "free_pages fl = F"
    using assms(1) by (auto simp: page_pool_def)
  obtain p fl' where sp: "spec_alloc k fl = Some (p, fl')"
    using spec_alloc_None [OF wf, of k] assms(2) F by fastforce
  then show ?thesis
    using allocate_refines [OF repr wf, of k] spec_alloc_ok [OF wf sp] F
    by (auto simp: page_pool_def)
qed

lemma page_pool_alloc_fails:
  assumes "page_pool s F" and "\<nexists>q. 2 ^ k dvd q \<and> block k q \<subseteq> F"
  shows "allocate k s = Ok 0 s"
proof -
  obtain fl where repr: "pool_repr s fl" and wf: "buddy_wf fl" and F: "free_pages fl = F"
    using assms(1) by (auto simp: page_pool_def)
  have "spec_alloc k fl = None" using spec_alloc_None [OF wf, of k] assms(2) F by blast
  then show ?thesis using allocate_refines [OF repr wf, of k] by simp
qed

lemma page_pool_release:
  assumes "page_pool s F" and "valid_block k p" and "block k p \<inter> F = {}"
  shows "\<exists>s'. deallocate (page_addr p) k s = Ok () s' \<and> page_pool s' (F \<union> block k p) \<and>
    frame (F \<union> block k p) s s' \<and> (sstatus s' = sstatus s \<or> sstatus s' = sstatus s AND NOT SSTATUS_SIE)"
proof -
  obtain fl where repr: "pool_repr s fl" and wf: "buddy_wf fl" and F: "free_pages fl = F"
    using assms(1) by (auto simp: page_pool_def)
  with assms(3) have d: "block k p \<inter> free_pages fl = {}" by simp
  from deallocate_refines [OF repr wf assms(2) d] spec_dealloc_ok [OF wf assms(2) d] F
  show ?thesis unfolding page_pool_def by metis
qed

interpretation buddy_alloc: page_allocator allocate deallocate page_pool frame
proof unfold_locales
  fix s t u :: "'a buddy_scheme" and F P Q :: "nat set" and k p :: nat
  show "deallocate 0 k s = Ok () s" by (subst deallocate.simps) (simp add: return_def)
  show "frame P s t \<Longrightarrow> frame P t u \<Longrightarrow> frame P s u" by (rule frame_trans)
  show "frame P s t \<Longrightarrow> P \<subseteq> Q \<Longrightarrow> frame Q s t" by (rule frame_mono)
  assume inv: "page_pool s F"
  show "\<nexists>q. 2 ^ k dvd q \<and> block k q \<subseteq> F \<Longrightarrow> allocate k s = Ok 0 s"
    using inv by (rule page_pool_alloc_fails)
  show "\<exists>q. 2 ^ k dvd q \<and> block k q \<subseteq> F \<Longrightarrow>
      \<exists>p s'. allocate k s = Ok (page_addr p) s' \<and> valid_block k p \<and> block k p \<subseteq> F \<and>
        page_pool s' (F - block k p) \<and> frame (F - block k p) s s'"
    using page_pool_alloc [OF inv] by meson
  show "valid_block k p \<Longrightarrow> block k p \<inter> F = {} \<Longrightarrow>
      \<exists>s'. deallocate (page_addr p) k s = Ok () s' \<and> page_pool s' (F \<union> block k p) \<and>
        frame (F \<union> block k p) s s'"
    using page_pool_release [OF inv] by meson
qed

section \<open>Properties\<close>

text \<open>
  The states the witnesses start from: memory filled with zeros, interrupts on, and a pool
  whose only free block is the last page (\<open>last_page_state\<close>) or which is not yet
  initialised (\<open>boot_state\<close>).
\<close>

definition last_page_state :: "nat \<Rightarrow> buddy" where
  "last_page_state p = \<lparr>mem = (\<lambda>_. 0), sstatus = SSTATUS_SIE, space = (replicate 16 0)[0 := page_addr p]\<rparr>"

definition boot_state :: buddy where
  "boot_state = \<lparr>mem = (\<lambda>_. 0), sstatus = SSTATUS_SIE, space = replicate 16 0\<rparr>"

definition one_page :: "nat \<Rightarrow> free_lists" where
  "one_page p = (\<lambda>_. [])(0 := [p])"

lemma load64_zero [simp]: "load64 (\<lambda>_. 0) a = 0"
  using load64_zeroed [of "\<lambda>_. 0" a] by simp

lemma sstatus_last_page: "sstatus (last_page_state p) = SSTATUS_SIE"
  by (simp add: last_page_state_def)

lemma last_page_ok:
  assumes "first_page \<le> p" and "p < end_page"
  shows "pool_repr (last_page_state p) (one_page p)" "buddy_wf (one_page p)" "free_pages (one_page p) = {p}"
    "page_pool (last_page_state p) {p}"
proof -
  have nz: "page_addr p \<noteq> 0" using assms by (simp add: page_addr_zero_iff first_page_def end_page_def)
  have "\<forall>i\<le>15. (i :: nat) \<noteq> 0 \<longrightarrow> (replicate 16 (0 :: addr))[0 := page_addr p] ! i = 0" by simp
  with nz show r: "pool_repr (last_page_state p) (one_page p)"
    by (auto simp: pool_repr_def last_page_state_def one_page_def BUDDY_MAX_ORDER_def)
  show w: "buddy_wf (one_page p)"
    using assms buddy_neq [of 0 p]
    by (auto simp: buddy_wf_def one_page_def disjoint_blocks_def coalesced_def valid_block_def)
  show f: "free_pages (one_page p) = {p}"
    using free_pages_insort [where i = 0 and p = p and fl = "\<lambda>_. []"]
    by (simp add: one_page_def block_def free_pages_def [of "\<lambda>_. []"])
  from r w f show "page_pool (last_page_state p) {p}" by (auto simp: page_pool_def)
qed

text \<open>
  C1. \<open>allocate\<close> returns for every order and every reachable pool. If some aligned run of
  \<open>2 ^ k\<close> free pages exists, it returns the address of such a run, that run is no longer free
  and every other free page still is, memory changes only inside pages that stay free, and
  the interrupt state is as before; otherwise it returns NULL and changes nothing.
\<close>

theorem allocate_correct:
  assumes "page_pool s F"
  shows "if \<exists>q. 2 ^ k dvd q \<and> block k q \<subseteq> F
    then \<exists>p s'. allocate k s = Ok (page_addr p) s' \<and> valid_block k p \<and> block k p \<subseteq> F \<and>
      page_pool s' (F - block k p) \<and> frame (F - block k p) s s' \<and> sstatus s' = sstatus s
    else allocate k s = Ok 0 s"
  using page_pool_alloc [OF assms] page_pool_alloc_fails [OF assms] by simp

theorem allocate_correct_witness:
  "(\<exists>p s'. allocate 0 (last_page_state 0x87fff) = Ok (page_addr p) s' \<and> page_pool s' ({0x87fff} - block 0 p)) \<and>
   allocate 1 (last_page_state 0x87fff) = Ok 0 (last_page_state 0x87fff)"
proof -
  have pool: "page_pool (last_page_state 0x87fff) {0x87fff}"
    by (rule last_page_ok) (simp_all add: first_page_def end_page_def)
  have "\<exists>q. 2 ^ 0 dvd q \<and> block 0 q \<subseteq> {0x87fff}" by (auto simp: block_def)
  moreover have "\<not> block 1 q \<subseteq> {0x87fff}" for q
    using card_mono [of "{0x87fff :: nat}" "block 1 q"] by auto
  ultimately show ?thesis
    using allocate_correct [OF pool, of 0] allocate_correct [OF pool, of 1] by auto
qed

text \<open>
  C2. \<open>deallocate\<close> refines the abstract release: it returns, the pointer structure it
  leaves in memory is the sorted, merged free lists of \<open>spec_dealloc\<close> (which frees exactly
  the block, C3), only free pages and the block itself are written, and the interrupt state
  is restored unless the block is an odd buddy put in front of its list.
\<close>

theorem deallocate_simulates:
  assumes "pool_repr s fl" and "buddy_wf fl" and "valid_block i p" and "block i p \<inter> free_pages fl = {}"
  shows "\<exists>s'. deallocate (page_addr p) i s = Ok () s' \<and> pool_repr s' (spec_dealloc i p fl) \<and>
    frame (free_pages fl \<union> block i p) s s' \<and>
    sstatus s' = (if early_return i p fl then sstatus s AND NOT SSTATUS_SIE else sstatus s)"
  using assms by (rule deallocate_refines)

theorem deallocate_simulates_witness:
  "\<exists>s'. deallocate (page_addr 0x87ffe) 0 (last_page_state 0x87fff) = Ok () s' \<and>
     pool_repr s' (spec_dealloc 0 0x87ffe (one_page 0x87fff)) \<and> sstatus s' = SSTATUS_SIE"
proof -
  have b: "first_page \<le> 0x87fff" "0x87fff < end_page" by (simp_all add: first_page_def end_page_def)
  have "valid_block 0 0x87ffe" by (simp add: valid_block_def first_page_def end_page_def)
  moreover have "block 0 0x87ffe \<inter> free_pages (one_page 0x87fff) = {}"
    by (simp add: last_page_ok(3) [OF b] block_def)
  ultimately show ?thesis
    using deallocate_simulates [OF last_page_ok(1) [OF b] last_page_ok(2) [OF b], of 0 "0x87ffe"]
    by (auto simp: early_return_def sstatus_last_page)
qed

text \<open>
  The pool after a release: the free pages are the old ones and the released block,
  and the pool is again well formed, so the next operation can run.
\<close>

theorem deallocate_frees:
  assumes "page_pool s F" and "valid_block k p" and "block k p \<inter> F = {}"
  shows "\<exists>s'. deallocate (page_addr p) k s = Ok () s' \<and> page_pool s' (F \<union> block k p) \<and>
    frame (F \<union> block k p) s s'"
  using assms by (rule buddy_alloc.release_ok)

theorem deallocate_frees_witness:
  "\<exists>s'. deallocate (page_addr 0x87ffe) 0 (last_page_state 0x87fff) = Ok () s' \<and> page_pool s' {0x87ffe, 0x87fff}"
proof -
  have pool: "page_pool (last_page_state 0x87fff) {0x87fff}"
    by (rule last_page_ok) (simp_all add: first_page_def end_page_def)
  have "valid_block 0 0x87ffe" "block 0 0x87ffe \<inter> {0x87fff} = {}"
    by (simp_all add: valid_block_def block_def first_page_def end_page_def)
  moreover have "{0x87fff} \<union> block 0 0x87ffe = {0x87ffe, 0x87fff}" by (auto simp: block_def)
  ultimately show ?thesis using deallocate_frees [OF pool] by metis
qed

text \<open>
  C3. \<open>init_mem_manage\<close>: for a page-aligned kernel end inside memory it returns, and the
  pool then holds exactly the pages from the kernel end to the end of memory. Nothing
  below the kernel end is written.
\<close>

theorem init_mem_manage_correct:
  assumes "first_page < e" and "e \<le> end_page" and "length (space s) = Suc BUDDY_MAX_ORDER"
  shows "\<exists>s'. init_mem_manage (page_addr e) s = Ok () s' \<and> page_pool s' {e..<end_page} \<and>
    frame {e..<end_page} s s' \<and> sstatus s' = sstatus s"
  using init_mem_manage_ok [OF assms] by (auto simp: page_pool_def)

theorem init_mem_manage_correct_witness:
  "\<exists>s'. init_mem_manage (page_addr 0x80011) boot_state = Ok () s' \<and> page_pool s' {0x80011..<end_page}"
  using init_mem_manage_correct [where e = "0x80011" and s = boot_state]
  by (auto simp: boot_state_def first_page_def end_page_def BUDDY_MAX_ORDER_def)

text \<open>
  Taking a block and giving it back restores the pool and, outside the free pages, the
  whole state but the interrupt switch.
\<close>

theorem allocate_deallocate:
  assumes "page_pool s F" and "allocate k s = Ok a s'" and "a \<noteq> 0"
  shows "\<exists>s''. deallocate a k s' = Ok () s'' \<and> page_pool s'' F \<and> frame F s s''"
  using assms by (rule buddy_alloc.alloc_release)

theorem allocate_deallocate_witness:
  "\<exists>s' s''. allocate 0 (last_page_state 0x87fff) = Ok (page_addr 0x87fff) s' \<and>
     deallocate (page_addr 0x87fff) 0 s' = Ok () s'' \<and> page_pool s'' {0x87fff}"
proof -
  have pool: "page_pool (last_page_state 0x87fff) {0x87fff}"
    by (rule last_page_ok) (simp_all add: first_page_def end_page_def)
  have "\<exists>q. 2 ^ 0 dvd q \<and> block 0 q \<subseteq> {0x87fff}" by (auto simp: block_def)
  from page_pool_alloc [OF pool this] obtain p s'
    where s': "allocate 0 (last_page_state 0x87fff) = Ok (page_addr p) s'" "valid_block 0 p"
      "block 0 p \<subseteq> {0x87fff}" by blast
  then have "p = 0x87fff" using mem_block_self [of p 0] by blast
  with s' show ?thesis using allocate_deallocate [OF pool s'(1)] valid_addr_nonzero by blast
qed

text \<open>
  Two blocks taken one after the other do not overlap.\<close>

theorem allocate_disjoint:
  assumes "page_pool s F" and "allocate j s = Ok a s'" and "allocate k s' = Ok b s''"
    and "a \<noteq> 0" and "b \<noteq> 0"
  shows "\<exists>p q. a = page_addr p \<and> b = page_addr q \<and> block j p \<subseteq> F \<and> block k q \<subseteq> F \<and>
    block j p \<inter> block k q = {}"
  using assms by (rule buddy_alloc.alloc_alloc_disjoint)

text \<open>The pool with two free pages that the witness below allocates from.\<close>

lemma two_pages_pool:
  obtains s where "page_pool (s :: buddy) {0x87ffd, 0x87fff}"
proof -
  have pool: "page_pool (last_page_state 0x87fff) {0x87fff}"
    by (rule last_page_ok) (simp_all add: first_page_def end_page_def)
  have "valid_block 0 0x87ffd" "block 0 0x87ffd \<inter> {0x87fff} = {}"
    by (simp_all add: valid_block_def block_def first_page_def end_page_def)
  moreover have "{0x87fff} \<union> block 0 0x87ffd = {0x87ffd, 0x87fff}" by (auto simp: block_def)
  ultimately show thesis using buddy_alloc.release_ok [OF pool] that by metis
qed

theorem allocate_disjoint_witness:
  "\<exists>(s :: buddy) s' s'' p q. allocate 0 s = Ok (page_addr p) s' \<and> allocate 0 s' = Ok (page_addr q) s'' \<and>
     block 0 p \<inter> block 0 q = {}"
proof -
  obtain s where pool: "page_pool (s :: buddy) {0x87ffd, 0x87fff}" by (rule two_pages_pool)
  have "\<exists>q. 2 ^ 0 dvd q \<and> block 0 q \<subseteq> {0x87ffd, 0x87fff}" by (auto simp: block_def)
  from page_pool_alloc [OF pool this] obtain p s' where s': "allocate 0 s = Ok (page_addr p) s'"
      "valid_block 0 p" "page_pool s' ({0x87ffd, 0x87fff} - block 0 p)" by blast
  have "\<exists>q. 2 ^ 0 dvd q \<and> block 0 q \<subseteq> {0x87ffd, 0x87fff} - block 0 p"
    by (cases "p = 0x87ffd") (auto simp: block_def)
  from page_pool_alloc [OF s'(3) this] obtain q s'' where
    s'': "allocate 0 s' = Ok (page_addr q) s''" "valid_block 0 q" by blast
  obtain a b where ab: "page_addr p = page_addr a" "page_addr q = page_addr b" "block 0 a \<inter> block 0 b = {}"
    using allocate_disjoint [OF pool s'(1) s''(1)] s'(2) s''(2) valid_addr_nonzero by blast
  with s'(1) s''(1) show ?thesis by (intro exI [of _ s] exI [of _ s'] exI [of _ s''] exI [of _ a] exI [of _ b]) simp
qed

text \<open>
  C4. Giving back an odd buddy that comes before the first block of a non-empty list returns
  with interrupts disabled, whatever they were: the early return of \<open>deallocate\<close> skips the
  call that restores them.
\<close>

theorem deallocate_odd_front_disables_interrupts:
  assumes "pool_repr s fl" and "buddy_wf fl" and "valid_block i p" and "block i p \<inter> free_pages fl = {}"
    and "odd (p div 2 ^ i)" and "fl i \<noteq> []" and "p < hd (fl i)"
  shows "\<exists>s'. deallocate (page_addr p) i s = Ok () s' \<and> \<not> interrupt_status s'"
proof -
  have "early_return i p fl" using assms by (simp add: early_return_def)
  then obtain s' where s': "deallocate (page_addr p) i s = Ok () s'"
      "sstatus s' = sstatus s AND NOT SSTATUS_SIE"
    using deallocate_refines [OF assms(1-4)] by auto
  then have "\<not> interrupt_status s'"
    using interrupt_off_status [of s] by (simp add: interrupt_status_def)
  with s' show ?thesis by blast
qed

theorem deallocate_odd_front_disables_interrupts_witness:
  "interrupt_status (last_page_state 0x87fff) \<and>
   (\<exists>s'. deallocate (page_addr 0x87ffd) 0 (last_page_state 0x87fff) = Ok () s' \<and> \<not> interrupt_status s')"
proof -
  have b: "first_page \<le> 0x87fff" "0x87fff < end_page" by (simp_all add: first_page_def end_page_def)
  have "valid_block 0 0x87ffd" by (simp add: valid_block_def first_page_def end_page_def)
  moreover have "block 0 0x87ffd \<inter> free_pages (one_page 0x87fff) = {}"
    by (simp add: last_page_ok(3) [OF b] block_def)
  moreover have "interrupt_status (last_page_state 0x87fff)"
    by (simp add: interrupt_status_def sstatus_last_page SSTATUS_SIE_def)
  ultimately show ?thesis
    using deallocate_odd_front_disables_interrupts [OF last_page_ok(1) [OF b] last_page_ok(2) [OF b]]
    by (simp add: one_page_def)
qed

end
