(* ===== verification/Kmalloc.thy ===== *)
theory Kmalloc
  imports Buddy
begin

text \<open>
  The kernel heap of \<open>kernel/mem_manage.c\<close>: \<open>kmalloc\<close> and \<open>kfree\<close> hand out pieces of
  blocks that come from the buddy allocator. A block starts with a \<open>struct block_meta\<close>,
  every piece with a \<open>struct header\<close>; both are read and written at their C offsets.
\<close>

record kheap = buddy +
  block_list_head :: addr
  block_list_tail :: addr

section \<open>Data layout\<close>

text \<open>\<open>struct block_meta { power; count; free; next; prev; }\<close>\<close>

definition bm_power :: uint64 where "bm_power = 0"
definition bm_count :: uint64 where "bm_count = 8"
definition bm_free :: uint64 where "bm_free = 16"
definition bm_next :: uint64 where "bm_next = 24"
definition bm_prev :: uint64 where "bm_prev = 32"
definition sizeof_block_meta :: uint64 where "sizeof_block_meta = 40"

text \<open>\<open>struct header { size; block; }\<close>\<close>

definition hd_size :: uint64 where "hd_size = 0"
definition hd_block :: uint64 where "hd_block = 8"
definition sizeof_header :: uint64 where "sizeof_header = 16"

lemmas heap_layout = bm_power_def bm_count_def bm_free_def bm_next_def bm_prev_def
  sizeof_block_meta_def hd_size_def hd_block_def sizeof_header_def

section \<open>Operations\<close>

definition remained_size :: "addr \<Rightarrow> (uint64, 'z kheap_scheme) run" where
  "remained_size blk =
     bind (get_field blk bm_power) (\<lambda>pwr.
     bind (get_field blk bm_free) (\<lambda>free.
     return (push_bit (unat pwr) PAGE_SIZE - free)))"

definition align :: "uint64 \<Rightarrow> uint64" where
  "align sz = (sz + 7) AND NOT 7"

definition gross_size :: "uint64 \<Rightarrow> uint64" where
  "gross_size sz = align sz + sizeof_header"

definition tail_not_enough :: "uint64 \<Rightarrow> (bool, 'z kheap_scheme) run" where
  "tail_not_enough sz =
     bind (gets block_list_tail) (\<lambda>tl.
     if tl = 0 then return True
     else bind (remained_size tl) (\<lambda>r. return (r < gross_size sz)))"

definition init_block :: "addr \<Rightarrow> uint64 \<Rightarrow> (addr, 'z kheap_scheme) run" where
  "init_block blk pwr =
     (if blk = 0 then return 0
      else
        bind (set_field blk bm_power pwr) (\<lambda>_.
        bind (set_field blk bm_count 0) (\<lambda>_.
        bind (set_field blk bm_free (blk + sizeof_block_meta)) (\<lambda>_.
        bind (set_field blk bm_next 0) (\<lambda>_.
        bind (set_field blk bm_prev 0) (\<lambda>_.
        return blk))))))"

text \<open>\<open>while ((PAGE_SIZE << power) < need_size) power++;\<close>\<close>

partial_function (option) find_power ::
  "uint64 \<Rightarrow> nat \<Rightarrow> 'z kheap_scheme \<Rightarrow> (fault + nat \<times> 'z kheap_scheme) option" where
  "find_power need_size pwr s =
     (if push_bit pwr PAGE_SIZE < need_size then find_power need_size (pwr + 1) s
      else return pwr s)"

text \<open>Linking a fresh block at the end of the block list.\<close>

definition append_block :: "addr \<Rightarrow> (unit, 'z kheap_scheme) run" where
  "append_block blk =
     bind (gets block_list_tail) (\<lambda>tl.
     bind (set_field blk bm_prev tl) (\<lambda>_.
     bind (gets block_list_head) (\<lambda>h.
     if h = 0 then modify (\<lambda>s. s\<lparr>block_list_head := blk, block_list_tail := blk\<rparr>)
     else
       bind (gets block_list_tail) (\<lambda>tl.
       bind (set_field tl bm_next blk) (\<lambda>_.
       bind (set_field blk bm_prev tl) (\<lambda>_.
       modify (\<lambda>s. s\<lparr>block_list_tail := blk\<rparr>)))))))"

text \<open>Taking a piece at the free pointer of the last block.\<close>

definition take_piece :: "uint64 \<Rightarrow> (addr, 'z kheap_scheme) run" where
  "take_piece sz =
     bind (gets block_list_tail) (\<lambda>blk.
     bind (get_field blk bm_free) (\<lambda>hdr.
     bind (get_field blk bm_free) (\<lambda>free.
     bind (set_field blk bm_free (free + gross_size sz)) (\<lambda>_.
     bind (get_field blk bm_count) (\<lambda>count.
     bind (set_field blk bm_count (count + 1)) (\<lambda>_.
     bind (set_field hdr hd_size (align sz)) (\<lambda>_.
     bind (set_field hdr hd_block blk) (\<lambda>_.
     return (hdr + sizeof_header)))))))))"

partial_function (option) kmalloc ::
  "uint64 \<Rightarrow> 'z kheap_scheme \<Rightarrow> (fault + addr \<times> 'z kheap_scheme) option" where
  "kmalloc sz s =
     bind (set_interrupt_status False) (\<lambda>old_interrupt_status.
     bind (tail_not_enough sz) (\<lambda>not_enough.
     if not_enough then
       bind (find_power (sizeof_block_meta + gross_size sz) 0) (\<lambda>pwr.
       bind (allocate pwr) (\<lambda>a.
       bind (init_block a (of_nat pwr)) (\<lambda>blk.
       if blk = 0 then return 0
       else
         bind (append_block blk) (\<lambda>_.
         bind (set_interrupt_status old_interrupt_status) (\<lambda>_.
         kmalloc sz)))))
     else
       bind (take_piece sz) (\<lambda>ret.
       bind (set_interrupt_status old_interrupt_status) (\<lambda>_.
       return ret)))) s"

text \<open>Unlinking a block whose last piece is freed, and giving it back.\<close>

definition remove_block :: "addr \<Rightarrow> (unit, 'z kheap_scheme) run" where
  "remove_block blk =
     bind (gets block_list_head) (\<lambda>h.
     bind (if_then (blk = h) (bind (get_field blk bm_next) (\<lambda>n. modify (\<lambda>s. s\<lparr>block_list_head := n\<rparr>)))) (\<lambda>_.
     bind (gets block_list_tail) (\<lambda>tl.
     bind (if_then (blk = tl) (bind (get_field blk bm_prev) (\<lambda>p. modify (\<lambda>s. s\<lparr>block_list_tail := p\<rparr>)))) (\<lambda>_.
     bind (get_field blk bm_prev) (\<lambda>prev.
     bind (if_then (prev \<noteq> 0) (bind (get_field blk bm_next) (\<lambda>n. set_field prev bm_next n))) (\<lambda>_.
     bind (get_field blk bm_next) (\<lambda>nxt.
     bind (if_then (nxt \<noteq> 0) (bind (get_field blk bm_prev) (\<lambda>p. set_field nxt bm_prev p))) (\<lambda>_.
     bind (get_field blk bm_power) (\<lambda>pwr.
     deallocate blk (unat pwr))))))))))"

definition kfree :: "addr \<Rightarrow> (unit, 'z kheap_scheme) run" where
  "kfree a =
     (if a = 0 then return ()
      else
        bind (set_interrupt_status False) (\<lambda>old_interrupt_status.
        let hdr = a - sizeof_header in
        bind (get_field hdr hd_block) (\<lambda>blk.
        bind (get_field blk bm_count) (\<lambda>count.
        bind (set_field blk bm_count (count - 1)) (\<lambda>_.
        bind (get_field blk bm_count) (\<lambda>count.
        bind (if count = 0 then remove_block blk
              else
                bind (get_field blk bm_free) (\<lambda>free.
                bind (get_field hdr hd_size) (\<lambda>sz.
                if_then (free = a + sz) (set_field blk bm_free (a - sizeof_header))))) (\<lambda>_.
        bind (set_interrupt_status old_interrupt_status) (\<lambda>_.
        return ()))))))))"

lemmas [code] = find_power.simps kmalloc.simps

section \<open>Sizes\<close>

lemma align_unat: "unat sz < 2 ^ 63 \<Longrightarrow> unat (align sz) = (unat sz + 7) div 8 * 8"
proof -
  assume sz: "unat sz < 2 ^ 63"
  have "align sz = (sz + 7) AND NOT (mask 3)" by (simp add: align_def mask_eq_exp_minus_1)
  moreover have "unat (sz + 7) = unat sz + 7" using sz by (subst unat_add_no_overflow) simp_all
  ultimately show ?thesis by (simp add: and_not_mask_unat)
qed

lemma gross_unat: "unat sz < 2 ^ 63 \<Longrightarrow> unat (gross_size sz) = (unat sz + 7) div 8 * 8 + 16"
  unfolding gross_size_def sizeof_header_def
  by (subst unat_add_no_overflow) (simp_all add: align_unat)

section \<open>The heap invariant\<close>

text \<open>
  An abstract heap: no block yet, or the one block at page \<open>p\<close> of order \<open>k\<close> with \<open>n\<close>
  pieces handed out and its first \<open>u\<close> bytes in use.
\<close>

datatype heap = No_block | Block nat nat nat nat

fun heap_repr :: "'z kheap_scheme \<Rightarrow> heap \<Rightarrow> bool" where
  "heap_repr s No_block \<longleftrightarrow> block_list_head s = 0 \<and> block_list_tail s = 0"
| "heap_repr s (Block p k n u) \<longleftrightarrow>
     block_list_head s = page_addr p \<and> block_list_tail s = page_addr p \<and> valid_block k p \<and>
     40 \<le> u \<and> u \<le> 4096 * 2 ^ k \<and> 8 dvd u \<and> n < 2 ^ 63 \<and>
     load64 (mem s) (page_addr p + bm_power) = of_nat k \<and>
     load64 (mem s) (page_addr p + bm_count) = of_nat n \<and>
     load64 (mem s) (page_addr p + bm_free) = page_addr p + of_nat u \<and>
     load64 (mem s) (page_addr p + bm_next) = 0 \<and>
     load64 (mem s) (page_addr p + bm_prev) = 0"

fun heap_pages :: "heap \<Rightarrow> nat set" where
  "heap_pages No_block = {}"
| "heap_pages (Block p k n u) = block k p"

fun heap_live :: "heap \<Rightarrow> bool" where
  "heap_live No_block \<longleftrightarrow> True"
| "heap_live (Block p k n u) \<longleftrightarrow> 0 < n"

definition heap_inv :: "'z kheap_scheme \<Rightarrow> nat set \<Rightarrow> heap \<Rightarrow> bool" where
  "heap_inv s F h \<longleftrightarrow> page_pool s F \<and> heap_repr s h \<and> heap_live h \<and> heap_pages h \<inter> F = {}"

text \<open>A piece of \<open>z\<close> bytes whose header is \<open>v\<close> bytes into the block at page \<open>p\<close>.\<close>

definition piece_at :: "'z kheap_scheme \<Rightarrow> nat \<Rightarrow> nat \<Rightarrow> nat \<Rightarrow> bool" where
  "piece_at s p v z \<longleftrightarrow>
     40 \<le> v \<and> 8 dvd v \<and>
     load64 (mem s) (page_addr p + of_nat v + hd_size) = of_nat z \<and>
     load64 (mem s) (page_addr p + of_nat v + hd_block) = page_addr p"

subsection \<open>Addresses inside a block\<close>

lemma valid_block_bound: "valid_block k p \<Longrightarrow> 0x80000 \<le> p \<and> p + 2 ^ k \<le> 0x88000 \<and> k \<le> 15"
  by (auto simp: valid_block_def first_page_def end_page_def BUDDY_MAX_ORDER_def)

lemma block_bytes: "valid_block k p \<Longrightarrow> u \<le> 4096 * 2 ^ k \<Longrightarrow> 4096 * p + u \<le> 0x88000000 \<and> 0x80000000 \<le> 4096 * p"
  using valid_block_bound [of k p] by simp

lemma unat_in_block:
  "valid_block k p \<Longrightarrow> u \<le> 2 ^ 63 \<Longrightarrow> unat (page_addr p + of_nat u) = 4096 * p + u"
  using valid_block_bound [of k p]
  by (subst unat_add_no_overflow) (simp_all add: unat_page_addr unat_of_nat_64)

lemma in_block_nonzero: "valid_block k p \<Longrightarrow> u \<le> 2 ^ 63 \<Longrightarrow> page_addr p + of_nat u \<noteq> 0"
  using unat_in_block [of k p u] valid_block_bound [of k p] by auto

lemma page_of_in_block:
  assumes "valid_block k p" and "u < 4096 * 2 ^ k"
  shows "page_of (page_addr p + of_nat u) \<in> block k p"
proof -
  have "u \<le> 2 ^ 63" using block_bytes [OF assms(1)] assms(2) by force
  then have "page_of (page_addr p + of_nat u) = p + u div 4096"
    using unat_in_block [OF assms(1)] by (simp add: page_of_def)
  moreover have "u div 4096 < 2 ^ k" using assms(2) by (simp add: less_mult_imp_div_less mult.commute)
  ultimately show ?thesis by (simp add: block_def)
qed

lemma meta_offset_neq:
  "u \<ge> 40 \<Longrightarrow> u < 2 ^ 63 \<Longrightarrow> unat c < 40 \<Longrightarrow> a + of_nat u \<noteq> a + (c :: uint64) \<and> a + of_nat u + 8 \<noteq> a + c"
proof -
  assume u: "u \<ge> 40" "u < 2 ^ 63" and c: "unat c < 40"
  have eq: "a + of_nat u + 8 = a + (of_nat (u + 8) :: uint64)" by simp
  have "unat (of_nat u :: uint64) = u" "unat (of_nat (u + 8) :: uint64) = u + 8"
    using u by (auto intro!: unat_of_nat_64 simp del: of_nat_add)
  with u c show ?thesis unfolding eq add_left_cancel by (metis add_lessD1 not_le)
qed

section \<open>Taking a piece\<close>

definition piece_mem :: "memory \<Rightarrow> addr \<Rightarrow> addr \<Rightarrow> uint64 \<Rightarrow> uint64 \<Rightarrow> memory" where
  "piece_mem m b f sz c =
     store64 (store64 (store64 (store64 m (b + bm_free) (f + gross_size sz)) (b + bm_count) (c + 1))
       (f + hd_size) (align sz)) (f + hd_block) b"

lemma piece_mem_load:
  assumes "aligned8 b" and "8 dvd u" and "40 \<le> u" and "u < 2 ^ 63"
  shows "load64 (piece_mem m b (b + of_nat u) sz c) (b + bm_count) = c + 1"
    and "load64 (piece_mem m b (b + of_nat u) sz c) (b + bm_free) = b + of_nat u + gross_size sz"
    and "load64 (piece_mem m b (b + of_nat u) sz c) (b + bm_power) = load64 m (b + bm_power)"
    and "load64 (piece_mem m b (b + of_nat u) sz c) (b + bm_next) = load64 m (b + bm_next)"
    and "load64 (piece_mem m b (b + of_nat u) sz c) (b + bm_prev) = load64 m (b + bm_prev)"
    and "load64 (piece_mem m b (b + of_nat u) sz c) (b + of_nat u + hd_size) = align sz"
    and "load64 (piece_mem m b (b + of_nat u) sz c) (b + of_nat u + hd_block) = b"
proof -
  have al: "aligned8 (of_nat u)" using assms(2) by (rule aligned8_of_nat)
  have ne: "b + of_nat u \<noteq> b + v" "b + of_nat u + 8 \<noteq> b + v" if "unat v < 40" for v
    using meta_offset_neq [OF assms(3,4) that] by auto
  have ne0: "of_nat u \<noteq> (0 :: uint64)" "b + of_nat u + 8 \<noteq> b" using ne [of 0] by auto
  note rules = piece_mem_def heap_layout load64_store64 al assms(1) ne ne0 ne [symmetric] ne0 [symmetric]
  show "load64 (piece_mem m b (b + of_nat u) sz c) (b + bm_count) = c + 1"
    using ne [of 8] by (simp add: rules)
  show "load64 (piece_mem m b (b + of_nat u) sz c) (b + bm_free) = b + of_nat u + gross_size sz"
    using ne [of 16] by (simp add: rules)
  show "load64 (piece_mem m b (b + of_nat u) sz c) (b + bm_power) = load64 m (b + bm_power)"
    by (simp add: rules)
  show "load64 (piece_mem m b (b + of_nat u) sz c) (b + bm_next) = load64 m (b + bm_next)"
    using ne [of 24] by (simp add: rules)
  show "load64 (piece_mem m b (b + of_nat u) sz c) (b + bm_prev) = load64 m (b + bm_prev)"
    using ne [of 32] by (simp add: rules)
  show "load64 (piece_mem m b (b + of_nat u) sz c) (b + of_nat u + hd_size) = align sz"
    by (simp add: rules)
  show "load64 (piece_mem m b (b + of_nat u) sz c) (b + of_nat u + hd_block) = b"
    by (simp add: rules)
qed

text \<open>Only the count and free fields and the new header are written.\<close>

lemma piece_mem_outside:
  assumes "valid_block k p" and "u < 2 ^ 62"
    and "unat x < 4096 * p + 8 \<or> 4096 * p + 24 \<le> unat x" and "unat x < 4096 * p + u \<or> 4096 * p + u + 16 \<le> unat x"
  shows "piece_mem m (page_addr p) (page_addr p + of_nat u) sz c x = m x"
proof -
  have at: "unat (page_addr p + of_nat v) = 4096 * p + v" "4096 * p + v + 8 \<le> 2 ^ 64" if "v \<le> u + 8 \<or> v \<le> 16" for v
    using that assms(2) unat_in_block [OF assms(1)] valid_block_bound [OF assms(1)] by auto
  have eq: "page_addr p + of_nat u + 8 = page_addr p + of_nat (u + 8)"
    "page_addr p + 8 = page_addr p + of_nat 8" "page_addr p + 16 = page_addr p + of_nat 16" by simp_all
  have "store64 m' (page_addr p + of_nat v) w x = m' x"
    if "v \<in> {8, 16, u, u + 8}" for m' w v
    using that at [of v] assms(3,4) by (intro store64_outside) auto
  then show ?thesis unfolding piece_mem_def heap_layout add_0_right eq by (simp only: insert_iff simp_thms)
qed

lemma take_piece_ok:
  assumes "heap_repr s (Block p k n u)"
  shows "take_piece sz s = Ok (page_addr p + of_nat (u + 16))
    (s\<lparr>mem := piece_mem (mem s) (page_addr p) (page_addr p + of_nat u) sz (of_nat n)\<rparr>)"
proof -
  from assms have v: "valid_block k p" and u: "u \<le> 2 ^ 63"
    using block_bytes [of k p u] by auto
  have nz: "page_addr p \<noteq> 0" "page_addr p + of_nat u \<noteq> 0"
    using valid_addr_nonzero [OF v] in_block_nonzero [OF v u] by auto
  with assms show ?thesis
    by (simp add: take_piece_def run_simps piece_mem_def heap_layout load64_store64)
qed

lemma remained_size_wraps:
  assumes "heap_repr s (Block p k n u)" and "unat sz < 2 ^ 63"
  shows "tail_not_enough sz s = Ok False s"
proof -
  from assms(1) have v: "valid_block k p" and b: "u \<le> 4096 * 2 ^ k" "u \<le> 2 ^ 63"
    using block_bytes [of k p u] by auto
  note nz = valid_addr_nonzero [OF v] and bd = valid_block_bound [OF v] and bb = block_bytes [OF v b(1)]
  have k: "unat (of_nat k :: uint64) = k" using bd by (simp add: unat_of_nat_64)
  have "(2 :: nat) ^ k < 2 ^ 52" using power_strict_increasing [of k 52 "2 :: nat"] bd by simp
  then have pk: "unat (push_bit k PAGE_SIZE) = 4096 * 2 ^ k"
    by (simp only: page_addr_pow [symmetric] unat_page_addr)
  have "(2 :: nat) ^ k \<le> 2 ^ 15" using bd by (intro power_increasing) simp_all
  then have "unat (push_bit k PAGE_SIZE - (page_addr p + of_nat u)) \<ge> 2 ^ 63 + 2 ^ 62"
    using bb unfolding unat_diff_64 pk unat_in_block [OF v b(2)] by (auto split: if_split)
  moreover have "unat (gross_size sz) < 2 ^ 63 + 2 ^ 62" using assms(2) by (simp add: gross_unat)
  ultimately have "\<not> push_bit k PAGE_SIZE - (page_addr p + of_nat u) < gross_size sz"
    by (simp add: word_less_nat_alt)
  with assms(1) nz k show ?thesis
    by (simp add: tail_not_enough_def remained_size_def run_simps)
qed

lemma kmalloc_block:
  assumes "heap_repr s (Block p k n u)" and "unat sz < 2 ^ 63"
  shows "kmalloc sz s = Ok (page_addr p + of_nat (u + 16))
    (s\<lparr>mem := piece_mem (mem s) (page_addr p) (page_addr p + of_nat u) sz (of_nat n)\<rparr>)"
proof -
  let ?t = "irq_off s"
  have h: "heap_repr ?t (Block p k n u)" using assms(1) by simp
  have r: "bind (tail_not_enough sz) c ?t = c False ?t" for c :: "bool \<Rightarrow> (addr, 'a kheap_scheme) run"
    using remained_size_wraps [OF h assms(2)] by (rule bind_Ok)
  have t: "bind (take_piece sz) c ?t = c (page_addr p + of_nat (u + 16))
      (?t\<lparr>mem := piece_mem (mem s) (page_addr p) (page_addr p + of_nat u) sz (of_nat n)\<rparr>)"
    for c :: "addr \<Rightarrow> (addr, 'a kheap_scheme) run"
    using take_piece_ok [OF h] by (intro bind_Ok) simp
  show ?thesis
    by (subst kmalloc.simps)
      (simp add: bind_Ok [OF set_interrupt_off] r t bind_restore_interrupts return_def)
qed

lemma store_in_block:
  assumes "valid_block k p" and "page_of x \<notin> block k p" and "v + 8 \<le> 4096 * 2 ^ k"
  shows "store64 m (page_addr p + of_nat v) w x = m x"
proof (rule store64_outside)
  have v: "v \<le> 2 ^ 63" and top: "4096 * p + v + 8 \<le> 0x88000000"
    using block_bytes [OF assms(1), of "v + 8"] assms(3) by auto
  note at = unat_in_block [OF assms(1) v]
  have "unat x < 4096 * p \<or> 4096 * (p + 2 ^ k) \<le> unat x"
  proof (rule ccontr)
    assume "\<not> ?thesis"
    then have "4096 * p \<le> unat x" "unat x < 4096 * (p + 2 ^ k)" by auto
    then have "p \<le> unat x div 4096" "unat x div 4096 < p + 2 ^ k"
      by (simp_all add: less_eq_div_iff_mult_less_eq less_mult_imp_div_less mult.commute)
    with assms(2) show False by (simp add: page_of_def block_def)
  qed
  then show "unat x < unat (page_addr p + of_nat v) \<or> unat (page_addr p + of_nat v) + 8 \<le> unat x"
    using assms(3) at by auto
  show "unat (page_addr p + of_nat v) + 8 \<le> 2 ^ 64" using at top by simp
qed

lemma piece_mem_other_page:
  assumes v: "valid_block k p" and "u + 16 \<le> 4096 * 2 ^ k" and x: "page_of x \<notin> block k p"
  shows "piece_mem m (page_addr p) (page_addr p + of_nat u) sz c x = m x"
proof -
  have eq: "page_addr p + of_nat u + 8 = page_addr p + of_nat (u + 8)"
    "page_addr p + 8 = page_addr p + of_nat 8" "page_addr p + 16 = page_addr p + of_nat 16" by simp_all
  have "(24 :: nat) \<le> 4096 * 2 ^ k" by (rule order_trans [of _ "4096 * 1"]) simp_all
  then have "store64 m' (page_addr p + of_nat w) y x = m' x" if "w \<in> {8, 16, u, u + 8}" for m' w y
    using that assms(2) by (intro store_in_block [OF v x]) auto
  then show ?thesis unfolding piece_mem_def heap_layout add_0_right eq by (simp only: insert_iff simp_thms)
qed

text \<open>A piece that fits keeps the invariant.\<close>

lemma kmalloc_fits:
  assumes inv: "heap_inv s F (Block p k n u)" and sz: "unat sz < 2 ^ 63"
    and fits: "u + unat (gross_size sz) \<le> 4096 * 2 ^ k" and n: "n + 1 < 2 ^ 63"
  shows "\<exists>s'. kmalloc sz s = Ok (page_addr p + of_nat (u + 16)) s' \<and>
    heap_inv s' F (Block p k (n + 1) (u + unat (gross_size sz))) \<and> piece_at s' p u (unat (align sz)) \<and>
    sstatus s' = sstatus s \<and> space s' = space s \<and> kheap.more s' = kheap.more s \<and>
    (\<forall>x. (unat x < 4096 * p + 8 \<or> 4096 * p + 24 \<le> unat x) \<longrightarrow>
       (unat x < 4096 * p + u \<or> 4096 * p + u + 16 \<le> unat x) \<longrightarrow> mem s' x = mem s x)"
proof -
  from inv have repr: "heap_repr s (Block p k n u)" and pool: "page_pool s F" and dis: "block k p \<inter> F = {}"
    and pos: "0 < n" by (auto simp: heap_inv_def)
  from repr have v: "valid_block k p" and u: "40 \<le> u" "8 dvd u" "u \<le> 4096 * 2 ^ k" by auto
  let ?m = "piece_mem (mem s) (page_addr p) (page_addr p + of_nat u) sz (of_nat n)"
  let ?s = "s\<lparr>mem := ?m\<rparr>"
  have u63: "u < 2 ^ 62" using block_bytes [OF v u(3)] by auto
  then have u63': "u < 2 ^ 63" by simp
  note g = gross_unat [OF sz]
  have gdvd: "8 dvd unat (gross_size sz)" and g16: "16 \<le> unat (gross_size sz)" using g by auto
  note load = piece_mem_load [OF aligned8_page_addr u(2,1) u63']
  have "page_pool ?s F"
    using pool fits g16 dis by (rule_tac page_pool_cong [OF pool]) (auto intro!: piece_mem_other_page [OF v])
  moreover have "heap_repr ?s (Block p k (n + 1) (u + unat (gross_size sz)))"
    using repr u gdvd fits n by (simp add: load)
  ultimately have "heap_inv ?s F (Block p k (n + 1) (u + unat (gross_size sz)))"
    using dis by (simp add: heap_inv_def)
  moreover have "piece_at ?s p u (unat (align sz))" using u by (simp add: piece_at_def load)
  moreover have "\<forall>x. (unat x < 4096 * p + 8 \<or> 4096 * p + 24 \<le> unat x) \<longrightarrow>
       (unat x < 4096 * p + u \<or> 4096 * p + u + 16 \<le> unat x) \<longrightarrow> ?m x = mem s x"
    using piece_mem_outside [OF v u63] by blast
  ultimately show ?thesis using kmalloc_block [OF repr sz] by auto
qed

section \<open>The first block\<close>

text \<open>The smallest order whose blocks have room for \<open>need\<close> bytes.\<close>

definition fitting_order :: "nat \<Rightarrow> nat \<Rightarrow> bool" where
  "fitting_order need k \<longleftrightarrow> need \<le> 4096 * 2 ^ k \<and> (\<forall>j<k. 4096 * 2 ^ j < need)"

lemma unat_page_shift: "k \<le> 51 \<Longrightarrow> unat (push_bit k PAGE_SIZE) = 4096 * 2 ^ k"
proof -
  assume "k \<le> 51"
  then have "(2 :: nat) ^ k < 2 ^ 52" by (intro power_strict_increasing) simp_all
  then show ?thesis by (simp only: page_addr_pow [symmetric] unat_page_addr)
qed

lemma find_power_ok:
  assumes "fitting_order (unat need) k" and "k \<le> 51"
  shows "find_power need 0 s = Ok k s"
proof -
  have "find_power need j s = Ok k s" if "j \<le> k" for j
    using that
  proof (induction rule: inc_induct)
    case base
    have "\<not> push_bit k PAGE_SIZE < need"
      using assms by (simp add: fitting_order_def word_less_nat_alt unat_page_shift)
    then show ?case by (simp add: find_power.simps return_def)
  next
    case (step j)
    then have "push_bit j PAGE_SIZE < need"
      using assms by (simp add: fitting_order_def word_less_nat_alt unat_page_shift)
    with step.IH show ?case by (subst find_power.simps) simp
  qed
  then show ?thesis by blast
qed

lemma fitting_order_exists:
  assumes "need \<le> 2 ^ 63"
  obtains k where "fitting_order need k" and "k \<le> 51"
proof -
  let ?P = "\<lambda>k. need \<le> 4096 * 2 ^ k"
  have P: "?P 51" using assms by simp
  have "?P (LEAST k. ?P k)" using P by (rule LeastI)
  moreover have "\<forall>j<(LEAST k. ?P k). 4096 * 2 ^ j < need" using not_less_Least by fastforce
  moreover have "(LEAST k. ?P k) \<le> 51" using P by (rule Least_le)
  ultimately show thesis by (intro that) (simp_all add: fitting_order_def)
qed

text \<open>The memory of a fresh block, linked as the only one.\<close>

definition fresh_mem :: "memory \<Rightarrow> addr \<Rightarrow> uint64 \<Rightarrow> memory" where
  "fresh_mem m b pwr =
     store64 (store64 (store64 (store64 (store64 (store64 m (b + bm_power) pwr) (b + bm_count) 0)
       (b + bm_free) (b + sizeof_block_meta)) (b + bm_next) 0) (b + bm_prev) 0) (b + bm_prev) 0"

lemma fresh_mem_load:
  assumes "aligned8 b"
  shows "load64 (fresh_mem m b pwr) (b + bm_power) = pwr"
    and "load64 (fresh_mem m b pwr) (b + bm_count) = 0"
    and "load64 (fresh_mem m b pwr) (b + bm_free) = b + sizeof_block_meta"
    and "load64 (fresh_mem m b pwr) (b + bm_next) = 0"
    and "load64 (fresh_mem m b pwr) (b + bm_prev) = 0"
  using assms by (simp_all add: fresh_mem_def heap_layout load64_store64)

lemma fresh_mem_other_page:
  assumes v: "valid_block k p" and x: "page_of x \<notin> block k p"
  shows "fresh_mem m (page_addr p) pwr x = m x"
proof -
  have eq: "page_addr p = page_addr p + of_nat 0" "page_addr p + 8 = page_addr p + of_nat 8"
    "page_addr p + 16 = page_addr p + of_nat 16" "page_addr p + 24 = page_addr p + of_nat 24"
    "page_addr p + 32 = page_addr p + of_nat 32" by simp_all
  have "(40 :: nat) \<le> 4096 * 2 ^ k" by (rule order_trans [of _ "4096 * 1"]) simp_all
  then have st: "store64 m' (page_addr p + of_nat w) y x = m' x" if "w \<in> {0, 8, 16, 24, 32}" for m' w y
    using that by (intro store_in_block [OF v x]) auto
  have st0: "store64 m' (page_addr p) y x = m' x" for m' y using st [of 0 m' y] by simp
  show ?thesis unfolding fresh_mem_def heap_layout add_0_right eq(2-)
    by (simp only: st st0 insert_iff simp_thms)
qed

lemma fresh_block:
  assumes "block_list_head s = 0" and "block_list_tail s = 0" and "page_addr p \<noteq> 0"
  shows "bind (init_block (page_addr p) pwr) (\<lambda>blk. if blk = 0 then c blk
      else bind (append_block blk) (\<lambda>_. d)) s =
    d (s\<lparr>mem := fresh_mem (mem s) (page_addr p) pwr,
         block_list_head := page_addr p, block_list_tail := page_addr p\<rparr>)"
  using assms by (simp add: init_block_def append_block_def fresh_mem_def run_simps)

lemma heads_of_more:
  "buddy.more t = buddy.more s \<Longrightarrow> block_list_head t = block_list_head s \<and>
    block_list_tail t = block_list_tail s \<and> kheap.more t = kheap.more s"
  by (cases t; cases s) simp

lemma fitting_order_unique: "fitting_order n j \<Longrightarrow> fitting_order n k \<Longrightarrow> j = k"
  unfolding fitting_order_def by (metis leD linorder_neqE_nat)

text \<open>With no block, \<open>kmalloc\<close> asks the buddy allocator for the smallest block that fits.\<close>

lemma kmalloc_start:
  assumes hd: "block_list_tail s = 0" and sz: "unat sz < 2 ^ 62"
    and k: "fitting_order (40 + unat (gross_size sz)) k"
  shows "kmalloc sz s =
    bind (allocate k) (\<lambda>a.
    bind (init_block a (of_nat k)) (\<lambda>blk.
    if blk = 0 then return 0
    else bind (append_block blk) (\<lambda>_.
      bind (set_interrupt_status (interrupt_status s)) (\<lambda>_. kmalloc sz)))) (irq_off s)"
proof -
  have g: "unat (gross_size sz) = (unat sz + 7) div 8 * 8 + 16" using sz by (intro gross_unat) simp
  have "40 + unat (gross_size sz) \<le> 2 ^ 63" using g sz by simp
  then obtain j where "fitting_order (40 + unat (gross_size sz)) j" "j \<le> 51" by (rule fitting_order_exists)
  with k have "k \<le> 51" using fitting_order_unique by blast
  moreover have "unat (sizeof_block_meta + gross_size sz) = 40 + unat (gross_size sz)"
    using g sz by (subst unat_add_no_overflow) (simp_all add: sizeof_block_meta_def)
  ultimately have fp: "bind (find_power (sizeof_block_meta + gross_size sz) 0) c (irq_off s) = c k (irq_off s)"
    for c :: "nat \<Rightarrow> (addr, 'a kheap_scheme) run"
    using k by (intro bind_Ok find_power_ok) simp_all
  have tn: "bind (tail_not_enough sz) c (irq_off s) = c True (irq_off s)"
    for c :: "bool \<Rightarrow> (addr, 'a kheap_scheme) run"
    using hd by (simp add: tail_not_enough_def run_simps)
  show ?thesis by (subst kmalloc.simps) (simp add: bind_Ok [OF set_interrupt_off] tn fp)
qed

lemma kmalloc_no_room:
  assumes inv: "heap_inv s F No_block" and sz: "unat sz < 2 ^ 62"
    and k: "fitting_order (40 + unat (gross_size sz)) k" "\<nexists>q. 2 ^ k dvd q \<and> block k q \<subseteq> F"
  shows "kmalloc sz s = Ok 0 (irq_off s)"
proof -
  have pool: "page_pool (irq_off s) F" and hd: "block_list_tail s = 0"
    using inv by (auto simp: heap_inv_def page_pool_def)
  have "bind (allocate k) c (irq_off s) = c 0 (irq_off s)" for c :: "addr \<Rightarrow> (addr, 'a kheap_scheme) run"
    using page_pool_alloc_fails [OF pool k(2)] by (rule bind_Ok)
  then show ?thesis by (simp add: kmalloc_start [OF hd sz k(1)] init_block_def return_def)
qed

lemma kmalloc_first:
  assumes inv: "heap_inv s F No_block" and sz: "unat sz < 2 ^ 62"
    and k: "fitting_order (40 + unat (gross_size sz)) k" "\<exists>q. 2 ^ k dvd q \<and> block k q \<subseteq> F"
  shows "\<exists>p s'. kmalloc sz s = Ok (page_addr p + of_nat 56) s' \<and> block k p \<subseteq> F \<and>
    heap_inv s' (F - block k p) (Block p k 1 (40 + unat (gross_size sz))) \<and>
    piece_at s' p 40 (unat (align sz)) \<and> sstatus s' = sstatus s \<and> kheap.more s' = kheap.more s \<and>
    (\<forall>x. page_of x \<notin> F \<longrightarrow> mem s' x = mem s x)"
proof -
  have sz': "unat sz < 2 ^ 63" using sz by simp
  note g = gross_unat [OF sz']
  have pool: "page_pool (irq_off s) F" and hd: "block_list_head s = 0" "block_list_tail s = 0"
    using inv by (auto simp: heap_inv_def page_pool_def)
  obtain p t where t: "allocate k (irq_off s) = Ok (page_addr p) t" and v: "valid_block k p"
    and sub: "block k p \<subseteq> F" and pt: "page_pool t (F - block k p)" and fr: "frame (F - block k p) (irq_off s) t"
    and st: "sstatus t = sstatus (irq_off s)"
    using page_pool_alloc [OF pool k(2)] by blast
  have more: "buddy.more t = buddy.more s" and memt: "\<And>x. page_of x \<notin> F - block k p \<Longrightarrow> mem t x = mem s x"
    using fr by (auto simp: frame_def)
  have hdt: "block_list_head t = 0" "block_list_tail t = 0" "kheap.more t = kheap.more s"
    using hd heads_of_more [OF more] by simp_all
  let ?m = "fresh_mem (mem t) (page_addr p) (of_nat k)"
  let ?t = "t\<lparr>mem := ?m, block_list_head := page_addr p, block_list_tail := page_addr p, sstatus := sstatus s\<rparr>"
  have ak: "bind (allocate k) c (irq_off s) = c (page_addr p) t" for c :: "addr \<Rightarrow> (addr, 'a kheap_scheme) run"
    using t by (rule bind_Ok)
  have start: "kmalloc sz s = kmalloc sz ?t"
    using st by (subst kmalloc_start [OF hd(2) sz k(1)])
      (simp add: ak fresh_block [OF hdt(1,2) valid_addr_nonzero [OF v]] bind_restore_interrupts)
  have need: "40 + unat (gross_size sz) \<le> 4096 * 2 ^ k" using k(1) by (simp add: fitting_order_def)
  then have repr: "heap_repr ?t (Block p k 0 40)"
    using v by (simp add: fresh_mem_load) (simp add: sizeof_block_meta_def)
  let ?u = "?t\<lparr>mem := piece_mem ?m (page_addr p) (page_addr p + of_nat 40) sz (of_nat 0)\<rparr>"
  have eq: "kmalloc sz s = Ok (page_addr p + of_nat (40 + 16)) ?u"
    using start kmalloc_block [OF repr sz'] by simp
  have fits: "40 + 16 \<le> 4096 * (2 :: nat) ^ k" using need g by linarith
  have mem: "mem ?u x = mem t x" if "page_of x \<notin> block k p" for x
    using piece_mem_other_page [OF v fits that] fresh_mem_other_page [OF v that] by simp
  then have "page_pool ?u (F - block k p)" by (intro page_pool_cong [OF pt]) auto
  moreover have pc: "piece_at ?u p 40 (unat (align sz))"
    using piece_mem_load(6,7) [OF aligned8_page_addr, of 40 ?m p sz 0] by (simp add: piece_at_def)
  moreover have "heap_repr ?u (Block p k 1 (40 + unat (gross_size sz)))"
  proof -
    have "8 dvd (40 :: nat)" "8 dvd unat (gross_size sz)" using g by auto
    with repr need piece_mem_load [OF aligned8_page_addr, of 40 ?m p sz 0] show ?thesis by simp
  qed
  ultimately have "heap_inv ?u (F - block k p) (Block p k 1 (40 + unat (gross_size sz)))"
    by (auto simp: heap_inv_def)
  moreover have "\<forall>x. page_of x \<notin> F \<longrightarrow> mem ?u x = mem s x"
  proof (intro allI impI)
    fix x assume "page_of x \<notin> F"
    then have "page_of x \<notin> block k p" "page_of x \<notin> F - block k p" using sub by auto
    with mem memt show "mem ?u x = mem s x" by (rule_tac trans)
  qed
  moreover have "kheap.more ?u = kheap.more s" "sstatus ?u = sstatus s" using hdt(3) by simp_all
  ultimately show ?thesis using eq sub pc by (intro exI [of _ p] exI [of _ ?u]) simp
qed

section \<open>Freeing a piece\<close>

lemma piece_addr:
  assumes "valid_block k p" and "v + 16 \<le> 4096 * 2 ^ k"
  shows "page_addr p + of_nat (v + 16) - sizeof_header = page_addr p + of_nat v"
    and "page_addr p + of_nat (v + 16) \<noteq> 0" and "page_addr p + of_nat v \<noteq> 0"
proof -
  have "v + 16 \<le> 2 ^ 63" using block_bytes [OF assms] by simp
  then show "page_addr p + of_nat (v + 16) \<noteq> 0" "page_addr p + of_nat v \<noteq> 0"
    by (auto intro!: in_block_nonzero [OF assms(1)] simp del: of_nat_add)
qed (simp add: sizeof_header_def)

text \<open>The state of the count field while a piece is freed.\<close>

abbreviation uncounted :: "'z kheap_scheme \<Rightarrow> nat \<Rightarrow> nat \<Rightarrow> 'z kheap_scheme" where
  "uncounted s p n \<equiv> s\<lparr>mem := store64 (mem s) (page_addr p + bm_count) (of_nat n - 1)\<rparr>"

lemma kfree_start:
  assumes repr: "heap_repr s (Block p k n u)" and pc: "piece_at s p v z" and le: "v + 16 \<le> 4096 * 2 ^ k"
  shows "kfree (page_addr p + of_nat (v + 16)) s =
    bind (if of_nat n - 1 = (0 :: uint64) then remove_block (page_addr p)
          else if_then (page_addr p + of_nat u = page_addr p + of_nat (v + 16) + of_nat z)
                 (set_field (page_addr p) bm_free (page_addr p + of_nat v))) (\<lambda>_.
    bind (set_interrupt_status (interrupt_status s)) (\<lambda>_. return ())) (uncounted (irq_off s) p n)"
proof -
  from repr have v: "valid_block k p" by simp
  note addr = piece_addr [OF v le] and nz = valid_addr_nonzero [OF v]
  have "v < 2 ^ 63" using block_bytes [OF v le] by simp
  then have ne: "page_addr p + of_nat v \<noteq> page_addr p + 8" "page_addr p + 8 \<noteq> page_addr p + of_nat v"
    using meta_offset_neq [of v 8 "page_addr p"] pc by (auto simp: piece_at_def)
  have al: "aligned8 (of_nat v)" using pc by (auto simp: piece_at_def intro: aligned8_of_nat)
  have hdr: "load64 (mem s) (page_addr p + of_nat v) = of_nat z"
    "load64 (mem s) (page_addr p + of_nat v + 8) = page_addr p"
    using pc by (simp_all add: piece_at_def heap_layout)
  have flds: "load64 (mem s) (page_addr p + 8) = of_nat n"
    "load64 (mem s) (page_addr p + 16) = page_addr p + of_nat u"
    using repr by (simp_all add: heap_layout)
  have a: "page_addr p + of_nat (v + 16) - 16 = page_addr p + of_nat v" by simp
  show ?thesis
    unfolding kfree_def Let_def heap_layout a
    using addr(2,3) nz ne al
    by (simp add: bind_Ok [OF set_interrupt_off] run_simps hdr flds load64_store64 del: of_nat_add)
qed

lemma kfree_piece:
  assumes inv: "heap_inv s F (Block p k n u)" and pc: "piece_at s p v z"
    and fits: "v + 16 + z \<le> u" and n: "1 < n"
  shows "\<exists>s'. kfree (page_addr p + of_nat (v + 16)) s = Ok () s' \<and>
    heap_inv s' F (Block p k (n - 1) (if u = v + 16 + z then v else u)) \<and> sstatus s' = sstatus s \<and>
    space s' = space s \<and> kheap.more s' = kheap.more s \<and>
    (\<forall>x. (unat x < 4096 * p + 8 \<or> 4096 * p + 24 \<le> unat x) \<longrightarrow> mem s' x = mem s x)"
proof -
  from inv have repr: "heap_repr s (Block p k n u)" and pool: "page_pool s F" and dis: "block k p \<inter> F = {}"
    by (auto simp: heap_inv_def)
  from repr have v: "valid_block k p" and u: "u \<le> 4096 * 2 ^ k" and nb: "n < 2 ^ 63" by auto
  note nz = valid_addr_nonzero [OF v]
  have n1: "of_nat n - 1 = (of_nat (n - 1) :: uint64)" using n by (simp add: of_nat_diff)
  have n0: "(of_nat (n - 1) :: uint64) \<noteq> 0"
    using n nb of_nat_64_inj [of "n - 1" 0] by simp
  have u64: "u < 2 ^ 64" using block_bytes [OF v u] by simp
  have "page_addr p + of_nat u = page_addr p + of_nat (v + 16) + of_nat z \<longleftrightarrow>
      (of_nat u :: uint64) = of_nat (v + 16 + z)" by (simp add: add.assoc)
  also have "\<dots> \<longleftrightarrow> u = v + 16 + z" using u64 fits by (intro of_nat_64_inj) auto
  finally have at_end: "page_addr p + of_nat u = page_addr p + of_nat (v + 16) + of_nat z \<longleftrightarrow> u = v + 16 + z" .
  let ?f = "if u = v + 16 + z then v else u"
  let ?m = "store64 (mem s) (page_addr p + bm_count) (of_nat (n - 1))"
  let ?m' = "if u = v + 16 + z then store64 ?m (page_addr p + bm_free) (page_addr p + of_nat v) else ?m"
  have "kfree (page_addr p + of_nat (v + 16)) s = Ok () (s\<lparr>mem := ?m'\<rparr>)"
    using fits u by (subst kfree_start [OF repr pc])
      (simp_all only: n1 n0 if_False at_end, simp_all add: run_simps nz bind_restore_interrupts)
  moreover have "heap_repr (s\<lparr>mem := ?m'\<rparr>) (Block p k (n - 1) ?f)"
    using repr pc fits by (simp add: heap_layout load64_store64 piece_at_def less_imp_diff_less)
  moreover have outside: "?m' x = mem s x" if "unat x < 4096 * p + 8 \<or> 4096 * p + 24 \<le> unat x" for x
  proof -
    have at: "unat (page_addr p + of_nat w) = 4096 * p + w" if "w \<le> 16" for w
      using that by (intro unat_in_block [OF v]) simp
    have "store64 m (page_addr p + of_nat w) y x = m x" if "w = 8 \<or> w = 16" for m w y
      using that \<open>unat x < _ \<or> _\<close> at [of w] valid_block_bound [OF v] by (intro store64_outside) auto
    from this [of 8] this [of 16] show ?thesis by (simp add: heap_layout)
  qed
  moreover have "page_pool (s\<lparr>mem := ?m'\<rparr>) F"
  proof (rule page_pool_cong [OF pool])
    fix x assume x: "page_of x \<in> F"
    have "unat x < 4096 * p + 8 \<or> 4096 * p + 24 \<le> unat x"
    proof (rule ccontr)
      assume "\<not> ?thesis"
      then have "page_of x = p" by (auto simp: page_of_def)
      with x dis mem_block_self [of p k] show False by blast
    qed
    then show "mem (s\<lparr>mem := ?m'\<rparr>) x = mem s x" using outside by simp
  qed simp
  ultimately show ?thesis using n dis by (intro exI [of _ "s\<lparr>mem := ?m'\<rparr>"]) (auto simp: heap_inv_def)
qed

lemma kfree_last:
  assumes inv: "heap_inv s F (Block p k 1 u)" and pc: "piece_at s p v z" and fits: "v + 16 \<le> 4096 * 2 ^ k"
  shows "\<exists>s'. kfree (page_addr p + of_nat (v + 16)) s = Ok () s' \<and> heap_inv s' (F \<union> block k p) No_block \<and>
    sstatus s' = sstatus s \<and> kheap.more s' = kheap.more s \<and>
    (\<forall>x. page_of x \<notin> F \<union> block k p \<longrightarrow> mem s' x = mem s x)"
proof -
  from inv have repr: "heap_repr s (Block p k 1 u)" and pool: "page_pool s F" and dis: "block k p \<inter> F = {}"
    by (auto simp: heap_inv_def)
  from repr have v: "valid_block k p" by simp
  note nz = valid_addr_nonzero [OF v]
  let ?m = "store64 (mem s) (page_addr p + bm_count) 0"
  let ?t = "irq_off s\<lparr>mem := ?m, block_list_head := 0, block_list_tail := 0\<rparr>"
  have "bm_count = of_nat 8" by (simp add: bm_count_def)
  moreover have "(16 :: nat) \<le> 4096 * 2 ^ k" by (rule order_trans [of _ "4096 * 1"]) simp_all
  ultimately have mem: "?m x = mem s x" if "page_of x \<notin> block k p" for x
    using store_in_block [OF v that, of 8] by simp
  have "page_pool ?t F" using dis mem by (intro page_pool_cong [OF pool]) auto
  then obtain t where t: "deallocate (page_addr p) k ?t = Ok () t" "page_pool t (F \<union> block k p)"
      "frame (F \<union> block k p) ?t t" "sstatus t = sstatus ?t \<or> sstatus t = sstatus ?t AND NOT SSTATUS_SIE"
    using page_pool_release [OF _ v dis] by blast
  have k: "unat (of_nat k :: uint64) = k" using valid_block_bound [OF v] by (simp add: unat_of_nat_64)
  have dk: "bind (deallocate (page_addr p) k) c ?t = c () t" for c :: "unit \<Rightarrow> (unit, 'a kheap_scheme) run"
    using t(1) by (rule bind_Ok)
  have st: "sstatus t = sstatus s AND NOT SSTATUS_SIE" using t(4) by auto
  have rm: "bind (remove_block (page_addr p)) c (uncounted (irq_off s) p 1) = c () t"
    for c :: "unit \<Rightarrow> (unit, 'a kheap_scheme) run"
    using repr nz k dk by (simp add: remove_block_def run_simps heap_layout load64_store64)
  let ?s = "t\<lparr>sstatus := sstatus s\<rparr>"
  have "kfree (page_addr p + of_nat (v + 16)) s = Ok () ?s"
    using st rm by (subst kfree_start [OF repr pc fits]) (simp add: bind_restore_interrupts return_def)
  moreover have "buddy.more t = buddy.more ?t" "\<And>x. page_of x \<notin> F \<union> block k p \<Longrightarrow> mem t x = ?m x"
    using t(3) by (auto simp: frame_def)
  then have "block_list_head t = 0" "block_list_tail t = 0" "kheap.more t = kheap.more s"
      "\<And>x. page_of x \<notin> F \<union> block k p \<Longrightarrow> mem t x = mem s x"
    using heads_of_more [of t ?t] mem by auto
  moreover have "page_pool ?s (F \<union> block k p)" using t(2) by (simp add: page_pool_def)
  ultimately show ?thesis by (intro exI [of _ ?s]) (auto simp: heap_inv_def)
qed

section \<open>Properties\<close>

text \<open>
  \<open>kmalloc\<close> with an empty heap: it takes the smallest block of the buddy allocator with
  room for the block header, the piece header and the rounded size, and returns the address
  behind both headers; the block's pages leave the pool and the heap invariant holds. When no
  such block is free it returns NULL, and leaves interrupts disabled.
\<close>

theorem kmalloc_new_block:
  assumes "heap_inv s F No_block" and "unat sz < 2 ^ 62"
    and "fitting_order (40 + unat (gross_size sz)) k"
  shows "if \<exists>q. 2 ^ k dvd q \<and> block k q \<subseteq> F
    then \<exists>p s'. kmalloc sz s = Ok (page_addr p + of_nat 56) s' \<and> block k p \<subseteq> F \<and>
      heap_inv s' (F - block k p) (Block p k 1 (40 + unat (gross_size sz))) \<and>
      piece_at s' p 40 (unat (align sz)) \<and> sstatus s' = sstatus s \<and> kheap.more s' = kheap.more s \<and>
      (\<forall>x. page_of x \<notin> F \<longrightarrow> mem s' x = mem s x)
    else kmalloc sz s = Ok 0 (irq_off s)"
  using kmalloc_first [OF assms] kmalloc_no_room [OF assms] by simp

text \<open>The states of the witnesses: one free page, no block.\<close>

definition heap_boot :: kheap where
  "heap_boot = \<lparr>mem = (\<lambda>_. 0), sstatus = SSTATUS_SIE, space = (replicate 16 0)[0 := page_addr 0x87fff],
     block_list_head = 0, block_list_tail = 0\<rparr>"

lemma heap_boot_inv: "heap_inv heap_boot {0x87fff} No_block"
proof -
  have "page_pool (last_page_state 0x87fff) {0x87fff}"
    by (rule last_page_ok) (simp_all add: first_page_def end_page_def)
  then have "page_pool heap_boot {0x87fff}"
    by (simp add: page_pool_def pool_repr_def last_page_state_def heap_boot_def)
  then show ?thesis by (simp add: heap_inv_def heap_boot_def)
qed

lemma gross_24: "unat (gross_size 24) = 40"
  by (subst gross_unat) simp_all

lemma fitting_80: "fitting_order 80 0"
  by (simp add: fitting_order_def)

theorem kmalloc_new_block_witness:
  "\<exists>p s'. kmalloc 24 heap_boot = Ok (page_addr p + of_nat 56) s' \<and>
     heap_inv s' ({0x87fff} - block 0 p) (Block p 0 1 80)"
proof -
  have "\<exists>q. 2 ^ 0 dvd q \<and> block 0 q \<subseteq> {0x87fff}" by (auto simp: block_def)
  then show ?thesis
    using kmalloc_new_block [OF heap_boot_inv, of 24 0] fitting_80 by (auto simp: gross_24)
qed

text \<open>
  \<open>kmalloc\<close> with a block that has room: the piece is the next part of the block, the
  count and the free pointer move on, the invariant holds again, and the only bytes written
  are those two fields and the new piece's header, so earlier pieces keep their contents.
\<close>

theorem kmalloc_piece:
  assumes "heap_inv s F (Block p k n u)" and "unat sz < 2 ^ 63"
    and "u + unat (gross_size sz) \<le> 4096 * 2 ^ k" and "n + 1 < 2 ^ 63"
  shows "\<exists>s'. kmalloc sz s = Ok (page_addr p + of_nat (u + 16)) s' \<and>
    heap_inv s' F (Block p k (n + 1) (u + unat (gross_size sz))) \<and> piece_at s' p u (unat (align sz)) \<and>
    sstatus s' = sstatus s \<and> space s' = space s \<and> kheap.more s' = kheap.more s \<and>
    (\<forall>x. (unat x < 4096 * p + 8 \<or> 4096 * p + 24 \<le> unat x) \<longrightarrow>
       (unat x < 4096 * p + u \<or> 4096 * p + u + 16 \<le> unat x) \<longrightarrow> mem s' x = mem s x)"
  using assms by (rule kmalloc_fits)

text \<open>The heap after one piece of 24 bytes.\<close>

lemma heap_one_piece:
  obtains s where "heap_inv (s :: kheap) {} (Block 0x87fff 0 1 80)"
proof -
  have "\<exists>q. 2 ^ 0 dvd q \<and> block 0 q \<subseteq> {0x87fff}" by (auto simp: block_def)
  moreover have "fitting_order (40 + unat (gross_size 24)) 0" using fitting_80 by (simp add: gross_24)
  moreover have "unat (24 :: uint64) < 2 ^ 62" by simp
  ultimately obtain p s where s: "block 0 p \<subseteq> {0x87fff}"
      "heap_inv (s :: kheap) ({0x87fff} - block 0 p) (Block p 0 1 (40 + unat (gross_size 24)))"
    using kmalloc_first [OF heap_boot_inv] by blast
  from s(1) have "p = 0x87fff" using mem_block_self [of p 0] by blast
  with s(2) have "heap_inv s {} (Block 0x87fff 0 1 80)" by (simp add: gross_24 block_def)
  then show thesis by (rule that)
qed

theorem kmalloc_piece_witness:
  "\<exists>(s :: kheap) s'. kmalloc 24 s = Ok (page_addr 0x87fff + of_nat 96) s' \<and>
     heap_inv s' {} (Block 0x87fff 0 2 120)"
proof -
  obtain s where "heap_inv (s :: kheap) {} (Block 0x87fff 0 1 80)" by (rule heap_one_piece)
  from kmalloc_piece [OF this, of 24] show ?thesis
    by (rule_tac exI [of _ s]) (auto simp: gross_24 simp flip: numeral_2_eq_2)
qed

text \<open>When a request has room: in a fresh block of the pool, or behind the last piece.\<close>

fun has_room :: "heap \<Rightarrow> nat set \<Rightarrow> nat \<Rightarrow> bool" where
  "has_room No_block F g \<longleftrightarrow> (\<exists>k q. fitting_order (40 + g) k \<and> 2 ^ k dvd q \<and> block k q \<subseteq> F)"
| "has_room (Block p k n u) F g \<longleftrightarrow> u + g \<le> 4096 * 2 ^ k \<and> n + 1 < 2 ^ 63"

text \<open>
  Allocating a piece and freeing it at once gives back the heap and the pool: the block
  is unlinked and its pages returned if the piece was its only one, otherwise the free
  pointer is moved back.
\<close>

theorem kmalloc_kfree:
  assumes inv: "heap_inv s F h" and sz: "unat sz < 2 ^ 62" and room: "has_room h F (unat (gross_size sz))"
  shows "\<exists>a s' s''. kmalloc sz s = Ok a s' \<and> kfree a s' = Ok () s'' \<and> heap_inv s'' F h \<and> sstatus s'' = sstatus s"
proof (cases h)
  case No_block
  then obtain k where k: "fitting_order (40 + unat (gross_size sz)) k" "\<exists>q. 2 ^ k dvd q \<and> block k q \<subseteq> F"
    using room by auto
  obtain p s' where s': "kmalloc sz s = Ok (page_addr p + of_nat 56) s'" "block k p \<subseteq> F"
      "heap_inv s' (F - block k p) (Block p k 1 (40 + unat (gross_size sz)))"
      "piece_at s' p 40 (unat (align sz))" "sstatus s' = sstatus s"
    using kmalloc_first [OF inv [unfolded No_block] sz k] by blast
  have F: "F - block k p \<union> block k p = F" using s'(2) by auto
  have "40 + 16 \<le> 4096 * (2 :: nat) ^ k" by (rule order_trans [of _ "4096 * 1"]) simp_all
  from kfree_last [OF s'(3,4) this] F s' No_block show ?thesis by auto
next
  case (Block p k n u)
  have sz': "unat sz < 2 ^ 63" using sz by simp
  obtain s' where s': "kmalloc sz s = Ok (page_addr p + of_nat (u + 16)) s'"
      "heap_inv s' F (Block p k (n + 1) (u + unat (gross_size sz)))"
      "piece_at s' p u (unat (align sz))" "sstatus s' = sstatus s"
    using kmalloc_fits [OF inv [unfolded Block] sz'] room Block by auto
  have "0 < n" using inv Block by (simp add: heap_inv_def)
  moreover have "unat (gross_size sz) = 16 + unat (align sz)"
    by (simp add: gross_unat [OF sz'] align_unat [OF sz'])
  ultimately show ?thesis using kfree_piece [OF s'(2,3)] s' Block by fastforce
qed

theorem kmalloc_kfree_witness:
  "\<exists>a s' s''. kmalloc 24 heap_boot = Ok a s' \<and> kfree a s' = Ok () s'' \<and> heap_inv s'' {0x87fff} No_block"
proof -
  have "has_room No_block {0x87fff} (unat (gross_size 24))"
    unfolding has_room.simps gross_24
    by (rule exI [of _ 0], rule exI [of _ "0x87fff"]) (auto simp: fitting_80 block_def)
  from kmalloc_kfree [OF heap_boot_inv _ this] show ?thesis by auto
qed

text \<open>
  C5. \<open>kmalloc\<close> never checks the space left in its block: \<open>remained_size\<close> subtracts the
  absolute free address from the block size, so the difference wraps around. A request that
  does not fit is served all the same, from behind the end of the block; when the block is
  full the piece's header overwrites the first words of the page after the block.
\<close>

theorem kmalloc_overruns:
  assumes inv: "heap_inv s F (Block p k n u)" and sz: "unat sz < 2 ^ 63"
    and nofit: "4096 * 2 ^ k < u + unat (gross_size sz)"
  shows "\<exists>s'. kmalloc sz s = Ok (page_addr p + of_nat (u + 16)) s' \<and>
    load64 (mem s') (page_addr p + bm_free) = page_addr p + of_nat u + gross_size sz \<and>
    (u = 4096 * 2 ^ k \<longrightarrow> load64 (mem s') (page_addr (p + 2 ^ k)) = align sz)"
proof -
  from inv have repr: "heap_repr s (Block p k n u)" by (simp add: heap_inv_def)
  then have v: "valid_block k p" and u: "8 dvd u" "40 \<le> u" and "u < 2 ^ 63"
    using block_bytes [of k p u] by auto
  note load = piece_mem_load [OF aligned8_page_addr this(2-4), of "mem s" p sz "of_nat n"]
  have "page_addr (p + 2 ^ k) = page_addr p + of_nat u + hd_size" if "u = 4096 * 2 ^ k"
    using that by (simp add: page_addr_add page_addr_def hd_size_def)
  then show ?thesis
    using kmalloc_block [OF repr sz] load(2,6) by auto
qed

text \<open>A heap whose block is full: one piece of 4040 bytes.\<close>

lemma heap_full:
  obtains s where "heap_inv (s :: kheap) {} (Block 0x87fff 0 1 4096)"
proof -
  have g: "unat (gross_size 4040) = 4056" by (subst gross_unat) simp_all
  have "\<exists>q. 2 ^ 0 dvd q \<and> block 0 q \<subseteq> {0x87fff}" by (auto simp: block_def)
  moreover have "fitting_order (40 + unat (gross_size 4040)) 0" by (simp add: g fitting_order_def)
  moreover have "unat (4040 :: uint64) < 2 ^ 62" by simp
  ultimately obtain p s where s: "block 0 p \<subseteq> {0x87fff}"
      "heap_inv (s :: kheap) ({0x87fff} - block 0 p) (Block p 0 1 (40 + unat (gross_size 4040)))"
    using kmalloc_first [OF heap_boot_inv] by blast
  from s(1) have "p = 0x87fff" using mem_block_self [of p 0] by blast
  with s(2) have "heap_inv s {} (Block 0x87fff 0 1 4096)" by (simp add: g block_def)
  then show thesis by (rule that)
qed

theorem kmalloc_overruns_witness:
  "\<exists>(s :: kheap) s'. heap_inv s {} (Block 0x87fff 0 1 4096) \<and> kmalloc 24 s = Ok (page_addr 0x87fff + of_nat 4112) s' \<and>
     load64 (mem s') (page_addr 0x88000) = 24"
proof -
  obtain s where s: "heap_inv (s :: kheap) {} (Block 0x87fff 0 1 4096)" by (rule heap_full)
  have "align 24 = 24" by (simp add: align_def)
  with s kmalloc_overruns [OF s, of 24] show ?thesis by (rule_tac exI [of _ s]) (auto simp: gross_24)
qed

end
