(* ===== verification/Heap_Objects.thy ===== *)
theory Heap_Objects
  imports Kmalloc
begin

text \<open>
  The kernel heap as its clients see it: a set of live objects, pairwise apart, whose bytes
  no allocation and no release of another object changes. The locale \<open>kernel_heap\<close> states
  this contract, \<open>kmalloc\<close> and \<open>kfree\<close> are shown to satisfy it.
\<close>

section \<open>The contract\<close>

text \<open>
  \<open>inv s v A\<close>: in state \<open>s\<close> the objects \<open>A\<close> (address and size) are live; \<open>v\<close> is the
  allocator's own view, from which \<open>room v sz\<close> says whether a request can be served.
\<close>

locale kernel_heap =
  fixes malloc :: "uint64 \<Rightarrow> (addr, 's) run"
    and free :: "addr \<Rightarrow> (unit, 's) run"
    and inv :: "'s \<Rightarrow> 'v \<Rightarrow> (addr \<times> nat) set \<Rightarrow> bool"
    and room :: "'v \<Rightarrow> uint64 \<Rightarrow> bool"
    and byte_at :: "'s \<Rightarrow> addr \<Rightarrow> byte"
    and put :: "addr \<Rightarrow> uint64 \<Rightarrow> 's \<Rightarrow> 's"
  assumes malloc_ok: "inv s v A \<Longrightarrow> room v sz \<Longrightarrow>
      \<exists>a v' s'. malloc sz s = Ok a s' \<and> a \<noteq> 0 \<and> aligned8 a \<and> (\<forall>z. (a, z) \<notin> A) \<and>
        inv s' v' (insert (a, unat (align sz)) A) \<and>
        (\<forall>(b, z)\<in>A. \<forall>i<z. byte_at s' (b + of_nat i) = byte_at s (b + of_nat i))"
    and free_ok: "inv s v A \<Longrightarrow> (a, z) \<in> A \<Longrightarrow>
      \<exists>v' s'. free a s = Ok () s' \<and> inv s' v' (A - {(a, z)}) \<and>
        (\<forall>(b, y)\<in>A - {(a, z)}. \<forall>i<y. byte_at s' (b + of_nat i) = byte_at s (b + of_nat i))"
    and objects_apart: "inv s v A \<Longrightarrow> (a, z) \<in> A \<Longrightarrow> (b, y) \<in> A \<Longrightarrow> (a, z) \<noteq> (b, y) \<Longrightarrow>
      unat a + z \<le> unat b \<or> unat b + y \<le> unat a"
    and objects_bound: "inv s v A \<Longrightarrow> (a, z) \<in> A \<Longrightarrow> a \<noteq> 0 \<and> aligned8 a \<and> unat a + z < 2 ^ 63"
    and put_ok: "inv s v A \<Longrightarrow> (a, z) \<in> A \<Longrightarrow> 8 dvd off \<Longrightarrow> off + 8 \<le> z \<Longrightarrow>
      inv (put (a + of_nat off) x s) v A"
begin

text \<open>Freeing the objects of a list one after the other.\<close>

primrec free_all :: "addr list \<Rightarrow> (unit, 's) run" where
  "free_all [] = return ()"
| "free_all (a # as) = bind (free a) (\<lambda>_. free_all as)"

lemma free_all_ok:
  assumes "inv s v A" and "distinct obs" and "set obs \<subseteq> A"
  shows "\<exists>v' s'. free_all (map fst obs) s = Ok () s' \<and> inv s' v' (A - set obs) \<and>
    (\<forall>(b, y)\<in>A - set obs. \<forall>i<y. byte_at s' (b + of_nat i) = byte_at s (b + of_nat i))"
  using assms
proof (induction obs arbitrary: s v A)
  case Nil
  then show ?case by (auto simp: return_def)
next
  case (Cons ob obs)
  obtain a z where o: "ob = (a, z)" by (cases ob)
  with Cons.prems have mem: "(a, z) \<in> A" "(a, z) \<notin> set obs" by auto
  obtain v' s' where s': "free a s = Ok () s'" "inv s' v' (A - {(a, z)})"
      "\<forall>(b, y)\<in>A - {(a, z)}. \<forall>i<y. byte_at s' (b + of_nat i) = byte_at s (b + of_nat i)"
    using free_ok [OF Cons.prems(1) mem(1)] by blast
  have sub: "set obs \<subseteq> A - {(a, z)}" using Cons.prems mem by auto
  have D: "A - {(a, z)} - set obs = A - set (ob # obs)" using o by auto
  obtain v'' s'' where s'': "free_all (map fst obs) s' = Ok () s''" "inv s'' v'' (A - set (ob # obs))"
      "\<forall>(b, y)\<in>A - set (ob # obs). \<forall>i<y. byte_at s'' (b + of_nat i) = byte_at s' (b + of_nat i)"
    using Cons.IH [OF s'(2) _ sub] Cons.prems(2) unfolding D by auto
  have "byte_at s'' (b + of_nat i) = byte_at s (b + of_nat i)"
    if "(b, y) \<in> A - set (ob # obs)" "i < y" for b y i
    using that bspec [OF s'(3), of "(b, y)"] bspec [OF s''(3), of "(b, y)"] o by auto
  moreover have "free_all (map fst (ob # obs)) s = Ok () s''" using s'(1) s''(1) o by (simp add: bind_Ok)
  ultimately show ?case using s''(2) by blast
qed

text \<open>A new object does not overlap any object that was live before.\<close>

lemma malloc_fresh:
  assumes "inv s v A" and "room v sz"
  shows "\<exists>a s'. malloc sz s = Ok a s' \<and> a \<noteq> 0 \<and>
    (\<forall>(b, z)\<in>A. unat a + unat (align sz) \<le> unat b \<or> unat b + z \<le> unat a)"
proof -
  obtain a v' s' where s': "malloc sz s = Ok a s'" "a \<noteq> 0" "\<forall>z. (a, z) \<notin> A"
      "inv s' v' (insert (a, unat (align sz)) A)"
    using malloc_ok [OF assms] by blast
  have "unat a + unat (align sz) \<le> unat b \<or> unat b + z \<le> unat a" if "(b, z) \<in> A" for b z
    using objects_apart [OF s'(4), of a "unat (align sz)" b z] s'(3) that by blast
  with s' show ?thesis by blast
qed

end

section \<open>The live objects of the heap\<close>

text \<open>The objects of the block at page \<open>p\<close>: every one has its header, lies below the free
  offset and is apart from the others; the block counts them.\<close>

definition objects_in :: "'z kheap_scheme \<Rightarrow> nat \<Rightarrow> nat \<Rightarrow> (nat \<times> nat) set \<Rightarrow> bool" where
  "objects_in s p u P \<longleftrightarrow>
     (\<forall>(v, z)\<in>P. piece_at s p v z \<and> v + 16 + z \<le> u) \<and>
     (\<forall>(v, z)\<in>P. \<forall>(w, y)\<in>P. (v, z) \<noteq> (w, y) \<longrightarrow> v + 16 + z \<le> w \<or> w + 16 + y \<le> v)"

lemma objects_inD:
  "objects_in s p u P \<Longrightarrow> (v, z) \<in> P \<Longrightarrow> piece_at s p v z \<and> v + 16 + z \<le> u"
  by (auto simp: objects_in_def)

lemma objects_in_apart:
  "objects_in s p u P \<Longrightarrow> (v, z) \<in> P \<Longrightarrow> (w, y) \<in> P \<Longrightarrow> (v, z) \<noteq> (w, y) \<Longrightarrow>
    v + 16 + z \<le> w \<or> w + 16 + y \<le> v"
  unfolding objects_in_def by blast

lemma objects_inI:
  assumes "\<And>v z. (v, z) \<in> P \<Longrightarrow> piece_at s p v z \<and> v + 16 + z \<le> u"
    and "\<And>v z w y. (v, z) \<in> P \<Longrightarrow> (w, y) \<in> P \<Longrightarrow> (v, z) \<noteq> (w, y) \<Longrightarrow> v + 16 + z \<le> w \<or> w + 16 + y \<le> v"
  shows "objects_in s p u P"
  unfolding objects_in_def using assms by blast

definition object_at :: "nat \<Rightarrow> nat \<times> nat \<Rightarrow> addr \<times> nat" where
  "object_at p = (\<lambda>(v, z). (page_addr p + of_nat (v + 16), z))"

fun live_objects :: "'z kheap_scheme \<Rightarrow> nat set \<times> heap \<Rightarrow> (addr \<times> nat) set \<Rightarrow> bool" where
  "live_objects s (F, No_block) A \<longleftrightarrow> heap_inv s F No_block \<and> A = {}"
| "live_objects s (F, Block p k n u) A \<longleftrightarrow> heap_inv s F (Block p k n u) \<and>
     (\<exists>P. finite P \<and> card P = n \<and> objects_in s p u P \<and> A = object_at p ` P)"

fun heap_room :: "nat set \<times> heap \<Rightarrow> uint64 \<Rightarrow> bool" where
  "heap_room (F, h) sz \<longleftrightarrow> unat sz < 2 ^ 62 \<and> has_room h F (unat (gross_size sz))"

lemma heap_invD:
  assumes "heap_inv s F (Block p k n u)"
  shows "valid_block k p" "u \<le> 4096 * 2 ^ k" "40 \<le> u" "8 dvd u" "0 < n" "u < 2 ^ 62"
  using assms block_bytes [of k p u] by (auto simp: heap_inv_def)

lemma object_unat:
  assumes "heap_inv s F (Block p k n u)" and "v + 16 + z \<le> u"
  shows "unat (page_addr p + of_nat (v + 16)) = 4096 * p + v + 16" "4096 * p + u < 2 ^ 62"
proof -
  note d = heap_invD [OF assms(1)]
  show "4096 * p + u < 2 ^ 62" using block_bytes [OF d(1,2)] by simp
  have "v + 16 \<le> 2 ^ 63" using assms(2) d(6) by simp
  from unat_in_block [OF d(1) this] show "unat (page_addr p + of_nat (v + 16)) = 4096 * p + v + 16" by simp
qed

lemma object_byte_unat:
  assumes "heap_inv s F (Block p k n u)" and "v + 16 + z \<le> u" and "i < z"
  shows "unat (page_addr p + of_nat (v + 16) + of_nat i) = 4096 * p + v + 16 + i"
proof -
  have eq: "page_addr p + of_nat (v + 16) + of_nat i = page_addr p + of_nat (v + 16 + i)" by simp
  have "v + 16 + i \<le> 2 ^ 63" using assms(2,3) heap_invD(6) [OF assms(1)] by simp
  then show ?thesis unfolding eq using unat_in_block [OF heap_invD(1) [OF assms(1)], of "v + 16 + i"] by simp
qed

lemma inj_object_at:
  assumes "heap_inv s F (Block p k n u)" and "objects_in s p u P"
  shows "inj_on (object_at p) P"
proof (rule inj_onI)
  fix a b assume ab: "a \<in> P" "b \<in> P" "object_at p a = object_at p b"
  obtain v z w y where eq: "a = (v, z)" "b = (w, y)" by (cases a; cases b)
  have "v + 16 + z \<le> u" "w + 16 + y \<le> u" using assms(2) ab eq by (auto simp: objects_in_def)
  note un = object_unat(1) [OF assms(1) this(1)] object_unat(1) [OF assms(1) this(2)]
  from ab eq have "z = y" "page_addr p + of_nat (v + 16) = page_addr p + of_nat (w + 16)"
    by (simp_all add: object_at_def)
  with un eq show "a = b" by (metis add_right_cancel add_left_cancel)
qed

section \<open>The heap satisfies the contract\<close>

lemma live_apart:
  assumes "live_objects s vw A" and "(a, z) \<in> A" and "(b, y) \<in> A" and "(a, z) \<noteq> (b, y)"
  shows "unat a + z \<le> unat b \<or> unat b + y \<le> unat a"
proof -
  obtain F h where vw: "vw = (F, h)" by (cases vw)
  show ?thesis
  proof (cases h)
    case No_block
    with assms vw show ?thesis by simp
  next
    case (Block p k n u)
    with assms vw obtain P where inv: "heap_inv s F (Block p k n u)" and P: "objects_in s p u P" "A = object_at p ` P"
      by auto
    from assms P obtain v w where vw: "(v, z) \<in> P" "(w, y) \<in> P" "a = page_addr p + of_nat (v + 16)"
        "b = page_addr p + of_nat (w + 16)"
      by (auto simp: object_at_def)
    have "v + 16 + z \<le> u" "w + 16 + y \<le> u" using P(1) vw by (auto simp: objects_in_def)
    note un = object_unat(1) [OF inv this(1)] object_unat(1) [OF inv this(2)]
    have "(v, z) \<noteq> (w, y)" using assms(4) vw by auto
    with P(1) vw(1,2) have "v + 16 + z \<le> w \<or> w + 16 + y \<le> v" by (rule objects_in_apart)
    then show ?thesis unfolding vw(3,4) un by auto
  qed
qed

lemma live_bound:
  assumes "live_objects s vw A" and "(a, z) \<in> A"
  shows "a \<noteq> 0 \<and> aligned8 a \<and> unat a + z < 2 ^ 63"
proof -
  obtain F h where vw: "vw = (F, h)" by (cases vw)
  show ?thesis
  proof (cases h)
    case No_block
    with assms vw show ?thesis by simp
  next
    case (Block p k n u)
    with assms vw obtain P where inv: "heap_inv s F (Block p k n u)" and P: "objects_in s p u P" "A = object_at p ` P"
      by auto
    from assms P obtain v where v: "(v, z) \<in> P" "a = page_addr p + of_nat (v + 16)"
      by (auto simp: object_at_def)
    then have "v + 16 + z \<le> u" "8 dvd v + 16" using P(1) by (auto simp: objects_in_def piece_at_def)
    with object_unat [OF inv this(1)] have "unat a = 4096 * p + v + 16" "unat a + z < 2 ^ 63" "aligned8 a"
      unfolding v(2) by (auto intro!: aligned8_of_nat simp del: of_nat_add)
    then show ?thesis by (metis One_nat_def add_is_0 unat_0 zero_neq_numeral)
  qed
qed

text \<open>The headers and bytes of objects lie outside the count and free fields.\<close>

lemma piece_at_kept:
  assumes "piece_at s p v z" and v: "valid_block k p" and "v + 16 \<le> u" "u < 2 ^ 62"
    and kept: "\<And>x. 4096 * p + v \<le> unat x \<Longrightarrow> unat x < 4096 * p + v + 16 \<Longrightarrow> mem s' x = mem s x"
  shows "piece_at s' p v z"
proof -
  have "load64 (mem s') (page_addr p + of_nat w) = load64 (mem s) (page_addr p + of_nat w)"
    if "w = v \<or> w = v + 8" for w
  proof (rule load64_cong)
    fix i :: nat assume i: "i < 8"
    have eq: "page_addr p + of_nat w + of_nat i = page_addr p + of_nat (w + i)" by simp
    have "w + i \<le> 2 ^ 63" using that i assms(3,4) by auto
    then have "unat (page_addr p + of_nat (w + i)) = 4096 * p + (w + i)" by (rule unat_in_block [OF v])
    then show "mem s' (page_addr p + of_nat w + of_nat i) = mem s (page_addr p + of_nat w + of_nat i)"
      unfolding eq using that i by (intro kept) auto
  qed
  from this [of v] this [of "v + 8"] show ?thesis
    using assms(1) by (simp add: piece_at_def heap_layout add.assoc)
qed

lemma objects_in_kept:
  assumes "objects_in s p u P" and inv: "heap_inv s F (Block p k n u)"
    and kept: "\<And>x. 4096 * p + 24 \<le> unat x \<Longrightarrow> unat x < 4096 * p + u \<Longrightarrow> mem s' x = mem s x"
  shows "objects_in s' p u P"
proof -
  have "piece_at s' p v z" if "(v, z) \<in> P" for v z
  proof (rule piece_at_kept)
    have pc: "piece_at s p v z" "v + 16 + z \<le> u" using assms(1) that by (auto simp: objects_in_def)
    then show "piece_at s p v z" "v + 16 \<le> u" by simp_all
    show "mem s' x = mem s x" if "4096 * p + v \<le> unat x" "unat x < 4096 * p + v + 16" for x
      using that pc by (intro kept) (auto simp: piece_at_def)
  qed (use heap_invD [OF inv] in auto)
  then show ?thesis
    using objects_inD [OF assms(1)] objects_in_apart [OF assms(1)] by (intro objects_inI) blast+
qed

lemma object_bytes_kept:
  assumes "objects_in s p u P" and inv: "heap_inv s F (Block p k n u)"
    and kept: "\<And>x. 4096 * p + 24 \<le> unat x \<Longrightarrow> unat x < 4096 * p + u \<Longrightarrow> mem s' x = mem s x"
  shows "\<forall>(b, z)\<in>object_at p ` P. \<forall>i<z. mem s' (b + of_nat i) = mem s (b + of_nat i)"
proof -
  have "mem s' (page_addr p + of_nat (v + 16) + of_nat i) = mem s (page_addr p + of_nat (v + 16) + of_nat i)"
    if "(v, z) \<in> P" "i < z" for v z i
  proof (rule kept)
    have le: "v + 16 + z \<le> u" using assms(1) that by (auto simp: objects_in_def)
    from object_byte_unat [OF inv le that(2)] le that
    show "4096 * p + 24 \<le> unat (page_addr p + of_nat (v + 16) + of_nat i)"
      "unat (page_addr p + of_nat (v + 16) + of_nat i) < 4096 * p + u"
      using assms(1) by (auto simp: objects_in_def piece_at_def simp del: of_nat_add)
  qed
  then show ?thesis by (fastforce simp: object_at_def simp del: of_nat_add)
qed

lemma kmalloc_live:
  assumes live: "live_objects s vw A" and room: "heap_room vw sz"
  shows "\<exists>a vw' s'. kmalloc sz s = Ok a s' \<and> a \<noteq> 0 \<and> aligned8 a \<and> (\<forall>z. (a, z) \<notin> A) \<and>
    live_objects s' vw' (insert (a, unat (align sz)) A) \<and>
    (\<forall>(b, z)\<in>A. \<forall>i<z. mem s' (b + of_nat i) = mem s (b + of_nat i))"
proof -
  obtain F h where vw: "vw = (F, h)" by (cases vw)
  have sz: "unat sz < 2 ^ 62" "unat sz < 2 ^ 63" using room vw by auto
  have g: "unat (gross_size sz) = 16 + unat (align sz)"
    by (simp add: gross_unat [OF sz(2)] align_unat [OF sz(2)])
  let ?z = "unat (align sz)"
  show ?thesis
  proof (cases h)
    case No_block
    then obtain k where k: "fitting_order (40 + unat (gross_size sz)) k" "\<exists>q. 2 ^ k dvd q \<and> block k q \<subseteq> F"
      and inv: "heap_inv s F No_block" and A: "A = {}"
      using room live vw by auto
    obtain p s' where s': "kmalloc sz s = Ok (page_addr p + of_nat 56) s'"
        "heap_inv s' (F - block k p) (Block p k 1 (40 + unat (gross_size sz)))" "piece_at s' p 40 ?z"
      using kmalloc_first [OF inv sz(1) k] by blast
    have "objects_in s' p (40 + unat (gross_size sz)) {(40, ?z)}"
      using s'(3) g by (simp add: objects_in_def)
    then have l: "live_objects s' (F - block k p, Block p k 1 (40 + unat (gross_size sz)))
        {(page_addr p + of_nat 56, ?z)}"
      using s'(2) unfolding live_objects.simps
      by (intro conjI exI [of _ "{(40, ?z)}"]) (simp_all add: object_at_def)
    note bd = live_bound [OF l, of "page_addr p + of_nat 56" ?z]
    show ?thesis unfolding A
      by (rule exI, rule exI, rule exI, intro conjI, rule s'(1)) (use bd l in blast)+
  next
    case (Block p k n u)
    with live vw obtain P where inv: "heap_inv s F (Block p k n u)" and fin: "finite P" "card P = n"
      and P: "objects_in s p u P" and A: "A = object_at p ` P" by auto
    note d = heap_invD [OF inv]
    have rm: "u + unat (gross_size sz) \<le> 4096 * 2 ^ k" "n + 1 < 2 ^ 63" using room vw Block by auto
    obtain s' where s': "kmalloc sz s = Ok (page_addr p + of_nat (u + 16)) s'"
        "heap_inv s' F (Block p k (n + 1) (u + unat (gross_size sz)))" "piece_at s' p u ?z"
      and mem: "\<And>x. (unat x < 4096 * p + 8 \<or> 4096 * p + 24 \<le> unat x) \<Longrightarrow>
        (unat x < 4096 * p + u \<or> 4096 * p + u + 16 \<le> unat x) \<Longrightarrow> mem s' x = mem s x"
      using kmalloc_fits [OF inv sz(2) rm] by blast
    have P': "objects_in s' p u P" using P inv mem by (rule objects_in_kept) auto
    have new: "(u, y) \<notin> P" for y using P by (auto simp: objects_in_def)
    have "objects_in s' p (u + unat (gross_size sz)) (insert (u, ?z) P)"
    proof (rule objects_inI)
      fix v z assume "(v, z) \<in> insert (u, ?z) P"
      then show "piece_at s' p v z \<and> v + 16 + z \<le> u + unat (gross_size sz)"
        using objects_inD [OF P', of v z] s'(3) g by auto
    next
      fix v z w y assume "(v, z) \<in> insert (u, ?z) P" "(w, y) \<in> insert (u, ?z) P" "(v, z) \<noteq> (w, y)"
      then show "v + 16 + z \<le> w \<or> w + 16 + y \<le> v"
        using objects_inD [OF P', of v z] objects_inD [OF P', of w y] objects_in_apart [OF P', of v z w y] by auto
    qed
    then have l: "live_objects s' (F, Block p k (n + 1) (u + unat (gross_size sz)))
        (insert (page_addr p + of_nat (u + 16), ?z) A)"
      using s'(2) fin new A unfolding live_objects.simps
      by (intro conjI exI [of _ "insert (u, ?z) P"]) (simp_all add: object_at_def)
    have fresh: "(page_addr p + of_nat (u + 16), z) \<notin> A" for z
    proof
      assume "(page_addr p + of_nat (u + 16), z) \<in> A"
      then obtain v where v: "(v, z) \<in> P" "page_addr p + of_nat (u + 16) = page_addr p + of_nat (v + 16)"
        using A by (auto simp: object_at_def)
      then have vu: "v + 16 + z \<le> u" using P by (auto simp: objects_in_def)
      have "u + 16 \<le> 2 ^ 63" using d(6) by simp
      note un = unat_in_block [OF d(1) this] object_unat(1) [OF inv vu]
      from arg_cong [OF v(2), of unat] vu show False unfolding un by simp
    qed
    have "\<forall>(b, z)\<in>A. \<forall>i<z. mem s' (b + of_nat i) = mem s (b + of_nat i)"
      unfolding A using P inv mem by (rule object_bytes_kept) auto
    with l s'(1) fresh live_bound [OF l, of "page_addr p + of_nat (u + 16)" ?z] show ?thesis by blast
  qed
qed

lemma kfree_live:
  assumes live: "live_objects s vw A" and a: "(a, z) \<in> A"
  shows "\<exists>vw' s'. kfree a s = Ok () s' \<and> live_objects s' vw' (A - {(a, z)}) \<and>
    (\<forall>(b, y)\<in>A - {(a, z)}. \<forall>i<y. mem s' (b + of_nat i) = mem s (b + of_nat i))"
proof -
  obtain F h where vw: "vw = (F, h)" by (cases vw)
  obtain p k n u where h: "h = Block p k n u" using live a vw by (cases h) auto
  with live vw obtain P where inv: "heap_inv s F (Block p k n u)" and fin: "finite P" "card P = n"
    and P: "objects_in s p u P" and A: "A = object_at p ` P" by auto
  obtain v where v: "(v, z) \<in> P" "a = page_addr p + of_nat (v + 16)"
    using a A by (auto simp: object_at_def)
  have pc: "piece_at s p v z" and le: "v + 16 + z \<le> u" using P v by (auto simp: objects_in_def)
  have D: "A - {(a, z)} = object_at p ` (P - {(v, z)})"
    using inj_object_at [OF inv P] v A by (subst inj_on_image_set_diff [of "object_at p" P]) (auto simp: object_at_def)
  show ?thesis
  proof (cases "n = 1")
    case True
    then have "P = {(v, z)}" using fin v by (auto simp: card_1_singleton_iff)
    then have A': "A - {(a, z)} = {}" unfolding D by simp
    have "v + 16 \<le> 4096 * 2 ^ k" using le heap_invD(2) [OF inv] by simp
    moreover have inv1: "heap_inv s F (Block p k 1 u)" using inv True by simp
    ultimately obtain s' where s': "kfree a s = Ok () s'" "heap_inv s' (F \<union> block k p) No_block"
      using kfree_last [OF inv1 pc] unfolding v(2) by blast
    have "live_objects s' (F \<union> block k p, No_block) {}" using s'(2) by simp
    with s'(1) show ?thesis unfolding A' by blast
  next
    case False
    then have n: "1 < n" using heap_invD(5) [OF inv] by simp
    let ?u = "if u = v + 16 + z then v else u"
    obtain s' where s': "kfree a s = Ok () s'" "heap_inv s' F (Block p k (n - 1) ?u)"
      and mem: "\<And>x. (unat x < 4096 * p + 8 \<or> 4096 * p + 24 \<le> unat x) \<Longrightarrow> mem s' x = mem s x"
      using kfree_piece [OF inv pc le n] unfolding v(2) by blast
    have P': "objects_in s' p u P" using P inv mem by (rule objects_in_kept) auto
    have "w + 16 + y \<le> ?u" if "(w, y) \<in> P - {(v, z)}" for w y
      using objects_inD [OF P, of w y] objects_in_apart [OF P v(1), of w y] that by auto
    then have "objects_in s' p ?u (P - {(v, z)})"
      using objects_inD [OF P'] objects_in_apart [OF P'] by (intro objects_inI) blast+
    then have "live_objects s' (F, Block p k (n - 1) ?u) (A - {(a, z)})"
      unfolding D live_objects.simps using s'(2) fin v(1)
      by (intro conjI exI [of _ "P - {(v, z)}"]) simp_all
    moreover have "\<forall>(b, y)\<in>A. \<forall>i<y. mem s' (b + of_nat i) = mem s (b + of_nat i)"
      unfolding A using P inv mem by (rule object_bytes_kept) auto
    ultimately show ?thesis using s'(1) by blast
  qed
qed

text \<open>Writing a word of a live object keeps the heap intact.\<close>

definition put64 :: "addr \<Rightarrow> uint64 \<Rightarrow> 'z machine_scheme \<Rightarrow> 'z machine_scheme" where
  "put64 a x s = s\<lparr>mem := store64 (mem s) a x\<rparr>"

lemma same_block_neq:
  "v \<noteq> w \<Longrightarrow> v < 2 ^ 63 \<Longrightarrow> w < 2 ^ 63 \<Longrightarrow> page_addr p + of_nat v \<noteq> page_addr p + of_nat w"
  using of_nat_64_inj [of v w] by simp

lemma live_put:
  assumes live: "live_objects s vw A" and a: "(a, z) \<in> A" and off: "8 dvd off" "off + 8 \<le> z"
  shows "live_objects (put64 (a + of_nat off) x s) vw A"
proof -
  obtain F h where vw: "vw = (F, h)" by (cases vw)
  obtain p k n u where h: "h = Block p k n u" using live a vw by (cases h) auto
  with live vw obtain P where inv: "heap_inv s F (Block p k n u)" and fin: "finite P" "card P = n"
    and P: "objects_in s p u P" and A: "A = object_at p ` P" by auto
  obtain v where v: "(v, z) \<in> P" "a = page_addr p + of_nat (v + 16)"
    using a A by (auto simp: object_at_def)
  have pc: "piece_at s p v z" and le: "v + 16 + z \<le> u" using objects_inD [OF P v(1)] by auto
  note d = heap_invD [OF inv]
  let ?w = "v + 16 + off"
  let ?s = "put64 (a + of_nat off) x s"
  have w: "40 \<le> ?w" "?w + 8 \<le> u" "?w < 2 ^ 63" "8 dvd ?w"
    using pc le off d(6) by (auto simp: piece_at_def)
  have addr: "a + of_nat off = page_addr p + of_nat ?w" unfolding v(2) by simp
  have al: "aligned8 (page_addr p + of_nat ?w)" using w(4) by (intro aligned8_add aligned8_page_addr aligned8_of_nat)
  have ne: "page_addr p + of_nat ?w \<noteq> page_addr p + c" if "unat c < 40" for c
    using meta_offset_neq [OF w(1,3) that] by blast
  have mem: "mem ?s = store64 (mem s) (page_addr p + of_nat ?w) x" by (simp only: put64_def addr) simp
  have ld: "load64 (mem ?s) (page_addr p + c) = load64 (mem s) (page_addr p + c)" if "unat c < 40" "aligned8 c" for c
    unfolding mem using ne [OF that(1)] al that(2) by (simp add: load64_store64 del: of_nat_add)
  then have repr: "heap_repr ?s (Block p k n u)"
    using inv ld [of 0] by (simp add: heap_inv_def heap_layout put64_def [of _ _ s])
  have "page_pool ?s F"
  proof (rule page_pool_cong)
    show "page_pool s F" using inv by (simp add: heap_inv_def)
    show "mem ?s y = mem s y" if "page_of y \<in> F" for y
    proof -
      have "page_of y \<notin> block k p" using that inv by (auto simp: heap_inv_def)
      then show ?thesis unfolding mem using w(2) d(2) by (intro store_in_block [OF d(1)]) auto
    qed
  qed (simp add: put64_def)
  with repr inv have inv': "heap_inv ?s F (Block p k n u)" by (simp add: heap_inv_def)
  have "piece_at ?s p w' y" if "(w', y) \<in> P" for w' y
  proof -
    have pc': "piece_at s p w' y" "w' + 16 + y \<le> u" using objects_inD [OF P that] by auto
    then have "w' < 2 ^ 62" "8 dvd w'" using d(6) by (auto simp: piece_at_def)
    moreover have "?w \<noteq> w'" "?w \<noteq> w' + 8" using objects_in_apart [OF P v(1) that] off by auto
    ultimately have "page_addr p + of_nat w' \<noteq> page_addr p + of_nat ?w"
      "page_addr p + of_nat (w' + 8) \<noteq> page_addr p + of_nat ?w"
      using w(3) by (intro same_block_neq; auto)+
    moreover have "aligned8 (page_addr p + of_nat w')" "aligned8 (page_addr p + of_nat (w' + 8))"
      using \<open>8 dvd w'\<close> by (auto intro!: aligned8_of_nat simp del: of_nat_add)
    ultimately have "load64 (mem ?s) (page_addr p + of_nat w') = load64 (mem s) (page_addr p + of_nat w')"
      "load64 (mem ?s) (page_addr p + of_nat (w' + 8)) = load64 (mem s) (page_addr p + of_nat (w' + 8))"
      unfolding mem using al by (simp_all add: load64_store64 del: of_nat_add)
    with pc' show ?thesis by (simp add: piece_at_def heap_layout add.assoc)
  qed
  then have "objects_in ?s p u P"
    using objects_inD [OF P] objects_in_apart [OF P] by (intro objects_inI) blast+
  with inv' fin A vw h show ?thesis by auto
qed

interpretation kernel_objects: kernel_heap kmalloc kfree live_objects heap_room mem put64
proof unfold_locales
  fix s :: "'a kheap_scheme" and vw A sz a z b y
  assume live: "live_objects s vw A"
  show "heap_room vw sz \<Longrightarrow> \<exists>a v' s'. kmalloc sz s = Ok a s' \<and> a \<noteq> 0 \<and> aligned8 a \<and> (\<forall>z. (a, z) \<notin> A) \<and>
      live_objects s' v' (insert (a, unat (align sz)) A) \<and>
      (\<forall>(b, z)\<in>A. \<forall>i<z. mem s' (b + of_nat i) = mem s (b + of_nat i))"
    using live by (rule kmalloc_live)
  show "(a, z) \<in> A \<Longrightarrow> \<exists>v' s'. kfree a s = Ok () s' \<and> live_objects s' v' (A - {(a, z)}) \<and>
      (\<forall>(b, y)\<in>A - {(a, z)}. \<forall>i<y. mem s' (b + of_nat i) = mem s (b + of_nat i))"
    using live by (rule kfree_live)
  show "(a, z) \<in> A \<Longrightarrow> (b, y) \<in> A \<Longrightarrow> (a, z) \<noteq> (b, y) \<Longrightarrow> unat a + z \<le> unat b \<or> unat b + y \<le> unat a"
    using live by (rule live_apart)
  show "(a, z) \<in> A \<Longrightarrow> a \<noteq> 0 \<and> aligned8 a \<and> unat a + z < 2 ^ 63"
    using live by (rule live_bound)
  show "(a, z) \<in> A \<Longrightarrow> 8 dvd off \<Longrightarrow> off + 8 \<le> z \<Longrightarrow> live_objects (put64 (a + of_nat off) x s) vw A" for off x
    using live by (rule live_put)
qed

section \<open>Words of objects\<close>

lemma bind_get_field: "p \<noteq> 0 \<Longrightarrow> bind (get_field p off) c s = c (load64 (mem s) (p + off)) s"
  by (simp add: run_simps)

lemma bind_set_field: "p \<noteq> 0 \<Longrightarrow> bind (set_field p off v) c s = c () (put64 (p + off) v s)"
  by (simp add: run_simps put64_def)

lemma get_field_ok: "p \<noteq> 0 \<Longrightarrow> get_field p off s = Ok (load64 (mem s) (p + off)) s"
  by (simp add: run_simps)

lemma set_field_ok: "p \<noteq> 0 \<Longrightarrow> set_field p off v s = Ok () (put64 (p + off) v s)"
  by (simp add: run_simps put64_def)

lemmas struct_simps = bind_get_field bind_set_field get_field_ok set_field_ok bind_assoc

lemma load_put:
  "aligned8 a \<Longrightarrow> aligned8 b \<Longrightarrow> load64 (mem (put64 a v s)) b = (if a = b then v else load64 (mem s) b)"
  by (simp add: put64_def load64_store64)

lemma object_word:
  assumes "live_objects s vw A" and "(a, z) \<in> A" and "i + 8 \<le> z"
  shows "unat (a + of_nat i) = unat a + i"
  using live_bound [OF assms(1,2)] assms(3)
  by (subst unat_add_no_overflow) (simp_all add: unat_of_nat_64)

lemma object_words_apart:
  assumes "live_objects s vw A" and "(a, z) \<in> A" and "(b, y) \<in> A" and "(a, z) \<noteq> (b, y)"
    and "i + 8 \<le> z" and "j + 8 \<le> y"
  shows "a + of_nat i \<noteq> b + of_nat j"
proof
  assume "a + of_nat i = b + of_nat j"
  then have "unat a + i = unat b + j"
    using object_word [OF assms(1,2,5)] object_word [OF assms(1,3,6)] by simp
  with live_apart [OF assms(1-4)] assms(5,6) show False by linarith
qed

lemma object_word_kept:
  assumes "\<And>i. i < z \<Longrightarrow> mem s' (b + of_nat i) = mem s (b + of_nat i)" and "j + 8 \<le> z"
  shows "load64 (mem s') (b + of_nat j) = load64 (mem s) (b + of_nat j)"
proof (rule load64_cong)
  fix i :: nat assume "i < 8"
  then show "mem s' (b + of_nat j + of_nat i) = mem s (b + of_nat j + of_nat i)"
    using assms(1) [of "j + i"] assms(2) by (simp add: add.assoc)
qed

section \<open>Properties\<close>


lemma heap_boot_live: "live_objects heap_boot ({0x87fff}, No_block) {}"
  using heap_boot_inv by simp

lemma heap_boot_room: "heap_room ({0x87fff}, No_block) 24"
  unfolding heap_room.simps has_room.simps gross_24
  by (rule conjI, simp, rule exI [of _ 0], rule exI [of _ "0x87fff"]) (auto simp: fitting_80 block_def)


text \<open>
  C7. Freeing any live object returns, leaves exactly the other objects live and changes none
  of their bytes. Freeing the last one gives the heap's block back to the buddy allocator.
\<close>

theorem kfree_object:
  assumes "live_objects s vw A" and "(a, z) \<in> A"
  shows "\<exists>vw' s'. kfree a s = Ok () s' \<and> live_objects s' vw' (A - {(a, z)}) \<and>
    (\<forall>(b, y)\<in>A - {(a, z)}. \<forall>i<y. mem s' (b + of_nat i) = mem s (b + of_nat i))"
  using assms by (rule kernel_objects.free_ok)

theorem kfree_object_witness:
  "\<exists>a s vw' s'. kmalloc 24 heap_boot = Ok a s \<and> kfree a s = Ok () s' \<and> live_objects s' vw' {}"
proof -
  obtain a vw s where s: "kmalloc 24 heap_boot = Ok a s" "live_objects s vw {(a, unat (align 24))}"
    using kernel_objects.malloc_ok [OF heap_boot_live heap_boot_room] by blast
  have "{(a, unat (align 24))} - {(a, unat (align 24))} = {}" by simp
  with kfree_object [OF s(2), of a "unat (align 24)"] s(1) show ?thesis by auto
qed

end
