(* ===== verification/Linked_List.thy ===== *)
theory Linked_List
  imports Heap_Objects
begin

text \<open>
  The singly linked lists of \<open>kernel/single_linked_list.h\<close>, which hold the kernel's task
  queues, child lists and memory sections. Nodes and list headers are heap objects, read and
  written at their C offsets. The predicate \<open>list_at\<close> relates them to the sequence of nodes
  and of data pointers.
\<close>

section \<open>Data layout\<close>

text \<open>\<open>struct single_linked_list_node { next; data; }\<close>\<close>

definition nd_next :: uint64 where "nd_next = 0"
definition nd_data :: uint64 where "nd_data = 8"
definition sizeof_node :: uint64 where "sizeof_node = 16"

text \<open>\<open>struct single_linked_list { head; tail; size; }\<close>\<close>

definition ls_head :: uint64 where "ls_head = 0"
definition ls_tail :: uint64 where "ls_tail = 8"
definition ls_size :: uint64 where "ls_size = 16"
definition sizeof_list :: uint64 where "sizeof_list = 24"

lemmas list_layout = nd_next_def nd_data_def sizeof_node_def ls_head_def ls_tail_def ls_size_def sizeof_list_def

section \<open>Operations\<close>

definition init_single_linked_list :: "addr \<Rightarrow> (unit, 'z kheap_scheme) run" where
  "init_single_linked_list list =
     bind (set_field list ls_head 0) (\<lambda>_.
     bind (set_field list ls_tail 0) (\<lambda>_.
     set_field list ls_size 0))"

definition create_single_linked_list :: "(addr, 'z kheap_scheme) run" where
  "create_single_linked_list =
     bind (kmalloc sizeof_list) (\<lambda>list.
     if list = 0 then return 0
     else bind (init_single_linked_list list) (\<lambda>_. return list))"

text \<open>The loop of \<open>clear_single_linked_list\<close>: \<open>while (node != NULL)\<close>.\<close>

partial_function (option) clear_nodes ::
  "addr \<Rightarrow> 'z kheap_scheme \<Rightarrow> (fault + unit \<times> 'z kheap_scheme) option" where
  "clear_nodes node s =
     (if node \<noteq> 0 then
        bind (get_field node nd_next) (\<lambda>nxt.
        bind (kfree node) (\<lambda>_.
        clear_nodes nxt)) s
      else return () s)"

definition clear_single_linked_list :: "addr \<Rightarrow> (unit, 'z kheap_scheme) run" where
  "clear_single_linked_list list =
     (if list = 0 then return ()
      else
        bind (get_field list ls_head) (\<lambda>node.
        bind (clear_nodes node) (\<lambda>_.
        init_single_linked_list list)))"

definition single_linked_list_destroy :: "addr \<Rightarrow> (unit, 'z kheap_scheme) run" where
  "single_linked_list_destroy list =
     (if list = 0 then return ()
      else bind (clear_single_linked_list list) (\<lambda>_. kfree list))"

definition head_node :: "addr \<Rightarrow> (addr, 'z kheap_scheme) run" where
  "head_node list = get_field list ls_head"

definition tail_node :: "addr \<Rightarrow> (addr, 'z kheap_scheme) run" where
  "tail_node list = get_field list ls_tail"

definition head :: "addr \<Rightarrow> (addr, 'z kheap_scheme) run" where
  "head list = bind (get_field list ls_head) (\<lambda>node. get_field node nd_data)"

definition tail :: "addr \<Rightarrow> (addr, 'z kheap_scheme) run" where
  "tail list = bind (get_field list ls_tail) (\<lambda>node. get_field node nd_data)"

definition pop_head_without_free :: "addr \<Rightarrow> (unit, 'z kheap_scheme) run" where
  "pop_head_without_free list =
     bind (get_field list ls_head) (\<lambda>h.
     if h = 0 then return ()
     else
       bind (get_field list ls_tail) (\<lambda>tl.
       bind (if h = tl then
               bind (set_field list ls_head 0) (\<lambda>_. set_field list ls_tail 0)
             else
               bind (get_field h nd_next) (\<lambda>n. set_field list ls_head n)) (\<lambda>_.
       bind (get_field list ls_size) (\<lambda>n.
       set_field list ls_size (n - 1)))))"

definition pop_head :: "addr \<Rightarrow> (unit, 'z kheap_scheme) run" where
  "pop_head list =
     bind (get_field list ls_head) (\<lambda>node.
     bind (pop_head_without_free list) (\<lambda>_.
     kfree node))"

definition make_single_linked_list_node :: "addr \<Rightarrow> (addr, 'z kheap_scheme) run" where
  "make_single_linked_list_node data =
     bind (kmalloc sizeof_node) (\<lambda>node.
     if node = 0 then return 0
     else
       bind (set_field node nd_data data) (\<lambda>_.
       bind (set_field node nd_next 0) (\<lambda>_.
       return node)))"

definition push_head :: "addr \<Rightarrow> addr \<Rightarrow> (int, 'z kheap_scheme) run" where
  "push_head list node =
     bind (get_field list ls_head) (\<lambda>h.
     bind (set_field node nd_next h) (\<lambda>_.
     bind (set_field list ls_head node) (\<lambda>_.
     bind (get_field list ls_tail) (\<lambda>tl.
     bind (if_then (tl = 0) (set_field list ls_tail node)) (\<lambda>_.
     bind (get_field list ls_size) (\<lambda>n.
     bind (set_field list ls_size (n + 1)) (\<lambda>_.
     return 0)))))))"

definition push_tail :: "addr \<Rightarrow> addr \<Rightarrow> (int, 'z kheap_scheme) run" where
  "push_tail list node =
     bind (get_field list ls_tail) (\<lambda>tl.
     bind (if tl = 0 then
             bind (set_field list ls_head node) (\<lambda>_. set_field list ls_tail node)
           else
             bind (set_field tl nd_next node) (\<lambda>_. set_field list ls_tail node)) (\<lambda>_.
     bind (get_field list ls_size) (\<lambda>n.
     bind (set_field list ls_size (n + 1)) (\<lambda>_.
     bind (set_field node nd_next 0) (\<lambda>_.
     return 0)))))"

definition single_linked_list_size :: "addr \<Rightarrow> (uint64, 'z kheap_scheme) run" where
  "single_linked_list_size list = get_field list ls_size"

text \<open>The loop of \<open>for_each_node\<close>: \<open>while (node != NULL)\<close>.\<close>

partial_function (option) for_each_loop ::
  "(addr \<Rightarrow> (unit, 'z kheap_scheme) run) \<Rightarrow> addr \<Rightarrow> 'z kheap_scheme \<Rightarrow>
   (fault + unit \<times> 'z kheap_scheme) option" where
  "for_each_loop func node s =
     (if node \<noteq> 0 then
        bind (get_field node nd_data) (\<lambda>d.
        bind (func d) (\<lambda>_.
        bind (get_field node nd_next) (\<lambda>nxt.
        for_each_loop func nxt))) s
      else return () s)"

definition for_each_node :: "addr \<Rightarrow> (addr \<Rightarrow> (unit, 'z kheap_scheme) run) \<Rightarrow> (unit, 'z kheap_scheme) run" where
  "for_each_node list func = bind (get_field list ls_head) (\<lambda>node. for_each_loop func node)"

text \<open>The loop of \<open>removeAt\<close>; it starts at the second node with \<open>prev\<close> at the first.\<close>

partial_function (option) remove_loop ::
  "addr \<Rightarrow> addr \<Rightarrow> addr \<Rightarrow> addr \<Rightarrow> 'z kheap_scheme \<Rightarrow> (fault + int \<times> 'z kheap_scheme) option" where
  "remove_loop list a prev node s =
     (if node \<noteq> 0 then
        bind (get_field node nd_data) (\<lambda>d.
        if d = a then
          bind (get_field node nd_next) (\<lambda>nxt.
          bind (if prev = 0 then set_field list ls_head nxt else set_field prev nd_next nxt) (\<lambda>_.
          bind (get_field list ls_tail) (\<lambda>tl.
          bind (if_then (node = tl) (set_field list ls_tail prev)) (\<lambda>_.
          bind (kfree node) (\<lambda>_.
          bind (get_field list ls_size) (\<lambda>n.
          bind (set_field list ls_size (n - 1)) (\<lambda>_.
          return 0)))))))
        else
          bind (get_field node nd_next) (\<lambda>nxt. remove_loop list a node nxt)) s
      else return (-1) s)"

definition removeAt :: "addr \<Rightarrow> addr \<Rightarrow> (int, 'z kheap_scheme) run" where
  "removeAt list a =
     bind (get_field list ls_head) (\<lambda>node.
     if node = 0 then return (-1)
     else
       bind (get_field node nd_next) (\<lambda>nxt.
       remove_loop list a node nxt))"

lemmas [code] = clear_nodes.simps for_each_loop.simps remove_loop.simps

section \<open>The list a header stands for\<close>

definition list_at :: "'z machine_scheme \<Rightarrow> addr \<Rightarrow> addr list \<Rightarrow> addr list \<Rightarrow> bool" where
  "list_at s l ns xs \<longleftrightarrow>
     chain (load64 (mem s)) (load64 (mem s) (l + ls_head)) ns \<and>
     load64 (mem s) (l + ls_tail) = (if ns = [] then 0 else last ns) \<and>
     load64 (mem s) (l + ls_size) = of_nat (length ns) \<and>
     map (\<lambda>n. load64 (mem s) (n + nd_data)) ns = xs"

text \<open>The objects a list consists of.\<close>

definition list_objects :: "addr \<Rightarrow> addr list \<Rightarrow> (addr \<times> nat) set" where
  "list_objects l ns = insert (l, 24) ((\<lambda>n. (n, 16)) ` set ns)"

text \<open>A list whose header and nodes are live heap objects.\<close>

definition kernel_list :: "'z kheap_scheme \<Rightarrow> nat set \<times> heap \<Rightarrow> (addr \<times> nat) set \<Rightarrow>
    addr \<Rightarrow> addr list \<Rightarrow> addr list \<Rightarrow> bool" where
  "kernel_list s vw A l ns xs \<longleftrightarrow> live_objects s vw A \<and> list_objects l ns \<subseteq> A \<and> list_at s l ns xs"

section \<open>Separation\<close>

definition nodes_sep :: "addr \<Rightarrow> addr list \<Rightarrow> bool" where
  "nodes_sep l ns \<longleftrightarrow> l \<noteq> 0 \<and> aligned8 l \<and>
     (\<forall>n\<in>set ns. n \<noteq> 0 \<and> aligned8 n \<and> n \<notin> {l, l + 8, l + 16} \<and> n + 8 \<notin> {l, l + 8, l + 16} \<and>
        (\<forall>m\<in>set ns. m + 8 \<noteq> n))"

lemma object_words_apart_numeral:
  assumes "live_objects s vw A" and "(l, 24) \<in> A" and "(n, 16) \<in> A"
  shows "n \<notin> {l, l + 8, l + 16}" "n + 8 \<notin> {l, l + 8, l + 16}"
proof -
  have "n + of_nat i \<noteq> l + of_nat j" if "i \<le> 8" "j \<le> 16" for i j
    using object_words_apart [OF assms(1,3,2)] that by auto
  from this [of 0 0] this [of 0 8] this [of 0 16] this [of 8 0] this [of 8 8] this [of 8 16]
  show "n \<notin> {l, l + 8, l + 16}" "n + 8 \<notin> {l, l + 8, l + 16}" by simp_all
qed

lemma nodes_sepI:
  assumes live: "live_objects s vw A" and sub: "list_objects l ns \<subseteq> A"
  shows "nodes_sep l ns"
proof -
  have l: "(l, 24) \<in> A" and n: "\<And>n. n \<in> set ns \<Longrightarrow> (n, 16) \<in> A"
    using sub by (auto simp: list_objects_def)
  have "m + 8 \<noteq> n" if "n \<in> set ns" "m \<in> set ns" for n m
  proof (cases "n = m")
    case False
    then show ?thesis using object_words_apart [OF live n [OF that(2)] n [OF that(1)], of 8 0] by auto
  qed simp
  then show ?thesis
    using object_words_apart_numeral [OF live l n] live_bound [OF live l] live_bound [OF live n]
    unfolding nodes_sep_def by blast
qed

text \<open>Two states with the same words of a list represent the same list.\<close>

lemma list_at_cong:
  assumes "list_at s l ns xs"
    and "\<And>i. i \<in> {0, 8, 16} \<Longrightarrow> load64 (mem s') (l + i) = load64 (mem s) (l + i)"
    and "\<And>n i. n \<in> set ns \<Longrightarrow> i \<in> {0, 8} \<Longrightarrow> load64 (mem s') (n + i) = load64 (mem s) (n + i)"
  shows "list_at s' l ns xs"
proof -
  have "load64 (mem s') n = load64 (mem s) n" if "n \<in> set ns" for n using assms(3) [OF that, of 0] by simp
  then have "chain (load64 (mem s')) p ns = chain (load64 (mem s)) p ns" for p by (rule chain_cong)
  moreover have mp: "map (\<lambda>n. load64 (mem s') (n + 8)) ns = map (\<lambda>n. load64 (mem s) (n + 8)) ns"
    using assms(3) [of _ 8] by auto
  moreover note assms(2) [of 0] assms(2) [of 8] assms(2) [of 16]
  ultimately show ?thesis using assms(1) by (simp add: list_at_def list_layout mp)
qed

lemma list_at_distinct: "list_at s l ns xs \<Longrightarrow> distinct ns"
  unfolding list_at_def using chain_distinct by blast

section \<open>Pushing and popping\<close>

lemma push_tail_at:
  assumes at: "list_at s l ns xs" and sep: "nodes_sep l (n # ns)" and new: "n \<notin> set ns"
  shows "\<exists>s'. push_tail l n s = Ok 0 s' \<and> list_at s' l (ns @ [n]) (xs @ [load64 (mem s) (n + nd_data)]) \<and>
    s' = put64 n 0 (put64 (l + ls_size) (of_nat (length ns) + 1) (put64 (l + ls_tail) n
      (put64 (if ns = [] then l else last ns) n s)))"
proof (cases ns rule: rev_cases)
  case Nil
  with at sep show ?thesis
    by (auto simp: push_tail_def nodes_sep_def list_at_def list_layout struct_simps load_put return_def)
next
  case (snoc us t)
  have t: "t \<noteq> 0" "aligned8 t" "t \<notin> {l, l + 8, l + 16}" "t + 8 \<notin> {l, l + 8, l + 16}" "n \<noteq> t" "n + 8 \<noteq> t" "t + 8 \<noteq> n"
    and l: "l \<noteq> 0" "aligned8 l"
    and n: "n \<noteq> 0" "aligned8 n" "n \<notin> {l, l + 8, l + 16}" "n + 8 \<notin> {l, l + 8, l + 16}"
    using sep new snoc by (auto simp: nodes_sep_def)
  have us: "aligned8 m" "m \<noteq> n" "m \<notin> {l, l + 8, l + 16}" "m + 8 \<notin> {l, l + 8, l + 16}" "m + 8 \<noteq> n" "m + 8 \<noteq> t"
    if "m \<in> set us" for m
    using that sep new snoc by (auto simp: nodes_sep_def)
  have ch: "chain (load64 (mem s)) (load64 (mem s) l) (us @ [t])"
    and tl: "load64 (mem s) (l + 8) = t" and sz: "load64 (mem s) (l + 16) = of_nat (length ns)"
    and xs: "map (\<lambda>n. load64 (mem s) (n + 8)) (us @ [t]) = xs"
    using at snoc by (auto simp: list_at_def list_layout)
  have tn: "t \<notin> set us" using chain_distinct [OF ch] by simp
  let ?s = "put64 n 0 (put64 (l + 16) (of_nat (length ns) + 1) (put64 (l + 8) n (put64 t n s)))"
  have ld: "load64 (mem ?s) w = (if w = n then 0 else if w = l + 16 then of_nat (length ns) + 1
      else if w = l + 8 \<or> w = t then n else load64 (mem s) w)" if "aligned8 w" for w
    using that t l n by (auto simp: load_put)
  have "push_tail l n s = Ok 0 ?s"
    using t l n tl sz by (simp add: push_tail_def list_layout struct_simps load_put return_def)
  moreover have "list_at ?s l (ns @ [n]) (xs @ [load64 (mem s) (n + nd_data)])"
  proof -
    have hd: "load64 (mem ?s) l = load64 (mem s) l" using l n t by (subst ld) auto
    have "chain (load64 (mem ?s)) p (us @ [t, n]) = chain ((load64 (mem s))(t := n, n := 0)) p (us @ [t, n])" for p
    proof (rule chain_cong)
      fix m assume "m \<in> set (us @ [t, n])"
      then have "m \<in> set us \<or> m = t \<or> m = n" by auto
      then show "load64 (mem ?s) m = ((load64 (mem s))(t := n, n := 0)) m"
        using us t n l new by (auto simp: ld)
    qed
    moreover have "chain ((load64 (mem s))(t := n, n := 0)) (load64 (mem s) l) (us @ [t, n])"
    proof -
      from ch have "segment (load64 (mem s)) (load64 (mem s) l) us t" by (auto simp: chain_append)
      moreover have "n \<notin> set us" "t \<notin> set us" using tn new snoc by auto
      ultimately have "segment ((load64 (mem s))(t := n, n := 0)) (load64 (mem s) l) us t" by simp
      then show ?thesis using t n by (auto simp: chain_append)
    qed
    ultimately have "chain (load64 (mem ?s)) (load64 (mem ?s) l) (us @ [t, n])"
      by (simp only: hd)
    moreover have "load64 (mem ?s) (m + 8) = load64 (mem s) (m + 8)" if "m \<in> set us \<or> m = t \<or> m = n" for m
      using that us [of m] t n l by (subst ld) auto
    then have "map (\<lambda>m. load64 (mem ?s) (m + 8)) (us @ [t, n]) = xs @ [load64 (mem s) (n + 8)]"
      using xs by auto
    moreover have "load64 (mem ?s) (l + 8) = n" "load64 (mem ?s) (l + 16) = of_nat (length ns) + 1"
      using l n by (auto simp: ld)
    ultimately show ?thesis using snoc by (simp add: list_at_def list_layout)
  qed
  ultimately show ?thesis using snoc by (simp add: list_layout)
qed

lemma push_head_at:
  assumes at: "list_at s l ns xs" and sep: "nodes_sep l (n # ns)" and new: "n \<notin> set ns"
  shows "\<exists>s'. push_head l n s = Ok 0 s' \<and> list_at s' l (n # ns) (load64 (mem s) (n + nd_data) # xs) \<and>
    s' = put64 (l + ls_size) (of_nat (length ns) + 1)
      ((if ns = [] then put64 (l + ls_tail) n else id) (put64 l n (put64 n (load64 (mem s) l) s)))"
proof -
  have l: "l \<noteq> 0" "aligned8 l"
    and n: "n \<noteq> 0" "aligned8 n" "n \<notin> {l, l + 8, l + 16}" "n + 8 \<notin> {l, l + 8, l + 16}"
    using sep by (auto simp: nodes_sep_def)
  have ns: "aligned8 m" "m \<noteq> n" "m \<notin> {l, l + 8, l + 16}" "m + 8 \<notin> {l, l + 8, l + 16}" "m + 8 \<noteq> n"
    if "m \<in> set ns" for m
    using that sep new by (auto simp: nodes_sep_def)
  have ch: "chain (load64 (mem s)) (load64 (mem s) l) ns"
    and tl: "load64 (mem s) (l + 8) = (if ns = [] then 0 else last ns)"
    and sz: "load64 (mem s) (l + 16) = of_nat (length ns)"
    and xs: "map (\<lambda>n. load64 (mem s) (n + 8)) ns = xs"
    using at by (auto simp: list_at_def list_layout)
  have z: "last ns = 0 \<longleftrightarrow> False" if "ns \<noteq> []" using chain_zero_notin [OF ch] that by (metis last_in_set)
  let ?s = "put64 (l + 16) (of_nat (length ns) + 1)
      ((if ns = [] then put64 (l + 8) n else id) (put64 l n (put64 n (load64 (mem s) l) s)))"
  have ld: "load64 (mem ?s) w = (if w = l + 16 then of_nat (length ns) + 1
      else if w = l + 8 then (if ns = [] then n else last ns) else if w = l then n
      else if w = n then load64 (mem s) l else load64 (mem s) w)" if "aligned8 w" for w
    using that l n tl by (auto simp: load_put)
  have "push_head l n s = Ok 0 ?s"
    using l n tl sz z by (auto simp: push_head_def list_layout struct_simps load_put return_def if_then_def)
  moreover have "list_at ?s l (n # ns) (load64 (mem s) (n + nd_data) # xs)"
  proof -
    have "chain (load64 (mem ?s)) p ns = chain (load64 (mem s)) p ns" for p
      by (rule chain_cong) (use ns l in \<open>auto simp: ld\<close>)
    then have "chain (load64 (mem ?s)) (load64 (mem ?s) l) (n # ns)"
      using ch l n by (simp add: ld)
    moreover have "load64 (mem ?s) (m + 8) = load64 (mem s) (m + 8)" if "m \<in> set ns \<or> m = n" for m
      using that ns [of m] n l by (subst ld) auto
    then have "map (\<lambda>m. load64 (mem ?s) (m + 8)) (n # ns) = load64 (mem s) (n + 8) # xs"
      using xs by auto
    moreover have "load64 (mem ?s) (l + 8) = last (n # ns)" "load64 (mem ?s) (l + 16) = of_nat (length (n # ns))"
      using l n by (auto simp: ld)
    ultimately show ?thesis by (simp add: list_at_def list_layout)
  qed
  ultimately show ?thesis by (simp add: list_layout)
qed

lemma pop_at_empty: "list_at s l [] xs \<Longrightarrow> l \<noteq> 0 \<Longrightarrow> pop_head_without_free l s = Ok () s"
  by (simp add: pop_head_without_free_def list_at_def list_layout struct_simps return_def)

lemma pop_at:
  assumes at: "list_at s l (n # ns) (x # xs)" and sep: "nodes_sep l (n # ns)"
  shows "\<exists>s'. pop_head_without_free l s = Ok () s' \<and> list_at s' l ns xs \<and>
    s' = put64 (l + ls_size) (of_nat (length ns))
      ((if ns = [] then put64 (l + ls_tail) 0 else id) (put64 l (if ns = [] then 0 else hd ns) s))"
proof -
  have l: "l \<noteq> 0" "aligned8 l" using sep by (auto simp: nodes_sep_def)
  have ns: "aligned8 m" "m \<notin> {l, l + 8, l + 16}" "m + 8 \<notin> {l, l + 8, l + 16}"
    if "m \<in> set (n # ns)" for m
    using that sep by (auto simp: nodes_sep_def)
  have hd: "load64 (mem s) l = n" "n \<noteq> 0" and ch: "chain (load64 (mem s)) (load64 (mem s) n) ns"
    and tl: "load64 (mem s) (l + 8) = last (n # ns)" and sz: "load64 (mem s) (l + 16) = of_nat (length ns) + 1"
    and xs: "map (\<lambda>n. load64 (mem s) (n + 8)) ns = xs"
    using at by (auto simp: list_at_def list_layout)
  have dist: "distinct (n # ns)" using at chain_distinct by (auto simp: list_at_def simp del: distinct.simps)
  have nn: "load64 (mem s) n = (if ns = [] then 0 else hd ns)" using ch chain_head [of _ _ ns] by (cases ns) auto
  have last: "n = last (n # ns) \<longleftrightarrow> ns = []" using dist by (metis distinct.simps(2) last.simps last_in_set)
  let ?s = "put64 (l + 16) (of_nat (length ns))
      ((if ns = [] then put64 (l + 8) 0 else id) (put64 l (if ns = [] then 0 else List.hd ns) s))"
  have ld: "load64 (mem ?s) w = (if w = l + 16 then of_nat (length ns)
      else if w = l + 8 then (if ns = [] then 0 else last ns) else if w = l then (if ns = [] then 0 else List.hd ns)
      else load64 (mem s) w)" if "aligned8 w" for w
    using that l tl by (auto simp: load_put)
  have "pop_head_without_free l s = Ok () ?s"
    using l tl sz hd nn last
    by (auto simp: pop_head_without_free_def list_layout struct_simps load_put return_def)
  moreover have "list_at ?s l ns xs"
  proof -
    have "chain (load64 (mem ?s)) p ns = chain (load64 (mem s)) p ns" for p
      by (rule chain_cong) (use ns l in \<open>auto simp: ld\<close>)
    then have "chain (load64 (mem ?s)) (load64 (mem ?s) l) ns"
      using ch nn l by (simp add: ld)
    moreover have "load64 (mem ?s) (m + 8) = load64 (mem s) (m + 8)" if "m \<in> set ns" for m
      using that ns [of m] l by (subst ld) auto
    then have mp: "map (\<lambda>m. load64 (mem ?s) (m + 8)) ns = xs" using xs by auto
    moreover have "load64 (mem ?s) (l + 8) = (if ns = [] then 0 else last ns)"
      "load64 (mem ?s) (l + 16) = of_nat (length ns)"
      using l by (auto simp: ld)
    ultimately show ?thesis by (simp add: list_at_def list_layout)
  qed
  ultimately show ?thesis by (simp add: list_layout)
qed

section \<open>Lists of live objects\<close>

lemma put_list_live:
  assumes "live_objects s vw A" and "(l, 24) \<in> A"
  shows "live_objects (put64 l x s) vw A" "live_objects (put64 (l + ls_tail) x s) vw A"
    "live_objects (put64 (l + ls_size) x s) vw A"
  using live_put [OF assms, of 0] live_put [OF assms, of 8] live_put [OF assms, of 16]
  by (simp_all add: list_layout)

lemma put_node_live:
  assumes "live_objects s vw A" and "(n, 16) \<in> A"
  shows "live_objects (put64 n x s) vw A" "live_objects (put64 (n + nd_data) x s) vw A"
  using live_put [OF assms, of 0] live_put [OF assms, of 8] by (simp_all add: list_layout)

lemmas put_live = put_list_live put_node_live

lemma kernel_listD:
  assumes "kernel_list s vw A l ns xs"
  shows "live_objects s vw A" "(l, 24) \<in> A" "n \<in> set ns \<Longrightarrow> (n, 16) \<in> A" "list_at s l ns xs"
    "nodes_sep l ns" "length ns = length xs" "list_objects l ns \<subseteq> A"
  using assms nodes_sepI [of s vw A l ns] by (auto simp: kernel_list_def list_objects_def list_at_def)

lemma nodes_sep_insert:
  assumes "kernel_list s vw A l ns xs" and "(n, 16) \<in> A"
  shows "nodes_sep l (n # ns)"
  using assms by (intro nodes_sepI [of s vw A]) (auto simp: kernel_list_def list_objects_def)

lemma push_tail_list:
  assumes k: "kernel_list s vw A l ns xs" and n: "(n, 16) \<in> A" "n \<notin> set ns"
  shows "\<exists>s'. push_tail l n s = Ok 0 s' \<and> kernel_list s' vw A l (ns @ [n]) (xs @ [load64 (mem s) (n + nd_data)])"
proof -
  note d = kernel_listD [OF k]
  obtain s' where s': "push_tail l n s = Ok 0 s'" "list_at s' l (ns @ [n]) (xs @ [load64 (mem s) (n + nd_data)])"
    "s' = put64 n 0 (put64 (l + ls_size) (of_nat (length ns) + 1) (put64 (l + ls_tail) n
      (put64 (if ns = [] then l else last ns) n s)))"
    using push_tail_at [OF d(4) nodes_sep_insert [OF k n(1)] n(2)] by blast
  have "live_objects (put64 (if ns = [] then l else last ns) n s) vw A"
    using d(1,2,3) by (simp add: put_live)
  then have "live_objects s' vw A" unfolding s'(3) using d(2) n(1) by (simp add: put_live)
  with s'(1,2) d(7) n(1) show ?thesis by (auto simp: kernel_list_def list_objects_def)
qed

lemma push_head_list:
  assumes k: "kernel_list s vw A l ns xs" and n: "(n, 16) \<in> A" "n \<notin> set ns"
  shows "\<exists>s'. push_head l n s = Ok 0 s' \<and> kernel_list s' vw A l (n # ns) (load64 (mem s) (n + nd_data) # xs)"
proof -
  note d = kernel_listD [OF k]
  obtain s' where s': "push_head l n s = Ok 0 s'" "list_at s' l (n # ns) (load64 (mem s) (n + nd_data) # xs)"
    "s' = put64 (l + ls_size) (of_nat (length ns) + 1)
      ((if ns = [] then put64 (l + ls_tail) n else id) (put64 l n (put64 n (load64 (mem s) l) s)))"
    using push_head_at [OF d(4) nodes_sep_insert [OF k n(1)] n(2)] by blast
  have "live_objects s' vw A"
    unfolding s'(3) using d(1,2) n(1) by (cases "ns = []") (simp_all add: put_live)
  with s'(1,2) d(7) n(1) show ?thesis by (auto simp: kernel_list_def list_objects_def)
qed

lemma pop_list:
  assumes k: "kernel_list s vw A l (n # ns) (x # xs)"
  shows "\<exists>s'. pop_head_without_free l s = Ok () s' \<and> kernel_list s' vw A l ns xs"
proof -
  note d = kernel_listD [OF k]
  obtain s' where s': "pop_head_without_free l s = Ok () s'" "list_at s' l ns xs"
    "s' = put64 (l + ls_size) (of_nat (length ns))
      ((if ns = [] then put64 (l + ls_tail) 0 else id) (put64 l (if ns = [] then 0 else hd ns) s))"
    using pop_at [OF d(4,5)] by blast
  have "live_objects s' vw A"
    unfolding s'(3) using d(1,2) by (cases "ns = []") (simp_all add: put_live)
  with s'(1,2) d(7) show ?thesis by (auto simp: kernel_list_def list_objects_def)
qed

text \<open>A list survives every change of the heap that keeps its objects.\<close>

lemma list_at_kept:
  assumes "list_at s l ns xs" and "list_objects l ns \<subseteq> B"
    and kept: "\<forall>(b, z)\<in>B. \<forall>i<z. mem s' (b + of_nat i) = mem s (b + of_nat i)"
  shows "list_at s' l ns xs"
proof (rule list_at_cong [OF assms(1)])
  have w: "load64 (mem s') (b + of_nat j) = load64 (mem s) (b + of_nat j)" if "(b, z) \<in> B" "j + 8 \<le> z" for b z j
    using that kept by (intro object_word_kept [of z]) auto
  show "load64 (mem s') (l + i) = load64 (mem s) (l + i)" if "i \<in> {0, 8, 16}" for i
    using that w [of l 24 0] w [of l 24 8] w [of l 24 16] assms(2) by (auto simp: list_objects_def)
  show "load64 (mem s') (n + i) = load64 (mem s) (n + i)" if "n \<in> set ns" "i \<in> {0, 8}" for n i
    using that w [of n 16 0] w [of n 16 8] assms(2) by (auto simp: list_objects_def)
qed

lemma kfree_keeps_list:
  assumes k: "kernel_list s vw A l ns xs" and n: "(n, 16) \<in> A" "n \<notin> set ns"
  shows "\<exists>vw' s'. kfree n s = Ok () s' \<and> kernel_list s' vw' (A - {(n, 16)}) l ns xs \<and>
    (\<forall>(b, y)\<in>A - {(n, 16)}. \<forall>i<y. mem s' (b + of_nat i) = mem s (b + of_nat i))"
proof -
  note d = kernel_listD [OF k]
  obtain vw' s' where s': "kfree n s = Ok () s'" "live_objects s' vw' (A - {(n, 16)})"
      "\<forall>(b, y)\<in>A - {(n, 16)}. \<forall>i<y. mem s' (b + of_nat i) = mem s (b + of_nat i)"
    using kernel_objects.free_ok [OF d(1) n(1)] by blast
  have sub: "list_objects l ns \<subseteq> A - {(n, 16)}" using d(7) n(2) by (auto simp: list_objects_def)
  from list_at_kept [OF d(4) sub s'(3)] s' sub show ?thesis unfolding kernel_list_def by blast
qed

lemma pop_head_list:
  assumes k: "kernel_list s vw A l (n # ns) (x # xs)"
  shows "\<exists>vw' s'. pop_head l s = Ok () s' \<and> kernel_list s' vw' (A - {(n, 16)}) l ns xs"
proof -
  note d = kernel_listD [OF k]
  have l: "l \<noteq> 0" "load64 (mem s) (l + ls_head) = n" "n \<notin> set ns"
    using d(5) list_at_distinct [OF d(4)] d(4) by (auto simp: nodes_sep_def list_at_def)
  obtain t where t: "pop_head_without_free l s = Ok () t" "kernel_list t vw A l ns xs"
    using pop_list [OF k] by blast
  have pk: "bind (pop_head_without_free l) c s = c () t" for c :: "unit \<Rightarrow> (unit, 'a kheap_scheme) run"
    using t(1) by (rule bind_Ok)
  have "pop_head l s = kfree n t" using l by (simp add: pop_head_def struct_simps pk)
  with kfree_keeps_list [OF t(2) d(3) [of n] l(3)] show ?thesis by auto
qed

section \<open>Removing a node\<close>

text \<open>Unlinking the node \<open>n\<close> behind \<open>p\<close>.\<close>

definition unlink :: "addr \<Rightarrow> addr \<Rightarrow> addr list \<Rightarrow> 'z machine_scheme \<Rightarrow> 'z machine_scheme" where
  "unlink l p vs s = (if vs = [] then put64 (l + ls_tail) p else id) (put64 p (head_ptr vs) s)"

lemma unlink_at:
  assumes at: "list_at s l (us @ p # n # vs) xs" and sep: "nodes_sep l (us @ p # n # vs)"
  shows "list_at (put64 (l + ls_size) (of_nat (length (us @ p # vs))) (unlink l p vs s)) l (us @ p # vs)
    (map (\<lambda>m. load64 (mem s) (m + nd_data)) (us @ p # vs))"
proof -
  define k where "k = (of_nat (length (us @ p # vs)) :: uint64)"
  let ?s = "put64 (l + ls_size) k (unlink l p vs s)"
  have l: "l \<noteq> 0" "aligned8 l" and p: "aligned8 p" "p \<notin> {l, l + 8, l + 16}"
    using sep by (auto simp: nodes_sep_def)
  have m: "aligned8 m" "m \<notin> {l, l + 8, l + 16}" "m + 8 \<notin> {l, l + 8, l + 16}" "m + 8 \<noteq> p"
    if "m \<in> set (us @ p # vs)" for m
    using that sep by (auto simp: nodes_sep_def)
  have ch: "chain (load64 (mem s)) (load64 (mem s) l) (us @ p # n # vs)"
    and tl: "load64 (mem s) (l + 8) = last (us @ p # n # vs)"
    using at by (auto simp: list_at_def list_layout)
  have dist: "distinct (us @ p # n # vs)" using at by (rule list_at_distinct)
  have ld: "load64 (mem ?s) w = (if w = l + 16 then k
      else if w = l + 8 then last (us @ p # vs) else if w = p then head_ptr vs else load64 (mem s) w)"
    if "aligned8 w" for w
    using that l p tl unfolding unlink_def by (auto simp: load_put list_layout)
  have "chain (load64 (mem ?s)) q (us @ p # vs) = chain ((load64 (mem s))(p := head_ptr vs)) q (us @ p # vs)" for q
    by (rule chain_cong) (use m in \<open>auto simp: ld\<close>)
  moreover have "chain ((load64 (mem s))(p := head_ptr vs)) (load64 (mem s) l) (us @ p # vs)"
  proof -
    from ch have "segment (load64 (mem s)) (load64 (mem s) l) us p" "p \<noteq> 0"
      "chain (load64 (mem s)) (load64 (mem s) n) vs" by (auto simp: chain_append)
    moreover have "load64 (mem s) n = head_ptr vs" using chain_head calculation(3) .
    ultimately show ?thesis using dist by (auto simp: chain_append)
  qed
  moreover have "load64 (mem ?s) l = load64 (mem s) l" using l p by (auto simp: ld)
  ultimately have "chain (load64 (mem ?s)) (load64 (mem ?s) l) (us @ p # vs)" by (simp only:)
  moreover have "load64 (mem ?s) (i + 8) = load64 (mem s) (i + 8)" if "i \<in> set (us @ p # vs)" for i
    using m [OF that] by (subst ld) auto
  then have "map (\<lambda>i. load64 (mem ?s) (i + 8)) (us @ p # vs) = map (\<lambda>i. load64 (mem s) (i + 8)) (us @ p # vs)"
    by simp
  moreover have "load64 (mem ?s) (l + 8) = last (us @ p # vs)"
    "load64 (mem ?s) (l + 16) = k"
    using l by (auto simp: ld)
  ultimately have "list_at ?s l (us @ p # vs) (map (\<lambda>m. load64 (mem s) (m + nd_data)) (us @ p # vs))"
    unfolding list_at_def list_layout by (simp add: k_def)
  then show ?thesis unfolding k_def .
qed

lemma unlink_live:
  "live_objects s vw A \<Longrightarrow> (l, 24) \<in> A \<Longrightarrow> (p, 16) \<in> A \<Longrightarrow> live_objects (unlink l p vs s) vw A"
  by (simp add: unlink_def put_live)

text \<open>One node is removed: relinked, freed, and the size counted down.\<close>

lemma remove_node:
  assumes k: "kernel_list s vw A l (us @ p # n # vs) xs"
  shows "\<exists>t vw' s'. kfree n (unlink l p vs s) = Ok () t \<and> s' = put64 (l + ls_size) (of_nat (length (us @ p # vs))) t \<and>
    load64 (mem t) (l + ls_size) = of_nat (length (us @ p # vs)) + 1 \<and>
    kernel_list s' vw' (A - {(n, 16)}) l (us @ p # vs) (map (\<lambda>m. load64 (mem s) (m + nd_data)) (us @ p # vs))"
proof -
  note d = kernel_listD [OF k]
  let ?u = "unlink l p vs s" and ?ns = "us @ p # vs"
  have l: "l \<noteq> 0" "aligned8 l" and pa: "p \<notin> {l, l + 8, l + 16}" "aligned8 p" using d(5) by (auto simp: nodes_sep_def)
  have mem: "(l, 24) \<in> A" "(p, 16) \<in> A" "(n, 16) \<in> A" using d(2,3) by auto
  have live: "live_objects ?u vw A" using d(1) mem by (intro unlink_live)
  obtain vw' t where t: "kfree n ?u = Ok () t" "live_objects t vw' (A - {(n, 16)})"
      "\<forall>(b, y)\<in>A - {(n, 16)}. \<forall>i<y. mem t (b + of_nat i) = mem ?u (b + of_nat i)"
    using kernel_objects.free_ok [OF live mem(3)] by blast
  have sub: "list_objects l ?ns \<subseteq> A - {(n, 16)}"
    using d(7) list_at_distinct [OF d(4)] by (auto simp: list_objects_def)
  have w: "load64 (mem t) (b + of_nat j) = load64 (mem ?u) (b + of_nat j)"
    if "(b, z) \<in> A - {(n, 16)}" "j + 8 \<le> z" for b z j
    using that t(3) by (intro object_word_kept [of z]) auto
  have lw: "load64 (mem t) (l + of_nat j) = load64 (mem ?u) (l + of_nat j)" if "j \<le> 16" for j
    using w [of l 24 j] that mem by auto
  have nw: "load64 (mem t) (m + of_nat j) = load64 (mem ?u) (m + of_nat j)" if "m \<in> set ?ns" "j \<le> 8" for m j
    using w [of m 16 j] that sub by (auto simp: list_objects_def)
  let ?s = "put64 (l + ls_size) (of_nat (length ?ns)) t"
  have sep: "nodes_sep l ?ns" using nodes_sepI [OF t(2) sub] .
  have "list_at ?s l ?ns (map (\<lambda>m. load64 (mem s) (m + nd_data)) ?ns)"
  proof (rule list_at_cong [OF unlink_at [OF d(4,5)]])
    show "load64 (mem ?s) (l + i) = load64 (mem (put64 (l + ls_size) (of_nat (length ?ns)) ?u)) (l + i)"
      if "i \<in> {0, 8, 16}" for i
      using that l lw [of 0] lw [of 8] lw [of 16] by (auto simp: load_put list_layout)
    show "load64 (mem ?s) (m + i) = load64 (mem (put64 (l + ls_size) (of_nat (length ?ns)) ?u)) (m + i)"
      if "m \<in> set ?ns" "i \<in> {0, 8}" for m i
    proof -
      have "aligned8 (m + i)" "l + 16 \<noteq> m + i" using sep that by (auto simp: nodes_sep_def)
      with l that nw [OF that(1), of 0] nw [OF that(1), of 8] show ?thesis by (auto simp: load_put list_layout)
    qed
  qed
  moreover have "live_objects ?s vw' (A - {(n, 16)})" using t(2) mem by (intro put_list_live(3)) auto
  ultimately have "kernel_list ?s vw' (A - {(n, 16)}) l ?ns (map (\<lambda>m. load64 (mem s) (m + nd_data)) ?ns)"
    using sub by (simp add: kernel_list_def)
  moreover have "load64 (mem t) (l + ls_size) = of_nat (length ?ns) + 1"
    using lw [of 16] d(4) l pa by (auto simp: list_at_def list_layout unlink_def load_put)
  ultimately show ?thesis using t(1) by blast
qed

abbreviation datum :: "'z machine_scheme \<Rightarrow> addr \<Rightarrow> addr" where
  "datum s n \<equiv> load64 (mem s) (n + nd_data)"

lemma kernel_list_chain:
  assumes "kernel_list s vw A l (us @ p # vs) xs"
  shows "load64 (mem s) p = head_ptr vs" "p \<noteq> 0"
proof -
  have "chain (load64 (mem s)) (load64 (mem s) (l + ls_head)) (us @ p # vs)"
    using assms by (auto simp: kernel_list_def list_at_def)
  then have "chain (load64 (mem s)) (load64 (mem s) p) vs" "p \<noteq> 0" by (auto simp: chain_append)
  then show "load64 (mem s) p = head_ptr vs" "p \<noteq> 0" using chain_head by blast+
qed

lemma remove_found:
  assumes k: "kernel_list s vw A l (us @ p # n # vs) xs" and d: "datum s n = a"
  shows "\<exists>vw' s'. remove_loop l a p n s = Ok 0 s' \<and>
    kernel_list s' vw' (A - {(n, 16)}) l (us @ p # vs) (map (datum s) (us @ p # vs))"
proof -
  note kd = kernel_listD [OF k]
  have l: "l \<noteq> 0" "aligned8 l" and pa: "p \<notin> {l, l + 8, l + 16}" "aligned8 p"
    using kd(5) by (auto simp: nodes_sep_def)
  have p0: "p \<noteq> 0" using kernel_list_chain [OF k] by simp
  have n: "load64 (mem s) n = head_ptr vs" "n \<noteq> 0"
    using kernel_list_chain [of s vw A l "us @ [p]" n vs] k by simp_all
  have tl: "load64 (mem s) (l + 8) = last (us @ p # n # vs)" using kd(4) by (simp add: list_at_def list_layout)
  have dist: "distinct (us @ p # n # vs)" using kd(4) by (rule list_at_distinct)
  have last: "n = last (us @ p # n # vs) \<longleftrightarrow> vs = []"
    using dist by (cases vs rule: rev_cases) auto
  obtain t vw' s' where t: "kfree n (unlink l p vs s) = Ok () t"
      "s' = put64 (l + ls_size) (of_nat (length (us @ p # vs))) t"
      "load64 (mem t) (l + ls_size) = of_nat (length (us @ p # vs)) + 1"
      "kernel_list s' vw' (A - {(n, 16)}) l (us @ p # vs) (map (datum s) (us @ p # vs))"
    using remove_node [OF k] by blast
  have fk: "bind (kfree n) c (unlink l p vs s) = c () t" for c :: "unit \<Rightarrow> (int, 'a kheap_scheme) run"
    using t(1) by (rule bind_Ok)
  have tl': "load64 (mem (put64 p (head_ptr vs) s)) (l + 8) = last (us @ p # n # vs)"
    using tl l pa by (simp add: load_put)
  have "bind (if_then (n = last (us @ p # n # vs)) (set_field l ls_tail p)) (\<lambda>_. c) (put64 p (head_ptr vs) s) =
      c (unlink l p vs s)" for c :: "(int, 'a kheap_scheme) run"
    unfolding last using l by (simp add: unlink_def if_then_def struct_simps)
  moreover have "remove_loop l a p n s =
      bind (if_then (n = last (us @ p # n # vs)) (set_field l ls_tail p)) (\<lambda>_.
      bind (kfree n) (\<lambda>_. bind (get_field l ls_size) (\<lambda>k.
      bind (set_field l ls_size (k - 1)) (\<lambda>_. return 0)))) (put64 p (head_ptr vs) s)"
    using n l p0 d tl' by (subst remove_loop.simps) (simp add: struct_simps list_layout)
  ultimately have "remove_loop l a p n s = Ok 0 s'"
    using l t(2,3) by (simp add: fk struct_simps return_def)
  with t(4) show ?thesis by blast
qed

lemma remove_loop_list:
  assumes "kernel_list s vw A l (us @ p # vs) xs"
  shows "if a \<in> datum s ` set vs
    then \<exists>n vw' s'. remove_loop l a p (head_ptr vs) s = Ok 0 s' \<and> n \<in> set vs \<and>
      kernel_list s' vw' (A - {(n, 16)}) l (remove1 n (us @ p # vs))
        (map (datum s) (us @ [p]) @ remove1 a (map (datum s) vs))
    else remove_loop l a p (head_ptr vs) s = Ok (-1) s"
  using assms
proof (induction vs arbitrary: us p)
  case Nil
  then show ?case by (simp add: remove_loop.simps return_def)
next
  case (Cons n vs)
  have n: "load64 (mem s) n = head_ptr vs" "n \<noteq> 0"
    using kernel_list_chain [of s vw A l "us @ [p]" n vs] Cons.prems by simp_all
  have dist: "distinct (us @ p # n # vs)"
    using kernel_listD(4) [OF Cons.prems] by (rule list_at_distinct)
  show ?case
  proof (cases "datum s n = a")
    case True
    have r: "remove1 n (us @ p # n # vs) = us @ p # vs" using dist by (simp add: remove1_append)
    obtain vw' s' where "remove_loop l a p n s = Ok 0 s'"
        "kernel_list s' vw' (A - {(n, 16)}) l (us @ p # vs) (map (datum s) (us @ p # vs))"
      using remove_found [OF Cons.prems True] by blast
    then have "\<exists>m vw' s'. remove_loop l a p (head_ptr (n # vs)) s = Ok 0 s' \<and> m \<in> set (n # vs) \<and>
        kernel_list s' vw' (A - {(m, 16)}) l (remove1 m (us @ p # n # vs))
          (map (datum s) (us @ [p]) @ remove1 a (map (datum s) (n # vs)))"
      using True r by (intro exI [of _ n] exI [of _ vw'] exI [of _ s']) simp
    then show ?thesis using True by simp
  next
    case False
    have step: "remove_loop l a p (head_ptr (n # vs)) s = remove_loop l a n (head_ptr vs) s"
      using n False by (subst remove_loop.simps) (simp add: struct_simps list_layout)
    have "kernel_list s vw A l ((us @ [p]) @ n # vs) xs" using Cons.prems by simp
    note IH = Cons.IH [OF this]
    have app: "(us @ [p]) @ n # vs = us @ p # n # vs" by simp
    have dat: "map (datum s) ((us @ [p]) @ [n]) @ remove1 a (map (datum s) vs) =
        map (datum s) (us @ [p]) @ remove1 a (map (datum s) (n # vs))"
      and mem: "a \<in> datum s ` set (n # vs) \<longleftrightarrow> a \<in> datum s ` set vs" using False by auto
    show ?thesis
    proof (cases "a \<in> datum s ` set vs")
      case True
      then show ?thesis
        unfolding mem step using IH unfolding app dat by (metis list.set_intros(2))
    next
      case False
      then show ?thesis unfolding mem step using IH by simp
    qed
  qed
qed

lemma removeAt_list:
  assumes k: "kernel_list s vw A l ns xs"
  shows "if a \<in> set (tl xs)
    then \<exists>n vw' s'. removeAt l a s = Ok 0 s' \<and> n \<in> set (tl ns) \<and>
      kernel_list s' vw' (A - {(n, 16)}) l (remove1 n ns) (hd xs # remove1 a (tl xs))
    else removeAt l a s = Ok (-1) s"
proof -
  note d = kernel_listD [OF k]
  have l: "l \<noteq> 0" using d(5) by (simp add: nodes_sep_def)
  have xs: "xs = map (datum s) ns" using d(4) by (simp add: list_at_def)
  show ?thesis
  proof (cases ns)
    case Nil
    with d(4) l xs show ?thesis by (simp add: removeAt_def list_at_def list_layout struct_simps return_def)
  next
    case (Cons p vs)
    with k have k': "kernel_list s vw A l ([] @ p # vs) xs" by simp
    have hd: "load64 (mem s) (l + ls_head) = p" using d(4) Cons by (simp add: list_at_def)
    have "removeAt l a s = remove_loop l a p (head_ptr vs) s"
      using l hd kernel_list_chain [OF k'] by (simp add: removeAt_def struct_simps nd_next_def)
    moreover have "set (tl xs) = datum s ` set vs" "tl ns = vs" "ns = [] @ p # vs"
      "hd xs # remove1 a (tl xs) = map (datum s) ([] @ [p]) @ remove1 a (map (datum s) vs)"
      using Cons xs by simp_all
    ultimately show ?thesis using remove_loop_list [OF k', of a] by (simp only:)
  qed
qed

section \<open>Clearing, creating and destroying\<close>

text \<open>Freeing the nodes one by one leaves the objects that are not nodes.\<close>

lemma clear_nodes_ok:
  assumes "live_objects s vw A" and "chain (load64 (mem s)) q ns" and "(\<lambda>n. (n, 16)) ` set ns \<subseteq> A"
  shows "\<exists>vw' s'. clear_nodes q s = Ok () s' \<and> live_objects s' vw' (A - (\<lambda>n. (n, 16)) ` set ns) \<and>
    (\<forall>(b, y)\<in>A - (\<lambda>n. (n, 16)) ` set ns. \<forall>i<y. mem s' (b + of_nat i) = mem s (b + of_nat i))"
  using assms
proof (induction ns arbitrary: q s vw A)
  case Nil
  then have "clear_nodes q s = Ok () s" by (subst clear_nodes.simps) (simp add: return_def)
  with Nil.prems(1) show ?case by (intro exI [of _ vw] exI [of _ s]) auto
next
  case (Cons n ns)
  let ?N = "\<lambda>ns. (\<lambda>n. (n :: addr, 16 :: nat)) ` set ns"
  from Cons.prems have q: "q = n" "n \<noteq> 0" and ch: "chain (load64 (mem s)) (load64 (mem s) n) ns"
    and n: "(n, 16) \<in> A" by auto
  have new: "n \<notin> set ns" using chain_distinct [OF Cons.prems(2)] by simp
  obtain vw' t where t: "kfree n s = Ok () t" "live_objects t vw' (A - {(n, 16)})"
      "\<forall>(b, y)\<in>A - {(n, 16)}. \<forall>i<y. mem t (b + of_nat i) = mem s (b + of_nat i)"
    using kernel_objects.free_ok [OF Cons.prems(1) n] by blast
  have sub: "?N ns \<subseteq> A - {(n, 16)}" using Cons.prems(3) new by auto
  have "load64 (mem t) m = load64 (mem s) m" if "m \<in> set ns" for m
    using object_word_kept [of 16 t m s 0] bspec [OF t(3), of "(m, 16)"] sub that by auto
  then have ch': "chain (load64 (mem t)) (load64 (mem s) n) ns" using ch chain_cong by metis
  have D: "A - {(n, 16)} - ?N ns = A - ?N (n # ns)" by auto
  obtain vw'' s' where s': "clear_nodes (load64 (mem s) n) t = Ok () s'" "live_objects s' vw'' (A - ?N (n # ns))"
      "\<forall>(b, y)\<in>A - ?N (n # ns). \<forall>i<y. mem s' (b + of_nat i) = mem t (b + of_nat i)"
    using Cons.IH [OF t(2) ch' sub] unfolding D by blast
  have fk: "bind (kfree n) c s = c () t" for c :: "unit \<Rightarrow> (unit, 'a kheap_scheme) run"
    using t(1) by (rule bind_Ok)
  have "clear_nodes q s = Ok () s'"
    using q s'(1) by (subst clear_nodes.simps) (simp add: struct_simps fk nd_next_def)
  moreover have "mem s' (b + of_nat i) = mem s (b + of_nat i)" if "(b, y) \<in> A - ?N (n # ns)" "i < y" for b y i
    using that bspec [OF t(3), of "(b, y)"] bspec [OF s'(3) that(1)] by auto
  ultimately show ?case using s'(2) by blast
qed

lemma init_list_ok:
  assumes "live_objects s vw A" and "(l, 24) \<in> A"
  shows "\<exists>s'. init_single_linked_list l s = Ok () s' \<and> kernel_list s' vw A l [] [] \<and>
    s' = put64 (l + ls_size) 0 (put64 (l + ls_tail) 0 (put64 l 0 s))"
proof -
  have l: "l \<noteq> 0" "aligned8 l" using live_bound [OF assms] by auto
  let ?s = "put64 (l + ls_size) 0 (put64 (l + ls_tail) 0 (put64 l 0 s))"
  have "live_objects ?s vw A" using assms by (simp add: put_live)
  moreover have "list_at ?s l [] []" using l by (simp add: list_at_def list_layout load_put)
  ultimately show ?thesis
    using l assms(2) by (simp add: init_single_linked_list_def struct_simps kernel_list_def list_objects_def)
      (simp add: list_layout)
qed

lemma clear_list:
  assumes k: "kernel_list s vw A l ns xs"
  shows "\<exists>vw' s'. clear_single_linked_list l s = Ok () s' \<and>
    kernel_list s' vw' (A - (\<lambda>n. (n, 16)) ` set ns) l [] []"
proof -
  note d = kernel_listD [OF k]
  have l: "l \<noteq> 0" using d(5) by (simp add: nodes_sep_def)
  have ch: "chain (load64 (mem s)) (load64 (mem s) (l + ls_head)) ns" using d(4) by (simp add: list_at_def)
  have sub: "(\<lambda>n. (n, 16)) ` set ns \<subseteq> A" using d(3) by auto
  obtain vw' t where t: "clear_nodes (load64 (mem s) (l + ls_head)) s = Ok () t"
      "live_objects t vw' (A - (\<lambda>n. (n, 16)) ` set ns)"
    using clear_nodes_ok [OF d(1) ch sub] by blast
  have "(l, 24) \<in> A - (\<lambda>n. (n, 16)) ` set ns" using d(2) by auto
  from init_list_ok [OF t(2) this] obtain s' where "init_single_linked_list l t = Ok () s'"
      "kernel_list s' vw' (A - (\<lambda>n. (n, 16)) ` set ns) l [] []" by blast
  moreover have "bind (clear_nodes (load64 (mem s) (l + ls_head))) c s = c () t"
    for c :: "unit \<Rightarrow> (unit, 'a kheap_scheme) run" using t(1) by (rule bind_Ok)
  ultimately have "clear_single_linked_list l s = Ok () s'"
    using l by (simp add: clear_single_linked_list_def struct_simps)
  with \<open>kernel_list s' _ _ _ _ _\<close> show ?thesis by blast
qed

lemma destroy_list:
  assumes k: "kernel_list s vw A l ns xs"
  shows "\<exists>vw' s'. single_linked_list_destroy l s = Ok () s' \<and> live_objects s' vw' (A - list_objects l ns)"
proof -
  have l: "l \<noteq> 0" using kernel_listD(5) [OF k] by (simp add: nodes_sep_def)
  obtain vw' t where t: "clear_single_linked_list l s = Ok () t" "kernel_list t vw' (A - (\<lambda>n. (n, 16)) ` set ns) l [] []"
    using clear_list [OF k] by blast
  note d = kernel_listD [OF t(2)]
  have D: "A - (\<lambda>n. (n, 16)) ` set ns - {(l, 24)} = A - list_objects l ns" by (auto simp: list_objects_def)
  have "single_linked_list_destroy l s = kfree l t"
    using l t(1) by (simp add: single_linked_list_destroy_def bind_Ok)
  with kernel_objects.free_ok [OF d(1,2)] show ?thesis unfolding D by auto
qed

lemma align_sizes: "align 24 = 24" "align 16 = 16"
  by (simp_all add: align_def)

lemma create_list:
  assumes live: "live_objects s vw A" and room: "heap_room vw sizeof_list"
  shows "\<exists>l vw' s'. create_single_linked_list s = Ok l s' \<and> (\<forall>z. (l, z) \<notin> A) \<and>
    kernel_list s' vw' (insert (l, 24) A) l [] []"
proof -
  obtain l vw' t where t: "kmalloc sizeof_list s = Ok l t" "l \<noteq> 0" "\<forall>z. (l, z) \<notin> A"
      "live_objects t vw' (insert (l, unat (align sizeof_list)) A)"
    using kernel_objects.malloc_ok [OF live room] by blast
  have "live_objects t vw' (insert (l, 24) A)" using t(4) by (simp add: sizeof_list_def align_sizes)
  then obtain s' where "init_single_linked_list l t = Ok () s'" "kernel_list s' vw' (insert (l, 24) A) l [] []"
    using init_list_ok by blast
  moreover from this t have "create_single_linked_list s = Ok l s'"
    by (simp add: create_single_linked_list_def bind_Ok return_def)
  ultimately show ?thesis using t(3) by blast
qed

lemma make_node:
  assumes live: "live_objects s vw A" and room: "heap_room vw sizeof_node"
  shows "\<exists>n vw' s'. make_single_linked_list_node x s = Ok n s' \<and> (\<forall>z. (n, z) \<notin> A) \<and>
    live_objects s' vw' (insert (n, 16) A) \<and> datum s' n = x \<and>
    (\<forall>(b, z)\<in>A. \<forall>i. i + 8 \<le> z \<longrightarrow> 8 dvd i \<longrightarrow> load64 (mem s') (b + of_nat i) = load64 (mem s) (b + of_nat i))"
proof -
  obtain n vw' t where t: "kmalloc sizeof_node s = Ok n t" "n \<noteq> 0" "aligned8 n" "\<forall>z. (n, z) \<notin> A"
      "live_objects t vw' (insert (n, unat (align sizeof_node)) A)"
      "\<forall>(b, z)\<in>A. \<forall>i<z. mem t (b + of_nat i) = mem s (b + of_nat i)"
    using kernel_objects.malloc_ok [OF live room] by blast
  have live': "live_objects t vw' (insert (n, 16) A)" using t(5) by (simp add: sizeof_node_def align_sizes)
  let ?s = "put64 n 0 (put64 (n + nd_data) x t)"
  have "make_single_linked_list_node x s = Ok n ?s"
    using t(1,2) by (simp add: make_single_linked_list_node_def bind_Ok struct_simps return_def)
      (simp add: list_layout)
  moreover have "live_objects ?s vw' (insert (n, 16) A)" using live' by (simp add: put_live)
  moreover have "datum ?s n = x" using t(3) by (simp add: load_put list_layout)
  moreover have "load64 (mem ?s) (b + of_nat i) = load64 (mem s) (b + of_nat i)"
    if "(b, z) \<in> A" "i + 8 \<le> z" "8 dvd i" for b z i
  proof -
    have "b + of_nat i \<noteq> n + of_nat j" if "j \<le> 8" for j
      using object_words_apart [OF live', of b z n 16 i j] \<open>(b, z) \<in> A\<close> \<open>i + 8 \<le> z\<close> that t(4) by auto
    from this [of 0] this [of 8] have "n \<noteq> b + of_nat i" "n + 8 \<noteq> b + of_nat i" by auto
    moreover have "aligned8 (b + of_nat i)"
      using live_bound [OF live that(1)] aligned8_of_nat [OF that(3)] by auto
    moreover have "load64 (mem t) (b + of_nat i) = load64 (mem s) (b + of_nat i)"
      using bspec [OF t(6) that(1)] that(2) by (intro object_word_kept [of z]) auto
    ultimately show ?thesis using t(3) by (simp add: load_put list_layout)
  qed
  ultimately show ?thesis using t(4) by blast
qed

section \<open>Visiting every node\<close>

primrec visit :: "('a \<Rightarrow> (unit, 's) run) \<Rightarrow> 'a list \<Rightarrow> (unit, 's) run" where
  "visit f [] = return ()"
| "visit f (x # xs) = bind (f x) (\<lambda>_. visit f xs)"

text \<open>A visitor that keeps the nodes' fields is called on every datum in order.\<close>

lemma for_each_loop_ok:
  assumes I: "I s" and ch: "\<And>t. I t \<Longrightarrow> chain (load64 (mem t)) q ns" and xs: "\<And>t. I t \<Longrightarrow> map (datum t) ns = xs"
    and keep: "\<And>x t t'. x \<in> set xs \<Longrightarrow> I t \<Longrightarrow> f x t = Ok () t' \<Longrightarrow> I t'"
  shows "for_each_loop f q s = visit f xs s"
  using assms
proof (induction ns arbitrary: q s xs)
  case Nil
  then show ?case by (subst for_each_loop.simps) force
next
  case (Cons n ns)
  obtain ys where xs: "xs = datum s n # ys" "ys = map (datum s) ns" using Cons.prems(3) [OF Cons.prems(1)] by auto
  have q: "q = n" "n \<noteq> 0" using Cons.prems(2) [OF Cons.prems(1)] by auto
  show ?case
  proof (cases "f (datum s n) s")
    case None
    with q xs show ?thesis by (subst for_each_loop.simps) (simp add: struct_simps bind_def [of "f _"])
  next
    case (Some r)
    show ?thesis
    proof (cases r)
      case (Inl e)
      with Some q xs show ?thesis by (subst for_each_loop.simps) (simp add: struct_simps bind_Fault)
    next
      case (Inr p)
      with Some obtain t where t: "f (datum s n) s = Ok () t" by (cases p) auto
      have I: "I t" using Cons.prems(4) [OF _ Cons.prems(1) t] xs by simp
      have eq: "xs = datum u n # map (datum u) ns" if "I u" for u using Cons.prems(3) [OF that] by simp
      have "for_each_loop f (load64 (mem t) n) t = visit f ys t"
      proof (rule Cons.IH [OF I])
        fix u assume u: "I u"
        have "chain (load64 (mem u)) (load64 (mem u) n) ns" "chain (load64 (mem t)) (load64 (mem t) n) ns"
          using Cons.prems(2) [OF u] Cons.prems(2) [OF I] by auto
        then show "chain (load64 (mem u)) (load64 (mem t) n) ns" using chain_head by metis
        show "map (datum u) ns = ys" using eq [OF u] xs by simp
      qed (use Cons.prems(4) xs in auto)
      then show ?thesis
        using t q xs by (subst for_each_loop.simps) (simp add: struct_simps bind_Ok nd_next_def)
    qed
  qed
qed

section \<open>Properties\<close>

text \<open>Appending a datum, the way the kernel queues a task: make a node, push it at the tail.\<close>

lemma append_datum:
  assumes k: "kernel_list s vw A l ns xs" and room: "heap_room vw sizeof_node"
  shows "\<exists>n vw' s' t. make_single_linked_list_node x s = Ok n t \<and> push_tail l n t = Ok 0 s' \<and>
    (\<forall>z. (n, z) \<notin> A) \<and> kernel_list s' vw' (insert (n, 16) A) l (ns @ [n]) (xs @ [x])"
proof -
  note d = kernel_listD [OF k]
  obtain n vw' t where t: "make_single_linked_list_node x s = Ok n t" "\<forall>z. (n, z) \<notin> A"
      "live_objects t vw' (insert (n, 16) A)" "datum t n = x"
      "\<forall>(b, z)\<in>A. \<forall>i. i + 8 \<le> z \<longrightarrow> 8 dvd i \<longrightarrow> load64 (mem t) (b + of_nat i) = load64 (mem s) (b + of_nat i)"
    using make_node [OF d(1) room] by blast
  have w: "load64 (mem t) (b + of_nat i) = load64 (mem s) (b + of_nat i)"
    if "(b, z) \<in> A" "i + 8 \<le> z" "8 dvd i" for b z i
    using bspec [OF t(5) that(1)] that(2,3) by simp
  have "list_at t l ns xs"
  proof (rule list_at_cong [OF d(4)])
    show "load64 (mem t) (l + i) = load64 (mem s) (l + i)" if "i \<in> {0, 8, 16}" for i
      using that w [OF d(2), of 0] w [OF d(2), of 8] w [OF d(2), of 16] by auto
    show "load64 (mem t) (m + i) = load64 (mem s) (m + i)" if "m \<in> set ns" "i \<in> {0, 8}" for m i
      using that w [OF d(3) [OF that(1)], of 0] w [OF d(3) [OF that(1)], of 8] by auto
  qed
  then have "kernel_list t vw' (insert (n, 16) A) l ns xs"
    using t(3) d(7) by (auto simp: kernel_list_def)
  moreover have "n \<notin> set ns" using t(2) d(3) by blast
  ultimately obtain s' where "push_tail l n t = Ok 0 s'" "kernel_list s' vw' (insert (n, 16) A) l (ns @ [n]) (xs @ [x])"
    using push_tail_list [of t vw' "insert (n, 16) A" l ns xs n] t(4) by auto
  with t(1,2) show ?thesis by blast
qed

text \<open>
  Queueing: a node made for \<open>x\<close> and pushed at the tail appends \<open>x\<close> to the list, for
  every list and every datum, and keeps the list and the heap well formed.
\<close>

theorem push_tail_appends:
  assumes "kernel_list s vw A l ns xs" and "heap_room vw sizeof_node"
  shows "\<exists>n vw' s' t. make_single_linked_list_node x s = Ok n t \<and> push_tail l n t = Ok 0 s' \<and>
    kernel_list s' vw' (insert (n, 16) A) l (ns @ [n]) (xs @ [x])"
  using append_datum [OF assms, of x] by blast

text \<open>An empty list in a heap with one page, and a list with one datum.\<close>

lemma empty_list_state:
  obtains s :: kheap and l where "kernel_list s ({}, Block 0x87fff 0 1 80) {(l, 24)} l [] []"
proof -
  have "\<exists>q. 2 ^ 0 dvd q \<and> block 0 q \<subseteq> {0x87fff}" by (auto simp: block_def)
  moreover have "fitting_order (40 + unat (gross_size 24)) 0" using fitting_80 by (simp add: gross_24)
  moreover have "unat (24 :: uint64) < 2 ^ 62" by simp
  ultimately obtain p s where s: "block 0 p \<subseteq> {0x87fff}"
      "heap_inv (s :: kheap) ({0x87fff} - block 0 p) (Block p 0 1 (40 + unat (gross_size 24)))"
      "piece_at s p 40 (unat (align 24))"
    using kmalloc_first [OF heap_boot_inv] by blast
  from s(1) have p: "p = 0x87fff" using mem_block_self [of p 0] by blast
  with s(2) have "heap_inv s {} (Block 0x87fff 0 1 80)" by (simp add: gross_24 block_def)
  moreover have "objects_in s 0x87fff 80 {(40, 24)}"
    using s(3) p by (simp add: objects_in_def align_sizes)
  ultimately have "live_objects s ({}, Block 0x87fff 0 1 80) {(page_addr 0x87fff + 56, 24)}"
    unfolding live_objects.simps
    by (intro conjI exI [of _ "{(40 :: nat, 24 :: nat)}"]) (simp_all add: object_at_def)
  from init_list_ok [OF this, of "page_addr 0x87fff + 56"] that show thesis by auto
qed

lemma node_room: "heap_room ({}, Block 0x87fff 0 1 80) sizeof_node"
  by (simp add: sizeof_node_def gross_unat)

lemma one_element_list:
  obtains s :: kheap and vw A l n where "kernel_list s vw A l [n] [x]"
proof -
  obtain s :: kheap and l where "kernel_list s ({}, Block 0x87fff 0 1 80) {(l, 24)} l [] []"
    by (rule empty_list_state)
  from append_datum [OF this node_room, of x] that show thesis by auto
qed

theorem push_tail_appends_witness:
  "\<exists>(s :: kheap) l n t s' vw A. make_single_linked_list_node 7 s = Ok n t \<and> push_tail l n t = Ok 0 s' \<and>
     kernel_list s' vw A l [n] [7]"
proof -
  obtain s :: kheap and l where k: "kernel_list s ({}, Block 0x87fff 0 1 80) {(l, 24)} l [] []"
    by (rule empty_list_state)
  from push_tail_appends [OF k node_room, of 7] show ?thesis
    unfolding append_Nil by blast
qed

text \<open>
  Taking from the front: for a non-empty list \<open>head\<close> returns the first datum and
  \<open>pop_head\<close> removes it, frees its node and keeps the rest in order; on an empty list
  \<open>head\<close> dereferences NULL and \<open>pop_head\<close> changes nothing.
\<close>

theorem pop_head_removes_first:
  assumes k: "kernel_list s vw A l ns xs"
  shows "case xs of
      [] \<Rightarrow> head l s = Fault NullDeref \<and> pop_head l s = Ok () s
    | x # xs' \<Rightarrow> head l s = Ok x s \<and>
        (\<exists>vw' s'. pop_head l s = Ok () s' \<and> kernel_list s' vw' (A - {(hd ns, 16)}) l (tl ns) xs')"
proof -
  note d = kernel_listD [OF k]
  have l: "l \<noteq> 0" using d(5) by (simp add: nodes_sep_def)
  show ?thesis
  proof (cases ns)
    case Nil
    then have "xs = []" "load64 (mem s) (l + ls_head) = 0" "list_at s l [] []"
      using d(4) by (auto simp: list_at_def)
    moreover from this l have "bind (pop_head_without_free l) c s = c () s"
      for c :: "unit \<Rightarrow> (unit, 'a kheap_scheme) run"
      by (intro bind_Ok pop_at_empty)
    moreover have "kfree 0 s = Ok () s" "get_field 0 nd_data s = Fault NullDeref"
      by (simp_all add: kfree_def get_field_def run_simps)
    ultimately show ?thesis using l by (simp add: head_def pop_head_def struct_simps)
  next
    case (Cons n ns')
    then obtain xs' where xs: "xs = datum s n # xs'" using d(4) by (auto simp: list_at_def)
    have "load64 (mem s) (l + ls_head) = n" "n \<noteq> 0" using d(4) Cons by (auto simp: list_at_def)
    then have "head l s = Ok (datum s n) s" using l by (simp add: head_def struct_simps)
    moreover have k': "kernel_list s vw A l (n # ns') (datum s n # xs')" using k Cons xs by simp
    ultimately show ?thesis using pop_head_list [OF k'] xs Cons by simp
  qed
qed

theorem pop_head_removes_first_witness:
  "\<exists>(s :: kheap) l s' vw A. head l s = Ok 7 s \<and> pop_head l s = Ok () s' \<and> kernel_list s' vw A l [] []"
proof -
  obtain s :: kheap and vw A l n where k: "kernel_list s vw A l [n] [7]" by (rule one_element_list)
  from pop_head_removes_first [OF k] show ?thesis unfolding list.case list.sel by blast
qed

text \<open>
  C8. \<open>removeAt\<close> removes the first node that holds the given datum, but it never looks at
  the head node: it succeeds exactly if the datum occurs behind the head, and then removes
  its first occurrence there; otherwise it returns -1 and changes nothing, even if the head
  node holds the datum.
\<close>

theorem removeAt_skips_head:
  assumes "kernel_list s vw A l ns xs"
  shows "if a \<in> set (tl xs)
    then \<exists>n vw' s'. removeAt l a s = Ok 0 s' \<and> n \<in> set (tl ns) \<and>
      kernel_list s' vw' (A - {(n, 16)}) l (remove1 n ns) (hd xs # remove1 a (tl xs))
    else removeAt l a s = Ok (-1) s"
  using assms by (rule removeAt_list)

theorem removeAt_skips_head_witness:
  "\<exists>(s :: kheap) l vw A n. kernel_list s vw A l [n] [7] \<and> removeAt l 7 s = Ok (-1) s"
proof -
  obtain s :: kheap and vw A l n where k: "kernel_list s vw A l [n] [7]" by (rule one_element_list)
  have "removeAt l 7 s = Ok (-1) s" using removeAt_skips_head [OF k, of 7] by simp
  with k show ?thesis by blast
qed

text \<open>
  Destroying a list frees its header and all its nodes, and nothing else.\<close>

theorem destroy_frees_all:
  assumes "kernel_list s vw A l ns xs"
  shows "\<exists>vw' s'. single_linked_list_destroy l s = Ok () s' \<and> live_objects s' vw' (A - list_objects l ns)"
  using assms by (rule destroy_list)

theorem destroy_frees_all_witness:
  "\<exists>(s :: kheap) l vw A n vw' s'. kernel_list s vw A l [n] [7] \<and> single_linked_list_destroy l s = Ok () s' \<and>
     live_objects s' vw' (A - list_objects l [n])"
proof -
  obtain s :: kheap and vw A l n where k: "kernel_list s vw A l [n] [7]" by (rule one_element_list)
  from destroy_frees_all [OF k] k show ?thesis by blast
qed

end
