(* ===== verification/Virtual_Memory.thy ===== *)
theory Virtual_Memory
  imports Buddy
begin

text \<open>
  The Sv39 page tables of \<open>kernel/virtual_memory.c\<close>: walking, mapping and unmapping, copying
  and freeing user memory, on the byte memory the tables live in. A walk that does not return
  an entry is \<open>None\<close>, a call of \<open>panic\<close> is a fault.
\<close>

section \<open>Operations\<close>

text \<open>\<open>memset\<close> and \<open>memcpy\<close> as steps; a transfer of no bytes touches no address.\<close>

definition do_memset :: "addr \<Rightarrow> byte \<Rightarrow> uint64 \<Rightarrow> (unit, 'z machine_scheme) run" where
  "do_memset dest c sz =
     (if dest = 0 \<and> sz \<noteq> 0 then raise NullDeref
      else modify (\<lambda>s. s\<lparr>mem := memset (mem s) dest c sz\<rparr>))"

definition do_memcpy :: "addr \<Rightarrow> addr \<Rightarrow> uint64 \<Rightarrow> (unit, 'z machine_scheme) run" where
  "do_memcpy dest src sz =
     (if (dest = 0 \<or> src = 0) \<and> sz \<noteq> 0 then raise NullDeref
      else modify (\<lambda>s. s\<lparr>mem := memcpy (mem s) dest src sz\<rparr>))"

text \<open>
  The loop of \<open>pagetable_entry\<close> over the levels: the table of the next lower level is read
  from the entry or, if \<open>alloc\<close> is set, allocated, cleared and entered.
\<close>

primrec walk_tables :: "nat \<Rightarrow> addr \<Rightarrow> uint64 \<Rightarrow> bool \<Rightarrow> (addr option, 'z buddy_scheme) run" where
  "walk_tables 0 pagetable va alloc = return (Some pagetable)"
| "walk_tables (Suc level) pagetable va alloc =
     bind (get_field pagetable (8 * PX (Suc level) va)) (\<lambda>pte.
     if pte AND PTE_V \<noteq> 0 then walk_tables level (PTE2PA pte) va alloc
     else if \<not> alloc then return None
     else
       bind (allocate 1) (\<lambda>table.
       if table = 0 then return None
       else
         bind (do_memset table 0 PGSIZE) (\<lambda>_.
         bind (set_field pagetable (8 * PX (Suc level) va) (PA2PTE table OR PTE_V)) (\<lambda>_.
         walk_tables level table va alloc))))"

definition pagetable_entry :: "addr \<Rightarrow> uint64 \<Rightarrow> bool \<Rightarrow> (addr, 'z buddy_scheme) run" where
  "pagetable_entry pagetable va alloc =
     (if va \<ge> MAXVA then raise (Panic ''pagetable_entry: va >= MAXVA'')
      else
        bind (walk_tables 2 pagetable va alloc) (\<lambda>table.
        case table of
          None \<Rightarrow> return 0
        | Some t \<Rightarrow> return (t + 8 * PX 0 va)))"

definition physical_address :: "addr \<Rightarrow> uint64 \<Rightarrow> (addr, 'z buddy_scheme) run" where
  "physical_address pagetable va =
     bind (pagetable_entry pagetable va False) (\<lambda>pte.
     if pte = 0 then return 0
     else
       bind (read64 pte) (\<lambda>e.
       if e AND PTE_V = 0 then return 0
       else return (PTE2PA e + PGOFFSET va)))"

definition map_page :: "addr \<Rightarrow> uint64 \<Rightarrow> uint64 \<Rightarrow> uint64 \<Rightarrow> (int, 'z buddy_scheme) run" where
  "map_page pagetable va0 pa0 permission =
     (let va = PGROUNDDOWN va0; pa = PGROUNDDOWN pa0 in
      bind (pagetable_entry pagetable va True) (\<lambda>pte.
      if pte = 0 then return 1
      else
        bind (read64 pte) (\<lambda>e.
        if e AND PTE_V \<noteq> 0 then raise (Panic ''map_page: page already mapped'')
        else
          bind (write64 pte (PA2PTE pa OR permission OR PTE_V)) (\<lambda>_.
          return 0))))"

definition unmap_page :: "addr \<Rightarrow> uint64 \<Rightarrow> (int, 'z buddy_scheme) run" where
  "unmap_page pagetable va0 =
     (let va = PGROUNDDOWN va0 in
      bind (pagetable_entry pagetable va False) (\<lambda>pte.
      if pte = 0 then return 1
      else
        bind (read64 pte) (\<lambda>e.
        if e AND PTE_V = 0 then raise (Panic ''unmap_page: page not mapped'')
        else if PTE_FLAGS e = PTE_V then raise (Panic ''unmap_page: cannot unmap leaf page'')
        else
          bind (write64 pte 0) (\<lambda>_.
          return 0))))"

text \<open>\<open>for (i = 0; i < size; i += PGSIZE)\<close>\<close>

partial_function (option) kernel_map_loop ::
  "addr \<Rightarrow> uint64 \<Rightarrow> uint64 \<Rightarrow> uint64 \<Rightarrow> uint64 \<Rightarrow> uint64 \<Rightarrow> 'z buddy_scheme \<Rightarrow>
   (fault + unit \<times> 'z buddy_scheme) option" where
  "kernel_map_loop pagetable va pa sz permission i s =
     (if i < sz then
        bind (map_page pagetable (va + i) (pa + i) permission) (\<lambda>result.
        if result = -1 then raise (Panic ''kernel_map_pages: map_page failed'')
        else kernel_map_loop pagetable va pa sz permission (i + PGSIZE)) s
      else return () s)"

definition kernel_map_pages :: "addr \<Rightarrow> uint64 \<Rightarrow> uint64 \<Rightarrow> uint64 \<Rightarrow> uint64 \<Rightarrow> (unit, 'z buddy_scheme) run" where
  "kernel_map_pages pagetable va pa sz permission =
     kernel_map_loop pagetable (PGROUNDDOWN va) (PGROUNDDOWN pa) sz permission 0"

definition create_void_pagetable :: "(addr, 'z buddy_scheme) run" where
  "create_void_pagetable =
     bind (allocate 1) (\<lambda>pagetable.
     if pagetable = 0 then return 0
     else bind (do_memset pagetable 0 PGSIZE) (\<lambda>_. return pagetable))"

text \<open>\<open>while ((PGSIZE << power) < size) power++;\<close>\<close>

partial_function (option) power_of_pages_from ::
  "uint64 \<Rightarrow> nat \<Rightarrow> 'z buddy_scheme \<Rightarrow> (fault + nat \<times> 'z buddy_scheme) option" where
  "power_of_pages_from sz pwr s =
     (if push_bit pwr PGSIZE < sz then power_of_pages_from sz (pwr + 1) s else return pwr s)"

definition power_of_pages :: "uint64 \<Rightarrow> (nat, 'z buddy_scheme) run" where
  "power_of_pages sz = power_of_pages_from sz 0"

text \<open>The clean-up loop of \<open>map_memory\<close>: \<open>for (j = 0; j < i; j++)\<close>.\<close>

partial_function (option) unmap_first ::
  "addr \<Rightarrow> uint64 \<Rightarrow> uint64 \<Rightarrow> 'z buddy_scheme \<Rightarrow> (fault + unit \<times> 'z buddy_scheme) option" where
  "unmap_first pagetable i j s =
     (if j < i then
        bind (unmap_page pagetable (j * PGSIZE)) (\<lambda>_. unmap_first pagetable i (j + 1)) s
      else return () s)"

partial_function (option) map_memory_loop ::
  "addr \<Rightarrow> addr \<Rightarrow> nat \<Rightarrow> uint64 \<Rightarrow> uint64 \<Rightarrow> uint64 \<Rightarrow> 'z buddy_scheme \<Rightarrow>
   (fault + uint64 \<times> 'z buddy_scheme) option" where
  "map_memory_loop pagetable pages pwr number_of_pages permission i s =
     (if i < number_of_pages then
        bind (map_page pagetable (i * PGSIZE) (pages + i * PGSIZE) permission) (\<lambda>result.
        if result = -1 then
          bind (unmap_first pagetable i 0) (\<lambda>_.
          bind (deallocate pages pwr) (\<lambda>_.
          return 0))
        else map_memory_loop pagetable pages pwr number_of_pages permission (i + 1)) s
      else return (push_bit pwr PGSIZE) s)"

definition map_memory :: "addr \<Rightarrow> addr \<Rightarrow> uint64 \<Rightarrow> uint64 \<Rightarrow> (uint64, 'z buddy_scheme) run" where
  "map_memory pagetable src sz permission =
     bind (power_of_pages sz) (\<lambda>pwr.
     bind (allocate pwr) (\<lambda>pages.
     bind (do_memcpy pages src sz) (\<lambda>_.
     map_memory_loop pagetable pages pwr (push_bit pwr 1) permission 0)))"

text \<open>
  The clean-up loop of \<open>copy_memory_with_pagetable\<close>: the pages it gives back are those the
  \<^emph>\<open>source\<close> table maps.
\<close>

partial_function (option) undo_copy ::
  "addr \<Rightarrow> addr \<Rightarrow> uint64 \<Rightarrow> uint64 \<Rightarrow> uint64 \<Rightarrow> 'z buddy_scheme \<Rightarrow>
   (fault + unit \<times> 'z buddy_scheme) option" where
  "undo_copy source_pagetable target_pagetable va_start offset offset2 s =
     (if offset2 < offset then
        bind (physical_address source_pagetable (va_start + offset2)) (\<lambda>src2.
        bind (unmap_page target_pagetable (va_start + offset2)) (\<lambda>_.
        bind (deallocate src2 0) (\<lambda>_.
        undo_copy source_pagetable target_pagetable va_start offset (offset2 + PGSIZE)))) s
      else return () s)"

partial_function (option) copy_memory_loop ::
  "addr \<Rightarrow> addr \<Rightarrow> uint64 \<Rightarrow> uint64 \<Rightarrow> uint64 \<Rightarrow> 'z buddy_scheme \<Rightarrow>
   (fault + int \<times> 'z buddy_scheme) option" where
  "copy_memory_loop source_pagetable target_pagetable va_start sz offset s =
     (if offset < sz then
        bind (physical_address source_pagetable (va_start + offset)) (\<lambda>src.
        bind (allocate 0) (\<lambda>dest.
        if src = 0 then raise (Panic ''copy_memory_with_pagetable: memory not mapped'')
        else if dest = 0 then
          bind (undo_copy source_pagetable target_pagetable va_start offset 0) (\<lambda>_.
          return (-1))
        else
          bind (do_memcpy dest src PGSIZE) (\<lambda>_.
          bind (pagetable_entry source_pagetable (va_start + offset) False) (\<lambda>pte.
          bind (get_field pte 0) (\<lambda>e.
          bind (map_page target_pagetable (va_start + offset) dest (PTE_FLAGS e)) (\<lambda>result.
          if result = -1 then
            bind (undo_copy source_pagetable target_pagetable va_start offset 0) (\<lambda>_.
            bind (deallocate dest 0) (\<lambda>_.
            return (-1)))
          else
            copy_memory_loop source_pagetable target_pagetable va_start sz (offset + PGSIZE))))))) s
      else return 0 s)"

definition copy_memory_with_pagetable :: "addr \<Rightarrow> addr \<Rightarrow> uint64 \<Rightarrow> uint64 \<Rightarrow> (int, 'z buddy_scheme) run" where
  "copy_memory_with_pagetable source_pagetable target_pagetable va_start sz =
     (if va_start AND (PGSIZE - 1) \<noteq> 0 \<or> sz AND (PGSIZE - 1) \<noteq> 0
      then raise (Panic ''copy_memory_with_pagetable: va_start or size is not page aligned'')
      else if va_start + sz \<ge> MAXVA
      then raise (Panic ''copy_memory_with_pagetable: va_start + size >= MAXVA'')
      else copy_memory_loop source_pagetable target_pagetable va_start sz 0)"

partial_function (option) free_memory_loop ::
  "addr \<Rightarrow> uint64 \<Rightarrow> uint64 \<Rightarrow> uint64 \<Rightarrow> 'z buddy_scheme \<Rightarrow> (fault + unit \<times> 'z buddy_scheme) option" where
  "free_memory_loop pagetable start sz i s =
     (if i < sz then
        bind (physical_address pagetable (start + i)) (\<lambda>pa.
        bind (deallocate pa 0) (\<lambda>_.
        bind (unmap_page pagetable (start + i)) (\<lambda>_.
        free_memory_loop pagetable start sz (i + PGSIZE)))) s
      else return () s)"

definition free_memory :: "addr \<Rightarrow> uint64 \<Rightarrow> uint64 \<Rightarrow> (unit, 'z buddy_scheme) run" where
  "free_memory pagetable start sz = free_memory_loop pagetable (PGROUNDDOWN start) sz 0"

text \<open>
  \<open>free_pagetable_internal\<close>: the loop over the entries is \<open>free_entries\<close>, counting up
  from \<open>512 - n\<close>.
\<close>

primrec free_entries :: "(addr \<Rightarrow> (unit, 'z buddy_scheme) run) \<Rightarrow> addr \<Rightarrow> nat \<Rightarrow> nat \<Rightarrow> (unit, 'z buddy_scheme) run" where
  "free_entries free_sub pagetable level 0 = return ()"
| "free_entries free_sub pagetable level (Suc n) =
     bind (get_field pagetable (8 * of_nat (512 - Suc n))) (\<lambda>pte.
     bind (if_then (pte AND PTE_V \<noteq> 0 \<and> level > 1) (free_sub (PTE2PA pte))) (\<lambda>_.
     free_entries free_sub pagetable level n))"

primrec free_pagetable_internal :: "nat \<Rightarrow> addr \<Rightarrow> (unit, 'z buddy_scheme) run" where
  "free_pagetable_internal 0 pagetable = deallocate pagetable 0"
| "free_pagetable_internal (Suc level) pagetable =
     bind (free_entries (free_pagetable_internal level) pagetable (Suc level) 512) (\<lambda>_.
     deallocate pagetable 0)"

definition free_pagetable :: "addr \<Rightarrow> (unit, 'z buddy_scheme) run" where
  "free_pagetable pagetable = free_pagetable_internal 2 pagetable"

text \<open>\<open>allocate_for_user\<close> of \<open>kernel/process.c\<close>\<close>

definition allocate_for_user :: "nat \<Rightarrow> (addr, 'z buddy_scheme) run" where
  "allocate_for_user pwr =
     bind (allocate pwr) (\<lambda>a.
     if a = 0 then return 0
     else bind (do_memset a 0 (push_bit pwr PGSIZE)) (\<lambda>_. return a))"

definition map_page_for_user :: "addr \<Rightarrow> uint64 \<Rightarrow> addr \<Rightarrow> uint64 \<Rightarrow> uint64 \<Rightarrow> (int, 'z buddy_scheme) run" where
  "map_page_for_user pagetable va src sz permission =
     bind (allocate_for_user 0) (\<lambda>page.
     if page = 0 then return (-1)
     else
       bind (do_memcpy page src sz) (\<lambda>_.
       bind (map_page pagetable va page permission) (\<lambda>result.
       if result \<noteq> 0 then bind (deallocate page 0) (\<lambda>_. return (-1))
       else return 0)))"

partial_function (option) map_section_loop ::
  "addr \<Rightarrow> uint64 \<Rightarrow> uint64 \<Rightarrow> uint64 \<Rightarrow> uint64 \<Rightarrow> uint64 \<Rightarrow> uint64 \<Rightarrow> addr \<Rightarrow> 'z buddy_scheme \<Rightarrow>
   (fault + int \<times> 'z buddy_scheme) option" where
  "map_section_loop pagetable va_start va_end src_end permission page_start pg src s =
     (if pg < va_end then
        (let dest_start = max va_start pg;
             dest_end = min src_end (pg + PGSIZE);
             copy_size = (if dest_end > dest_start then dest_end - dest_start else 0) in
         bind (map_page_for_user pagetable dest_start src copy_size permission) (\<lambda>result.
         if result \<noteq> 0 then
           bind (free_memory pagetable page_start (pg - page_start)) (\<lambda>_.
           return (-1))
         else
           map_section_loop pagetable va_start va_end src_end permission page_start (pg + PGSIZE)
             (src + (dest_end - dest_start)))) s
      else return 0 s)"

definition map_section_for_user ::
  "addr \<Rightarrow> uint64 \<Rightarrow> addr \<Rightarrow> uint64 \<Rightarrow> uint64 \<Rightarrow> uint64 \<Rightarrow> (int, 'z buddy_scheme) run" where
  "map_section_for_user pagetable va_start src src_size sz permission =
     map_section_loop pagetable va_start (va_start + sz) (va_start + src_size) permission
       (PGROUNDDOWN va_start) (PGROUNDDOWN va_start) src"

lemmas [code] =
  kernel_map_loop.simps power_of_pages_from.simps unmap_first.simps map_memory_loop.simps
  undo_copy.simps copy_memory_loop.simps free_memory_loop.simps map_section_loop.simps

section \<open>Entries and slots\<close>

definition perm_ok :: "uint64 \<Rightarrow> bool" where
  "perm_ok f \<longleftrightarrow> take_bit 10 f = f"

lemma perm_bit: "perm_ok f \<Longrightarrow> bit f n \<Longrightarrow> n < 10"
  unfolding perm_ok_def by (metis bit_take_bit_iff)

lemma pte_valid [simp]: "(PA2PTE a OR f OR PTE_V) AND PTE_V \<noteq> 0" "(PA2PTE a OR PTE_V) AND PTE_V \<noteq> 0"
  by (auto simp: uint64_eq_iff_bit PTE_V_def bit_simps intro!: exI [of _ 0])

lemma PTE_V_nonzero [simp]: "PTE_V \<noteq> 0"
  by (simp add: PTE_V_def)

lemma PGROUNDDOWN_mask: "PGROUNDDOWN a = a AND NOT (mask 12)"
  by (simp add: PGROUNDDOWN_def PGSIZE_def mask_eq_exp_minus_1)

lemma PTE2PA_PA2PTE: "perm_ok f \<Longrightarrow> PTE2PA (PA2PTE a OR f OR PTE_V) = PGROUNDDOWN a"
  by (auto simp: uint64_eq_iff_bit PTE2PA_def PA2PTE_def PGROUNDDOWN_mask PTE_V_def bit_simps
      dest: perm_bit)

lemma unat_PGROUNDDOWN: "unat (PGROUNDDOWN a) = unat a div 4096 * 4096"
  by (simp add: PGROUNDDOWN_mask and_not_mask_unat)

lemma PGROUNDDOWN_page: "PGROUNDDOWN (page_addr p) = page_addr p" if "p < 2 ^ 52"
  using that by (simp add: uint64_eq_iff_unat unat_PGROUNDDOWN unat_page_addr)

lemma PTE2PA_table: "p < 2 ^ 52 \<Longrightarrow> PTE2PA (PA2PTE (page_addr p) OR PTE_V) = page_addr p"
  using PTE2PA_PA2PTE [of 0 "page_addr p"] by (simp add: perm_ok_def PGROUNDDOWN_page)

lemma PX_less [simp]: "PX l va < 512"
proof -
  have "PX l va = take_bit 9 (drop_bit (PGSHIFT + 9 * l) va)"
    by (simp add: PX_def take_bit_eq_mask mask_eq_exp_minus_1)
  then have "unat (PX l va) < 2 ^ 9" by (simp only: unsigned_take_bit_eq take_bit_nat_less_exp)
  then show ?thesis by (simp add: word_less_nat_alt)
qed

text \<open>The entry \<open>i\<close> of the table on page \<open>p\<close>.\<close>

definition slot :: "nat \<Rightarrow> uint64 \<Rightarrow> addr" where
  "slot p i = page_addr p + 8 * i"

lemma unat_slot:
  assumes "p < 2 ^ 51" and "i < 512"
  shows "unat (slot p i) = 4096 * p + 8 * unat i" "unat i < 512"
proof -
  show i: "unat i < 512" using assms(2) by (simp add: word_less_nat_alt)
  then have "unat (8 * i) = 8 * unat i" by (simp add: unat_word_ariths)
  moreover have "unat (page_addr p) = 4096 * p" using assms(1) by (intro unat_page_addr) simp
  ultimately show "unat (slot p i) = 4096 * p + 8 * unat i"
    unfolding slot_def using assms(1) i by (subst unat_add_no_overflow) simp_all
qed

lemma aligned8_slot: "p < 2 ^ 51 \<Longrightarrow> i < 512 \<Longrightarrow> aligned8 (slot p i)"
  by (simp add: aligned8_def unat_slot)

lemma slot_eq_iff:
  assumes "p < 2 ^ 51" "i < 512" "q < 2 ^ 51" "j < 512"
  shows "slot p i = slot q j \<longleftrightarrow> p = q \<and> i = j"
proof
  assume "slot p i = slot q j"
  then have eq: "4096 * p + 8 * unat i = 4096 * q + 8 * unat j"
    using unat_slot(1) [OF assms(1,2)] unat_slot(1) [OF assms(3,4)] by simp
  have "unat i < 512" "unat j < 512" using unat_slot(2) assms by blast+
  with arg_cong [OF eq, of "\<lambda>x. x div 4096"] have "p = q" by simp
  with eq show "p = q \<and> i = j" by (simp add: word_unat_eq_iff)
qed auto

lemma page_of_slot_byte:
  assumes "p < 2 ^ 51" and "i < 512" and "k < 8"
  shows "page_of (slot p i + of_nat k) = p"
proof -
  note u = unat_slot [OF assms(1,2)]
  have "unat (slot p i + of_nat k) = 4096 * p + 8 * unat i + k"
    using u assms by (subst unat_add_no_overflow) (simp_all add: unat_of_nat_64)
  then show ?thesis using u(2) assms(3) by (simp add: page_of_def)
qed

lemma slot_nonzero: "0 < p \<Longrightarrow> p < 2 ^ 51 \<Longrightarrow> i < 512 \<Longrightarrow> slot p i \<noteq> 0"
  using unat_slot(1) [of p i] by force

text \<open>An entry depends on the bytes of its page only; writing one changes its page only.\<close>

lemma load_slot_cong:
  assumes "p < 2 ^ 51" and "i < 512" and "\<And>x. page_of x = p \<Longrightarrow> m x = m' x"
  shows "load64 m (slot p i) = load64 m' (slot p i)"
  using assms by (intro load64_cong) (simp add: page_of_slot_byte)

lemma store_slot_other:
  assumes "p < 2 ^ 51" and "i < 512" and "page_of x \<noteq> p"
  shows "store64 m (slot p i) v x = m x"
proof (rule store64_outside)
  note u = unat_slot [OF assms(1,2)]
  show "unat (slot p i) + 8 \<le> 2 ^ 64" using u assms(1) by simp
  show "unat x < unat (slot p i) \<or> unat (slot p i) + 8 \<le> unat x"
  proof (rule ccontr)
    assume "\<not> ?thesis"
    then have "page_of x = p" using u by (auto simp: page_of_def)
    with assms(3) show False by simp
  qed
qed

lemma load_store_slot:
  assumes "p < 2 ^ 51" "i < 512" "q < 2 ^ 51" "j < 512"
  shows "load64 (store64 m (slot p i) v) (slot q j) = (if p = q \<and> i = j then v else load64 m (slot q j))"
  using assms by (simp add: load64_store64 aligned8_slot slot_eq_iff)

text \<open>Clearing a page.\<close>

lemma memset_page:
  assumes "p < 2 ^ 51"
  shows "memset m (page_addr p) 0 PGSIZE x = (if page_of x = p then 0 else m x)"
proof -
  have u: "unat (page_addr p) = 4096 * p" using assms by (intro unat_page_addr) simp
  have "x - page_addr p < PGSIZE \<longleftrightarrow> page_of x = p"
  proof (cases "4096 * p \<le> unat x")
    case True
    then have "unat (x - page_addr p) = unat x - 4096 * p" by (simp add: unat_diff_64 u)
    with True show ?thesis by (auto simp: word_less_nat_alt page_of_def PGSIZE_def)
  next
    case False
    then have "unat (x - page_addr p) = unat x + 2 ^ 64 - 4096 * p" by (simp add: unat_diff_64 u)
    with False assms show ?thesis by (auto simp: word_less_nat_alt page_of_def PGSIZE_def)
  qed
  then show ?thesis by (simp add: memset_eq)
qed

section \<open>Page tables as trees\<close>

text \<open>
  The tables reachable from a root: the page of the root, of the middle tables by their
  index, and of the lowest tables by their two indices.
\<close>

record page_tree =
  pt_root :: nat
  pt_mid :: "uint64 \<Rightarrow> nat option"
  pt_low :: "uint64 \<times> uint64 \<Rightarrow> nat option"

definition table_page :: "nat \<Rightarrow> bool" where
  "table_page p \<longleftrightarrow> first_page \<le> p \<and> p < end_page"

text \<open>
  The entry of a table if it is valid, and the entry that refers to the next lower table on
  page \<open>p\<close>: its address and the valid bit, with no permission.
\<close>

definition sub_table :: "memory \<Rightarrow> nat \<Rightarrow> uint64 \<Rightarrow> uint64 option" where
  "sub_table m p i = (let e = load64 m (slot p i) in if e AND PTE_V \<noteq> 0 then Some e else None)"

definition table_entry :: "nat \<Rightarrow> uint64" where
  "table_entry p = PA2PTE (page_addr p) OR PTE_V"

definition tables :: "page_tree \<Rightarrow> nat set" where
  "tables T = insert (pt_root T) (ran (pt_mid T) \<union> ran (pt_low T))"

text \<open>All tables are distinct pages of memory.\<close>

definition tree_shape :: "page_tree \<Rightarrow> bool" where
  "tree_shape T \<longleftrightarrow>
     (\<forall>p\<in>tables T. table_page p) \<and>
     pt_root T \<notin> ran (pt_mid T) \<union> ran (pt_low T) \<and> ran (pt_mid T) \<inter> ran (pt_low T) = {} \<and>
     inj_on (pt_mid T) (dom (pt_mid T)) \<and> inj_on (pt_low T) (dom (pt_low T)) \<and>
     (\<forall>i j. pt_low T (i, j) \<noteq> None \<longrightarrow> pt_mid T i \<noteq> None)"

definition tree_repr :: "memory \<Rightarrow> page_tree \<Rightarrow> bool" where
  "tree_repr m T \<longleftrightarrow>
     (\<forall>i<512. sub_table m (pt_root T) i = map_option table_entry (pt_mid T i)) \<and>
     (\<forall>i<512. \<forall>p. pt_mid T i = Some p \<longrightarrow>
        (\<forall>j<512. sub_table m p j = map_option table_entry (pt_low T (i, j))))"

definition pt_inv :: "'z buddy_scheme \<Rightarrow> page_tree \<Rightarrow> nat set \<Rightarrow> bool" where
  "pt_inv s T F \<longleftrightarrow> page_pool s F \<and> tree_repr (mem s) T \<and> tree_shape T \<and> tables T \<inter> F = {}"

text \<open>The lowest table and the entry of a virtual address, and what the hardware finds there.\<close>

definition low_table :: "page_tree \<Rightarrow> uint64 \<Rightarrow> nat option" where
  "low_table T va =
     (case pt_mid T (PX 2 va) of None \<Rightarrow> None | Some _ \<Rightarrow> pt_low T (PX 2 va, PX 1 va))"

definition leaf :: "memory \<Rightarrow> page_tree \<Rightarrow> uint64 \<Rightarrow> uint64 option" where
  "leaf m T va =
     (case low_table T va of
        None \<Rightarrow> None
      | Some p \<Rightarrow> (let e = load64 m (slot p (PX 0 va)) in if e AND PTE_V \<noteq> 0 then Some e else None))"

definition vpn :: "uint64 \<Rightarrow> uint64 \<times> uint64 \<times> uint64" where
  "vpn va = (PX 2 va, PX 1 va, PX 0 va)"

lemma table_page_bound: "table_page p \<Longrightarrow> p < 2 ^ 51 \<and> 0 < p"
  by (auto simp: table_page_def first_page_def end_page_def)

lemma table_nonzero: "table_page p \<Longrightarrow> page_addr p \<noteq> 0"
  using table_page_bound [of p] by (subst page_addr_zero_iff) simp_all

lemma table_entry_simps [simp]:
  "table_entry p AND PTE_V \<noteq> 0" "table_page p \<Longrightarrow> PTE2PA (table_entry p) = page_addr p"
  using table_page_bound [of p] by (simp_all add: table_entry_def PTE2PA_table)

lemma tables_member:
  "pt_root T \<in> tables T" "pt_mid T i = Some p \<Longrightarrow> p \<in> tables T" "pt_low T ij = Some p \<Longrightarrow> p \<in> tables T"
  by (auto simp: tables_def intro: ranI)

lemma tree_shape_page: "tree_shape T \<Longrightarrow> p \<in> tables T \<Longrightarrow> table_page p"
  by (simp add: tree_shape_def)

lemma sub_table_cong:
  "table_page p \<Longrightarrow> i < 512 \<Longrightarrow> (\<And>x. page_of x = p \<Longrightarrow> m' x = m x) \<Longrightarrow> sub_table m' p i = sub_table m p i"
  using load_slot_cong [of p i m' m] table_page_bound [of p] by (simp add: sub_table_def)

lemma tree_repr_cong:
  assumes "tree_repr m T" and "tree_shape T" and "\<And>x. page_of x \<in> tables T \<Longrightarrow> m' x = m x"
  shows "tree_repr m' T"
proof -
  have "sub_table m' p i = sub_table m p i" if "p \<in> tables T" "i < 512" for p i
    using that assms(2,3) by (intro sub_table_cong) (auto dest: tree_shape_page)
  then show ?thesis using assms(1) tables_member [of T] unfolding tree_repr_def by metis
qed

lemma leaf_cong:
  assumes "tree_shape T" and "\<And>x. page_of x \<in> ran (pt_low T) \<Longrightarrow> m' x = m x"
  shows "leaf m' T va = leaf m T va"
proof (cases "low_table T va")
  case None
  then show ?thesis by (simp add: leaf_def)
next
  case (Some p)
  then have r: "p \<in> ran (pt_low T)" by (auto simp: low_table_def ran_def split: option.splits)
  then have "table_page p" using assms(1) by (auto simp: tree_shape_def tables_def)
  then have "load64 m' (slot p (PX 0 va)) = load64 m (slot p (PX 0 va))"
    using table_page_bound [of p] assms(2) r by (intro load_slot_cong) auto
  with Some show ?thesis by (simp add: leaf_def)
qed

section \<open>Walking without allocation\<close>

declare walk_tables.simps(2) [simp del]

text \<open>Allocating the next lower table and entering it in the table on page \<open>t\<close>.\<close>

definition link_table :: "nat \<Rightarrow> uint64 \<Rightarrow> (addr \<Rightarrow> (addr option, 'z buddy_scheme) run) \<Rightarrow>
    (addr option, 'z buddy_scheme) run" where
  "link_table t i c =
     bind (allocate 1) (\<lambda>table.
     if table = 0 then return None
     else
       bind (do_memset table 0 PGSIZE) (\<lambda>_.
       bind (write64 (slot t i) (PA2PTE table OR PTE_V)) (\<lambda>_.
       c table)))"

text \<open>A step of the walk at a table of the tree.\<close>

lemma walk_step:
  assumes "table_page p"
  shows "walk_tables (Suc l) (page_addr p) va alloc s =
    (case sub_table (mem s) p (PX (Suc l) va) of
       Some e \<Rightarrow> walk_tables l (PTE2PA e) va alloc s
     | None \<Rightarrow>
         (if \<not> alloc then return None
          else link_table p (PX (Suc l) va) (\<lambda>table. walk_tables l table va alloc)) s)"
proof -
  have acc: "get_field (page_addr p) off = (read64 (page_addr p + off) :: (uint64, 'a buddy_scheme) run)"
    "set_field (page_addr p) off v = (write64 (page_addr p + off) v :: (unit, 'a buddy_scheme) run)" for off v
    using table_nonzero [OF assms] by (simp_all add: get_field_def set_field_def)
  show ?thesis
    unfolding walk_tables.simps(2) acc sub_table_def slot_def read64_def bind_gets Let_def link_table_def by simp
qed

lemma walk_no_alloc:
  assumes "tree_repr (mem s) T" and "tree_shape T"
  shows "walk_tables 2 (page_addr (pt_root T)) va False s = Ok (map_option page_addr (low_table T va)) s"
proof -
  have root: "table_page (pt_root T)" using assms(2) tables_member(1) by (rule tree_shape_page)
  have r: "sub_table (mem s) (pt_root T) (PX 2 va) = map_option table_entry (pt_mid T (PX 2 va))"
    using assms(1) by (simp add: tree_repr_def)
  show ?thesis
  proof (cases "pt_mid T (PX 2 va)")
    case None
    with r show ?thesis
      unfolding numeral_2_eq_2 walk_step [OF root] by (simp add: low_table_def return_def numeral_2_eq_2)
  next
    case (Some p)
    have mid: "table_page p" using assms(2) tables_member(2) [OF Some] by (rule tree_shape_page)
    have "sub_table (mem s) p (PX 1 va) = map_option table_entry (pt_low T (PX 2 va, PX 1 va))"
      using assms(1) Some by (simp add: tree_repr_def)
    moreover have "table_page q" if "pt_low T (PX 2 va, PX 1 va) = Some q" for q
      using assms(2) tables_member(3) [OF that] by (rule tree_shape_page)
    ultimately show ?thesis
      using Some r mid unfolding numeral_2_eq_2 walk_step [OF root]
      by (cases "pt_low T (PX 2 va, PX 1 va)")
        (simp_all add: walk_step [OF mid] low_table_def return_def numeral_2_eq_2)
  qed
qed

lemma walk_present:
  assumes "tree_repr (mem s) T" and "tree_shape T" and q: "low_table T va = Some q"
  shows "walk_tables 2 (page_addr (pt_root T)) va alloc s = Ok (Some (page_addr q)) s"
proof -
  have root: "table_page (pt_root T)" using assms(2) tables_member(1) by (rule tree_shape_page)
  from q obtain p where p: "pt_mid T (PX 2 va) = Some p" "pt_low T (PX 2 va, PX 1 va) = Some q"
    by (auto simp: low_table_def split: option.splits)
  have mid: "table_page p" using assms(2) tables_member(2) [OF p(1)] by (rule tree_shape_page)
  have "sub_table (mem s) (pt_root T) (PX 2 va) = map_option table_entry (pt_mid T (PX 2 va))"
    "sub_table (mem s) p (PX 1 va) = map_option table_entry (pt_low T (PX 2 va, PX 1 va))"
    using assms(1) p(1) by (simp_all add: tree_repr_def)
  moreover have "table_page q" using assms(2) tables_member(3) [OF p(2)] by (rule tree_shape_page)
  ultimately show ?thesis
    using p mid unfolding numeral_2_eq_2 walk_step [OF root]
    by (simp add: walk_step [OF mid] return_def numeral_2_eq_2)
qed

text \<open>The entry \<open>pagetable_entry\<close> returns, and the address \<open>physical_address\<close> computes.\<close>

lemma pagetable_entry_no_alloc:
  assumes "tree_repr (mem s) T" and "tree_shape T" and "va < MAXVA"
  shows "pagetable_entry (page_addr (pt_root T)) va False s =
    Ok (case low_table T va of None \<Rightarrow> 0 | Some p \<Rightarrow> slot p (PX 0 va)) s"
  using assms walk_no_alloc [OF assms(1,2), of va]
  by (cases "low_table T va") (auto simp: pagetable_entry_def bind_Ok return_def slot_def)

lemma low_table_page: "tree_shape T \<Longrightarrow> low_table T va = Some p \<Longrightarrow> table_page p"
  by (rule tree_shape_page [of T p])
    (auto simp: low_table_def intro: tables_member split: option.splits)

lemma physical_address_ok:
  assumes "tree_repr (mem s) T" and "tree_shape T" and "va < MAXVA"
  shows "physical_address (page_addr (pt_root T)) va s =
    Ok (case leaf (mem s) T va of None \<Rightarrow> 0 | Some e \<Rightarrow> PTE2PA e + PGOFFSET va) s"
proof (cases "low_table T va")
  case None
  then show ?thesis
    using pagetable_entry_no_alloc [OF assms]
    by (simp add: physical_address_def bind_Ok return_def leaf_def)
next
  case (Some p)
  have "slot p (PX 0 va) \<noteq> 0"
    using low_table_page [OF assms(2) Some] table_page_bound by (intro slot_nonzero) auto
  then show ?thesis
    using Some pagetable_entry_no_alloc [OF assms]
    by (simp add: physical_address_def bind_Ok run_simps leaf_def Let_def)
qed

section \<open>Allocating a table\<close>

text \<open>
  The memory after a fresh table on page \<open>q\<close> is entered at index \<open>i\<close> of the table on page
  \<open>t\<close>: the new table is empty, the other entries and all other tables are as before.
\<close>

definition table_linked :: "memory \<Rightarrow> memory \<Rightarrow> nat set \<Rightarrow> nat \<Rightarrow> uint64 \<Rightarrow> nat \<Rightarrow> bool" where
  "table_linked m m' F t i q \<longleftrightarrow>
     (\<forall>x. page_of x \<notin> F \<longrightarrow> page_of x \<noteq> t \<longrightarrow> m' x = m x) \<and>
     (\<forall>j<512. sub_table m' t j = (if j = i then Some (table_entry q) else sub_table m t j)) \<and>
     (\<forall>x. page_of x = q \<longrightarrow> m' x = 0)"

text \<open>No table can be allocated: there is no free aligned pair of pages.\<close>

definition no_pair :: "nat set \<Rightarrow> bool" where
  "no_pair F \<longleftrightarrow> (\<nexists>q. 2 ^ 1 dvd q \<and> block 1 q \<subseteq> F)"

lemma alloc_table:
  fixes s :: "'a buddy_scheme"
  assumes pool: "page_pool s F" and t: "table_page t" "t \<notin> F" and i: "i < 512"
  shows "(\<exists>q s'. valid_block 1 q \<and> block 1 q \<subseteq> F \<and> page_pool s' (F - block 1 q) \<and>
      table_linked (mem s) (mem s') F t i q \<and> (\<forall>c. link_table t i c s = c (page_addr q) s')) \<or>
    no_pair F \<and> (\<forall>c. link_table t i c s = Ok None s)"
proof (cases "no_pair F")
  case True
  then have "allocate 1 s = Ok 0 s" using page_pool_alloc_fails [OF pool, of 1] unfolding no_pair_def by blast
  then have "bind (allocate 1) c s = c 0 s" for c :: "addr \<Rightarrow> (addr option, 'a buddy_scheme) run"
    by (rule bind_Ok)
  then show ?thesis using True by (intro disjI2) (simp add: link_table_def return_def)
next
  case False
  then obtain q s1 where 2: "allocate 1 s = Ok (page_addr q) s1" "valid_block 1 q" "block 1 q \<subseteq> F"
      "page_pool s1 (F - block 1 q)" "frame (F - block 1 q) s s1"
    using page_pool_alloc [OF pool, of 1] by (auto simp only: no_pair_def)
  have q: "table_page q" using 2(2) by (auto simp: valid_block_def table_page_def)
  note qb = table_page_bound [OF q] and tb = table_page_bound [OF t(1)]
  have qF: "q \<in> F" using 2(3) mem_block_self by blast
  then have qt: "q \<noteq> t" using t(2) by blast
  let ?m = "store64 (memset (mem s1) (page_addr q) 0 PGSIZE) (slot t i) (PA2PTE (page_addr q) OR PTE_V)"
  let ?s = "s1\<lparr>mem := ?m\<rparr>"
  have m1: "mem s1 x = mem s x" if "page_of x \<notin> F" for x using 2(5) that by (simp add: frame_def)
  have other: "?m x = mem s1 x" if "page_of x \<noteq> q" "page_of x \<noteq> t" for x
    using that tb i qb by (simp add: store_slot_other memset_page)
  have t_load: "load64 ?m (slot t j) = (if j = i then PA2PTE (page_addr q) OR PTE_V else load64 (mem s) (slot t j))"
    if "j < 512" for j
  proof -
    have "load64 (memset (mem s1) (page_addr q) 0 PGSIZE) (slot t j) = load64 (mem s) (slot t j)"
      using tb that qb qt m1 t(2) by (intro load_slot_cong) (auto simp: memset_page)
    then show ?thesis using tb i that by (auto simp: load_store_slot)
  qed
  have "table_linked (mem s) ?m F t i q"
    unfolding table_linked_def
  proof (intro conjI allI impI)
    show "?m x = mem s x" if "page_of x \<notin> F" "page_of x \<noteq> t" for x
      using that other [of x] m1 qF by auto
    show "sub_table ?m t j = (if j = i then Some (table_entry q) else sub_table (mem s) t j)" if "j < 512" for j
      using that by (simp add: sub_table_def t_load table_entry_def)
    show "?m x = 0" if "page_of x = q" for x
      using that qt tb i qb by (simp add: store_slot_other memset_page)
  qed
  then have "table_linked (mem s) (mem ?s) F t i q" by simp
  moreover have "page_pool ?s (F - block 1 q)"
  proof (rule page_pool_cong [OF 2(4)])
    show "mem ?s x = mem s1 x" if "page_of x \<in> F - block 1 q" for x
    proof -
      have "page_of x \<noteq> q" "page_of x \<noteq> t" using that t(2) mem_block_self [of q 1] by blast+
      then show ?thesis using other by simp
    qed
  qed simp
  moreover have "link_table t i c s = c (page_addr q) ?s" for c
  proof -
    have "bind (allocate 1) c s = c (page_addr q) s1" for c :: "addr \<Rightarrow> (addr option, 'a buddy_scheme) run"
      using 2(1) by (rule bind_Ok)
    then show ?thesis using table_nonzero [OF q] by (simp add: link_table_def do_memset_def run_simps)
  qed
  ultimately show ?thesis using 2(2,3) by blast
qed

lemma sub_table_zero:
  assumes "table_page q" and "\<And>x. page_of x = q \<Longrightarrow> m x = 0" and "i < 512"
  shows "sub_table m q i = None" "load64 m (slot q i) = 0"
proof -
  show "load64 m (slot q i) = 0"
    using assms table_page_bound [OF assms(1)] by (intro load64_zeroed) (simp add: page_of_slot_byte)
  then show "sub_table m q i = None" by (simp add: sub_table_def)
qed

lemma fresh_table:
  assumes "pt_inv s T F" and "valid_block 1 q" and "block 1 q \<subseteq> F"
  shows "table_page q" "q \<notin> tables T" "q \<in> F"
proof -
  show "q \<in> F" using assms(3) mem_block_self by blast
  then show "q \<notin> tables T" using assms(1) by (auto simp: pt_inv_def)
  show "table_page q" using assms(2) by (auto simp: valid_block_def table_page_def)
qed

lemma pt_invD:
  assumes "pt_inv s T F"
  shows "page_pool s F" "tree_repr (mem s) T" "tree_shape T" "p \<in> tables T \<Longrightarrow> table_page p \<and> p \<notin> F"
  using assms tree_shape_page by (auto simp: pt_inv_def)

lemma tree_shapeD:
  assumes "tree_shape T"
  shows "pt_mid T i = Some p \<Longrightarrow> p \<noteq> pt_root T" "pt_low T ij = Some p \<Longrightarrow> p \<noteq> pt_root T"
    "pt_mid T i = Some p \<Longrightarrow> pt_low T ij = Some q \<Longrightarrow> p \<noteq> q"
    "pt_mid T i = Some p \<Longrightarrow> pt_mid T j = Some p \<Longrightarrow> i = j"
    "pt_low T ij = Some p \<Longrightarrow> pt_low T kl = Some p \<Longrightarrow> ij = kl"
    "pt_mid T i = None \<Longrightarrow> pt_low T (i, j) = None"
proof -
  show "pt_mid T i = Some p \<Longrightarrow> p \<noteq> pt_root T" "pt_low T ij = Some p \<Longrightarrow> p \<noteq> pt_root T"
    using assms ranI [of "pt_mid T" i p] ranI [of "pt_low T" ij p] unfolding tree_shape_def by blast+
  show "pt_mid T i = Some p \<Longrightarrow> pt_low T ij = Some q \<Longrightarrow> p \<noteq> q"
    using assms ranI [of "pt_mid T" i p] ranI [of "pt_low T" ij q] unfolding tree_shape_def by blast
  show "pt_mid T i = Some p \<Longrightarrow> pt_mid T j = Some p \<Longrightarrow> i = j"
    using assms unfolding tree_shape_def by (metis domI inj_onD)
  show "pt_low T ij = Some p \<Longrightarrow> pt_low T kl = Some p \<Longrightarrow> ij = kl"
    using assms unfolding tree_shape_def by (metis domI inj_onD)
  show "pt_mid T i = None \<Longrightarrow> pt_low T (i, j) = None"
    using assms unfolding tree_shape_def by metis
qed

lemma inj_fresh:
  assumes "inj_on f (dom f)" and "q \<notin> ran f" and "f x = None"
  shows "inj_on (f(x \<mapsto> q)) (dom (f(x \<mapsto> q)))"
  using assms unfolding inj_on_def ran_def dom_def by auto

text \<open>Entering a fresh middle table keeps the tree and every translation.\<close>

lemma link_mid:
  assumes inv: "pt_inv s T F" and i: "i < 512" "pt_mid T i = None"
    and q: "valid_block 1 q" "block 1 q \<subseteq> F" and pool: "page_pool s' (F - block 1 q)"
    and ln: "table_linked (mem s) (mem s') F (pt_root T) i q"
  shows "pt_inv s' (T\<lparr>pt_mid := (pt_mid T)(i \<mapsto> q)\<rparr>) (F - block 1 q)" (is "pt_inv s' ?T _")
    and "leaf (mem s') (T\<lparr>pt_mid := (pt_mid T)(i \<mapsto> q)\<rparr>) va = leaf (mem s) T va"
proof -
  note d = pt_invD [OF inv] and sh = tree_shapeD [OF pt_invD(3) [OF inv]] and fresh = fresh_table [OF inv q]
  have tabs: "tables ?T = insert q (tables T)" using i(2) by (auto simp: tables_def ran_map_upd)
  have same: "mem s' x = mem s x" if "page_of x \<in> tables T" "page_of x \<noteq> pt_root T" for x
    using that ln d(4) by (auto simp: table_linked_def)
  have inj: "inj_on (pt_mid ?T) (dom (pt_mid ?T))"
    using inj_fresh [of "pt_mid T" q i] d(3) fresh(2) i(2) by (simp add: tree_shape_def tables_def)
  have low: "\<forall>k l. pt_low ?T (k, l) \<noteq> None \<longrightarrow> pt_mid ?T k \<noteq> None"
    using d(3) by (auto simp: tree_shape_def)
  have shape: "tree_shape ?T"
    using d(3) fresh i(2) inj low unfolding tree_shape_def tabs
    by (auto simp: ran_map_upd tables_def simp del: fun_upd_apply dom_fun_upd)
  have "tree_repr (mem s') ?T"
    unfolding tree_repr_def
  proof (intro conjI allI impI)
    fix j :: uint64 assume j: "j < 512"
    show "sub_table (mem s') (pt_root ?T) j = map_option table_entry (pt_mid ?T j)"
      using ln d(2) j by (auto simp: table_linked_def tree_repr_def)
  next
    fix j k :: uint64 and p assume j: "j < 512" and p: "pt_mid ?T j = Some p" and k: "k < 512"
    show "sub_table (mem s') p k = map_option table_entry (pt_low ?T (j, k))"
    proof (cases "j = i")
      case True
      with p ln k fresh show ?thesis
        using sub_table_zero(1) [of q "mem s'" k] sh(6) [OF i(2), of k] by (simp add: table_linked_def)
    next
      case False
      with p have m: "pt_mid T j = Some p" by simp
      have "sub_table (mem s') p k = sub_table (mem s) p k"
        using d(4) [OF tables_member(2) [OF m]] k same tables_member(2) [OF m] sh(1) [OF m]
        by (intro sub_table_cong) auto
      with d(2) m j k False show ?thesis by (simp add: tree_repr_def)
    qed
  qed
  with shape pool tabs d(4) q show "pt_inv s' ?T (F - block 1 q)" by (auto simp: pt_inv_def)
  have "low_table ?T va = low_table T va"
    using i(2) sh(6) [OF i(2), of "PX 1 va"] by (auto simp: low_table_def split: option.splits)
  moreover have "leaf (mem s') T va = leaf (mem s) T va"
  proof (rule leaf_cong [OF d(3)])
    fix x assume "page_of x \<in> ran (pt_low T)"
    then obtain ij where "pt_low T ij = Some (page_of x)" by (auto simp: ran_def)
    from tables_member(3) [OF this] sh(2) [OF this] show "mem s' x = mem s x" by (rule same)
  qed
  ultimately show "leaf (mem s') ?T va = leaf (mem s) T va" by (simp add: leaf_def)
qed

text \<open>Entering a fresh lowest table keeps the tree and every translation.\<close>

lemma link_low:
  assumes inv: "pt_inv s T F" and i: "i < 512" "pt_mid T i = Some p" and j: "j < 512" "pt_low T (i, j) = None"
    and q: "valid_block 1 q" "block 1 q \<subseteq> F" and pool: "page_pool s' (F - block 1 q)"
    and ln: "table_linked (mem s) (mem s') F p j q"
  shows "pt_inv s' (T\<lparr>pt_low := (pt_low T)((i, j) \<mapsto> q)\<rparr>) (F - block 1 q)" (is "pt_inv s' ?T _")
    and "leaf (mem s') (T\<lparr>pt_low := (pt_low T)((i, j) \<mapsto> q)\<rparr>) va = leaf (mem s) T va"
proof -
  note d = pt_invD [OF inv] and sh = tree_shapeD [OF pt_invD(3) [OF inv]] and fresh = fresh_table [OF inv q]
  have tabs: "tables ?T = insert q (tables T)" using j(2) by (auto simp: tables_def ran_map_upd)
  have same: "mem s' x = mem s x" if "page_of x \<in> tables T" "page_of x \<noteq> p" for x
    using that ln d(4) by (auto simp: table_linked_def)
  have sub: "sub_table (mem s') t k = sub_table (mem s) t k" if "t \<in> tables T" "t \<noteq> p" "k < 512" for t k
    using d(4) [OF that(1)] that same by (intro sub_table_cong) auto
  have inj: "inj_on (pt_low ?T) (dom (pt_low ?T))"
    using inj_fresh [of "pt_low T" q "(i, j)"] d(3) fresh(2) j(2) by (simp add: tree_shape_def tables_def)
  have low: "\<forall>k l. pt_low ?T (k, l) \<noteq> None \<longrightarrow> pt_mid ?T k \<noteq> None"
    using sh(6) i(2) by (auto split: if_splits) (metis option.distinct(1) option.exhaust)
  have shape: "tree_shape ?T"
    using d(3) fresh j(2) inj low unfolding tree_shape_def tabs
    by (auto simp: ran_map_upd tables_def simp del: fun_upd_apply dom_fun_upd)
  have "tree_repr (mem s') ?T"
    unfolding tree_repr_def
  proof (intro conjI allI impI)
    fix k :: uint64 assume k: "k < 512"
    show "sub_table (mem s') (pt_root ?T) k = map_option table_entry (pt_mid ?T k)"
      using d(2) k sub [OF tables_member(1) _ k] sh(1) [OF i(2)] by (auto simp: tree_repr_def)
  next
    fix k l :: uint64 and t assume k: "k < 512" and t: "pt_mid ?T k = Some t" and l: "l < 512"
    from t have m: "pt_mid T k = Some t" by simp
    show "sub_table (mem s') t l = map_option table_entry (pt_low ?T (k, l))"
    proof (cases "k = i")
      case True
      with m i have "t = p" by simp
      with True m ln d(2) k l show ?thesis by (auto simp: table_linked_def tree_repr_def)
    next
      case False
      then have "t \<noteq> p" using sh(4) [OF m] i(2) by blast
      with False sub [OF tables_member(2) [OF m] _ l] d(2) m k l show ?thesis by (auto simp: tree_repr_def)
    qed
  qed
  with shape pool tabs d(4) q show "pt_inv s' ?T (F - block 1 q)" by (auto simp: pt_inv_def)
  have old: "leaf (mem s') T va = leaf (mem s) T va"
  proof (rule leaf_cong [OF d(3)])
    fix x assume "page_of x \<in> ran (pt_low T)"
    then obtain ij where l: "pt_low T ij = Some (page_of x)" by (auto simp: ran_def)
    from tables_member(3) [OF l] sh(3) [OF i(2) l] show "mem s' x = mem s x" by (intro same) auto
  qed
  show "leaf (mem s') ?T va = leaf (mem s) T va"
  proof (cases "(PX 2 va, PX 1 va) = (i, j)")
    case True
    have "load64 (mem s') (slot q (PX 0 va)) = 0"
      using sub_table_zero(2) [OF fresh(1)] ln by (simp add: table_linked_def)
    with True i j show ?thesis by (simp add: leaf_def low_table_def)
  next
    case False
    then have "low_table ?T va = low_table T va" by (auto simp: low_table_def split: option.splits)
    with old show ?thesis by (simp add: leaf_def)
  qed
qed

section \<open>Walking with allocation\<close>

text \<open>
  What an operation may do to the tree: tables are added from free pages and memory outside
  the tables and the free pages is kept. A walk changes no translation.
\<close>

definition pt_grows :: "'z buddy_scheme \<Rightarrow> page_tree \<Rightarrow> nat set \<Rightarrow> 'z buddy_scheme \<Rightarrow> page_tree \<Rightarrow> nat set \<Rightarrow> bool" where
  "pt_grows s T F s' T' F' \<longleftrightarrow>
     pt_inv s' T' F' \<and> F' \<subseteq> F \<and> pt_root T' = pt_root T \<and> tables T' \<subseteq> tables T \<union> F \<and>
     (\<forall>x. page_of x \<notin> F \<longrightarrow> page_of x \<notin> tables T \<longrightarrow> mem s' x = mem s x)"

definition pt_extends :: "'z buddy_scheme \<Rightarrow> page_tree \<Rightarrow> nat set \<Rightarrow> 'z buddy_scheme \<Rightarrow> page_tree \<Rightarrow> nat set \<Rightarrow> bool" where
  "pt_extends s T F s' T' F' \<longleftrightarrow>
     pt_grows s T F s' T' F' \<and> (\<forall>va. leaf (mem s') T' va = leaf (mem s) T va)"

lemma pt_grows_refl: "pt_inv s T F \<Longrightarrow> pt_grows s T F s T F"
  by (simp add: pt_grows_def)

lemma pt_grows_trans:
  assumes "pt_grows s T F t U G" and "pt_grows t U G u V H"
  shows "pt_grows s T F u V H"
proof -
  note e = assms [unfolded pt_grows_def]
  have "mem u x = mem s x" if "page_of x \<notin> F" "page_of x \<notin> tables T" for x
  proof -
    have "page_of x \<notin> G" "page_of x \<notin> tables U" using e(1) that by blast+
    then show ?thesis using e that by simp
  qed
  moreover have "tables V \<subseteq> tables T \<union> F" using e by blast
  ultimately show ?thesis using e unfolding pt_grows_def by auto
qed

lemma pt_extends_refl: "pt_inv s T F \<Longrightarrow> pt_extends s T F s T F"
  by (simp add: pt_extends_def pt_grows_refl)

lemma pt_extends_trans: "pt_extends s T F t U G \<Longrightarrow> pt_extends t U G u V H \<Longrightarrow> pt_extends s T F u V H"
  unfolding pt_extends_def using pt_grows_trans by fastforce

lemma pt_extends_table:
  assumes inv: "pt_inv s' T' (F - block 1 q)" and root: "pt_root T' = pt_root T"
    and leaf: "\<And>va. leaf (mem s') T' va = leaf (mem s) T va"
    and tabs: "tables T' = insert q (tables T)" and q: "block 1 q \<subseteq> F"
    and link: "table_linked (mem s) (mem s') F t i q" "t \<in> tables T"
  shows "pt_extends s T F s' T' (F - block 1 q)"
proof -
  have "q \<in> F" using q mem_block_self by blast
  moreover have "mem s' x = mem s x" if "page_of x \<notin> F" "page_of x \<notin> tables T" for x
    using link that by (auto simp: table_linked_def)
  ultimately show ?thesis using inv root leaf tabs by (auto simp: pt_extends_def pt_grows_def)
qed

lemma walk_low:
  assumes inv: "pt_inv s T F" and m: "pt_mid T (PX 2 va) = Some p"
  shows "\<exists>r T' F' s'. walk_tables 1 (page_addr p) va True s = Ok r s' \<and> pt_extends s T F s' T' F' \<and>
    (case r of Some t \<Rightarrow> (\<exists>q. t = page_addr q \<and> low_table T' va = Some q) | None \<Rightarrow> no_pair F')"
proof -
  note d = pt_invD [OF inv]
  have p: "table_page p" "p \<notin> F" using d(4) tables_member(2) [OF m] by auto
  have sub: "sub_table (mem s) p (PX 1 va) = map_option table_entry (pt_low T (PX 2 va, PX 1 va))"
    using d(2) m by (simp add: tree_repr_def)
  show ?thesis
  proof (cases "pt_low T (PX 2 va, PX 1 va)")
    case (Some q)
    then have "table_page q" using d(4) tables_member(3) by blast
    with sub Some have "walk_tables 1 (page_addr p) va True s = Ok (Some (page_addr q)) s"
      using walk_step [OF p(1), of 0 va True s] by (simp add: return_def)
    moreover have "low_table T va = Some q" using Some m by (simp add: low_table_def)
    ultimately show ?thesis using pt_extends_refl [OF inv] by force
  next
    case None
    have step: "walk_tables 1 (page_addr p) va True s =
        link_table p (PX 1 va) (\<lambda>table. walk_tables 0 table va True) s"
      using None sub walk_step [OF p(1), of 0 va True s] by simp
    from alloc_table [OF d(1) p PX_less, of 1 va] show ?thesis
    proof (elim disjE exE conjE)
      fix q s' assume q: "valid_block 1 q" "block 1 q \<subseteq> F" "page_pool s' (F - block 1 q)"
        "table_linked (mem s) (mem s') F p (PX 1 va) q"
        and run: "\<forall>c. link_table p (PX 1 va) c s = c (page_addr q) s'"
      let ?T = "T\<lparr>pt_low := (pt_low T)((PX 2 va, PX 1 va) \<mapsto> q)\<rparr>"
      note link = link_low [OF inv PX_less m PX_less None q]
      have "walk_tables 1 (page_addr p) va True s = Ok (Some (page_addr q)) s'"
        unfolding step using run by (simp add: return_def)
      moreover have "pt_extends s T F s' ?T (F - block 1 q)"
        using q(2) None
        by (intro pt_extends_table [OF link(1) _ link(2) _ _ q(4) tables_member(2) [OF m]])
          (auto simp: tables_def ran_map_upd)
      moreover have "low_table ?T va = Some q" using m by (simp add: low_table_def)
      ultimately show ?thesis by (intro exI [of _ "Some (page_addr q)"] exI [of _ ?T]) auto
    next
      assume np: "no_pair F" and "\<forall>c. link_table p (PX 1 va) c s = Ok None s"
      then have "walk_tables 1 (page_addr p) va True s = Ok None s" unfolding step by blast
      with pt_extends_refl [OF inv] np show ?thesis by force
    qed
  qed
qed

lemma walk_alloc:
  assumes inv: "pt_inv s T F"
  shows "\<exists>r T' F' s'. walk_tables 2 (page_addr (pt_root T)) va True s = Ok r s' \<and> pt_extends s T F s' T' F' \<and>
    (case r of Some t \<Rightarrow> (\<exists>q. t = page_addr q \<and> low_table T' va = Some q) | None \<Rightarrow> no_pair F')"
proof -
  note d = pt_invD [OF inv]
  let ?r = "pt_root T"
  have r: "table_page ?r" "?r \<notin> F" using d(4) tables_member(1) by auto
  have sub: "sub_table (mem s) ?r (PX 2 va) = map_option table_entry (pt_mid T (PX 2 va))"
    using d(2) by (simp add: tree_repr_def)
  have two: "Suc 1 = 2" by simp
  note ws = walk_step [OF r(1), of 1 va True s, unfolded two]
  show ?thesis
  proof (cases "pt_mid T (PX 2 va)")
    case (Some p)
    then have "table_page p" using d(4) tables_member(2) by blast
    with sub Some have "walk_tables 2 (page_addr ?r) va True s = walk_tables 1 (page_addr p) va True s"
      unfolding ws by simp
    with walk_low [OF inv Some] show ?thesis by simp
  next
    case None
    have step: "walk_tables 2 (page_addr ?r) va True s =
        link_table ?r (PX 2 va) (\<lambda>table. walk_tables 1 table va True) s"
      unfolding ws using None sub by simp
    from alloc_table [OF d(1) r PX_less, of 2 va] show ?thesis
    proof (elim disjE exE conjE)
      fix q t assume q: "valid_block 1 q" "block 1 q \<subseteq> F" "page_pool t (F - block 1 q)"
        "table_linked (mem s) (mem t) F ?r (PX 2 va) q"
        and run: "\<forall>c. link_table ?r (PX 2 va) c s = c (page_addr q) t"
      let ?T = "T\<lparr>pt_mid := (pt_mid T)(PX 2 va \<mapsto> q)\<rparr>"
      note link = link_mid [OF inv PX_less None q]
      have ext: "pt_extends s T F t ?T (F - block 1 q)"
        using q(2) None
        by (intro pt_extends_table [OF link(1) _ link(2) _ _ q(4) tables_member(1)])
          (auto simp: tables_def ran_map_upd)
      have "pt_mid ?T (PX 2 va) = Some q" by simp
      from walk_low [OF link(1) this] obtain x T' F' s' where
        s': "walk_tables 1 (page_addr q) va True t = Ok x s'" "pt_extends t ?T (F - block 1 q) s' T' F'"
          "case x of Some t \<Rightarrow> (\<exists>q. t = page_addr q \<and> low_table T' va = Some q) | None \<Rightarrow> no_pair F'" by blast
      have "walk_tables 2 (page_addr ?r) va True s = Ok x s'"
        unfolding step using run s'(1) by simp
      with pt_extends_trans [OF ext s'(2)] s'(3) show ?thesis by blast
    next
      assume np: "no_pair F" and "\<forall>c. link_table ?r (PX 2 va) c s = Ok None s"
      then have "walk_tables 2 (page_addr ?r) va True s = Ok None s" unfolding step by blast
      with pt_extends_refl [OF inv] np show ?thesis by force
    qed
  qed
qed

section \<open>Writing a leaf entry\<close>

lemma low_table_some:
  assumes "tree_shape T" and "low_table T va = Some p" and "low_table T va' = Some p"
  shows "(PX 2 va, PX 1 va) = (PX 2 va', PX 1 va')"
proof -
  have "pt_low T (PX 2 va, PX 1 va) = Some p" "pt_low T (PX 2 va', PX 1 va') = Some p"
    using assms(2,3) by (auto simp: low_table_def split: option.splits)
  then show ?thesis by (rule tree_shapeD(5) [OF assms(1)])
qed

lemma write_leaf:
  assumes inv: "pt_inv s T F" and p: "low_table T va = Some p"
  shows "pt_inv (s\<lparr>mem := store64 (mem s) (slot p (PX 0 va)) e\<rparr>) T F"
    and "leaf (store64 (mem s) (slot p (PX 0 va)) e) T va' =
      (if vpn va' = vpn va then (if e AND PTE_V \<noteq> 0 then Some e else None) else leaf (mem s) T va')"
proof -
  note d = pt_invD [OF inv]
  let ?m = "store64 (mem s) (slot p (PX 0 va)) e"
  have l: "pt_low T (PX 2 va, PX 1 va) = Some p" using p by (auto simp: low_table_def split: option.splits)
  note pt = d(4) [OF tables_member(3) [OF l]]
  then have pb: "p < 2 ^ 51" using table_page_bound by blast
  have other: "?m x = mem s x" if "page_of x \<noteq> p" for x using that pb by (simp add: store_slot_other)
  have sub: "sub_table ?m t k = sub_table (mem s) t k" if "t \<in> tables T" "t \<noteq> p" "k < 512" for t k
    using d(4) [OF that(1)] that other by (intro sub_table_cong) auto
  have "tree_repr ?m T"
    unfolding tree_repr_def
  proof (intro conjI allI impI)
    fix i :: uint64 assume i: "i < 512"
    show "sub_table ?m (pt_root T) i = map_option table_entry (pt_mid T i)"
      using sub [OF tables_member(1) _ i] tree_shapeD(2) [OF d(3) l] d(2) i by (auto simp: tree_repr_def)
  next
    fix i j :: uint64 and t assume i: "i < 512" and t: "pt_mid T i = Some t" and j: "j < 512"
    have "t \<noteq> p" using tree_shapeD(3) [OF d(3) t l] .
    with sub [OF tables_member(2) [OF t] _ j] d(2) t i j
    show "sub_table ?m t j = map_option table_entry (pt_low T (i, j))" by (simp add: tree_repr_def)
  qed
  moreover have "page_pool (s\<lparr>mem := ?m\<rparr>) F"
  proof (rule page_pool_cong [OF d(1)])
    fix x assume "page_of x \<in> F"
    then have "page_of x \<noteq> p" using pt by blast
    then show "mem (s\<lparr>mem := ?m\<rparr>) x = mem s x" using other by simp
  qed simp
  ultimately show "pt_inv (s\<lparr>mem := ?m\<rparr>) T F" using inv by (simp add: pt_inv_def)
  show "leaf ?m T va' = (if vpn va' = vpn va then (if e AND PTE_V \<noteq> 0 then Some e else None) else leaf (mem s) T va')"
  proof (cases "low_table T va'")
    case None
    then have "(PX 2 va', PX 1 va') \<noteq> (PX 2 va, PX 1 va)" using p by (auto simp: low_table_def split: option.splits)
    with None show ?thesis by (auto simp: leaf_def vpn_def)
  next
    case (Some q)
    have qb: "q < 2 ^ 51" using low_table_page [OF d(3) Some] table_page_bound by blast
    have "q = p \<longleftrightarrow> (PX 2 va', PX 1 va') = (PX 2 va, PX 1 va)"
      using low_table_some [OF d(3) Some, of va] p Some by (auto simp: low_table_def split: option.splits)
    with Some pb qb show ?thesis by (auto simp: leaf_def vpn_def load_store_slot Let_def)
  qed
qed

section \<open>Mapping and unmapping\<close>

lemma PX_round [simp]: "PX l (PGROUNDDOWN va) = PX l va"
  unfolding PX_def PGROUNDDOWN_mask PGSHIFT_def
  by (auto simp: uint64_eq_iff_bit bit_simps dest: bit_imp_le_length)

lemma round_le: "PGROUNDDOWN va \<le> va"
  by (simp add: word_le_nat_alt unat_PGROUNDDOWN)

lemma vpn_round [simp]: "vpn (PGROUNDDOWN va) = vpn va"
  by (simp add: vpn_def)

lemma low_table_round [simp]: "low_table T (PGROUNDDOWN va) = low_table T va"
  unfolding low_table_def PX_round by simp

lemma leaf_round [simp]: "leaf m T (PGROUNDDOWN va) = leaf m T va"
  unfolding leaf_def low_table_round PX_round by simp

lemma round_round [simp]: "PGROUNDDOWN (PGROUNDDOWN a) = PGROUNDDOWN a"
  by (simp add: PGROUNDDOWN_mask)

lemma entry_alloc:
  assumes inv: "pt_inv s T F" and va: "va < MAXVA"
  shows "\<exists>T' F' s'. pt_extends s T F s' T' F' \<and>
    ((\<exists>q. low_table T' va = Some q \<and>
        pagetable_entry (page_addr (pt_root T)) va True s = Ok (slot q (PX 0 va)) s') \<or>
     no_pair F' \<and> pagetable_entry (page_addr (pt_root T)) va True s = Ok 0 s')"
proof -
  have va': "\<not> MAXVA \<le> va" using va by simp
  obtain r T' F' s' where w: "walk_tables 2 (page_addr (pt_root T)) va True s = Ok r s'" "pt_extends s T F s' T' F'"
      "case r of Some t \<Rightarrow> (\<exists>q. t = page_addr q \<and> low_table T' va = Some q) | None \<Rightarrow> no_pair F'"
    using walk_alloc [OF inv] by blast
  show ?thesis
  proof (cases r)
    case None
    with w va' have "pagetable_entry (page_addr (pt_root T)) va True s = Ok 0 s'" "no_pair F'"
      by (simp_all add: pagetable_entry_def bind_Ok return_def)
    with w(2) show ?thesis by blast
  next
    case (Some t)
    with w(3) obtain q where q: "t = page_addr q" "low_table T' va = Some q" by auto
    with Some w(1) va' have "pagetable_entry (page_addr (pt_root T)) va True s = Ok (slot q (PX 0 va)) s'"
      by (simp add: pagetable_entry_def bind_Ok return_def slot_def)
    with w(2) q(2) show ?thesis by blast
  qed
qed

lemma entry_slot:
  assumes inv: "pt_inv s T F" and q: "low_table T va = Some q"
  shows "slot q (PX 0 va) \<noteq> 0" "load64 (mem s) (slot q (PX 0 va)) AND PTE_V \<noteq> 0 \<longleftrightarrow> leaf (mem s) T va \<noteq> None"
    "leaf (mem s) T va = Some e \<Longrightarrow> load64 (mem s) (slot q (PX 0 va)) = e"
proof -
  have "table_page q" using low_table_page [OF pt_invD(3) [OF inv] q] .
  then show "slot q (PX 0 va) \<noteq> 0" using table_page_bound by (intro slot_nonzero) auto
  show "load64 (mem s) (slot q (PX 0 va)) AND PTE_V \<noteq> 0 \<longleftrightarrow> leaf (mem s) T va \<noteq> None"
    using q by (simp add: leaf_def Let_def)
  show "leaf (mem s) T va = Some e \<Longrightarrow> load64 (mem s) (slot q (PX 0 va)) = e"
    using q by (simp add: leaf_def Let_def split: if_splits)
qed

lemma map_page_ok:
  assumes inv: "pt_inv s T F" and va: "va < MAXVA" and free: "leaf (mem s) T va = None"
  shows "\<exists>T' F' t s'. pt_extends s T F t T' F' \<and>
    ((\<exists>q. low_table T' va = Some q \<and>
        s' = t\<lparr>mem := store64 (mem t) (slot q (PX 0 va)) (PA2PTE (PGROUNDDOWN pa) OR f OR PTE_V)\<rparr> \<and>
        map_page (page_addr (pt_root T)) va pa f s = Ok 0 s') \<or>
     s' = t \<and> no_pair F' \<and> map_page (page_addr (pt_root T)) va pa f s = Ok 1 s')"
proof -
  have va': "PGROUNDDOWN va < MAXVA" using round_le va by (rule order.strict_trans1)
  let ?e = "pagetable_entry (page_addr (pt_root T)) (PGROUNDDOWN va) True"
  obtain T' F' t where ext: "pt_extends s T F t T' F'"
    and e: "(\<exists>q. low_table T' va = Some q \<and> ?e s = Ok (slot q (PX 0 va)) t) \<or> no_pair F' \<and> ?e s = Ok 0 t"
    using entry_alloc [OF inv va'] by (auto simp only: low_table_round PX_round)
  have inv': "pt_inv t T' F'" and none: "leaf (mem t) T' va = None" using ext free by (simp_all add: pt_extends_def pt_grows_def)
  from e show ?thesis
  proof (elim disjE exE conjE)
    fix q assume q: "low_table T' va = Some q" and run: "?e s = Ok (slot q (PX 0 va)) t"
    have "bind ?e c s = c (slot q (PX 0 va)) t" for c :: "addr \<Rightarrow> (int, 'a buddy_scheme) run"
      using run by (rule bind_Ok)
    then have "map_page (page_addr (pt_root T)) va pa f s =
        Ok 0 (t\<lparr>mem := store64 (mem t) (slot q (PX 0 va)) (PA2PTE (PGROUNDDOWN pa) OR f OR PTE_V)\<rparr>)"
      using entry_slot(1,2) [OF inv' q] none by (simp add: map_page_def Let_def run_simps)
    with q ext show ?thesis by blast
  next
    assume np: "no_pair F'" and run: "?e s = Ok 0 t"
    have "bind ?e c s = c 0 t" for c :: "addr \<Rightarrow> (int, 'a buddy_scheme) run"
      using run by (rule bind_Ok)
    then have "map_page (page_addr (pt_root T)) va pa f s = Ok 1 t" by (simp add: map_page_def Let_def run_simps)
    with np ext show ?thesis by blast
  qed
qed

lemma write_leaf_grows:
  assumes inv: "pt_inv s T F" and p: "low_table T va = Some p"
  shows "pt_grows s T F (s\<lparr>mem := store64 (mem s) (slot p (PX 0 va)) e\<rparr>) T F"
proof -
  have "table_page p" "p \<in> tables T"
    using p pt_invD [OF inv] tables_member(3) [of T "(PX 2 va, PX 1 va)" p]
    by (auto simp: low_table_def split: option.splits)
  moreover have "store64 (mem s) (slot p (PX 0 va)) e x = mem s x" if "page_of x \<notin> tables T" for x
    using calculation table_page_bound [of p] that by (intro store_slot_other) auto
  ultimately show ?thesis using write_leaf(1) [OF inv p] by (auto simp: pt_grows_def)
qed

text \<open>The entry \<open>map_page\<close> writes.\<close>

definition page_entry :: "uint64 \<Rightarrow> uint64 \<Rightarrow> uint64" where
  "page_entry pa f = PA2PTE (PGROUNDDOWN pa) OR f OR PTE_V"

lemma page_entry_flags:
  assumes "perm_ok f" and "f AND NOT PTE_V \<noteq> 0"
  shows "PTE_FLAGS (page_entry pa f) \<noteq> PTE_V"
proof
  assume eq: "PTE_FLAGS (page_entry pa f) = PTE_V"
  obtain n where n: "bit f n" "n \<noteq> 0"
    using assms(2) by (auto simp: uint64_eq_iff_bit PTE_V_def bit_simps)
  then have n10: "n < 10" using assms(1) perm_bit by blast
  have "PTE_FLAGS e = e AND mask 10" for e by (simp add: PTE_FLAGS_def mask_eq_exp_minus_1)
  then have "bit (PTE_FLAGS (page_entry pa f)) n"
    using n n10 by (simp only: page_entry_def) (simp add: bit_simps)
  with eq n(2) show False by (simp add: PTE_V_def bit_simps)
qed

lemma map_page_result:
  assumes inv: "pt_inv s T F" and va: "va < MAXVA" and free: "leaf (mem s) T va = None"
  shows "\<exists>T' F' s'. pt_grows s T F s' T' F' \<and>
    (map_page (page_addr (pt_root T)) va pa f s = Ok 0 s' \<and>
     (\<forall>va'. leaf (mem s') T' va' = (if vpn va' = vpn va then Some (page_entry pa f) else leaf (mem s) T va')) \<or>
     map_page (page_addr (pt_root T)) va pa f s = Ok 1 s' \<and> no_pair F' \<and>
     (\<forall>va'. leaf (mem s') T' va' = leaf (mem s) T va'))"
proof -
  obtain T' F' t s' where ext: "pt_extends s T F t T' F'"
    and r: "(\<exists>q. low_table T' va = Some q \<and>
        s' = t\<lparr>mem := store64 (mem t) (slot q (PX 0 va)) (PA2PTE (PGROUNDDOWN pa) OR f OR PTE_V)\<rparr> \<and>
        map_page (page_addr (pt_root T)) va pa f s = Ok 0 s') \<or>
      s' = t \<and> no_pair F' \<and> map_page (page_addr (pt_root T)) va pa f s = Ok 1 s'"
    using map_page_ok [OF assms, of pa f] by blast
  have inv': "pt_inv t T' F'" and gr: "pt_grows s T F t T' F'" and
    same: "leaf (mem t) T' va' = leaf (mem s) T va'" for va'
    using ext by (auto simp: pt_extends_def pt_grows_def)
  from r show ?thesis
  proof (elim disjE exE conjE)
    fix q assume q: "low_table T' va = Some q"
      and s': "s' = t\<lparr>mem := store64 (mem t) (slot q (PX 0 va)) (PA2PTE (PGROUNDDOWN pa) OR f OR PTE_V)\<rparr>"
      and run: "map_page (page_addr (pt_root T)) va pa f s = Ok 0 s'"
    have "pt_grows s T F s' T' F'" using pt_grows_trans [OF gr write_leaf_grows [OF inv' q]] s' by simp
    moreover have "leaf (mem s') T' va' = (if vpn va' = vpn va then Some (page_entry pa f) else leaf (mem s) T va')" for va'
      using write_leaf(2) [OF inv' q] s' same by (simp add: page_entry_def)
    ultimately show ?thesis using run by blast
  next
    assume "s' = t" "no_pair F'" "map_page (page_addr (pt_root T)) va pa f s = Ok 1 s'"
    with gr same show ?thesis by blast
  qed
qed

lemma map_page_mapped:
  assumes inv: "pt_inv s T F" and va: "va < MAXVA" and m: "leaf (mem s) T va = Some e"
  shows "map_page (page_addr (pt_root T)) va pa f s = Fault (Panic ''map_page: page already mapped'')"
proof -
  have va': "\<not> MAXVA \<le> PGROUNDDOWN va" using order.strict_trans1 [OF round_le va] by simp
  obtain q where q: "low_table T va = Some q" using m by (auto simp: leaf_def split: option.splits)
  then have q': "low_table T (PGROUNDDOWN va) = Some q" by simp
  note d = pt_invD [OF inv]
  have "pagetable_entry (page_addr (pt_root T)) (PGROUNDDOWN va) True s = Ok (slot q (PX 0 va)) s"
    using walk_present [OF d(2,3) q', of True] va'
    by (simp add: pagetable_entry_def bind_Ok return_def slot_def)
  then have "bind (pagetable_entry (page_addr (pt_root T)) (PGROUNDDOWN va) True) c s = c (slot q (PX 0 va)) s"
    for c :: "addr \<Rightarrow> (int, 'a buddy_scheme) run" by (rule bind_Ok)
  then show ?thesis
    using entry_slot [OF inv q] m by (simp add: map_page_def Let_def run_simps)
qed

lemma unmap_page_result:
  assumes inv: "pt_inv s T F" and va: "va < MAXVA"
  shows "unmap_page (page_addr (pt_root T)) va s =
    (case low_table T va of
       None \<Rightarrow> Ok 1 s
     | Some q \<Rightarrow>
         (case leaf (mem s) T va of
            None \<Rightarrow> Fault (Panic ''unmap_page: page not mapped'')
          | Some e \<Rightarrow>
              if PTE_FLAGS e = PTE_V then Fault (Panic ''unmap_page: cannot unmap leaf page'')
              else Ok 0 (s\<lparr>mem := store64 (mem s) (slot q (PX 0 va)) 0\<rparr>)))"
proof -
  note d = pt_invD [OF inv]
  have "PGROUNDDOWN va < MAXVA" using order.strict_trans1 [OF round_le va] .
  note pe = pagetable_entry_no_alloc [OF d(2,3) this, simplified low_table_round PX_round]
  have k: "bind (pagetable_entry (page_addr (pt_root T)) (PGROUNDDOWN va) False) c s =
      c (case low_table T va of None \<Rightarrow> 0 | Some p \<Rightarrow> slot p (PX 0 va)) s"
    for c :: "addr \<Rightarrow> (int, 'a buddy_scheme) run" using pe by (rule bind_Ok)
  show ?thesis
  proof (cases "low_table T va")
    case None
    then show ?thesis by (simp add: unmap_page_def Let_def k return_def)
  next
    case (Some q)
    then show ?thesis
      using entry_slot [OF inv Some] by (auto simp: unmap_page_def Let_def k run_simps split: option.splits)
  qed
qed

lemma unmap_page_mapped:
  assumes inv: "pt_inv s T F" and va: "va < MAXVA" and m: "leaf (mem s) T va = Some e" "PTE_FLAGS e \<noteq> PTE_V"
  shows "\<exists>s'. unmap_page (page_addr (pt_root T)) va s = Ok 0 s' \<and> pt_grows s T F s' T F \<and>
    (\<forall>va'. leaf (mem s') T va' = (if vpn va' = vpn va then None else leaf (mem s) T va'))"
proof -
  obtain q where q: "low_table T va = Some q" using m by (auto simp: leaf_def split: option.splits)
  let ?s = "s\<lparr>mem := store64 (mem s) (slot q (PX 0 va)) 0\<rparr>"
  have "unmap_page (page_addr (pt_root T)) va s = Ok 0 ?s"
    using unmap_page_result [OF inv va] q m by simp
  moreover have "leaf (mem ?s) T va' = (if vpn va' = vpn va then None else leaf (mem s) T va')" for va'
    using write_leaf(2) [OF inv q] by simp
  ultimately show ?thesis using write_leaf_grows [OF inv q] by blast
qed

section \<open>The contract of an address space\<close>

text \<open>
  What the code above the page tables relies on: \<open>view s T\<close> gives the entry of a virtual
  address, or \<open>None\<close> where nothing is mapped.
\<close>

locale address_space =
  fixes map_pg :: "addr \<Rightarrow> uint64 \<Rightarrow> uint64 \<Rightarrow> uint64 \<Rightarrow> (int, 's) run"
    and unmap_pg :: "addr \<Rightarrow> uint64 \<Rightarrow> (int, 's) run"
    and translate :: "addr \<Rightarrow> uint64 \<Rightarrow> (addr, 's) run"
    and inv :: "'s \<Rightarrow> 't \<Rightarrow> 'f \<Rightarrow> bool"
    and view :: "'s \<Rightarrow> 't \<Rightarrow> uint64 \<Rightarrow> uint64 option"
    and root :: "'t \<Rightarrow> addr"
  assumes map_maps: "inv s T F \<Longrightarrow> va < MAXVA \<Longrightarrow> view s T va = None \<Longrightarrow> map_pg (root T) va pa f s = Ok 0 s' \<Longrightarrow>
      \<exists>T' F'. inv s' T' F' \<and> root T' = root T \<and>
        (\<forall>va'. view s' T' va' = (if vpn va' = vpn va then Some (page_entry pa f) else view s T va'))"
    and unmap_unmaps: "inv s T F \<Longrightarrow> va < MAXVA \<Longrightarrow> view s T va = Some e \<Longrightarrow> PTE_FLAGS e \<noteq> PTE_V \<Longrightarrow>
      \<exists>s'. unmap_pg (root T) va s = Ok 0 s' \<and> inv s' T F \<and>
        (\<forall>va'. view s' T va' = (if vpn va' = vpn va then None else view s T va'))"
    and view_page: "vpn va' = vpn va \<Longrightarrow> view s T va' = view s T va"
    and translate_view: "inv s T F \<Longrightarrow> va < MAXVA \<Longrightarrow>
      translate (root T) va s = Ok (case view s T va of None \<Rightarrow> 0 | Some e \<Rightarrow> PTE2PA e + PGOFFSET va) s"
begin

text \<open>A page that was just mapped is found at its place, at every offset.\<close>

lemma map_translate:
  assumes "inv s T F" "va < MAXVA" "view s T va = None" "map_pg (root T) va pa f s = Ok 0 s'"
    and "perm_ok f" "va' < MAXVA" "vpn va' = vpn va"
  shows "translate (root T) va' s' = Ok (PGROUNDDOWN pa + PGOFFSET va') s'"
proof -
  obtain T' F' where 1: "inv s' T' F'" "root T' = root T" "view s' T' va' = Some (page_entry pa f)"
    using map_maps [OF assms(1-4)] assms(7) by auto
  with translate_view [OF 1(1) assms(6)] assms(5) show ?thesis
    by (simp add: page_entry_def PTE2PA_PA2PTE)
qed

text \<open>Mapping does not disturb the other pages.\<close>

lemma map_translate_other:
  assumes "inv s T F" "va < MAXVA" "view s T va = None" "map_pg (root T) va pa f s = Ok 0 s'"
    and "va' < MAXVA" "vpn va' \<noteq> vpn va" "translate (root T) va' s = Ok a s"
  shows "translate (root T) va' s' = Ok a s'"
proof -
  obtain T' F' where 1: "inv s' T' F'" "root T' = root T" "view s' T' va' = view s T va'"
    using map_maps [OF assms(1-4)] assms(6) by auto
  with translate_view [OF 1(1) assms(5)] translate_view [OF assms(1,5)] assms(7) show ?thesis by simp
qed

text \<open>Unmapping what was mapped gives back the translations there were before.\<close>

lemma map_unmap:
  assumes "inv s T F" "va < MAXVA" "view s T va = None" "map_pg (root T) va pa f s = Ok 0 s1"
    and "perm_ok f" "f AND NOT PTE_V \<noteq> 0"
  shows "\<exists>s' T' F'. unmap_pg (root T) va s1 = Ok 0 s' \<and> inv s' T' F' \<and> root T' = root T \<and>
    (\<forall>va'. view s' T' va' = view s T va')"
proof -
  obtain T' F' where 1: "inv s1 T' F'" "root T' = root T"
    "\<And>va'. view s1 T' va' = (if vpn va' = vpn va then Some (page_entry pa f) else view s T va')"
    using map_maps [OF assms(1-4)] by auto
  have "PTE_FLAGS (page_entry pa f) \<noteq> PTE_V" using page_entry_flags assms(5,6) by blast
  then obtain s' where "unmap_pg (root T') va s1 = Ok 0 s'" "inv s' T' F'"
    "\<And>va'. view s' T' va' = (if vpn va' = vpn va then None else view s1 T' va')"
    using unmap_unmaps [OF 1(1) assms(2), of "page_entry pa f"] 1(3) by auto
  moreover have "view s T va' = None" if "vpn va' = vpn va" for va'
    using view_page [OF that] assms(3) by simp
  ultimately show ?thesis using 1 by auto
qed

end

lemma leaf_vpn:
  assumes "vpn va' = vpn va"
  shows "leaf m T va' = leaf m T va"
proof -
  have "PX 2 va' = PX 2 va" "PX 1 va' = PX 1 va" "PX 0 va' = PX 0 va" using assms by (simp_all add: vpn_def)
  then show ?thesis by (simp only: leaf_def low_table_def)
qed

interpretation user_space: address_space map_page unmap_page physical_address pt_inv
  "\<lambda>s. leaf (mem s)" "\<lambda>T. page_addr (pt_root T)"
proof unfold_locales
  show "\<exists>T' F'. pt_inv s' T' F' \<and> page_addr (pt_root T') = page_addr (pt_root T) \<and>
      (\<forall>va'. leaf (mem s') T' va' = (if vpn va' = vpn va then Some (page_entry pa f) else leaf (mem s) T va'))"
    if "pt_inv s T F" "va < MAXVA" "leaf (mem s) T va = None" "map_page (page_addr (pt_root T)) va pa f s = Ok 0 s'"
    for s s' :: "'a buddy_scheme" and T F va pa f
    using map_page_result [OF that(1-3), of pa f] that(4) unfolding pt_grows_def by auto
  show "\<exists>s'. unmap_page (page_addr (pt_root T)) va s = Ok 0 s' \<and> pt_inv s' T F \<and>
      (\<forall>va'. leaf (mem s') T va' = (if vpn va' = vpn va then None else leaf (mem s) T va'))"
    if "pt_inv s T F" "va < MAXVA" "leaf (mem s) T va = Some e" "PTE_FLAGS e \<noteq> PTE_V"
    for s :: "'a buddy_scheme" and T F va e
    using unmap_page_mapped [OF that] unfolding pt_grows_def by blast
  show "leaf (mem s) T va' = leaf (mem s) T va" if "vpn va' = vpn va" for s :: "'a buddy_scheme" and T va va'
    using that by (rule leaf_vpn)
  show "physical_address (page_addr (pt_root T)) va s =
      Ok (case leaf (mem s) T va of None \<Rightarrow> 0 | Some e \<Rightarrow> PTE2PA e + PGOFFSET va) s"
    if "pt_inv s T F" "va < MAXVA" for s :: "'a buddy_scheme" and T F va
    using physical_address_ok [OF pt_invD(2,3) [OF that(1)] that(2)] .
qed

section \<open>A new, empty table\<close>

definition empty_tree :: "nat \<Rightarrow> page_tree" where
  "empty_tree p = \<lparr>pt_root = p, pt_mid = Map.empty, pt_low = Map.empty\<rparr>"

lemma leaf_empty [simp]: "leaf m (empty_tree p) va = None"
  by (simp add: leaf_def low_table_def empty_tree_def)

lemma tables_empty [simp]: "tables (empty_tree p) = {p}"
  by (simp add: tables_def empty_tree_def)

lemma create_void_pagetable_ok:
  fixes s :: "'a buddy_scheme"
  assumes pool: "page_pool s F"
  shows "if no_pair F then create_void_pagetable s = Ok 0 s
    else \<exists>p s'. create_void_pagetable s = Ok (page_addr p) s' \<and> page_addr p \<noteq> 0 \<and> p \<in> F \<and>
      pt_inv s' (empty_tree p) (F - block 1 p) \<and> frame F s s'"
proof (cases "no_pair F")
  case True
  then have "allocate 1 s = Ok 0 s" using page_pool_alloc_fails [OF pool, of 1] unfolding no_pair_def by blast
  then have "bind (allocate 1) c s = c 0 s" for c :: "addr \<Rightarrow> (addr, 'a buddy_scheme) run"
    by (rule bind_Ok)
  with True show ?thesis by (simp add: create_void_pagetable_def return_def)
next
  case False
  then obtain q s1 where 2: "allocate 1 s = Ok (page_addr q) s1" "valid_block 1 q" "block 1 q \<subseteq> F"
      "page_pool s1 (F - block 1 q)" "frame (F - block 1 q) s s1"
    using page_pool_alloc [OF pool, of 1] by (auto simp only: no_pair_def)
  have q: "table_page q" using 2(2) by (auto simp: valid_block_def table_page_def)
  note qb = table_page_bound [OF q] and nz = table_nonzero [OF q]
  have qF: "q \<in> F" "q \<in> block 1 q" using 2(3) mem_block_self by blast+
  let ?m = "memset (mem s1) (page_addr q) 0 PGSIZE"
  let ?s = "s1\<lparr>mem := ?m\<rparr>"
  have m: "?m x = (if page_of x = q then 0 else mem s1 x)" for x using qb by (simp add: memset_page)
  have "page_pool ?s (F - block 1 q)"
    using qF(2) m by (intro page_pool_cong [OF 2(4)]) auto
  moreover have "sub_table ?m q i = None" if "i < 512" for i
    using sub_table_zero(1) [OF q _ that, of ?m] m by simp
  ultimately have "pt_inv ?s (empty_tree q) (F - block 1 q)"
    using q qF(2) by (simp add: pt_inv_def tree_repr_def tree_shape_def) (simp add: empty_tree_def)
  moreover have "frame F s ?s" using 2(5) m qF by (auto simp: frame_def)
  moreover have "create_void_pagetable s = Ok (page_addr q) ?s"
  proof -
    have "bind (allocate 1) c s = c (page_addr q) s1" for c :: "addr \<Rightarrow> (addr, 'a buddy_scheme) run"
      using 2(1) by (rule bind_Ok)
    then show ?thesis using nz by (simp add: create_void_pagetable_def do_memset_def run_simps)
  qed
  ultimately show ?thesis using False nz qF by auto
qed

section \<open>Mapping a range\<close>

text \<open>The number of the page a virtual address is on.\<close>

definition vpage :: "uint64 \<Rightarrow> nat" where
  "vpage va = unat va div 4096"

lemma unat_PX: "unat (PX l va) = unat va div 2 ^ (12 + 9 * l) mod 512"
proof -
  have "PX l va = take_bit 9 (drop_bit (12 + 9 * l) va)"
    by (simp add: PX_def PGSHIFT_def take_bit_eq_mask mask_eq_exp_minus_1)
  then show ?thesis by (simp only: unsigned_take_bit_eq unat_drop_bit_eq) (simp add: take_bit_eq_mod drop_bit_eq_div)
qed

lemma unat_MAXVA: "unat MAXVA = 2 ^ 38"
  by (simp add: MAXVA_def)

lemma vpn_vpage:
  assumes "va < MAXVA" and "va' < MAXVA"
  shows "vpn va' = vpn va \<longleftrightarrow> vpage va' = vpage va"
proof -
  let ?d = "\<lambda>x. (unat x div 4096 div 512 div 512, unat x div 4096 div 512 mod 512, unat x div 4096 mod 512)"
  have eq: "vpn va = vpn va' \<longleftrightarrow> ?d va = ?d va'" if "va < MAXVA" "va' < MAXVA" for va va'
  proof -
    have "unat va < 2 ^ 38" "unat va' < 2 ^ 38" using that by (simp_all add: word_less_nat_alt unat_MAXVA)
    then have "unat va div 4096 div 512 div 512 < 512" "unat va' div 4096 div 512 div 512 < 512" by simp_all
    then show ?thesis by (simp add: vpn_def word_unat_eq_iff unat_PX flip: div_mult2_eq)
  qed
  have "x = y" if "x div 512 div 512 = y div 512 div 512" "x div 512 mod 512 = y div 512 mod 512" "x mod 512 = y mod 512"
    for x y :: nat
  proof -
    have "x div 512 = y div 512"
      using that(1,2) mult_div_mod_eq [of 512 "x div 512"] mult_div_mod_eq [of 512 "y div 512"] by linarith
    with that(3) show ?thesis using mult_div_mod_eq [of 512 x] mult_div_mod_eq [of 512 y] by linarith
  qed
  from this [of "unat va' div 4096" "unat va div 4096"] show ?thesis
    unfolding eq [OF assms(2,1)] vpage_def by (intro iffI) simp_all
qed

lemma no_pair_mono: "no_pair F \<Longrightarrow> F' \<subseteq> F \<Longrightarrow> no_pair F'"
  unfolding no_pair_def by blast

text \<open>
  The state of a range of \<open>n\<close> pages from page \<open>v\<close> on: each page is mapped to its physical page,
  or it is left unmapped although no table can be allocated any more; outside the range
  nothing changed.
\<close>

definition range_mapped :: "(uint64 \<Rightarrow> uint64 option) \<Rightarrow> (uint64 \<Rightarrow> uint64 option) \<Rightarrow> nat set \<Rightarrow>
    nat \<Rightarrow> nat \<Rightarrow> (nat \<Rightarrow> uint64) \<Rightarrow> uint64 \<Rightarrow> bool" where
  "range_mapped old new F v n pg f \<longleftrightarrow>
     (\<forall>va<MAXVA. if v \<le> vpage va \<and> vpage va < v + n
        then new va = Some (page_entry (pg (vpage va)) f) \<or> new va = None \<and> no_pair F
        else new va = old va)"

lemma range_mapped_step:
  assumes "range_mapped mid new F' (Suc v) n pg f" and F: "F' \<subseteq> F" and va: "va < MAXVA" "vpage va = v"
    and first: "(\<forall>va'. mid va' = (if vpn va' = vpn va then Some (page_entry (pg v) f) else old va')) \<or>
      no_pair F \<and> (\<forall>va'. mid va' = old va') \<and> (\<forall>va'<MAXVA. vpage va' = v \<longrightarrow> old va' = None)"
  shows "range_mapped old new F' v (Suc n) pg f"
  unfolding range_mapped_def
proof (intro allI impI)
  fix w assume w: "w < MAXVA"
  note m = assms(1) [unfolded range_mapped_def, rule_format, OF w]
  have eq: "vpn w = vpn va \<longleftrightarrow> vpage w = v" using vpn_vpage [OF va(1) w] va(2) by simp
  show "if v \<le> vpage w \<and> vpage w < v + Suc n
      then new w = Some (page_entry (pg (vpage w)) f) \<or> new w = None \<and> no_pair F' else new w = old w"
    using m first w eq no_pair_mono [OF _ F] by (cases "vpage w = v") auto
qed

lemma aligned_page: "PGROUNDDOWN a = a \<longleftrightarrow> 4096 dvd unat a"
  unfolding uint64_eq_iff_unat unat_PGROUNDDOWN by (metis dvd_div_mult_self dvd_triv_right)

text \<open>The loop of \<open>kernel_map_pages\<close>, with \<open>n\<close> pages left to map.\<close>

lemma kernel_map_loop_ok:
  fixes s :: "'a buddy_scheme"
  assumes "pt_inv s T F" and "unat va = 4096 * v" and "4096 * (v + k + n) \<le> 2 ^ 38"
    and "unat sz \<le> 4096 * (k + n)" and "n \<noteq> 0 \<Longrightarrow> 4096 * (k + n) < unat sz + 4096"
    and "\<forall>w<MAXVA. v + k \<le> vpage w \<and> vpage w < v + k + n \<longrightarrow> leaf (mem s) T w = None"
  shows "\<exists>T' F' s'. kernel_map_loop (page_addr (pt_root T)) va pa sz f (of_nat (4096 * k)) s = Ok () s' \<and>
    pt_grows s T F s' T' F' \<and>
    range_mapped (leaf (mem s) T) (leaf (mem s') T') F' (v + k) n (\<lambda>p. pa + of_nat (4096 * (p - v))) f"
  using assms
proof (induction n arbitrary: k s T F)
  case 0
  have "unat (of_nat (4096 * k) :: uint64) = 4096 * k" using "0.prems"(3) by (intro unat_of_nat_64) simp
  then have "\<not> of_nat (4096 * k) < sz" using "0.prems"(4) by (simp add: word_less_nat_alt)
  then have "kernel_map_loop (page_addr (pt_root T)) va pa sz f (of_nat (4096 * k)) s = Ok () s"
    by (simp add: kernel_map_loop.simps return_def)
  moreover have "range_mapped (leaf (mem s) T) (leaf (mem s) T) F (v + k) 0 (\<lambda>p. pa + of_nat (4096 * (p - v))) f"
    by (auto simp: range_mapped_def)
  ultimately show ?case using pt_grows_refl [OF "0.prems"(1)] by blast
next
  case (Suc n)
  let ?i = "of_nat (4096 * k) :: uint64"
  have i: "unat ?i = 4096 * k" using "Suc.prems"(3) by (intro unat_of_nat_64) simp
  have less: "?i < sz" using "Suc.prems"(5) i by (simp add: word_less_nat_alt)
  have vi: "unat (va + ?i) = 4096 * (v + k)"
    using "Suc.prems"(2,3) i by (subst unat_add_no_overflow) (simp_all add: algebra_simps)
  have va: "va + ?i < MAXVA" "vpage (va + ?i) = v + k"
    using "Suc.prems"(3) vi by (simp_all add: word_less_nat_alt unat_MAXVA vpage_def)
  have none: "leaf (mem s) T (va + ?i) = None" using "Suc.prems"(6) va by simp
  obtain U G t r where 1: "map_page (page_addr (pt_root T)) (va + ?i) (pa + ?i) f s = Ok r t" "r \<noteq> -1"
      "pt_grows s T F t U G"
      "(\<forall>w. leaf (mem t) U w = (if vpn w = vpn (va + ?i) then Some (page_entry (pa + ?i) f) else leaf (mem s) T w)) \<or>
       no_pair G \<and> (\<forall>w. leaf (mem t) U w = leaf (mem s) T w)"
    using map_page_result [OF "Suc.prems"(1) va(1) none, of "pa + ?i" f] by fastforce
  have step: "?i + PGSIZE = of_nat (4096 * Suc k)" by (simp add: PGSIZE_def algebra_simps)
  have inv: "pt_inv t U G" "pt_root U = pt_root T" using 1(3) by (simp_all add: pt_grows_def)
  have "leaf (mem t) U w = None" if w: "w < MAXVA" "v + Suc k \<le> vpage w" "vpage w < v + Suc k + n" for w
  proof -
    have "vpn w \<noteq> vpn (va + ?i)" using vpn_vpage [OF va(1) w(1)] va(2) w(2) by simp
    with 1(4) have "leaf (mem t) U w = leaf (mem s) T w" by auto
    with "Suc.prems"(6) w show ?thesis by simp
  qed
  then have "\<forall>w<MAXVA. v + Suc k \<le> vpage w \<and> vpage w < v + Suc k + n \<longrightarrow> leaf (mem t) U w = None" by blast
  then obtain T' F' s' where 2: "kernel_map_loop (page_addr (pt_root U)) va pa sz f (of_nat (4096 * Suc k)) t = Ok () s'"
      "pt_grows t U G s' T' F'"
      "range_mapped (leaf (mem t) U) (leaf (mem s') T') F' (v + Suc k) n (\<lambda>p. pa + of_nat (4096 * (p - v))) f"
    using "Suc.IH" [of t U G "Suc k"] "Suc.prems"(2-5) inv by (auto simp: algebra_simps)
  have b: "bind (map_page (page_addr (pt_root T)) (va + ?i) (pa + ?i) f) c s = c r t"
    for c :: "int \<Rightarrow> (unit, 'a buddy_scheme) run" using 1(1) by (rule bind_Ok)
  have run: "kernel_map_loop (page_addr (pt_root T)) va pa sz f ?i s = Ok () s'"
    by (subst kernel_map_loop.simps) (simp only: less b 1(2) step 2(1) [unfolded inv(2)] if_True if_False)
  have "range_mapped (leaf (mem s) T) (leaf (mem s') T') F' (v + k) (Suc n) (\<lambda>p. pa + of_nat (4096 * (p - v))) f"
    using 2(2,3) 1(4) va "Suc.prems"(6)
    by (intro range_mapped_step [of "leaf (mem t) U" _ F' "v + k" n _ _ G "va + ?i"]) (auto simp: pt_grows_def)
  with run pt_grows_trans [OF 1(3) 2(2)] show ?case by blast
qed

section \<open>Properties\<close>

text \<open>
  An address space for the witnesses: a root, one middle and one lowest table, entered at
  index 0, on the pages from \<open>0x80100\<close> on; nothing is mapped and no page is free.
\<close>

definition small_tree :: page_tree where
  "small_tree = \<lparr>pt_root = 0x80100, pt_mid = [0 \<mapsto> 0x80101], pt_low = [(0, 0) \<mapsto> 0x80102]\<rparr>"

definition small_memory :: memory where
  "small_memory =
     store64 (store64 (\<lambda>_. 0) (slot 0x80100 0) (PA2PTE (page_addr 0x80101) OR PTE_V))
       (slot 0x80101 0) (PA2PTE (page_addr 0x80102) OR PTE_V)"

definition small_space :: buddy where
  "small_space = boot_state\<lparr>mem := small_memory\<rparr>"

lemma boot_pool_empty: "page_pool boot_state {}"
proof -
  have "pool_repr boot_state (\<lambda>_. [])" by (auto simp: pool_repr_def boot_state_def BUDDY_MAX_ORDER_def)
  moreover have "buddy_wf (\<lambda>_. [])"
    by (simp add: buddy_wf_def disjoint_blocks_def coalesced_def)
  moreover have "free_pages (\<lambda>_. []) = {}" by (simp add: free_pages_def)
  ultimately show ?thesis by (auto simp: page_pool_def)
qed

lemma load_small_memory:
  assumes "p < 2 ^ 51" and "i < 512"
  shows "load64 small_memory (slot p i) =
    (if i = 0 \<and> p = 0x80100 then PA2PTE (page_addr 0x80101) OR PTE_V
     else if i = 0 \<and> p = 0x80101 then PA2PTE (page_addr 0x80102) OR PTE_V else 0)"
  using assms by (auto simp: small_memory_def load_store_slot)

lemma small_space_ok: "pt_inv small_space small_tree {}" "low_table small_tree 0 = Some 0x80102"
  "leaf (mem small_space) small_tree va = None"
proof -
  have "tree_shape small_tree"
    by (auto simp: tree_shape_def tables_def small_tree_def ran_def table_page_def first_page_def end_page_def
        inj_on_def split: if_splits)
  moreover have "tree_repr small_memory small_tree"
    by (auto simp: tree_repr_def sub_table_def load_small_memory small_tree_def table_entry_def)
  moreover have "page_pool small_space {}"
    by (rule page_pool_cong [OF boot_pool_empty]) (simp_all add: small_space_def)
  ultimately show "pt_inv small_space small_tree {}" by (simp add: pt_inv_def small_space_def)
  show "low_table small_tree 0 = Some 0x80102"
    by (simp add: low_table_def small_tree_def PX_def)
  show "leaf (mem small_space) small_tree va = None"
    by (auto simp: leaf_def low_table_def small_tree_def small_space_def load_small_memory split: option.splits)
qed

lemma small_map:
  obtains s' where "map_page (page_addr (pt_root small_tree)) 0 (page_addr 0x80200) PTE_R small_space = Ok 0 s'"
    "pt_inv s' small_tree {}" "leaf (mem s') small_tree 0 = Some (page_entry (page_addr 0x80200) PTE_R)"
proof -
  note inv = small_space_ok(1) and d = pt_invD [OF small_space_ok(1)]
  let ?a = "slot 0x80102 (PX 0 0)"
  have "pagetable_entry (page_addr (pt_root small_tree)) 0 True small_space = Ok ?a small_space"
    using walk_present [OF d(2,3) small_space_ok(2), of True]
    by (simp add: pagetable_entry_def bind_Ok return_def slot_def MAXVA_def)
  moreover have "load64 (mem small_space) ?a = 0" "?a \<noteq> 0"
    using entry_slot [OF inv small_space_ok(2)] load_small_memory [of "0x80102" "PX 0 0"]
    by (simp_all add: small_space_def)
  moreover have "PGROUNDDOWN 0 = 0" by (simp add: PGROUNDDOWN_def)
  ultimately have "map_page (page_addr (pt_root small_tree)) 0 (page_addr 0x80200) PTE_R small_space =
      Ok 0 (small_space\<lparr>mem := store64 (mem small_space) ?a (page_entry (page_addr 0x80200) PTE_R)\<rparr>)"
    by (simp add: map_page_def bind_Ok run_simps page_entry_def)
  then show thesis
    using that write_leaf [OF inv small_space_ok(2)] by (simp add: page_entry_def)
qed

lemma PTE_R_perm: "perm_ok PTE_R" "PTE_R AND NOT PTE_V \<noteq> 0"
  by (simp_all add: perm_ok_def PTE_R_def PTE_V_def)

text \<open>
  C9. \<open>map_page\<close> on an address space: a page that is mapped already is a panic. Otherwise
  the call returns; either it returns 0 and exactly the addresses of that page have the new
  entry, or it returns 1, no table can be allocated any more and no translation changed. In
  both cases the tables stay a tree and memory outside the tables and free pages is kept.
\<close>

theorem map_page_correct:
  assumes "pt_inv s T F" and "va < MAXVA"
  shows "case leaf (mem s) T va of
      Some _ \<Rightarrow> map_page (page_addr (pt_root T)) va pa f s = Fault (Panic ''map_page: page already mapped'')
    | None \<Rightarrow> \<exists>T' F' s'. pt_grows s T F s' T' F' \<and>
        (map_page (page_addr (pt_root T)) va pa f s = Ok 0 s' \<and>
         (\<forall>va'. leaf (mem s') T' va' = (if vpn va' = vpn va then Some (page_entry pa f) else leaf (mem s) T va')) \<or>
         map_page (page_addr (pt_root T)) va pa f s = Ok 1 s' \<and> no_pair F' \<and>
         (\<forall>va'. leaf (mem s') T' va' = leaf (mem s) T va'))"
  using map_page_result [OF assms] map_page_mapped [OF assms] by (cases "leaf (mem s) T va") simp_all

theorem map_page_correct_witness:
  "\<exists>s'. map_page (page_addr 0x80100) 0 (page_addr 0x80200) PTE_R small_space = Ok 0 s' \<and>
     map_page (page_addr 0x80100) 0 (page_addr 0x80300) PTE_R s' = Fault (Panic ''map_page: page already mapped'') \<and>
     (\<exists>T F s''. pt_grows small_space small_tree {} s'' T F \<and>
        (map_page (page_addr 0x80100) 0x200000 0 PTE_R small_space = Ok 0 s'' \<or>
         map_page (page_addr 0x80100) 0x200000 0 PTE_R small_space = Ok 1 s''))"
proof -
  obtain s' where s': "map_page (page_addr (pt_root small_tree)) 0 (page_addr 0x80200) PTE_R small_space = Ok 0 s'"
    "pt_inv s' small_tree {}" "leaf (mem s') small_tree 0 = Some (page_entry (page_addr 0x80200) PTE_R)"
    by (rule small_map)
  have root: "pt_root small_tree = 0x80100" by (simp add: small_tree_def)
  have "0 < MAXVA" "0x200000 < MAXVA" by (simp_all add: MAXVA_def)
  with map_page_correct [OF s'(2), of 0 "page_addr 0x80300" PTE_R] s'(3)
    map_page_correct [OF small_space_ok(1), of "0x200000" 0 PTE_R] small_space_ok(3) s'(1)
  show ?thesis unfolding root by (simp del: not_gr_zero) blast
qed

text \<open>
  What \<open>map_page\<close> entered is what \<open>physical_address\<close> finds: every address of the page
  translates to the same offset of the physical page, and every other address translates
  as before.
\<close>

theorem map_page_physical_address:
  assumes "pt_inv s T F" and "va < MAXVA" and "leaf (mem s) T va = None" and "perm_ok f"
    and "map_page (page_addr (pt_root T)) va pa f s = Ok 0 s'" and "va' < MAXVA"
    and "physical_address (page_addr (pt_root T)) va' s = Ok a s"
  shows "physical_address (page_addr (pt_root T)) va' s' =
    Ok (if vpage va' = vpage va then PGROUNDDOWN pa + PGOFFSET va' else a) s'"
  using user_space.map_translate [OF assms(1-3,5,4,6)] user_space.map_translate_other [OF assms(1-3,5,6) _ assms(7)]
    vpn_vpage [OF assms(2,6)] by (cases "vpage va' = vpage va") simp_all

theorem map_page_physical_address_witness:
  "\<exists>s'. map_page (page_addr 0x80100) 0 (page_addr 0x80200) PTE_R small_space = Ok 0 s' \<and>
     physical_address (page_addr 0x80100) 0x123 s' = Ok (page_addr 0x80200 + 0x123) s'"
proof -
  obtain s' where s': "map_page (page_addr (pt_root small_tree)) 0 (page_addr 0x80200) PTE_R small_space = Ok 0 s'"
    by (rule small_map)
  have va: "0 < MAXVA" "0x123 < MAXVA" by (simp_all add: MAXVA_def)
  have p: "physical_address (page_addr (pt_root small_tree)) 0x123 small_space = Ok 0 small_space"
    using user_space.translate_view [OF small_space_ok(1) va(2)] small_space_ok(3) by simp
  have "vpage 0x123 = vpage 0" "PGROUNDDOWN (page_addr 0x80200) = page_addr 0x80200" "PGOFFSET 0x123 = 0x123"
    by (simp_all add: vpage_def PGROUNDDOWN_page PGOFFSET_def PGSIZE_def)
  with map_page_physical_address [OF small_space_ok(1) va(1) small_space_ok(3) PTE_R_perm(1) s' va(2) p] s'
  show ?thesis by (simp add: small_tree_def)
qed



text \<open>
  Unmapping a page that was just mapped with some permission succeeds and every
  translation is again what it was before the two calls.
\<close>

theorem map_page_unmap_page:
  assumes "pt_inv s T F" and "va < MAXVA" and "leaf (mem s) T va = None"
    and "map_page (page_addr (pt_root T)) va pa f s = Ok 0 s1" and "perm_ok f" and "f AND NOT PTE_V \<noteq> 0"
  shows "\<exists>s' T' F'. unmap_page (page_addr (pt_root T)) va s1 = Ok 0 s' \<and> pt_inv s' T' F' \<and>
    pt_root T' = pt_root T \<and> (\<forall>va'. leaf (mem s') T' va' = leaf (mem s) T va')"
proof -
  have root: "pt_root T' = pt_root T" if "pt_inv s' T' F'" "page_addr (pt_root T') = page_addr (pt_root T)"
    for s' :: "'a buddy_scheme" and T' F'
  proof -
    have "table_page (pt_root T)" "table_page (pt_root T')"
      using pt_invD(4) [OF assms(1) tables_member(1)] pt_invD(4) [OF that(1) tables_member(1)] by blast+
    then show ?thesis
      using that(2) table_page_bound [of "pt_root T"] table_page_bound [of "pt_root T'"]
        unat_page_addr [of "pt_root T"] unat_page_addr [of "pt_root T'"] by simp
  qed
  from user_space.map_unmap [OF assms] obtain s' T' F' where
    "unmap_page (page_addr (pt_root T)) va s1 = Ok 0 s'" "pt_inv s' T' F'"
    "page_addr (pt_root T') = page_addr (pt_root T)" "\<forall>va'. leaf (mem s') T' va' = leaf (mem s) T va'" by blast
  with root [of s' T' F'] show ?thesis by blast
qed

theorem map_page_unmap_page_witness:
  "\<exists>s1 s'. map_page (page_addr 0x80100) 0 (page_addr 0x80200) PTE_R small_space = Ok 0 s1 \<and>
     unmap_page (page_addr 0x80100) 0 s1 = Ok 0 s'"
proof -
  obtain s' where s': "map_page (page_addr (pt_root small_tree)) 0 (page_addr 0x80200) PTE_R small_space = Ok 0 s'"
    by (rule small_map)
  have "0 < MAXVA" by (simp add: MAXVA_def)
  from map_page_unmap_page [OF small_space_ok(1) this small_space_ok(3) s' PTE_R_perm] s'
  show ?thesis by (simp add: small_tree_def) blast
qed

text \<open>
  \<open>create_void_pagetable\<close>: if a pair of pages is free it returns a new root, every
  address is unmapped there and memory outside the free pages is kept; otherwise NULL.
\<close>

theorem create_void_pagetable_empty:
  assumes "page_pool s F"
  shows "if no_pair F then create_void_pagetable s = Ok 0 s
    else \<exists>p s'. create_void_pagetable s = Ok (page_addr p) s' \<and> page_addr p \<noteq> 0 \<and> p \<in> F \<and>
      pt_inv s' (empty_tree p) (F - block 1 p) \<and> frame F s s' \<and>
      (\<forall>va<MAXVA. physical_address (page_addr p) va s' = Ok 0 s')"
proof (cases "no_pair F")
  case False
  then obtain p s' where s': "create_void_pagetable s = Ok (page_addr p) s'" "page_addr p \<noteq> 0" "p \<in> F"
    "pt_inv s' (empty_tree p) (F - block 1 p)" "frame F s s'" using create_void_pagetable_ok [OF assms] by auto
  have "physical_address (page_addr p) va s' = Ok 0 s'" if "va < MAXVA" for va
    using user_space.translate_view [OF s'(4) that] by (simp add: empty_tree_def [of p]) (simp flip: empty_tree_def)
  with False s' show ?thesis by auto
qed (use create_void_pagetable_ok [OF assms] in simp)

theorem create_void_pagetable_empty_witness:
  "create_void_pagetable (last_page_state 0x87fff) = Ok 0 (last_page_state 0x87fff)"
proof -
  have pool: "page_pool (last_page_state 0x87fff) {0x87fff}"
    by (rule last_page_ok) (simp_all add: first_page_def end_page_def)
  have "\<not> block 1 q \<subseteq> {0x87fff}" for q
    using card_mono [of "{0x87fff :: nat}" "block 1 q"] by auto
  then have "no_pair {0x87fff}" by (simp add: no_pair_def)
  with create_void_pagetable_empty [OF pool] show ?thesis by simp
qed



end
