(* ===== verification/C_Strings.thy ===== *)
theory C_Strings
  imports Riscv
begin

text \<open>
  The string routines of \<open>kernel/utility.h\<close> on NUL-terminated byte strings in memory, and
  the byte and 32-bit accesses that the process code needs beside the 64-bit ones.
\<close>

section \<open>Narrow accesses\<close>

definition read8 :: "addr \<Rightarrow> (byte, 'z machine_scheme) run" where
  "read8 a = gets (\<lambda>s. mem s a)"

definition write8 :: "addr \<Rightarrow> byte \<Rightarrow> (unit, 'z machine_scheme) run" where
  "write8 a c = modify (\<lambda>s. s\<lparr>mem := (mem s)(a := c)\<rparr>)"

definition load32 :: "memory \<Rightarrow> addr \<Rightarrow> 32 word" where
  "load32 m a = word_of_int (horner_sum uint 256 (map (\<lambda>i. m (a + of_nat i)) [0..<4]))"

definition store32 :: "memory \<Rightarrow> addr \<Rightarrow> 32 word \<Rightarrow> memory" where
  "store32 m a v = (\<lambda>x. if x - a < 4 then ucast (drop_bit (8 * unat (x - a)) v) else m x)"

text \<open>Bytes and 32-bit fields behind a pointer; NULL is not mapped.\<close>

definition get_byte :: "addr \<Rightarrow> uint64 \<Rightarrow> (byte, 'z machine_scheme) run" where
  "get_byte p off = (if p = 0 then raise NullDeref else read8 (p + off))"

definition set_byte :: "addr \<Rightarrow> uint64 \<Rightarrow> byte \<Rightarrow> (unit, 'z machine_scheme) run" where
  "set_byte p off c = (if p = 0 then raise NullDeref else write8 (p + off) c)"

definition get_field32 :: "addr \<Rightarrow> uint64 \<Rightarrow> (32 word, 'z machine_scheme) run" where
  "get_field32 p off = (if p = 0 then raise NullDeref else gets (\<lambda>s. load32 (mem s) (p + off)))"

definition set_field32 :: "addr \<Rightarrow> uint64 \<Rightarrow> 32 word \<Rightarrow> (unit, 'z machine_scheme) run" where
  "set_field32 p off v =
     (if p = 0 then raise NullDeref else modify (\<lambda>s. s\<lparr>mem := store32 (mem s) (p + off) v\<rparr>))"

lemmas [run_simps] = read8_def write8_def

lemma narrow_nonnull [run_simps]:
  "p \<noteq> 0 \<Longrightarrow> get_byte p off = read8 (p + off)"
  "p \<noteq> 0 \<Longrightarrow> set_byte p off c = write8 (p + off) c"
  "p \<noteq> 0 \<Longrightarrow> get_field32 p off = gets (\<lambda>s. load32 (mem s) (p + off))"
  "p \<noteq> 0 \<Longrightarrow> set_field32 p off v = modify (\<lambda>s. s\<lparr>mem := store32 (mem s) (p + off) v\<rparr>)"
  by (simp_all add: get_byte_def set_byte_def get_field32_def set_field32_def)

section \<open>32-bit cells beside 64-bit cells\<close>

lemma bit_load32:
  "bit (load32 m a) n \<longleftrightarrow> n < 32 \<and> bit (m (a + of_nat (n div 8))) (n mod 8)"
proof -
  have "bit (horner_sum uint (2 ^ LENGTH(8)) (map (\<lambda>i. m (a + of_nat i)) [0..<4])) n \<longleftrightarrow>
      n div LENGTH(8) < 4 \<and> bit (map (\<lambda>i. m (a + of_nat i)) [0..<4] ! (n div LENGTH(8))) (n mod LENGTH(8))"
    by (subst bit_horner_sum_uint_exp_iff) simp
  then have "bit (horner_sum uint 256 (map (\<lambda>i. m (a + of_nat i)) [0..<4])) n \<longleftrightarrow>
      n div 8 < 4 \<and> bit (map (\<lambda>i. m (a + of_nat i)) [0..<4] ! (n div 8)) (n mod 8)"
    by simp
  moreover have "n div 8 < 4 \<longleftrightarrow> n < 32" by auto
  ultimately show ?thesis
    by (auto simp: load32_def bit_word_of_int_iff nth_map simp del: upt_Suc upt_rec_numeral)
qed

lemma load32_cong:
  "(\<And>i. i < 4 \<Longrightarrow> m (a + of_nat i) = m' (a + of_nat i)) \<Longrightarrow> load32 m a = load32 m' a"
  unfolding load32_def by (intro arg_cong [where f = word_of_int] arg_cong [where f = "horner_sum uint 256"]) auto

lemma load32_store32_same [simp]: "load32 (store32 m a v) a = v"
proof (rule bit_word_eqI)
  fix n assume "n < LENGTH(32)"
  then have n: "n < 32" by simp
  then have "n div 8 < 4" by auto
  then have u: "unat (of_nat (n div 8) :: uint64) = n div 8" and l: "(of_nat (n div 8) :: uint64) < 4"
    by (simp_all add: unat_of_nat_64 word_less_nat_alt)
  have "n mod 8 + 8 * (n div 8) = n" by simp
  with n u l show "bit (load32 (store32 m a v) a) n = bit v n"
    by (simp add: bit_load32 store32_def bit_ucast_iff bit_drop_bit_eq)
qed

text \<open>The bytes of one aligned cell are at least eight away from the start of another.\<close>

lemma aligned_far:
  assumes "aligned8 a" and "aligned8 b" and "a \<noteq> b" and "i < 8"
  shows "8 \<le> b + of_nat i - a"
proof -
  have "8 \<le> b - a" "8 \<le> a - b" using assms by (auto intro!: aligned8_ge)
  then have d: "8 \<le> unat (b - a)" "unat (b - a) + 8 \<le> 2 ^ 64"
    using unat_lt_64 [of a] unat_lt_64 [of b]
    by (auto simp: word_le_nat_alt unat_diff_64 split: if_splits)
  have "unat ((b - a) + of_nat i) = unat (b - a) + i"
    using d assms(4) by (subst unat_add_no_overflow) (auto simp: unat_of_nat_64)
  then have "8 \<le> (b - a) + of_nat i" using d by (simp add: word_le_nat_alt)
  then show ?thesis by (simp add: algebra_simps)
qed

lemma store32_other: "4 \<le> x - a \<Longrightarrow> store32 m a v x = m x"
  by (simp add: store32_def leD)

lemma mixed_cells:
  assumes "aligned8 a" and "aligned8 b" and "a \<noteq> b"
  shows "load64 (store32 m a v) b = load64 m b" "load32 (store64 m a w) b = load32 m b"
    "load32 (store32 m a v) b = load32 m b"
proof -
  have far: "8 \<le> b + of_nat i - a" if "i < 8" for i using aligned_far [OF assms that] .
  have far4: "4 \<le> b + of_nat i - a" if "i < 8" for i
    using far [OF that] by (rule order.trans [rotated]) simp
  show "load64 (store32 m a v) b = load64 m b"
    by (rule load64_cong) (use far4 in \<open>simp add: store32_other\<close>)
  show "load32 (store64 m a w) b = load32 m b"
    by (rule load32_cong) (use far in \<open>simp add: store64_other\<close>)
  show "load32 (store32 m a v) b = load32 m b"
    by (rule load32_cong) (use far4 in \<open>simp add: store32_other\<close>)
qed

section \<open>String routines\<close>

text \<open>\<open>while (str[len] != '\0') len++;\<close>\<close>

partial_function (option) strlen_loop ::
  "addr \<Rightarrow> uint64 \<Rightarrow> 'z machine_scheme \<Rightarrow> (fault + uint64 \<times> 'z machine_scheme) option" where
  "strlen_loop str len s =
     bind (get_byte str len) (\<lambda>c.
     if c \<noteq> 0 then strlen_loop str (len + 1) else return len) s"

definition strlen :: "addr \<Rightarrow> (uint64, 'z machine_scheme) run" where
  "strlen str = strlen_loop str 0"

text \<open>The copying loop of \<open>strcpy\<close> is that of \<open>memcpy\<close>; then the terminator is stored.\<close>

definition strcpy :: "addr \<Rightarrow> addr \<Rightarrow> uint64 \<Rightarrow> (unit, 'z machine_scheme) run" where
  "strcpy dest src sz =
     (if dest = 0 \<or> src = 0 \<and> sz \<noteq> 0 then raise NullDeref
      else
        bind (modify (\<lambda>s. s\<lparr>mem := memcpy_loop (mem s) dest src sz 0\<rparr>)) (\<lambda>_.
        write8 (dest + sz) 0))"

text \<open>\<open>while (*s1 != 0 && *s1 == *s2) { s1++; s2++; }\<close>\<close>

partial_function (option) strcmp_loop ::
  "addr \<Rightarrow> addr \<Rightarrow> 'z machine_scheme \<Rightarrow> (fault + int \<times> 'z machine_scheme) option" where
  "strcmp_loop s1 s2 s =
     bind (read8 s1) (\<lambda>a.
     bind (read8 s2) (\<lambda>b.
     if a \<noteq> 0 \<and> a = b then strcmp_loop (s1 + 1) (s2 + 1)
     else return (uint a - uint b))) s"

definition strcmp :: "addr \<Rightarrow> addr \<Rightarrow> (int, 'z machine_scheme) run" where
  "strcmp s1 s2 = (if s1 = 0 \<or> s2 = 0 then raise NullDeref else strcmp_loop s1 s2)"

text \<open>
  \<open>strtok\<close> keeps its position in the static variable \<open>last\<close>, here the argument \<open>last_pos\<close> and a second
  result. The inner loop over the delimiters is \<open>is_delimiter\<close>.
\<close>

partial_function (option) is_delimiter ::
  "byte \<Rightarrow> addr \<Rightarrow> uint64 \<Rightarrow> 'z machine_scheme \<Rightarrow> (fault + bool \<times> 'z machine_scheme) option" where
  "is_delimiter c delim i s =
     bind (get_byte delim i) (\<lambda>d.
     if d = 0 then return False
     else if c = d then return True
     else is_delimiter c delim (i + 1)) s"

partial_function (option) strtok_loop ::
  "addr \<Rightarrow> addr \<Rightarrow> addr \<Rightarrow> 'z machine_scheme \<Rightarrow>
   (fault + (addr \<times> addr) \<times> 'z machine_scheme) option" where
  "strtok_loop delim ret last_pos s =
     bind (read8 last_pos) (\<lambda>c.
     if c \<noteq> 0 then
       bind (is_delimiter c delim 0) (\<lambda>found.
       if found then bind (write8 last_pos 0) (\<lambda>_. return (ret, last_pos + 1))
       else strtok_loop delim ret (last_pos + 1))
     else return (ret, 0)) s"

definition strtok :: "addr \<Rightarrow> addr \<Rightarrow> addr \<Rightarrow> (addr \<times> addr, 'z machine_scheme) run" where
  "strtok last_pos str delim =
     (let last_pos = (if str \<noteq> 0 then str else last_pos) in
      if last_pos = 0 then return (0, last_pos) else strtok_loop delim last_pos last_pos)"

lemmas [code] = strlen_loop.simps strcmp_loop.simps is_delimiter.simps strtok_loop.simps

section \<open>Strings in memory\<close>

text \<open>\<open>cstring m p cs\<close>: the bytes \<open>cs\<close>, none of them NUL, followed by a NUL.\<close>

primrec cstring :: "memory \<Rightarrow> addr \<Rightarrow> byte list \<Rightarrow> bool" where
  "cstring m p [] \<longleftrightarrow> m p = 0"
| "cstring m p (c # cs) \<longleftrightarrow> m p = c \<and> c \<noteq> 0 \<and> cstring m (p + 1) cs"

lemma cstring_nth: "cstring m p cs \<Longrightarrow> i < length cs \<Longrightarrow> m (p + of_nat i) = cs ! i \<and> cs ! i \<noteq> 0"
proof (induction cs arbitrary: p i)
  case (Cons c cs)
  then show ?case by (cases i) (auto simp: add.assoc [symmetric])
qed simp

lemma cstring_end: "cstring m p cs \<Longrightarrow> m (p + of_nat (length cs)) = 0"
  by (induction cs arbitrary: p) (auto simp: add.assoc [symmetric])

lemma cstring_iff:
  "cstring m p cs \<longleftrightarrow> (\<forall>i<length cs. m (p + of_nat i) = cs ! i \<and> cs ! i \<noteq> 0) \<and> m (p + of_nat (length cs)) = 0"
proof (induction cs arbitrary: p)
  case (Cons c cs)
  show ?case using Cons.IH [of "p + 1"] by (simp add: All_less_Suc2 add.assoc)
qed simp

lemma cstring_cong:
  "(\<And>i. i \<le> length cs \<Longrightarrow> m' (p + of_nat i) = m (p + of_nat i)) \<Longrightarrow> cstring m' p cs \<longleftrightarrow> cstring m p cs"
  by (simp add: cstring_iff)

lemma strlen_loop_ok:
  assumes "str \<noteq> 0"
  shows "cstring (mem s) (str + len) cs \<Longrightarrow> strlen_loop str len s = Ok (len + of_nat (length cs)) s"
proof (induction cs arbitrary: len)
  case Nil
  then show ?case using assms by (simp add: strlen_loop.simps [of _ len] run_simps)
next
  case (Cons c cs)
  then have "cstring (mem s) (str + (len + 1)) cs" by (simp add: add.assoc)
  from Cons.IH [OF this] show ?case
    using Cons.prems assms by (simp add: strlen_loop.simps [of _ len] run_simps add.assoc)
qed

text \<open>The value \<open>strcmp\<close> returns: the difference at the first place where the strings differ.\<close>

fun string_diff :: "byte list \<Rightarrow> byte list \<Rightarrow> int" where
  "string_diff [] [] = 0"
| "string_diff (a # _) [] = uint a"
| "string_diff [] (b # _) = - uint b"
| "string_diff (a # as) (b # bs) = (if a = b then string_diff as bs else uint a - uint b)"

lemma string_diff_zero: "0 \<notin> set xs \<Longrightarrow> 0 \<notin> set ys \<Longrightarrow> string_diff xs ys = 0 \<longleftrightarrow> xs = ys"
  by (induction xs ys rule: string_diff.induct) (auto simp: word_uint_eq_iff)

lemma cstring_nonzero: "cstring m p cs \<Longrightarrow> 0 \<notin> set cs"
  by (induction cs arbitrary: p) auto

lemma strcmp_loop_ok:
  "cstring (mem s) a xs \<Longrightarrow> cstring (mem s) b ys \<Longrightarrow> strcmp_loop a b s = Ok (string_diff xs ys) s"
proof (induction xs ys arbitrary: a b rule: string_diff.induct)
  case (4 x xs y ys)
  then show ?case by (cases "x = y") (simp_all add: strcmp_loop.simps [of a b] run_simps)
qed (simp_all add: strcmp_loop.simps run_simps)

section \<open>Properties\<close>

lemma ranges_apart_mono: "ranges_apart a b n \<Longrightarrow> m \<le> n \<Longrightarrow> ranges_apart a b m"
  by (auto simp: ranges_apart_def)

lemma strcpy_ok:
  fixes s :: "'z machine_scheme"
  assumes src: "cstring (mem s) src cs" and nz: "dest \<noteq> 0" "src \<noteq> 0"
    and n: "unat sz \<le> length cs" "length cs + 1 < 2 ^ 64"
    and apart: "ranges_apart dest src (of_nat (length cs + 1))"
  shows "\<exists>s'. strcpy dest src sz s = Ok () s' \<and> cstring (mem s') dest (take (unat sz) cs) \<and> cstring (mem s') src cs \<and>
    (\<forall>x. sz < x - dest \<longrightarrow> mem s' x = mem s x)"
proof -
  have l: "unat (of_nat (length cs + 1) :: uint64) = length cs + 1" using n(2) by (rule unat_of_nat_64)
  then have le: "sz \<le> of_nat (length cs + 1)" using n(1) by (simp add: word_le_nat_alt del: of_nat_add)
  let ?m = "(\<lambda>x. if x - dest < sz then mem s (src + (x - dest)) else mem s x)(dest + sz := 0)"
  have run: "strcpy dest src sz s = Ok () (s\<lparr>mem := ?m\<rparr>)"
    using nz memcpy_eq [OF ranges_apart_mono [OF apart le], of "mem s"]
    by (simp add: strcpy_def memcpy_def run_simps)
  have idx: "unat (of_nat i :: uint64) = i" if "i \<le> length cs" for i using that n(2) by (intro unat_of_nat_64) simp
  have "?m (dest + of_nat i) = take (unat sz) cs ! i \<and> take (unat sz) cs ! i \<noteq> 0" if "i < unat sz" for i
  proof -
    have "of_nat i < sz" "of_nat i \<noteq> sz" using idx [of i] that n(1) by (auto simp: word_less_nat_alt)
    then show ?thesis using cstring_nth [OF src, of i] that n(1) by auto
  qed
  then have "cstring ?m dest (take (unat sz) cs)" using n(1) by (simp add: cstring_iff min_absorb2)
  moreover have keep: "?m (src + of_nat i) = mem s (src + of_nat i)" if "i \<le> length cs" for i
  proof -
    have "\<not> src + of_nat i - dest \<le> sz"
    proof
      let ?L = "of_nat (length cs + 1) :: uint64"
      assume le: "src + of_nat i - dest \<le> sz"
      have "?L \<le> dest - src" "?L \<le> src - dest" using apart by (simp_all add: ranges_apart_def)
      then have "length cs + 1 \<le> unat (dest - src)" "length cs + 1 \<le> unat (src - dest)" using l by (simp_all add: word_le_nat_alt)
      moreover have "src + of_nat i - dest = (src - dest) + of_nat i" by simp
      with le have "unat ((src - dest) + of_nat i) \<le> length cs" using n(1) by (simp add: word_le_nat_alt)
      ultimately show False
        using idx [OF that] that unat_diff_64 [of src dest] unat_diff_64 [of dest src] unat_lt_64 [of src] unat_lt_64 [of dest]
        by (auto simp: unat_word_ariths split: if_splits)
    qed
    then have "\<not> src + of_nat i - dest < sz" "src + of_nat i \<noteq> dest + sz" by (auto simp: not_le less_imp_le)
    then show ?thesis by simp
  qed
  have "cstring ?m src cs"
    using cstring_cong [of cs ?m src "mem s", OF keep] src by blast
  ultimately have "cstring (mem (s\<lparr>mem := ?m\<rparr>)) dest (take (unat sz) cs)" "cstring (mem (s\<lparr>mem := ?m\<rparr>)) src cs" by simp_all
  moreover have "mem (s\<lparr>mem := ?m\<rparr>) x = mem s x" if "sz < x - dest" for x using that by auto
  ultimately show ?thesis using run by blast
qed

text \<open>
  \<open>strcmp\<close> on two NUL-terminated strings returns the difference of the first bytes in
  which they differ, with the terminator counting as 0: it is 0 exactly for equal strings.
\<close>

theorem strcmp_correct:
  assumes "cstring (mem s) a xs" and "cstring (mem s) b ys" and "a \<noteq> 0" and "b \<noteq> 0"
  shows "strcmp a b s = Ok (string_diff xs ys) s \<and> (string_diff xs ys = 0 \<longleftrightarrow> xs = ys)"
  using assms strcmp_loop_ok [OF assms(1,2)] string_diff_zero [of xs ys] cstring_nonzero
  by (simp add: strcmp_def)

text \<open>The string \<open>/sh\<close> at address 64 and \<open>/init\<close> at address 128.\<close>

definition string_memory :: memory where
  "string_memory = (\<lambda>_. 0)(64 := 47, 65 := 115, 66 := 104, 128 := 47, 129 := 105, 130 := 110, 131 := 105, 132 := 116)"

definition string_machine :: machine where
  "string_machine = \<lparr>mem = string_memory, sstatus = 0\<rparr>"

lemma string_machine_strings:
  "cstring (mem string_machine) 64 [47, 115, 104]" "cstring (mem string_machine) 128 [47, 105, 110, 105, 116]"
  by (simp_all add: string_machine_def string_memory_def)

theorem strcmp_correct_witness:
  "strcmp 64 64 string_machine = Ok 0 string_machine \<and> strcmp 64 128 string_machine = Ok 10 string_machine"
  using strcmp_correct [OF string_machine_strings(1) string_machine_strings(1)]
    strcmp_correct [OF string_machine_strings] by simp

text \<open>
  Copying a name the way \<open>new_task\<close> does, \<open>strcpy(dest, src, min(n, strlen(src)))\<close>: the
  destination then holds the first \<open>n\<close> bytes of the string, properly terminated, the source
  is intact, and no byte behind the terminator is written.
\<close>

theorem strlen_strcpy:
  assumes "cstring (mem s) src cs" and "dest \<noteq> 0" and "src \<noteq> 0" and "length cs + 1 < 2 ^ 64"
    and "ranges_apart dest src (of_nat (length cs + 1))"
  shows "\<exists>s'. bind (strlen src) (\<lambda>l. strcpy dest src (min n l)) s = Ok () s' \<and>
    cstring (mem s') dest (take (unat n) cs) \<and> cstring (mem s') src cs \<and>
    (\<forall>x. n < x - dest \<longrightarrow> mem s' x = mem s x)"
proof -
  let ?l = "of_nat (length cs) :: uint64"
  have l: "unat ?l = length cs" using assms(4) by (intro unat_of_nat_64) simp
  have "strlen src s = Ok ?l s" using strlen_loop_ok [OF assms(3), of s 0 cs] assms(1) by (simp add: strlen_def)
  then have run: "bind (strlen src) (\<lambda>l. strcpy dest src (min n l)) s = strcpy dest src (min n ?l) s" by (rule bind_Ok)
  have u: "unat (min n ?l) = min (unat n) (length cs)" using l by (auto simp: min_def word_le_nat_alt)
  then obtain s' where s': "strcpy dest src (min n ?l) s = Ok () s'" "cstring (mem s') dest (take (unat (min n ?l)) cs)"
    "cstring (mem s') src cs" "\<forall>x. min n ?l < x - dest \<longrightarrow> mem s' x = mem s x"
    using strcpy_ok [OF assms(1-3) _ assms(4,5), of "min n ?l"] by auto
  have "take (unat (min n ?l)) cs = take (unat n) cs" unfolding u by (simp add: min_def)
  with s' run show ?thesis by (auto simp: min_less_iff_disj)
qed

theorem strlen_strcpy_witness:
  "\<exists>s'. bind (strlen 128) (\<lambda>l. strcpy 256 128 (min 4 l)) string_machine = Ok () s' \<and>
     cstring (mem s') 256 [47, 105, 110, 105] \<and> cstring (mem s') 64 [47, 115, 104]"
proof -
  have "ranges_apart 256 128 (of_nat (length [47, 105, 110, 105, 116 :: byte] + 1))" by (simp add: ranges_apart_def)
  from strlen_strcpy [OF string_machine_strings(2) _ _ _ this, of 4]
  obtain s' where s': "bind (strlen 128) (\<lambda>l. strcpy 256 128 (min 4 l)) string_machine = Ok () s'"
    "cstring (mem s') 256 [47, 105, 110, 105]" "\<forall>x. 4 < x - 256 \<longrightarrow> mem s' x = mem string_machine x" by auto
  have "mem s' x = mem string_machine x" if "x \<in> {64, 65, 66, 67}" for x using s'(3) that by auto
  then have "cstring (mem s') 64 [47, 115, 104]" using string_machine_strings(1) by simp
  with s' show ?thesis by blast
qed

end
