(* ===== verification/Platform.thy ===== *)
theory Platform
  imports Linked_List Virtual_Memory C_Strings
begin

text \<open>
  The global variables of the kernel above the heap, the control registers, and what the
  kernel finds around it: the devices behind their registers, the assembly routines, and
  the addresses the linker and the compiler choose. The latter are the fields of the record
  \<open>platform\<close>, an argument of every routine that uses them.
\<close>

section \<open>Global state\<close>

text \<open>
  \<open>uart.c\<close>: \<open>panicked\<close>, the transmit buffer and its indices; \<open>virtual_memory.c\<close>:
  \<open>kernel_pagetable\<close>; \<open>process.c\<close>: the process bookkeeping (\<open>init_task\<close> is the variable
  \<open>init\<close>); then the control and status registers.
\<close>

record kernel = kheap +
  panicked :: "32 word"
  uart_tx_buf :: "byte list"
  uart_tx_w :: uint64
  uart_tx_r :: uint64
  kernel_pagetable :: addr
  next_pid :: uint64
  stack_to_remove :: addr
  stack_to_remove_next :: addr
  running_task :: addr
  init_task :: addr
  runnable_tasks :: addr
  all_tasks :: addr
  sip :: uint64
  sie :: uint64
  sepc :: uint64
  stvec :: uint64
  satp :: uint64
  scause :: uint64
  stval :: uint64
  mstatus :: uint64
  mie :: uint64
  mepc :: uint64
  medeleg :: uint64
  mideleg :: uint64
  mtvec :: uint64
  mscratch :: uint64
  pmpcfg0 :: uint64
  pmpaddr0 :: uint64

section \<open>Surroundings\<close>

text \<open>
  \<open>switch_context old new\<close> stands for the run of the other tasks from the moment this task is
  switched away until it is switched to again; \<open>enter_user\<close> for the jump into the trampoline
  page. \<open>literal\<close> gives the address of a string literal in the kernel image.
\<close>

record 's platform =
  mmio_read8 :: "addr \<Rightarrow> (byte, 's) run"
  mmio_write8 :: "addr \<Rightarrow> byte \<Rightarrow> (unit, 's) run"
  mmio_read32 :: "addr \<Rightarrow> (32 word, 's) run"
  mmio_write32 :: "addr \<Rightarrow> 32 word \<Rightarrow> (unit, 's) run"
  mmio_read64 :: "addr \<Rightarrow> (uint64, 's) run"
  mmio_write64 :: "addr \<Rightarrow> uint64 \<Rightarrow> (unit, 's) run"
  switch_context :: "addr \<Rightarrow> addr \<Rightarrow> (unit, 's) run"
  enter_user :: "addr \<Rightarrow> uint64 \<Rightarrow> (unit, 's) run"
  wfi :: "(unit, 's) run"
  mret :: "(unit, 's) run"
  literal :: "string \<Rightarrow> addr"
  trampoline :: addr
  user_vector :: addr
  user_return :: addr
  kernel_vector :: addr
  timer_vector :: addr
  user_trap_entry :: addr
  user_trap_return_entry :: addr
  main_entry :: addr
  etext :: addr
  kernel_end :: addr
  init_program :: addr
  sh_program :: addr
  echo_program :: addr
  now_context :: addr
  boot_pagetable :: addr
  timer_scratch :: addr

section \<open>Control and status registers\<close>

text \<open>The accessors of \<open>kernel/riscv.h\<close>.\<close>

definition read_sstatus :: "(uint64, 'z kernel_scheme) run" where
  "read_sstatus = gets sstatus"

definition write_sstatus :: "uint64 \<Rightarrow> (unit, 'z kernel_scheme) run" where
  "write_sstatus x = modify (\<lambda>s. s\<lparr>sstatus := x\<rparr>)"

definition read_mstatus :: "(uint64, 'z kernel_scheme) run" where
  "read_mstatus = gets mstatus"

definition write_mstatus :: "uint64 \<Rightarrow> (unit, 'z kernel_scheme) run" where
  "write_mstatus x = modify (\<lambda>s. s\<lparr>mstatus := x\<rparr>)"

definition write_mepc :: "uint64 \<Rightarrow> (unit, 'z kernel_scheme) run" where
  "write_mepc x = modify (\<lambda>s. s\<lparr>mepc := x\<rparr>)"

definition read_sip :: "(uint64, 'z kernel_scheme) run" where
  "read_sip = gets sip"

definition write_sip :: "uint64 \<Rightarrow> (unit, 'z kernel_scheme) run" where
  "write_sip x = modify (\<lambda>s. s\<lparr>sip := x\<rparr>)"

definition read_sie :: "(uint64, 'z kernel_scheme) run" where
  "read_sie = gets sie"

definition write_sie :: "uint64 \<Rightarrow> (unit, 'z kernel_scheme) run" where
  "write_sie x = modify (\<lambda>s. s\<lparr>sie := x\<rparr>)"

definition read_mie :: "(uint64, 'z kernel_scheme) run" where
  "read_mie = gets mie"

definition write_mie :: "uint64 \<Rightarrow> (unit, 'z kernel_scheme) run" where
  "write_mie x = modify (\<lambda>s. s\<lparr>mie := x\<rparr>)"

definition read_sepc :: "(uint64, 'z kernel_scheme) run" where
  "read_sepc = gets sepc"

definition write_sepc :: "uint64 \<Rightarrow> (unit, 'z kernel_scheme) run" where
  "write_sepc x = modify (\<lambda>s. s\<lparr>sepc := x\<rparr>)"

definition write_medeleg :: "uint64 \<Rightarrow> (unit, 'z kernel_scheme) run" where
  "write_medeleg x = modify (\<lambda>s. s\<lparr>medeleg := x\<rparr>)"

definition write_mideleg :: "uint64 \<Rightarrow> (unit, 'z kernel_scheme) run" where
  "write_mideleg x = modify (\<lambda>s. s\<lparr>mideleg := x\<rparr>)"

definition write_stvec :: "uint64 \<Rightarrow> (unit, 'z kernel_scheme) run" where
  "write_stvec x = modify (\<lambda>s. s\<lparr>stvec := x\<rparr>)"

definition write_mtvec :: "uint64 \<Rightarrow> (unit, 'z kernel_scheme) run" where
  "write_mtvec x = modify (\<lambda>s. s\<lparr>mtvec := x\<rparr>)"

definition write_pmpcfg0 :: "uint64 \<Rightarrow> (unit, 'z kernel_scheme) run" where
  "write_pmpcfg0 x = modify (\<lambda>s. s\<lparr>pmpcfg0 := x\<rparr>)"

definition write_pmpaddr0 :: "uint64 \<Rightarrow> (unit, 'z kernel_scheme) run" where
  "write_pmpaddr0 x = modify (\<lambda>s. s\<lparr>pmpaddr0 := x\<rparr>)"

definition read_satp :: "(uint64, 'z kernel_scheme) run" where
  "read_satp = gets satp"

definition write_satp :: "uint64 \<Rightarrow> (unit, 'z kernel_scheme) run" where
  "write_satp x = modify (\<lambda>s. s\<lparr>satp := x\<rparr>)"

definition write_mscratch :: "uint64 \<Rightarrow> (unit, 'z kernel_scheme) run" where
  "write_mscratch x = modify (\<lambda>s. s\<lparr>mscratch := x\<rparr>)"

definition read_scause :: "(uint64, 'z kernel_scheme) run" where
  "read_scause = gets scause"

definition read_stval :: "(uint64, 'z kernel_scheme) run" where
  "read_stval = gets stval"

text \<open>Flushing the TLB has no effect on the modelled state.\<close>

definition sfence_vma :: "(unit, 'z kernel_scheme) run" where
  "sfence_vma = return ()"

lemmas csr_simps [run_simps] =
  read_sstatus_def write_sstatus_def read_mstatus_def write_mstatus_def write_mepc_def
  read_sip_def write_sip_def read_sie_def write_sie_def read_mie_def write_mie_def
  read_sepc_def write_sepc_def write_medeleg_def write_mideleg_def write_stvec_def
  write_mtvec_def write_pmpcfg0_def write_pmpaddr0_def read_satp_def write_satp_def
  write_mscratch_def read_scause_def read_stval_def sfence_vma_def

section \<open>Device addresses and register constants\<close>

definition VIRT_TEST :: addr where "VIRT_TEST = 0x100000"
definition UART0 :: addr where "UART0 = 0x10000000"
definition UART0_IRQ :: "32 word" where "UART0_IRQ = 10"
definition VIRTIO0 :: addr where "VIRTIO0 = 0x10001000"
definition VIRTIO0_IRQ :: "32 word" where "VIRTIO0_IRQ = 1"
definition CLINT :: addr where "CLINT = 0x2000000"
definition CLINT_MTIMECMP :: "uint64 \<Rightarrow> addr" where "CLINT_MTIMECMP hartid = CLINT + 0x4000 + 8 * hartid"
definition CLINT_MTIME :: addr where "CLINT_MTIME = CLINT + 0xBFF8"
definition PLIC :: addr where "PLIC = 0x0c000000"
definition PLIC_SENABLE :: "uint64 \<Rightarrow> addr" where "PLIC_SENABLE hart = PLIC + 0x2080 + hart * 0x100"
definition PLIC_SPRIORITY :: "uint64 \<Rightarrow> addr" where "PLIC_SPRIORITY hart = PLIC + 0x201000 + hart * 0x2000"
definition PLIC_SCLAIM :: "uint64 \<Rightarrow> addr" where "PLIC_SCLAIM hart = PLIC + 0x201004 + hart * 0x2000"

definition MSTATUS_MPP_MASK :: uint64 where "MSTATUS_MPP_MASK = push_bit 11 3"
definition MSTATUS_MPP_S :: uint64 where "MSTATUS_MPP_S = push_bit 11 1"
definition MSTATUS_MIE :: uint64 where "MSTATUS_MIE = push_bit 3 1"
definition SIE_SEIE :: uint64 where "SIE_SEIE = push_bit 9 1"
definition SIE_STIE :: uint64 where "SIE_STIE = push_bit 5 1"
definition SIE_SSIE :: uint64 where "SIE_SSIE = push_bit 1 1"
definition MIE_MTIE :: uint64 where "MIE_MTIE = push_bit 7 1"
definition SATP_SV39 :: uint64 where "SATP_SV39 = push_bit 60 8"
definition MAKE_SATP :: "addr \<Rightarrow> uint64" where "MAKE_SATP pagetable = SATP_SV39 OR drop_bit 12 pagetable"

text \<open>The bits and device registers of the headers that no routine uses.\<close>

definition MSTATUS_MPP_M :: uint64 where "MSTATUS_MPP_M = push_bit 11 3"
definition MSTATUS_MPP_U :: uint64 where "MSTATUS_MPP_U = push_bit 11 0"
definition SSTATUS_UPIE :: uint64 where "SSTATUS_UPIE = push_bit 4 1"
definition SSTATUS_UIE :: uint64 where "SSTATUS_UIE = push_bit 0 1"
definition MIE_MEIE :: uint64 where "MIE_MEIE = push_bit 11 1"
definition MIE_MSIE :: uint64 where "MIE_MSIE = push_bit 3 1"
definition PLIC_PRIORITY :: addr where "PLIC_PRIORITY = PLIC + 0"
definition PLIC_PENDING :: addr where "PLIC_PENDING = PLIC + 0x1000"
definition PLIC_MENABLE :: "uint64 \<Rightarrow> addr" where "PLIC_MENABLE hart = PLIC + 0x2000 + hart * 0x100"
definition PLIC_MPRIORITY :: "uint64 \<Rightarrow> addr" where "PLIC_MPRIORITY hart = PLIC + 0x200000 + hart * 0x2000"
definition PLIC_MCLAIM :: "uint64 \<Rightarrow> addr" where "PLIC_MCLAIM hart = PLIC + 0x200004 + hart * 0x2000"
definition KSTACK :: "uint64 \<Rightarrow> addr" where "KSTACK p = TRAMPOLINE - (p + 1) * 2 * PGSIZE"

text \<open>\<open>signal_defs.h\<close>\<close>

definition NOTHING :: "32 word" where "NOTHING = 0"
definition SIGINT :: "32 word" where "SIGINT = 2"
definition SIGKILL :: "32 word" where "SIGKILL = 9"

text \<open>
  \<open>spinlock.h\<close>: with one hart the lock operations are empty functions, and the routines of
  \<open>print.c\<close> and \<open>uart.c\<close> are modelled without the calls.
\<close>

definition initlock :: "addr \<Rightarrow> addr \<Rightarrow> (unit, 'z kernel_scheme) run" where "initlock lk name = return ()"
definition acquire :: "addr \<Rightarrow> (unit, 'z kernel_scheme) run" where "acquire lk = return ()"
definition release :: "addr \<Rightarrow> (unit, 'z kernel_scheme) run" where "release lk = return ()"
definition push_off :: "(unit, 'z kernel_scheme) run" where "push_off = return ()"
definition pop_off :: "(unit, 'z kernel_scheme) run" where "pop_off = return ()"

text \<open>The kernel runs on one hart.\<close>

definition cpuid :: uint64 where "cpuid = 0"

section \<open>A state and a platform for witnesses\<close>

text \<open>
  All variables zero, and a platform with a transmitter that is always idle and that
  appends each byte written to it to the extension of the state.
\<close>

definition kernel_zero :: kernel where
  "kernel_zero =
     \<lparr>mem = (\<lambda>_. 0), sstatus = 0, space = replicate 16 0, block_list_head = 0, block_list_tail = 0,
      panicked = 0, uart_tx_buf = replicate 32 0, uart_tx_w = 0, uart_tx_r = 0, kernel_pagetable = 0,
      next_pid = 1, stack_to_remove = 0, stack_to_remove_next = 0, running_task = 0, init_task = 0,
      runnable_tasks = 0, all_tasks = 0, sip = 0, sie = 0, sepc = 0, stvec = 0, satp = 0, scause = 0,
      stval = 0, mstatus = 0, mie = 0, mepc = 0, medeleg = 0, mideleg = 0, mtvec = 0, mscratch = 0,
      pmpcfg0 = 0, pmpaddr0 = 0\<rparr>"

definition sink_platform :: "byte list kernel_scheme platform" where
  "sink_platform =
     \<lparr>mmio_read8 = (\<lambda>_. return 0x20), mmio_write8 = (\<lambda>_ c. modify (kernel.more_update (\<lambda>cs. cs @ [c]))),
      mmio_read32 = (\<lambda>_. return 0), mmio_write32 = (\<lambda>_ _. return ()),
      mmio_read64 = (\<lambda>_. return 0), mmio_write64 = (\<lambda>_ _. return ()),
      switch_context = (\<lambda>_ _. return ()), enter_user = (\<lambda>_ _. return ()), wfi = return (), mret = return (),
      literal = (\<lambda>_. 64), trampoline = 0x80000000, user_vector = 0x80000000, user_return = 0x80000100,
      kernel_vector = 0x80002000, timer_vector = 0x80002100, user_trap_entry = 0x80003000,
      user_trap_return_entry = 0x80003100, main_entry = 0x80003200, etext = 0x80005000, kernel_end = 0x80011000,
      init_program = 0x80006000, sh_program = 0x80007000, echo_program = 0x80008000, now_context = 0x80009000,
      boot_pagetable = 0x8000a000, timer_scratch = 0x8000b000\<rparr>"

definition sink_state :: "memory \<Rightarrow> byte list kernel_scheme" where
  "sink_state m = kernel.extend (kernel_zero\<lparr>mem := m\<rparr>) []"

lemma sink_state_simps [simp]:
  "mem (sink_state m) = m" "panicked (sink_state m) = 0" "uart_tx_w (sink_state m) = 0" "uart_tx_r (sink_state m) = 0"
  "uart_tx_buf (sink_state m) = replicate 32 0" "kernel.more (sink_state m) = []"
  by (simp_all add: sink_state_def kernel_zero_def kernel.extend_def)

end
