(* ===== verification/Console.thy ===== *)
theory Console
  imports Platform
begin

text \<open>
  The serial console: the 16550 driver of \<open>kernel/uart.c\<close>, the printing routines of
  \<open>kernel/print.c\<close> and \<open>kernel/panic.c\<close>. The locks of \<open>kernel/spinlock.h\<close> are empty functions.
\<close>

section \<open>The UART driver\<close>

definition RHR :: uint64 where "RHR = 0"
definition THR :: uint64 where "THR = 0"
definition IER :: uint64 where "IER = 1"
definition IER_RX_ENABLE :: byte where "IER_RX_ENABLE = push_bit 0 1"
definition IER_TX_ENABLE :: byte where "IER_TX_ENABLE = push_bit 1 1"
definition FCR :: uint64 where "FCR = 2"
definition FCR_FIFO_ENABLE :: byte where "FCR_FIFO_ENABLE = push_bit 0 1"
definition FCR_FIFO_CLEAR :: byte where "FCR_FIFO_CLEAR = push_bit 1 3"
definition LCR :: uint64 where "LCR = 3"
definition LCR_EIGHT_BITS :: byte where "LCR_EIGHT_BITS = push_bit 0 3"
definition LCR_BAUD_LATCH :: byte where "LCR_BAUD_LATCH = push_bit 7 1"
definition LSR :: uint64 where "LSR = 5"
definition LSR_TX_IDLE :: byte where "LSR_TX_IDLE = push_bit 5 1"
definition UART_TX_BUF_SIZE :: uint64 where "UART_TX_BUF_SIZE = 32"

definition ReadReg :: "'z kernel_scheme platform \<Rightarrow> uint64 \<Rightarrow> (byte, 'z kernel_scheme) run" where
  "ReadReg P reg = mmio_read8 P (UART0 + reg)"

definition WriteReg :: "'z kernel_scheme platform \<Rightarrow> uint64 \<Rightarrow> byte \<Rightarrow> (unit, 'z kernel_scheme) run" where
  "WriteReg P reg v = mmio_write8 P (UART0 + reg) v"

text \<open>\<open>for (;;) {}\<close> does not return.\<close>

definition spin :: "('a, 's) run" where
  "spin s = None"

definition uart_init :: "'z kernel_scheme platform \<Rightarrow> (unit, 'z kernel_scheme) run" where
  "uart_init P =
     bind (WriteReg P IER 0) (\<lambda>_.
     bind (WriteReg P LCR LCR_BAUD_LATCH) (\<lambda>_.
     bind (WriteReg P 0 3) (\<lambda>_.
     bind (WriteReg P 1 0) (\<lambda>_.
     bind (WriteReg P LCR LCR_EIGHT_BITS) (\<lambda>_.
     bind (WriteReg P FCR (FCR_FIFO_ENABLE OR FCR_FIFO_CLEAR)) (\<lambda>_.
     WriteReg P IER (IER_TX_ENABLE OR IER_RX_ENABLE)))))))"

text \<open>
  \<open>uart_start\<close>: send buffered bytes while there are any and the transmitter is idle. The
  index into the 32-byte buffer is the counter modulo 32.
\<close>

partial_function (option) uart_start ::
  "'z kernel_scheme platform \<Rightarrow> 'z kernel_scheme \<Rightarrow> (fault + unit \<times> 'z kernel_scheme) option" where
  "uart_start P s =
     bind (gets (\<lambda>s. (uart_tx_w s, uart_tx_r s))) (\<lambda>wr.
     if fst wr = snd wr then return ()
     else
       bind (ReadReg P LSR) (\<lambda>lsr.
       if lsr AND LSR_TX_IDLE = 0 then return ()
       else
         bind (gets (\<lambda>s. uart_tx_buf s ! unat (uart_tx_r s mod UART_TX_BUF_SIZE))) (\<lambda>c.
         bind (modify (\<lambda>s. s\<lparr>uart_tx_r := uart_tx_r s + 1\<rparr>)) (\<lambda>_.
         bind (WriteReg P THR c) (\<lambda>_.
         uart_start P))))) s"

text \<open>\<open>uart_putc\<close>; with a full buffer it waits for space that only an interrupt can make.\<close>

definition uart_putc :: "'z kernel_scheme platform \<Rightarrow> byte \<Rightarrow> (unit, 'z kernel_scheme) run" where
  "uart_putc P c =
     bind (gets panicked) (\<lambda>p.
     if p \<noteq> 0 then spin
     else
       bind (gets (\<lambda>s. uart_tx_w s = uart_tx_r s + UART_TX_BUF_SIZE)) (\<lambda>full.
       if full then spin
       else
         bind (modify (\<lambda>s. s\<lparr>uart_tx_buf := (uart_tx_buf s)[unat (uart_tx_w s mod UART_TX_BUF_SIZE) := c]\<rparr>)) (\<lambda>_.
         bind (modify (\<lambda>s. s\<lparr>uart_tx_w := uart_tx_w s + 1\<rparr>)) (\<lambda>_.
         uart_start P))))"

text \<open>\<open>while ((ReadReg(LSR) & LSR_TX_IDLE) == 0) {}\<close>\<close>

partial_function (option) wait_tx_idle ::
  "'z kernel_scheme platform \<Rightarrow> 'z kernel_scheme \<Rightarrow> (fault + unit \<times> 'z kernel_scheme) option" where
  "wait_tx_idle P s =
     bind (ReadReg P LSR) (\<lambda>lsr.
     if lsr AND LSR_TX_IDLE = 0 then wait_tx_idle P else return ()) s"

definition uart_putc_sync :: "'z kernel_scheme platform \<Rightarrow> byte \<Rightarrow> (unit, 'z kernel_scheme) run" where
  "uart_putc_sync P c =
     bind (gets panicked) (\<lambda>p.
     if p \<noteq> 0 then spin
     else bind (wait_tx_idle P) (\<lambda>_. WriteReg P THR c))"

definition uart_getc :: "'z kernel_scheme platform \<Rightarrow> (int, 'z kernel_scheme) run" where
  "uart_getc P =
     bind (ReadReg P LSR) (\<lambda>lsr.
     if lsr AND 1 \<noteq> 0 then bind (ReadReg P RHR) (\<lambda>c. return (uint c))
     else return (-1))"

partial_function (option) drain_input ::
  "'z kernel_scheme platform \<Rightarrow> 'z kernel_scheme \<Rightarrow> (fault + unit \<times> 'z kernel_scheme) option" where
  "drain_input P s =
     bind (uart_getc P) (\<lambda>c. if c = -1 then return () else drain_input P) s"

definition uart_intr :: "'z kernel_scheme platform \<Rightarrow> (unit, 'z kernel_scheme) run" where
  "uart_intr P = bind (drain_input P) (\<lambda>_. uart_start P)"

section \<open>Printing\<close>

definition print_char :: "'z kernel_scheme platform \<Rightarrow> byte \<Rightarrow> (unit, 'z kernel_scheme) run" where
  "print_char P c = uart_putc_sync P c"

partial_function (option) print_string_loop ::
  "'z kernel_scheme platform \<Rightarrow> addr \<Rightarrow> 'z kernel_scheme \<Rightarrow> (fault + unit \<times> 'z kernel_scheme) option" where
  "print_string_loop P str s =
     bind (read8 str) (\<lambda>c.
     if c \<noteq> 0 then bind (uart_putc_sync P c) (\<lambda>_. print_string_loop P (str + 1))
     else return ()) s"

definition print_string :: "'z kernel_scheme platform \<Rightarrow> addr \<Rightarrow> (unit, 'z kernel_scheme) run" where
  "print_string P str = (if str = 0 then raise NullDeref else print_string_loop P str)"

lemma unat_div_less: "10 \<le> x \<Longrightarrow> unat (x div 10) < unat x" "16 \<le> x \<Longrightarrow> unat (x div 16) < unat x"
  "8 \<le> x \<Longrightarrow> unat (x div 8) < unat x" for x :: uint64
  by (simp_all add: word_le_nat_alt unat_div_distrib)

text \<open>\<open>'0'\<close> is 48, \<open>'a'\<close> is 97.\<close>

function print_int_dec :: "'z kernel_scheme platform \<Rightarrow> uint64 \<Rightarrow> (unit, 'z kernel_scheme) run" where
  "print_int_dec P x =
     (if x = 0 then uart_putc_sync P 48
      else
        bind (if x \<ge> 10 then print_int_dec P (x div 10) else return ()) (\<lambda>_.
        uart_putc_sync P (48 + ucast (x mod 10))))"
  by pat_completeness auto
termination by (relation "measure (\<lambda>(P, x). unat x)") (simp_all add: unat_div_less)

function print_int_hex_without_header :: "'z kernel_scheme platform \<Rightarrow> uint64 \<Rightarrow> (unit, 'z kernel_scheme) run" where
  "print_int_hex_without_header P x =
     (if x = 0 then uart_putc_sync P 48
      else
        bind (if x \<ge> 16 then print_int_hex_without_header P (x div 16) else return ()) (\<lambda>_.
        let digit = x mod 16 in
        if digit < 10 then uart_putc_sync P (48 + ucast digit)
        else uart_putc_sync P (97 + ucast digit - 10)))"
  by pat_completeness auto
termination by (relation "measure (\<lambda>(P, x). unat x)") (simp_all add: unat_div_less)

declare print_int_dec.simps [simp del] print_int_hex_without_header.simps [simp del]

text \<open>The call \<open>print_int(base, 10)\<close> of the default branch is the branch for base 10.\<close>

definition print_int :: "'z kernel_scheme platform \<Rightarrow> uint64 \<Rightarrow> int \<Rightarrow> (unit, 'z kernel_scheme) run" where
  "print_int P x base =
     (if base = 10 then print_int_dec P x
      else if base = 16 then
        bind (uart_putc_sync P 48) (\<lambda>_.
        bind (uart_putc_sync P 120) (\<lambda>_.
        print_int_hex_without_header P x))
      else
        bind (print_string P (literal P ''print_int: unsupported base: '')) (\<lambda>_.
        print_int_dec P (of_int base)))"

text \<open>\<open>panic\<close> prints its message and spins. The other components model a call of it by the fault \<open>Panic\<close>.\<close>

definition panic :: "'z kernel_scheme platform \<Rightarrow> addr \<Rightarrow> (unit, 'z kernel_scheme) run" where
  "panic P msg =
     bind interrupt_off (\<lambda>_.
     bind (print_string P (literal P ''panic: '')) (\<lambda>_.
     bind (print_string P msg) (\<lambda>_.
     bind (print_string P (literal P ''\<newline>'')) (\<lambda>_.
     spin))))"

lemmas [code] = uart_start.simps wait_tx_idle.simps drain_input.simps print_string_loop.simps

section \<open>A working serial line\<close>

text \<open>
  \<open>kernel_same s s'\<close>: the kernel's variables, memory and registers are the same, only the
  state of the surroundings may differ.
\<close>

definition kernel_same :: "'z kernel_scheme \<Rightarrow> 'z kernel_scheme \<Rightarrow> bool" where
  "kernel_same s s' \<longleftrightarrow> kernel.truncate s' = kernel.truncate s"

lemma kernel_same_refl [simp]: "kernel_same s s"
  by (simp add: kernel_same_def)

lemma kernel_same_trans: "kernel_same s t \<Longrightarrow> kernel_same t u \<Longrightarrow> kernel_same s u"
  by (simp add: kernel_same_def)

lemma kernel_sameD:
  assumes "kernel_same s s'"
  shows "mem s' = mem s" "panicked s' = panicked s" "uart_tx_buf s' = uart_tx_buf s" "uart_tx_w s' = uart_tx_w s"
    "uart_tx_r s' = uart_tx_r s" "sstatus s' = sstatus s"
  using assms by (simp_all add: kernel_same_def kernel.truncate_def)

text \<open>
  The transmitter reports idle after some number of polls, and a byte written to it when it
  is idle goes out: \<open>out\<close> gives the bytes sent so far.
\<close>

inductive polls :: "'z kernel_scheme platform \<Rightarrow> 'z kernel_scheme \<Rightarrow> 'z kernel_scheme \<Rightarrow> bool" for P where
  idle: "ReadReg P LSR s = Ok lsr s' \<Longrightarrow> lsr AND LSR_TX_IDLE \<noteq> 0 \<Longrightarrow> polls P s s'"
| busy: "ReadReg P LSR s = Ok lsr t \<Longrightarrow> lsr AND LSR_TX_IDLE = 0 \<Longrightarrow> polls P t s' \<Longrightarrow> polls P s s'"

definition serial_line :: "'z kernel_scheme platform \<Rightarrow> ('z kernel_scheme \<Rightarrow> byte list) \<Rightarrow> bool" where
  "serial_line P out \<longleftrightarrow>
     (\<forall>s. \<exists>s'. polls P s s' \<and> kernel_same s s' \<and> out s' = out s) \<and>
     (\<forall>s c. \<exists>s'. WriteReg P THR c s = Ok () s' \<and> kernel_same s s' \<and> out s' = out s @ [c])"

lemma wait_tx_idle_polls: "polls P s s' \<Longrightarrow> wait_tx_idle P s = Ok () s'"
proof (induction rule: polls.induct)
  case (idle s lsr s')
  then show ?case by (subst wait_tx_idle.simps) (simp add: bind_Ok return_def)
next
  case (busy s lsr t s')
  then show ?case by (subst wait_tx_idle.simps) (simp add: bind_Ok)
qed

text \<open>What a printing routine does: it sends the bytes \<open>cs\<close> and returns.\<close>

definition sends :: "('z kernel_scheme \<Rightarrow> byte list) \<Rightarrow> (unit, 'z kernel_scheme) run \<Rightarrow> byte list \<Rightarrow> 'z kernel_scheme \<Rightarrow> bool" where
  "sends out m cs s \<longleftrightarrow> (\<exists>s'. m s = Ok () s' \<and> kernel_same s s' \<and> out s' = out s @ cs)"

lemma sends_bind:
  assumes "sends out m as s" and "\<And>s'. kernel_same s s' \<Longrightarrow> sends out k bs s'"
  shows "sends out (bind m (\<lambda>_. k)) (as @ bs) s"
proof -
  obtain t where t: "m s = Ok () t" "kernel_same s t" "out t = out s @ as" using assms(1) by (auto simp: sends_def)
  from assms(2) [OF t(2)] obtain u where u: "k t = Ok () u" "kernel_same t u" "out u = out t @ bs" by (auto simp: sends_def)
  have "bind m (\<lambda>_. k) s = Ok () u" using t(1) u(1) by (simp add: bind_Ok)
  with t u kernel_same_trans show ?thesis by (force simp: sends_def)
qed

lemma sends_return: "sends out (return ()) [] s"
  by (simp add: sends_def return_def)

lemma sends_putc:
  assumes "serial_line P out" and "panicked s = 0"
  shows "sends out (uart_putc_sync P c) [c] s"
proof -
  obtain t where t: "polls P s t" "kernel_same s t" "out t = out s" using assms(1) by (force simp: serial_line_def)
  obtain u where u: "WriteReg P THR c t = Ok () u" "kernel_same t u" "out u = out t @ [c]"
    using assms(1) by (force simp: serial_line_def)
  have "bind (wait_tx_idle P) k s = k () t" for k :: "unit \<Rightarrow> (unit, 'a kernel_scheme) run"
    using wait_tx_idle_polls [OF t(1)] by (rule bind_Ok)
  then have "uart_putc_sync P c s = Ok () u" using assms(2) u(1) by (simp add: uart_putc_sync_def run_simps)
  with t u kernel_same_trans show ?thesis by (force simp: sends_def)
qed

lemma sends_string_loop:
  assumes "serial_line P out"
  shows "panicked s = 0 \<Longrightarrow> cstring (mem s) p cs \<Longrightarrow> sends out (print_string_loop P p) cs s"
proof (induction cs arbitrary: p s)
  case Nil
  then show ?case by (simp add: sends_def print_string_loop.simps [of P p] run_simps)
next
  case (Cons c cs)
  have "sends out (bind (uart_putc_sync P c) (\<lambda>_. print_string_loop P (p + 1))) ([c] @ cs) s"
  proof (rule sends_bind)
    show "sends out (uart_putc_sync P c) [c] s" using assms Cons.prems(1) by (rule sends_putc)
    show "sends out (print_string_loop P (p + 1)) cs s'" if "kernel_same s s'" for s'
      using Cons.IH [of s' "p + 1"] Cons.prems kernel_sameD [OF that] by simp
  qed
  with Cons.prems show ?case by (simp add: sends_def print_string_loop.simps [of P p] run_simps)
qed

text \<open>Positional notation, most significant digit first.\<close>

definition digits_value :: "nat \<Rightarrow> nat list \<Rightarrow> nat" where
  "digits_value b ds = foldl (\<lambda>v d. v * b + d) 0 ds"

lemma digits_value_snoc [simp]: "digits_value b (ds @ [d]) = digits_value b ds * b + d"
  by (simp add: digits_value_def)

lemma digits_value_single [simp]: "digits_value b [d] = d"
  by (simp add: digits_value_def)

text \<open>A number without superfluous leading zeros.\<close>

definition numeral_of :: "nat \<Rightarrow> nat \<Rightarrow> nat list \<Rightarrow> bool" where
  "numeral_of b n ds \<longleftrightarrow> digits_value b ds = n \<and> ds \<noteq> [] \<and> (\<forall>d\<in>set ds. d < b) \<and> (n \<noteq> 0 \<longrightarrow> hd ds \<noteq> 0) \<and> (n = 0 \<longrightarrow> ds = [0])"

lemma numeral_of_zero: "0 < b \<Longrightarrow> numeral_of b 0 [0]"
  by (simp add: numeral_of_def)

lemma numeral_of_digit: "0 < n \<Longrightarrow> n < b \<Longrightarrow> numeral_of b n [n]"
  by (simp add: numeral_of_def)

lemma numeral_of_step:
  assumes "numeral_of b (n div b) ds" and "b \<le> n" and "0 < b"
  shows "numeral_of b n (ds @ [n mod b])"
proof -
  have "0 < n div b" using assms(2,3) by (simp add: div_greater_zero_iff)
  moreover have "0 < n" using assms(2,3) by simp
  ultimately show ?thesis using assms by (auto simp: numeral_of_def)
qed

definition digit_char :: "nat \<Rightarrow> byte" where
  "digit_char d = (if d < 10 then 48 + of_nat d else 87 + of_nat d)"

lemma ucast_of_nat: "ucast x = (of_nat (unat x) :: byte)" for x :: uint64
  by (simp add: unsigned_ucast_eq word_of_nat_eq_iff flip: word_unat_eq_iff)

text \<open>
  Both printing routines are instances of one scheme: print the quotient, if there is one,
  then the last digit.
\<close>

lemma sends_positional:
  fixes f :: "uint64 \<Rightarrow> (unit, 'z kernel_scheme) run"
  assumes line: "serial_line P out" and b: "2 \<le> b"
    and f: "\<And>x. f x = (if x = 0 then uart_putc_sync P 48 else
      bind (if x \<ge> b then f (x div b) else return ()) (\<lambda>_. uart_putc_sync P (digit_char (unat x mod unat b))))"
  shows "panicked s = 0 \<Longrightarrow> \<exists>ds. numeral_of (unat b) (unat x) ds \<and> sends out (f x) (map digit_char ds) s"
proof (induction "unat x" arbitrary: x s rule: less_induct)
  case less
  have b2: "2 \<le> unat b" using b by (simp add: word_le_nat_alt)
  consider "x = 0" | "x \<noteq> 0" "x < b" | "b \<le> x" "x \<noteq> 0" by (metis not_less)
  then show ?case
  proof cases
    case 1
    then show ?thesis
      using sends_putc [OF line less.prems, of 48] numeral_of_zero [of "unat b"] b2 f [of 0]
      by (intro exI [of _ "[0]"]) (simp add: digit_char_def)
  next
    case 2
    then have "unat x < unat b" "0 < unat x" "\<not> b \<le> x" by (simp_all add: word_less_nat_alt unat_gt_0 not_le)
    with 2 sends_putc [OF line less.prems] numeral_of_digit [of "unat x" "unat b"] f [of x] show ?thesis
      by (intro exI [of _ "[unat x]"]) simp
  next
    case 3
    have div: "unat (x div b) = unat x div unat b" by (rule unat_div_distrib)
    then have "unat (x div b) < unat x" using 3 b2 by (simp add: unat_gt_0)
    from less.hyps [OF this less.prems] obtain ds where ds: "numeral_of (unat b) (unat x div unat b) ds"
      "sends out (f (x div b)) (map digit_char ds) s" unfolding div by blast
    let ?d = "unat x mod unat b"
    have "sends out (bind (f (x div b)) (\<lambda>_. uart_putc_sync P (digit_char ?d))) (map digit_char ds @ [digit_char ?d]) s"
      using ds(2) sends_putc [OF line] less.prems by (intro sends_bind) (auto simp: kernel_sameD)
    moreover have "numeral_of (unat b) (unat x) (ds @ [?d])"
      using numeral_of_step [OF ds(1)] 3 b2 by (simp add: word_le_nat_alt)
    ultimately show ?thesis using 3 f [of x] by (intro exI [of _ "ds @ [?d]"]) simp
  qed
qed

lemma dec_scheme:
  "print_int_dec P x = (if x = 0 then uart_putc_sync P 48 else
     bind (if x \<ge> 10 then print_int_dec P (x div 10) else return ()) (\<lambda>_. uart_putc_sync P (digit_char (unat x mod unat (10 :: uint64)))))"
proof -
  have "48 + ucast (x mod 10) = digit_char (unat x mod unat (10 :: uint64))"
    unfolding ucast_of_nat unat_mod_distrib by (simp add: digit_char_def)
  then show ?thesis by (simp only: print_int_dec.simps [of P x])
qed

lemma hex_scheme:
  "print_int_hex_without_header P x = (if x = 0 then uart_putc_sync P 48 else
     bind (if x \<ge> 16 then print_int_hex_without_header P (x div 16) else return ())
       (\<lambda>_. uart_putc_sync P (digit_char (unat x mod unat (16 :: uint64)))))"
proof -
  have u: "unat (x mod 16) = unat x mod 16" by (simp add: unat_mod_distrib)
  then have "(if x mod 16 < 10 then uart_putc_sync P (48 + ucast (x mod 16)) else uart_putc_sync P (97 + ucast (x mod 16) - 10)) =
      uart_putc_sync P (digit_char (unat x mod unat (16 :: uint64)))"
    unfolding ucast_of_nat by (simp add: digit_char_def word_less_nat_alt)
  then show ?thesis by (simp only: print_int_hex_without_header.simps [of P x] Let_def)
qed

lemmas sends_dec = sends_positional [of P out 10 "print_int_dec P" for P out, OF _ _ dec_scheme, simplified]
lemmas sends_hex = sends_positional [of P out 16 "print_int_hex_without_header P" for P out, OF _ _ hex_scheme, simplified]

section \<open>The transmit buffer as a queue\<close>

text \<open>
  The bytes waiting in the buffer, oldest first. The counters may wrap around; their
  difference is the number of bytes.
\<close>

definition pending :: "'z kernel_scheme \<Rightarrow> byte list" where
  "pending s = map (\<lambda>i. uart_tx_buf s ! ((unat (uart_tx_r s) + i) mod 32)) [0..<unat (uart_tx_w s - uart_tx_r s)]"

definition tx_inv :: "'z kernel_scheme \<Rightarrow> bool" where
  "tx_inv s \<longleftrightarrow> length (uart_tx_buf s) = 32 \<and> uart_tx_w s - uart_tx_r s \<le> 32"

lemma mod_32_wrap: "unat (a + b) mod 32 = (unat a + unat b) mod 32" for a b :: uint64
  by (simp add: unat_word_ariths mod_mod_cancel)

lemma unat_mod_size: "unat (a mod UART_TX_BUF_SIZE) = unat a mod 32"
  by (simp add: UART_TX_BUF_SIZE_def unat_mod_distrib)

lemma pending_snoc:
  assumes "tx_inv s" and "uart_tx_w s \<noteq> uart_tx_r s + UART_TX_BUF_SIZE"
  shows "pending (s\<lparr>uart_tx_buf := (uart_tx_buf s)[unat (uart_tx_w s mod UART_TX_BUF_SIZE) := c], uart_tx_w := uart_tx_w s + 1\<rparr>) = pending s @ [c]"
    and "tx_inv (s\<lparr>uart_tx_buf := (uart_tx_buf s)[unat (uart_tx_w s mod UART_TX_BUF_SIZE) := c], uart_tx_w := uart_tx_w s + 1\<rparr>)"
proof -
  let ?w = "uart_tx_w s" and ?r = "uart_tx_r s"
  define d where "d = ?w - ?r"
  have w: "?w = ?r + d" by (simp add: d_def)
  have "d \<le> 32" using assms(1) by (simp add: tx_inv_def d_def)
  moreover have "d \<noteq> 32" using assms(2) unfolding w UART_TX_BUF_SIZE_def by simp
  ultimately have d: "unat d < 32" by (auto simp: word_le_nat_alt word_unat_eq_iff)
  have d1: "unat (d + 1) = unat d + 1" using d by (subst unat_add_no_overflow) simp_all
  have diff: "?w + 1 - ?r = d + 1" by (simp add: d_def)
  have pos: "unat (?w mod UART_TX_BUF_SIZE) = (unat ?r + unat d) mod 32" unfolding unat_mod_size w mod_32_wrap ..
  have ne: "(unat ?r + i) mod 32 \<noteq> (unat ?r + unat d) mod 32" if "i < unat d" for i
  proof
    assume "(unat ?r + i) mod 32 = (unat ?r + unat d) mod 32"
    then have "32 dvd unat d - i" using that mod_eq_dvd_iff_nat [of "unat ?r + i" "unat ?r + unat d" 32] by simp
    with that d show False by (auto dest: dvd_imp_le)
  qed
  have upd: "(uart_tx_buf s)[(unat ?r + unat d) mod 32 := c] ! ((unat ?r + i) mod 32) = uart_tx_buf s ! ((unat ?r + i) mod 32)"
    if "i < unat d" for i using ne [OF that] by (intro nth_list_update_neq) simp
  have len: "(unat ?r + unat d) mod 32 < length (uart_tx_buf s)" using assms(1) by (simp add: tx_inv_def)
  show "pending (s\<lparr>uart_tx_buf := (uart_tx_buf s)[unat (?w mod UART_TX_BUF_SIZE) := c], uart_tx_w := ?w + 1\<rparr>) = pending s @ [c]"
    using len upd unfolding pos by (simp add: pending_def diff d1 flip: d_def)
  show "tx_inv (s\<lparr>uart_tx_buf := (uart_tx_buf s)[unat (?w mod UART_TX_BUF_SIZE) := c], uart_tx_w := ?w + 1\<rparr>)"
    using assms(1) d d1 by (simp add: tx_inv_def diff word_le_nat_alt)
qed

lemma pending_cons:
  assumes "tx_inv s" and "uart_tx_w s \<noteq> uart_tx_r s"
  shows "pending s = uart_tx_buf s ! unat (uart_tx_r s mod UART_TX_BUF_SIZE) # pending (s\<lparr>uart_tx_r := uart_tx_r s + 1\<rparr>)"
    and "tx_inv (s\<lparr>uart_tx_r := uart_tx_r s + 1\<rparr>)"
    and "unat (uart_tx_w s - (uart_tx_r s + 1)) < unat (uart_tx_w s - uart_tx_r s)"
proof -
  let ?w = "uart_tx_w s" and ?r = "uart_tx_r s"
  define d where "d = ?w - ?r"
  have "d \<noteq> 0" using assms(2) by (simp add: d_def)
  then have d0: "0 < unat d" by (simp add: unat_gt_0)
  have e: "?w - (?r + 1) = d - 1" by (simp add: d_def)
  have d1: "unat (d - 1) = unat d - 1" using d0 by (simp add: unat_diff_64)
  show "unat (?w - (?r + 1)) < unat (?w - ?r)" unfolding e d1 using d0 by (simp flip: d_def)
  have "unat d \<le> 32" using assms(1) by (simp add: tx_inv_def word_le_nat_alt d_def)
  then have "unat (?w - (?r + 1)) \<le> 32" unfolding e d1 by simp
  then show "tx_inv (s\<lparr>uart_tx_r := ?r + 1\<rparr>)"
    using assms(1) by (simp add: tx_inv_def word_le_nat_alt)
  have m: "(unat (?r + 1) + i) mod 32 = (unat ?r + Suc i) mod 32" for i
  proof -
    have "(unat (?r + 1) + i) mod 32 = (unat (?r + 1) mod 32 + i) mod 32" by (simp only: mod_add_left_eq)
    also have "\<dots> = ((unat ?r + 1) mod 32 + i) mod 32" using mod_32_wrap [of ?r 1] by (simp only: unat_1)
    also have "\<dots> = (unat ?r + Suc i) mod 32" unfolding mod_add_left_eq by simp
    finally show ?thesis .
  qed
  have "[0..<unat d] = 0 # map Suc [0..<unat d - 1]" using d0 by (simp add: upt_conv_Cons map_Suc_upt)
  then show "pending s = uart_tx_buf s ! unat (?r mod UART_TX_BUF_SIZE) # pending (s\<lparr>uart_tx_r := ?r + 1\<rparr>)"
    by (simp add: pending_def e d1 m unat_mod_size o_def flip: d_def)
qed

text \<open>A device whose status can always be read and that takes every byte written to it.\<close>

definition uart_device :: "'z kernel_scheme platform \<Rightarrow> ('z kernel_scheme \<Rightarrow> byte list) \<Rightarrow> bool" where
  "uart_device P out \<longleftrightarrow>
     (\<forall>s. \<exists>lsr s'. ReadReg P LSR s = Ok lsr s' \<and> kernel_same s s' \<and> out s' = out s) \<and>
     (\<forall>s c. \<exists>s'. WriteReg P THR c s = Ok () s' \<and> kernel_same s s' \<and> out s' = out s @ [c]) \<and>
     (\<forall>s r. out (s\<lparr>uart_tx_r := r\<rparr>) = out s)"

lemma pending_same: "kernel_same s s' \<Longrightarrow> pending s' = pending s \<and> (tx_inv s' \<longleftrightarrow> tx_inv s)"
  by (simp add: pending_def tx_inv_def kernel_sameD)

lemma uart_start_ok:
  assumes dev: "uart_device P out"
  shows "tx_inv s \<Longrightarrow> \<exists>k s'. uart_start P s = Ok () s' \<and> tx_inv s' \<and> out s' = out s @ take k (pending s) \<and>
    pending s' = drop k (pending s) \<and> mem s' = mem s"
proof (induction "unat (uart_tx_w s - uart_tx_r s)" arbitrary: s rule: less_induct)
  case less
  show ?case
  proof (cases "uart_tx_w s = uart_tx_r s")
    case True
    then have "uart_start P s = Ok () s" by (subst uart_start.simps) (simp add: run_simps)
    with less.prems show ?thesis by (intro exI [of _ 0] exI [of _ s]) simp
  next
    case ne: False
    obtain lsr t where t: "ReadReg P LSR s = Ok lsr t" "kernel_same s t" "out t = out s"
      using dev by (force simp: uart_device_def)
    have rd: "bind (ReadReg P LSR) k s = k lsr t" for k :: "byte \<Rightarrow> (unit, 'a kernel_scheme) run"
      using t(1) by (rule bind_Ok)
    note same = kernel_sameD [OF t(2)] pending_same [OF t(2)]
    show ?thesis
    proof (cases "lsr AND LSR_TX_IDLE = 0")
      case True
      then have "uart_start P s = Ok () t" using ne by (subst uart_start.simps) (simp add: run_simps rd)
      with less.prems same t(3) show ?thesis by (intro exI [of _ 0] exI [of _ t]) simp
    next
      case False
      let ?c = "uart_tx_buf t ! unat (uart_tx_r t mod UART_TX_BUF_SIZE)"
      let ?t = "t\<lparr>uart_tx_r := uart_tx_r t + 1\<rparr>"
      have inv: "tx_inv t" "uart_tx_w t \<noteq> uart_tx_r t" using less.prems ne same by simp_all
      note step = pending_cons [OF this]
      obtain u where u: "WriteReg P THR ?c ?t = Ok () u" "kernel_same ?t u" "out u = out t @ [?c]"
        using dev by (force simp: uart_device_def)
      have wr: "bind (WriteReg P THR ?c) k ?t = k () u" for k :: "unit \<Rightarrow> (unit, 'a kernel_scheme) run"
        using u(1) by (rule bind_Ok)
      note su = kernel_sameD [OF u(2)] pending_same [OF u(2)]
      have "unat (uart_tx_w u - uart_tx_r u) < unat (uart_tx_w s - uart_tx_r s)" using step(3) su same by simp
      moreover have "tx_inv u" using su step(2) by simp
      ultimately obtain k s' where s': "uart_start P u = Ok () s'" "tx_inv s'" "out s' = out u @ take k (pending u)"
          "pending s' = drop k (pending u)" "mem s' = mem u" using less.hyps [of u] by blast
      have "uart_start P s = Ok () s'"
        using ne False s'(1) by (subst uart_start.simps) (simp add: run_simps rd wr)
      moreover have "pending s = ?c # pending u" using step(1) su same by simp
      ultimately show ?thesis
        using s' u(3) t(3) su same by (intro exI [of _ "Suc k"] exI [of _ s']) simp
    qed
  qed
qed

section \<open>Properties\<close>

lemma sink_write: "kernel_same s (kernel.more_update f s)"
  by (cases s) (simp add: kernel_same_def kernel.truncate_def)

lemma sink_line: "serial_line sink_platform kernel.more" "uart_device sink_platform kernel.more"
proof -
  have rd: "ReadReg sink_platform LSR s = Ok 0x20 s" for s
    by (simp add: ReadReg_def sink_platform_def return_def)
  have wr: "WriteReg sink_platform THR c s = Ok () (kernel.more_update (\<lambda>cs. cs @ [c]) s)" for s c
    by (simp add: WriteReg_def sink_platform_def modify_def)
  have idle: "(0x20 :: byte) AND LSR_TX_IDLE \<noteq> 0" by (simp add: LSR_TX_IDLE_def)
  have w: "\<exists>s'. WriteReg sink_platform THR c s = Ok () s' \<and> kernel_same s s' \<and> kernel.more s' = kernel.more s @ [c]" for s c
    by (simp add: wr sink_write)
  have "polls sink_platform s s" for s using rd idle by (rule polls.idle)
  then have "\<exists>s'. polls sink_platform s s' \<and> kernel_same s s' \<and> kernel.more s' = kernel.more s" for s
    using kernel_same_refl by blast
  with w show "serial_line sink_platform kernel.more" by (simp add: serial_line_def)
  show "uart_device sink_platform kernel.more"
    using w by (simp add: uart_device_def rd)
qed

text \<open>
  On a working serial line \<open>print_string\<close> returns and sends exactly the bytes of the
  NUL-terminated string; the kernel state is as before.
\<close>

theorem print_string_output:
  assumes "serial_line P out" and "panicked s = 0" and "cstring (mem s) p cs" and "p \<noteq> 0"
  shows "\<exists>s'. print_string P p s = Ok () s' \<and> out s' = out s @ cs \<and> kernel_same s s'"
  using sends_string_loop [OF assms(1-3)] assms(4) by (auto simp: sends_def print_string_def)

theorem print_string_output_witness:
  "\<exists>s'. print_string sink_platform 64 (sink_state string_memory) = Ok () s' \<and> kernel.more s' = [47, 115, 104]"
proof -
  have "cstring (mem (sink_state string_memory)) 64 [47, 115, 104]" by (simp add: string_memory_def)
  from print_string_output [OF sink_line(1) _ this] show ?thesis by auto
qed

text \<open>
  C17. \<open>print_int\<close> terminates and prints a numeral of the number: in base 10 its decimal digits,
  in base 16 the prefix \<open>0x\<close> and its hexadecimal digits in lower case, the most significant
  digit first, without leading zeros, and \<open>0\<close> for zero.
\<close>

theorem print_int_output:
  assumes "serial_line P out" and "panicked s = 0" and "base = 10 \<or> base = 16"
  shows "\<exists>ds s'. print_int P x base s = Ok () s' \<and> numeral_of (nat base) (unat x) ds \<and>
    out s' = out s @ (if base = 16 then [48, 120] else []) @ map digit_char ds \<and> kernel_same s s'"
proof (cases "base = 10")
  case True
  with sends_dec [OF assms(1,2), of x] show ?thesis by (auto simp: sends_def print_int_def)
next
  case False
  with assms(3) have b: "base = 16" by simp
  have "\<exists>ds. numeral_of 16 (unat x) ds \<and> sends out (print_int P x 16) ([48] @ [120] @ map digit_char ds) s"
  proof -
    obtain t where t: "uart_putc_sync P 48 s = Ok () t" "kernel_same s t" "out t = out s @ [48]"
      using sends_putc [OF assms(1,2)] by (auto simp: sends_def)
    then have "panicked t = 0" using assms(2) by (simp add: kernel_sameD)
    from sends_putc [OF assms(1) this] obtain u where
      u: "uart_putc_sync P 120 t = Ok () u" "kernel_same t u" "out u = out t @ [120]" by (auto simp: sends_def)
    then have "panicked u = 0" using \<open>panicked t = 0\<close> by (simp add: kernel_sameD)
    from sends_hex [OF assms(1) this] obtain ds where
      ds: "numeral_of 16 (unat x) ds" "sends out (print_int_hex_without_header P x) (map digit_char ds) u" by blast
    then obtain v where v: "print_int_hex_without_header P x u = Ok () v" "kernel_same u v" "out v = out u @ map digit_char ds"
      by (auto simp: sends_def)
    have "print_int P x 16 s = Ok () v" using t(1) u(1) v(1) by (simp add: print_int_def bind_Ok)
    moreover have "kernel_same s v" using t(2) u(2) v(2) by (blast intro: kernel_same_trans)
    ultimately show ?thesis using ds(1) t(3) u(3) v(3) by (auto simp: sends_def)
  qed
  with b show ?thesis by (auto simp: sends_def)
qed

theorem print_int_output_witness:
  "\<exists>ds s'. print_int sink_platform 0xff 16 (sink_state (\<lambda>_. 0)) = Ok () s' \<and> numeral_of 16 255 ds \<and>
     kernel.more s' = [48, 120] @ map digit_char ds"
  using print_int_output [OF sink_line(1), of "sink_state (\<lambda>_. 0)" 16 "0xff"] by auto



end
