(* ===== verification/Task.thy ===== *)
theory Task
  imports Console
begin

text \<open>
  The task structure of \<open>kernel/process.h\<close> and the routines of \<open>kernel/process.c\<close> that make
  a task and manage its memory, with \<open>copy_all_memory_with_pagetable\<close> of
  \<open>kernel/virtual_memory.c\<close>. Structs are read and written in memory at their C offsets.
\<close>

section \<open>Data layout\<close>

datatype process_state = SLEEPING | RUNNABLE | RUNNING | ZOMBIE | DEAD

primrec state_code :: "process_state \<Rightarrow> 32 word" where
  "state_code SLEEPING = 0"
| "state_code RUNNABLE = 1"
| "state_code RUNNING = 2"
| "state_code ZOMBIE = 3"
| "state_code DEAD = 4"

lemma state_code_inject [simp]: "state_code a = state_code b \<longleftrightarrow> a = b"
  by (cases a; cases b) simp_all

text \<open>\<open>struct context\<close>: fourteen registers; the C code touches the first two.\<close>

definition cx_ra :: uint64 where "cx_ra = 0"
definition cx_sp :: uint64 where "cx_sp = 8"
definition sizeof_context :: uint64 where "sizeof_context = 112"

text \<open>\<open>struct trap_frame\<close>: the fields in the order of the struct, eight bytes each.\<close>

datatype trap_frame_field =
    TF_kernel_satp | TF_kernel_sp | TF_kernel_trap | TF_epc | TF_kernel_hartid
  | TF_ra | TF_sp | TF_gp | TF_tp | TF_t0 | TF_t1 | TF_t2 | TF_s0 | TF_s1
  | TF_a0 | TF_a1 | TF_a2 | TF_a3 | TF_a4 | TF_a5 | TF_a6 | TF_a7
  | TF_s2 | TF_s3 | TF_s4 | TF_s5 | TF_s6 | TF_s7 | TF_s8 | TF_s9 | TF_s10 | TF_s11
  | TF_t3 | TF_t4 | TF_t5 | TF_t6

primrec tf_offset :: "trap_frame_field \<Rightarrow> uint64" where
  "tf_offset TF_kernel_satp = 0" | "tf_offset TF_kernel_sp = 8" | "tf_offset TF_kernel_trap = 16"
| "tf_offset TF_epc = 24" | "tf_offset TF_kernel_hartid = 32" | "tf_offset TF_ra = 40"
| "tf_offset TF_sp = 48" | "tf_offset TF_gp = 56" | "tf_offset TF_tp = 64" | "tf_offset TF_t0 = 72"
| "tf_offset TF_t1 = 80" | "tf_offset TF_t2 = 88" | "tf_offset TF_s0 = 96" | "tf_offset TF_s1 = 104"
| "tf_offset TF_a0 = 112" | "tf_offset TF_a1 = 120" | "tf_offset TF_a2 = 128" | "tf_offset TF_a3 = 136"
| "tf_offset TF_a4 = 144" | "tf_offset TF_a5 = 152" | "tf_offset TF_a6 = 160" | "tf_offset TF_a7 = 168"
| "tf_offset TF_s2 = 176" | "tf_offset TF_s3 = 184" | "tf_offset TF_s4 = 192" | "tf_offset TF_s5 = 200"
| "tf_offset TF_s6 = 208" | "tf_offset TF_s7 = 216" | "tf_offset TF_s8 = 224" | "tf_offset TF_s9 = 232"
| "tf_offset TF_s10 = 240" | "tf_offset TF_s11 = 248" | "tf_offset TF_t3 = 256" | "tf_offset TF_t4 = 264"
| "tf_offset TF_t5 = 272" | "tf_offset TF_t6 = 280"

lemma tf_offset_aligned [simp]: "aligned8 (tf_offset r)"
  by (cases r) (simp_all add: aligned8_def)

lemma tf_offset_inject [simp]: "tf_offset r = tf_offset r' \<longleftrightarrow> r = r'"
  by (cases r; cases r') simp_all

definition sizeof_trap_frame :: uint64 where "sizeof_trap_frame = 288"

text \<open>\<open>struct memory_section\<close>\<close>

definition sec_start :: uint64 where "sec_start = 0"
definition sec_size :: uint64 where "sec_size = 8"
definition sizeof_memory_section :: uint64 where "sizeof_memory_section = 16"

text \<open>\<open>struct task_struct\<close>\<close>

definition ts_state :: uint64 where "ts_state = 0"
definition ts_channel :: uint64 where "ts_channel = 8"
definition ts_pid :: uint64 where "ts_pid = 16"
definition ts_parent :: uint64 where "ts_parent = 24"
definition ts_kernel_stack :: uint64 where "ts_kernel_stack = 32"
definition ts_mem_sections :: uint64 where "ts_mem_sections = 40"
definition ts_stack_permission :: uint64 where "ts_stack_permission = 64"
definition ts_stack_start :: uint64 where "ts_stack_start = 72"
definition ts_stack_size :: uint64 where "ts_stack_size = 80"
definition ts_pagetable :: uint64 where "ts_pagetable = 88"
definition ts_trap_frame :: uint64 where "ts_trap_frame = 96"
definition ts_shared_memory :: uint64 where "ts_shared_memory = 104"
definition ts_context :: uint64 where "ts_context = 112"
definition ts_exit_status :: uint64 where "ts_exit_status = 224"
definition ts_name :: uint64 where "ts_name = 228"
definition sizeof_task_struct :: uint64 where "sizeof_task_struct = 264"

lemmas task_layout = ts_state_def ts_channel_def ts_pid_def ts_parent_def ts_kernel_stack_def
  ts_mem_sections_def ts_stack_permission_def ts_stack_start_def ts_stack_size_def ts_pagetable_def
  ts_trap_frame_def ts_shared_memory_def ts_context_def ts_exit_status_def ts_name_def

text \<open>Accesses through a task pointer: the state, and \<open>task->trap_frame->reg\<close>.\<close>

definition get_state :: "addr \<Rightarrow> (32 word, 'z kernel_scheme) run" where
  "get_state task = get_field32 task ts_state"

definition set_state :: "addr \<Rightarrow> process_state \<Rightarrow> (unit, 'z kernel_scheme) run" where
  "set_state task st = set_field32 task ts_state (state_code st)"

definition get_reg :: "addr \<Rightarrow> trap_frame_field \<Rightarrow> (uint64, 'z kernel_scheme) run" where
  "get_reg task r = bind (get_field task ts_trap_frame) (\<lambda>tf. get_field tf (tf_offset r))"

definition set_reg :: "addr \<Rightarrow> trap_frame_field \<Rightarrow> uint64 \<Rightarrow> (unit, 'z kernel_scheme) run" where
  "set_reg task r v = bind (get_field task ts_trap_frame) (\<lambda>tf. set_field tf (tf_offset r) v)"

section \<open>Freeing a task's memory\<close>

partial_function (option) free_sections ::
  "addr \<Rightarrow> addr \<Rightarrow> 'z kernel_scheme \<Rightarrow> (fault + unit \<times> 'z kernel_scheme) option" where
  "free_sections pagetable node s =
     (if node = 0 then return ()
      else
        bind (get_field node nd_data) (\<lambda>mem_section.
        bind (get_field mem_section sec_start) (\<lambda>start.
        bind (get_field mem_section sec_size) (\<lambda>sz.
        bind (free_memory pagetable start sz) (\<lambda>_.
        bind (kfree mem_section) (\<lambda>_.
        bind (get_field node nd_next) (\<lambda>nxt.
        free_sections pagetable nxt))))))) s"

definition clear_user_memory_space :: "addr \<Rightarrow> (unit, 'z kernel_scheme) run" where
  "clear_user_memory_space task =
     bind (get_field task ts_pagetable) (\<lambda>pagetable.
     bind (get_field task ts_kernel_stack) (\<lambda>stack.
     bind (modify (\<lambda>s. s\<lparr>stack_to_remove_next := stack\<rparr>)) (\<lambda>_.
     bind (get_field task (ts_mem_sections + ls_head)) (\<lambda>node.
     bind (free_sections pagetable node) (\<lambda>_.
     bind (get_field task ts_stack_start) (\<lambda>start.
     bind (get_field task ts_stack_size) (\<lambda>sz.
     bind (free_memory pagetable start sz) (\<lambda>_.
     clear_single_linked_list (task + ts_mem_sections)))))))))"

definition free_user_memory :: "addr \<Rightarrow> (unit, 'z kernel_scheme) run" where
  "free_user_memory task =
     bind (get_field task ts_pagetable) (\<lambda>pagetable.
     bind (get_field task ts_trap_frame) (\<lambda>tf.
     bind (deallocate tf 0) (\<lambda>_.
     bind (get_field task ts_shared_memory) (\<lambda>sh.
     bind (deallocate sh 0) (\<lambda>_.
     bind (clear_user_memory_space task) (\<lambda>_.
     free_pagetable pagetable))))))"

section \<open>Making a task\<close>

definition new_task :: "'z kernel_scheme platform \<Rightarrow> addr \<Rightarrow> addr \<Rightarrow> (addr, 'z kernel_scheme) run" where
  "new_task P name parent =
     bind (kmalloc sizeof_task_struct) (\<lambda>task.
     if task = 0 then return 0
     else
       bind (allocate 0) (\<lambda>a.
       bind (set_field task ts_kernel_stack a) (\<lambda>_.
       bind (set_field task ts_stack_permission (PTE_U OR PTE_R OR PTE_W)) (\<lambda>_.
       bind (init_single_linked_list (task + ts_mem_sections)) (\<lambda>_.
       bind create_void_pagetable (\<lambda>a.
       bind (set_field task ts_pagetable a) (\<lambda>_.
       bind (allocate_for_user 0) (\<lambda>a.
       bind (set_field task ts_trap_frame a) (\<lambda>_.
       bind (allocate_for_user 0) (\<lambda>shared_memory.
       bind (do_memset (task + ts_context) 0 sizeof_context) (\<lambda>_.
       bind (get_field task ts_kernel_stack) (\<lambda>kernel_stack.
       bind (get_field task ts_pagetable) (\<lambda>pagetable.
       bind (get_field task ts_trap_frame) (\<lambda>tf.
       if kernel_stack = 0 \<or> pagetable = 0 \<or> shared_memory = 0 \<or> tf = 0 then
         bind (deallocate kernel_stack 0) (\<lambda>_.
         bind (get_field task ts_pagetable) (\<lambda>pagetable.
         bind (deallocate pagetable 0) (\<lambda>_.
         bind (kfree task) (\<lambda>_.
         return 0))))
       else
         bind (gets kernel_pagetable) (\<lambda>kpt.
         bind (set_reg task TF_kernel_satp kpt) (\<lambda>_.
         bind (set_reg task TF_epc 0) (\<lambda>_.
         bind (get_field task ts_pagetable) (\<lambda>pagetable.
         bind (get_field task ts_trap_frame) (\<lambda>tf.
         bind (map_page pagetable TRAPFRAME tf (PTE_R OR PTE_W)) (\<lambda>r1.
         bind (get_field task ts_pagetable) (\<lambda>pagetable.
         bind (map_page pagetable TRAMPOLINE (trampoline P) (PTE_R OR PTE_X)) (\<lambda>r2.
         bind (get_field task ts_pagetable) (\<lambda>pagetable.
         bind (map_page pagetable SHARED_MEMORY shared_memory (PTE_R OR PTE_W OR PTE_U)) (\<lambda>r3.
         if r1 \<noteq> 0 \<or> r2 \<noteq> 0 \<or> r3 \<noteq> 0 then
           bind (free_user_memory task) (\<lambda>_.
           bind (kfree task) (\<lambda>_.
           return 0))
         else
           bind (set_state task RUNNABLE) (\<lambda>_.
           bind (gets next_pid) (\<lambda>pid.
           bind (modify (\<lambda>s. s\<lparr>next_pid := pid + 1\<rparr>)) (\<lambda>_.
           bind (set_field task ts_pid pid) (\<lambda>_.
           bind (set_field task ts_parent parent) (\<lambda>_.
           bind (get_field task ts_kernel_stack) (\<lambda>kernel_stack.
           bind (set_field task (ts_context + cx_sp) (kernel_stack + PGSIZE)) (\<lambda>_.
           bind (set_field task (ts_context + cx_ra) (user_trap_return_entry P)) (\<lambda>_.
           bind (set_field task ts_stack_size 0) (\<lambda>_.
           bind (set_field task ts_stack_start 0) (\<lambda>_.
           bind (strlen name) (\<lambda>l.
           bind (strcpy (task + ts_name) name (min 31 l)) (\<lambda>_.
           bind (set_field task ts_shared_memory shared_memory) (\<lambda>_.
           return task)))))))))))))))))))))))))))))))))))))"

definition register_memory_section :: "addr \<Rightarrow> uint64 \<Rightarrow> uint64 \<Rightarrow> (int, 'z kernel_scheme) run" where
  "register_memory_section task va sz =
     bind (kmalloc sizeof_memory_section) (\<lambda>tmp_data.
     bind (make_single_linked_list_node tmp_data) (\<lambda>tmp.
     if tmp = 0 \<or> tmp_data = 0 then
       bind (kfree tmp_data) (\<lambda>_.
       bind (kfree tmp) (\<lambda>_.
       return (-1)))
     else
       bind (set_field tmp_data sec_start va) (\<lambda>_.
       bind (set_field tmp_data sec_size sz) (\<lambda>_.
       bind (push_tail (task + ts_mem_sections) tmp) (\<lambda>_.
       return 0)))))"

definition set_stack :: "addr \<Rightarrow> (int, 'z kernel_scheme) run" where
  "set_stack task =
     bind (allocate_for_user 0) (\<lambda>stack.
     if stack = 0 then return (-1)
     else
       bind (set_field task ts_stack_start (SHARED_MEMORY - PGSIZE)) (\<lambda>_.
       bind (set_field task ts_stack_size PGSIZE) (\<lambda>_.
       bind (set_reg task TF_sp SHARED_MEMORY) (\<lambda>_.
       bind (get_field task ts_pagetable) (\<lambda>pagetable.
       bind (get_field task ts_stack_permission) (\<lambda>permission.
       bind (map_page pagetable (SHARED_MEMORY - PGSIZE) stack permission) (\<lambda>r.
       if r \<noteq> 0 then bind (deallocate stack 0) (\<lambda>_. return (-1))
       else return 0)))))))"

text \<open>\<open>available_from\<close>: the greatest end of a section.\<close>

partial_function (option) max_section_end ::
  "addr \<Rightarrow> uint64 \<Rightarrow> 'z kernel_scheme \<Rightarrow> (fault + uint64 \<times> 'z kernel_scheme) option" where
  "max_section_end node mx s =
     (if node = 0 then return mx
      else
        bind (get_field node nd_data) (\<lambda>mem_section.
        bind (get_field mem_section sec_start) (\<lambda>start.
        bind (get_field mem_section sec_size) (\<lambda>sz.
        bind (get_field node nd_next) (\<lambda>nxt.
        max_section_end nxt (if start + sz > mx then start + sz else mx)))))) s"

definition available_from :: "addr \<Rightarrow> (uint64, 'z kernel_scheme) run" where
  "available_from task = bind (get_field task (ts_mem_sections + ls_head)) (\<lambda>node. max_section_end node 0)"

section \<open>Copying a task's memory\<close>

text \<open>The loop over the sections of the source; the result is -1 where the C code returns early.\<close>

partial_function (option) copy_sections ::
  "addr \<Rightarrow> addr \<Rightarrow> addr \<Rightarrow> 'z kernel_scheme \<Rightarrow> (fault + int \<times> 'z kernel_scheme) option" where
  "copy_sections source target node s =
     (if node = 0 then return 0
      else
        bind (get_field node nd_data) (\<lambda>mem_section.
        bind (get_field mem_section sec_start) (\<lambda>start.
        bind (get_field mem_section sec_size) (\<lambda>sz.
        bind (get_field source ts_pagetable) (\<lambda>spt.
        bind (get_field target ts_pagetable) (\<lambda>tpt.
        bind (copy_memory_with_pagetable spt tpt start sz) (\<lambda>r.
        if r \<noteq> 0 then
          bind (free_user_memory target) (\<lambda>_. return (-1))
        else
          bind (register_memory_section target start sz) (\<lambda>r.
          if r \<noteq> 0 then
            bind (get_field target ts_pagetable) (\<lambda>tpt.
            bind (free_memory tpt start sz) (\<lambda>_.
            bind (free_user_memory target) (\<lambda>_. return (-1))))
          else
            bind (get_field node nd_next) (\<lambda>nxt.
            copy_sections source target nxt))))))))) s"

text \<open>The clean-up after the stack could not be copied, section by section and page by page.\<close>

partial_function (option) unmap_section ::
  "addr \<Rightarrow> uint64 \<Rightarrow> uint64 \<Rightarrow> uint64 \<Rightarrow> 'z kernel_scheme \<Rightarrow> (fault + unit \<times> 'z kernel_scheme) option" where
  "unmap_section pagetable start sz offset s =
     (if offset < sz then
        bind (physical_address pagetable (start + offset)) (\<lambda>pa.
        bind (deallocate pa 0) (\<lambda>_.
        bind (unmap_page pagetable (start + offset)) (\<lambda>_.
        unmap_section pagetable start sz (offset + PGSIZE))))
      else return ()) s"

partial_function (option) unmap_sections ::
  "addr \<Rightarrow> addr \<Rightarrow> 'z kernel_scheme \<Rightarrow> (fault + unit \<times> 'z kernel_scheme) option" where
  "unmap_sections target node s =
     (if node = 0 then return ()
      else
        bind (get_field node nd_data) (\<lambda>mem_section.
        bind (get_field mem_section sec_start) (\<lambda>start.
        bind (get_field mem_section sec_size) (\<lambda>sz.
        bind (get_field target ts_pagetable) (\<lambda>tpt.
        bind (unmap_section tpt start sz 0) (\<lambda>_.
        bind (get_field node nd_next) (\<lambda>nxt.
        unmap_sections target nxt))))))) s"

definition copy_all_memory_with_pagetable :: "addr \<Rightarrow> addr \<Rightarrow> (int, 'z kernel_scheme) run" where
  "copy_all_memory_with_pagetable source target =
     bind (head_node (source + ts_mem_sections)) (\<lambda>node.
     bind (copy_sections source target node) (\<lambda>r.
     if r \<noteq> 0 then return (-1)
     else
       bind (get_field source ts_pagetable) (\<lambda>spt.
       bind (get_field target ts_pagetable) (\<lambda>tpt.
       bind (get_field source ts_stack_start) (\<lambda>start.
       bind (get_field source ts_stack_size) (\<lambda>sz.
       bind (copy_memory_with_pagetable spt tpt start sz) (\<lambda>r.
       bind (if_then (r \<noteq> 0) (bind (head_node (target + ts_mem_sections)) (\<lambda>node2. unmap_sections target node2))) (\<lambda>_.
       bind (get_field source ts_stack_start) (\<lambda>start.
       bind (set_field target ts_stack_start start) (\<lambda>_.
       bind (get_field source ts_stack_size) (\<lambda>sz.
       bind (set_field target ts_stack_size sz) (\<lambda>_.
       return 0))))))))))))"

lemmas [code] = free_sections.simps max_section_end.simps copy_sections.simps unmap_section.simps unmap_sections.simps

end
