(* ===== verification/Elf.thy ===== *)
theory Elf
  imports Task
begin

text \<open>
  The program loader of \<open>kernel/elf.c\<close>. The offsets of the file header and of a program header
  are those of the 64-bit ELF format.
\<close>

section \<open>File format\<close>

definition e_entry :: uint64 where "e_entry = 24"
definition e_phoff :: uint64 where "e_phoff = 32"
definition e_phnum :: uint64 where "e_phnum = 56"
definition sizeof_phdr :: uint64 where "sizeof_phdr = 56"
definition p_type :: uint64 where "p_type = 0"
definition p_flags :: uint64 where "p_flags = 4"
definition p_offset :: uint64 where "p_offset = 8"
definition p_vaddr :: uint64 where "p_vaddr = 16"
definition p_filesz :: uint64 where "p_filesz = 32"
definition p_memsz :: uint64 where "p_memsz = 40"
definition PT_LOAD :: "32 word" where "PT_LOAD = 1"
definition PT_GNU_STACK :: "32 word" where "PT_GNU_STACK = 0x6474e551"
definition PF_X :: "32 word" where "PF_X = 1"
definition PF_W :: "32 word" where "PF_W = 2"
definition PF_R :: "32 word" where "PF_R = 4"

definition get_field16 :: "addr \<Rightarrow> uint64 \<Rightarrow> (nat, 'z machine_scheme) run" where
  "get_field16 p off =
     bind (get_byte p off) (\<lambda>lo.
     bind (get_byte p (off + 1)) (\<lambda>hi.
     return (unat lo + 256 * unat hi)))"

section \<open>Loading\<close>

text \<open>\<open>\x7f E L F\<close>\<close>

definition check_elf_magic :: "addr \<Rightarrow> (int, 'z kernel_scheme) run" where
  "check_elf_magic elf =
     bind (get_byte elf 0) (\<lambda>b0.
     if b0 \<noteq> 0x7f then return (-1)
     else
       bind (get_byte elf 1) (\<lambda>b1.
       if b1 \<noteq> 69 then return (-1)
       else
         bind (get_byte elf 2) (\<lambda>b2.
         if b2 \<noteq> 76 then return (-1)
         else
           bind (get_byte elf 3) (\<lambda>b3.
           if b3 \<noteq> 70 then return (-1) else return 0))))"

definition segment_permission :: "32 word \<Rightarrow> uint64" where
  "segment_permission flags =
     PTE_U OR (if flags AND PF_R \<noteq> 0 then PTE_R else 0) OR (if flags AND PF_W \<noteq> 0 then PTE_W else 0)
       OR (if flags AND PF_X \<noteq> 0 then PTE_X else 0)"

text \<open>One program header; the result is -1 where the C code gives up.\<close>

definition load_segment :: "addr \<Rightarrow> addr \<Rightarrow> addr \<Rightarrow> (int, 'z kernel_scheme) run" where
  "load_segment elf task phdr =
     bind (get_field32 phdr p_type) (\<lambda>ty.
     bind (if_then (ty = PT_GNU_STACK)
       (bind (get_field task ts_stack_permission) (\<lambda>perm. set_field task ts_stack_permission (perm OR PTE_X)))) (\<lambda>_.
     bind (get_field32 phdr p_type) (\<lambda>ty.
     if ty \<noteq> PT_LOAD then return 0
     else
       bind (get_field phdr p_offset) (\<lambda>offset.
       bind (get_field phdr p_vaddr) (\<lambda>va.
       bind (get_field phdr p_memsz) (\<lambda>sz.
       bind (get_field phdr p_filesz) (\<lambda>src_size.
       bind (get_field32 phdr p_flags) (\<lambda>flags.
       bind (get_field task ts_pagetable) (\<lambda>pagetable.
       let section_start = PGROUNDDOWN va; section_size = PGROUNDUP (va + sz) - section_start in
       bind (map_section_for_user pagetable va (elf + offset) src_size sz (segment_permission flags)) (\<lambda>r.
       if r \<noteq> 0 then return (-1)
       else
         bind (register_memory_section task section_start section_size) (\<lambda>r.
         if r \<noteq> 0 then
           bind (get_field task ts_pagetable) (\<lambda>pagetable.
           bind (free_memory pagetable va section_size) (\<lambda>_.
           return (-1)))
         else return 0)))))))))))"

primrec load_segments :: "addr \<Rightarrow> addr \<Rightarrow> addr \<Rightarrow> nat \<Rightarrow> (int, 'z kernel_scheme) run" where
  "load_segments elf task phdr 0 = return 0"
| "load_segments elf task phdr (Suc n) =
     bind (load_segment elf task phdr) (\<lambda>r.
     if r \<noteq> 0 then return r else load_segments elf task (phdr + sizeof_phdr) n)"

definition load_elf :: "addr \<Rightarrow> addr \<Rightarrow> (int, 'z kernel_scheme) run" where
  "load_elf elf task =
     bind (check_elf_magic elf) (\<lambda>r.
     if r \<noteq> 0 then return (-1)
     else
       bind (get_field elf e_phoff) (\<lambda>phoff.
       bind (get_field16 elf e_phnum) (\<lambda>phnum.
       bind (load_segments elf task (elf + phoff) phnum) (\<lambda>r.
       if r \<noteq> 0 then return (-1)
       else
         bind (get_field elf e_entry) (\<lambda>ent.
         bind (set_reg task TF_epc ent) (\<lambda>_.
         return 0))))))"

end
