(* ===== verification/Scheduler.thy ===== *)
theory Scheduler
  imports Elf
begin

text \<open>
  The scheduler part of \<open>kernel/process.c\<close>: the run queue, \<open>yield\<close>, the queries over the list
  of all tasks, and the creation of the first task; and \<open>user_trap_return\<close> of
  \<open>kernel/trap.c\<close>.
\<close>

section \<open>Running a task\<close>

definition current_task :: "(addr, 'z kernel_scheme) run" where
  "current_task =
     bind (gets runnable_tasks) (\<lambda>q.
     if q = 0 then return 0
     else bind (gets running_task) (\<lambda>node. get_field node nd_data))"

text \<open>\<open>next_task_to_run\<close> drops the tasks at the front that are not runnable.\<close>

partial_function (option) skip_not_runnable ::
  "addr \<Rightarrow> addr \<Rightarrow> 'z kernel_scheme \<Rightarrow> (fault + addr \<times> 'z kernel_scheme) option" where
  "skip_not_runnable candidate_node candidate s =
     (if candidate = 0 then return candidate_node
      else
        bind (get_state candidate) (\<lambda>st.
        if st = state_code RUNNABLE then return candidate_node
        else
          bind (gets runnable_tasks) (\<lambda>q.
          bind (pop_head q) (\<lambda>_.
          bind (head_node q) (\<lambda>node.
          bind (get_field node nd_data) (\<lambda>task.
          skip_not_runnable node task)))))) s"

definition next_task_to_run :: "(addr, 'z kernel_scheme) run" where
  "next_task_to_run =
     bind (gets runnable_tasks) (\<lambda>q.
     bind (get_field q ls_size) (\<lambda>n.
     if n = 0 then return 0
     else
       bind (head_node q) (\<lambda>node.
       bind (get_field node nd_data) (\<lambda>task.
       skip_not_runnable node task))))"

text \<open>Putting the task that is running back into the queue, if it is still running.\<close>

definition requeue_current :: "'z kernel_scheme platform \<Rightarrow> addr \<Rightarrow> (addr, 'z kernel_scheme) run" where
  "requeue_current P task =
     (if task = 0 then return (now_context P)
      else
        bind (get_state task) (\<lambda>st.
        if st = state_code RUNNING then
          bind (set_state task RUNNABLE) (\<lambda>_.
          bind (gets runnable_tasks) (\<lambda>q.
          bind (gets running_task) (\<lambda>node.
          bind (push_tail q node) (\<lambda>_.
          return (task + ts_context)))))
        else return (now_context P)))"

definition yield :: "'z kernel_scheme platform \<Rightarrow> (unit, 'z kernel_scheme) run" where
  "yield P =
     bind interrupt_off (\<lambda>_.
     bind (gets stack_to_remove) (\<lambda>stack.
     bind (deallocate stack 0) (\<lambda>_.
     bind (modify (\<lambda>s. s\<lparr>stack_to_remove := stack_to_remove_next s\<rparr>)) (\<lambda>_.
     bind (modify (\<lambda>s. s\<lparr>stack_to_remove_next := 0\<rparr>)) (\<lambda>_.
     bind current_task (\<lambda>task.
     bind (gets runnable_tasks) (\<lambda>q.
     bind (get_field q ls_size) (\<lambda>n.
     if n = 0 then return ()
     else
       bind (requeue_current P task) (\<lambda>old_context.
       bind next_task_to_run (\<lambda>node.
       bind (modify (\<lambda>s. s\<lparr>running_task := node\<rparr>)) (\<lambda>_.
       if node = 0 then raise (Panic ''yield: no task to run'')
       else
         bind current_task (\<lambda>new_task.
         bind (gets runnable_tasks) (\<lambda>q.
         bind (pop_head_without_free q) (\<lambda>_.
         bind (set_state new_task RUNNING) (\<lambda>_.
         bind interrupt_on (\<lambda>_.
         switch_context P old_context (new_task + ts_context)))))))))))))))))"

text \<open>The endless loop of \<open>scheduler\<close>.\<close>

partial_function (option) scheduler ::
  "'z kernel_scheme platform \<Rightarrow> 'z kernel_scheme \<Rightarrow> (fault + unit \<times> 'z kernel_scheme) option" where
  "scheduler P s =
     bind interrupt_off (\<lambda>_.
     bind (gets running_task) (\<lambda>r.
     if r \<noteq> 0 then raise (Panic ''scheduler: trying to run a task while another task is running'')
     else
       bind (gets runnable_tasks) (\<lambda>q.
       bind (get_field q ls_size) (\<lambda>n.
       bind (if_then (n > 0)
         (bind (head_node q) (\<lambda>task_node.
          bind (modify (\<lambda>s. s\<lparr>running_task := task_node\<rparr>)) (\<lambda>_.
          bind (get_field task_node nd_data) (\<lambda>task.
          bind (set_state task RUNNING) (\<lambda>_.
          bind (pop_head_without_free q) (\<lambda>_.
          switch_context P (now_context P) (task + ts_context)))))))) (\<lambda>_.
       bind interrupt_on (\<lambda>_.
       scheduler P)))))) s"

section \<open>The first task\<close>

definition elf_file :: "'z kernel_scheme platform \<Rightarrow> addr \<Rightarrow> (addr, 'z kernel_scheme) run" where
  "elf_file P name =
     bind (strcmp name (literal P ''/init'')) (\<lambda>r.
     if r = 0 then return (init_program P)
     else
       bind (strcmp name (literal P ''/sh'')) (\<lambda>r.
       if r = 0 then return (sh_program P)
       else
         bind (strcmp name (literal P ''/echo'')) (\<lambda>r.
         if r = 0 then return (echo_program P) else return 0)))"

definition init_scheduler :: "'z kernel_scheme platform \<Rightarrow> (unit, 'z kernel_scheme) run" where
  "init_scheduler P =
     bind create_single_linked_list (\<lambda>q.
     bind (modify (\<lambda>s. s\<lparr>runnable_tasks := q\<rparr>)) (\<lambda>_.
     bind create_single_linked_list (\<lambda>a.
     bind (modify (\<lambda>s. s\<lparr>all_tasks := a\<rparr>)) (\<lambda>_.
     bind (new_task P (literal P ''init'') 0) (\<lambda>task.
     if task = 0 then raise (Panic ''init_scheduler: cannot create init task'')
     else
       bind (load_elf (init_program P) task) (\<lambda>_.
       bind (set_stack task) (\<lambda>r.
       if r \<noteq> 0 then raise (Panic ''init_scheduler: cannot set stack for init task'')
       else
         bind (allocate_for_user 1) (\<lambda>page.
         let vectors = page + PGSIZE in
         if page = 0 then raise (Panic ''init_scheduler: cannot allocate page for init task'')
         else
           bind (available_from task) (\<lambda>va.
           bind (register_memory_section task va (PGSIZE * 2)) (\<lambda>r.
           if r \<noteq> 0 then raise (Panic ''init_scheduler: cannot register memory section for init task'')
           else
             bind (get_field task ts_pagetable) (\<lambda>pagetable.
             bind (map_page pagetable va page (PTE_R OR PTE_W OR PTE_U)) (\<lambda>r.
             if r \<noteq> 0 then raise (Panic ''init_scheduler: cannot map page for init task'')
             else
               bind (get_field task ts_pagetable) (\<lambda>pagetable.
               bind (map_page pagetable (va + PGSIZE) (page + PGSIZE) (PTE_R OR PTE_W OR PTE_U)) (\<lambda>r.
               if r \<noteq> 0 then raise (Panic ''init_scheduler: cannot map page for init task'')
               else
                 bind (strcpy page (literal P ''init'') 5) (\<lambda>_.
                 bind (set_field vectors 0 va) (\<lambda>_.
                 bind (set_field vectors 8 0) (\<lambda>_.
                 bind (set_field vectors 16 0) (\<lambda>_.
                 bind (set_reg task TF_a0 1) (\<lambda>_.
                 bind (set_reg task TF_a1 (va + PGSIZE)) (\<lambda>_.
                 bind (set_reg task TF_a2 (va + PGSIZE + 2 * 8)) (\<lambda>_.
                 bind (make_single_linked_list_node task) (\<lambda>node.
                 bind (gets all_tasks) (\<lambda>a.
                 bind (push_tail a node) (\<lambda>_.
                 bind (make_single_linked_list_node task) (\<lambda>node.
                 bind (gets runnable_tasks) (\<lambda>q.
                 bind (push_tail q node) (\<lambda>_.
                 modify (\<lambda>s. s\<lparr>init_task := task\<rparr>))))))))))))))))))))))))))))"

section \<open>Queries over the tasks\<close>

definition reparent :: "addr \<Rightarrow> (unit, 'z kernel_scheme) run" where
  "reparent task =
     bind (get_field task ts_parent) (\<lambda>parent.
     if parent = 0 then return ()
     else
       bind (get_state parent) (\<lambda>st.
       if st = state_code ZOMBIE then
         bind (gets init_task) (\<lambda>i. set_field task ts_parent i)
       else return ()))"

definition is_alive :: "addr \<Rightarrow> (bool, 'z kernel_scheme) run" where
  "is_alive task =
     (if task = 0 then return False
      else
        bind (get_state task) (\<lambda>st.
        if st \<noteq> state_code ZOMBIE then return True
        else bind (get_state task) (\<lambda>st. return (st \<noteq> state_code DEAD))))"

text \<open>The loops over the nodes of \<open>all_tasks\<close>.\<close>

partial_function (option) has_alive_child_loop ::
  "addr \<Rightarrow> addr \<Rightarrow> 'z kernel_scheme \<Rightarrow> (fault + bool \<times> 'z kernel_scheme) option" where
  "has_alive_child_loop task node s =
     (if node = 0 then return False
      else
        bind (get_field node nd_data) (\<lambda>child.
        bind (get_field child ts_parent) (\<lambda>parent.
        bind (if parent = task then is_alive child else return False) (\<lambda>found.
        if found then return True
        else bind (get_field node nd_next) (\<lambda>nxt. has_alive_child_loop task nxt))))) s"

definition has_alive_child :: "addr \<Rightarrow> (bool, 'z kernel_scheme) run" where
  "has_alive_child task =
     bind (gets all_tasks) (\<lambda>a. bind (get_field a ls_head) (\<lambda>node. has_alive_child_loop task node))"

partial_function (option) zombie_child_loop ::
  "addr \<Rightarrow> addr \<Rightarrow> 'z kernel_scheme \<Rightarrow> (fault + addr \<times> 'z kernel_scheme) option" where
  "zombie_child_loop task node s =
     (if node = 0 then return 0
      else
        bind (get_field node nd_data) (\<lambda>child.
        bind (get_field child ts_parent) (\<lambda>parent.
        bind (if parent = task then bind (get_state child) (\<lambda>st. return (st = state_code ZOMBIE)) else return False) (\<lambda>found.
        if found then return child
        else bind (get_field node nd_next) (\<lambda>nxt. zombie_child_loop task nxt))))) s"

definition get_one_zombie_child :: "addr \<Rightarrow> (addr, 'z kernel_scheme) run" where
  "get_one_zombie_child task =
     bind (gets all_tasks) (\<lambda>a. bind (get_field a ls_head) (\<lambda>node. zombie_child_loop task node))"

partial_function (option) find_task_loop ::
  "uint64 \<Rightarrow> addr \<Rightarrow> 'z kernel_scheme \<Rightarrow> (fault + addr \<times> 'z kernel_scheme) option" where
  "find_task_loop pid node s =
     (if node = 0 then return 0
      else
        bind (get_field node nd_data) (\<lambda>task.
        bind (get_field task ts_pid) (\<lambda>p.
        if p = pid then return task
        else bind (get_field node nd_next) (\<lambda>nxt. find_task_loop pid nxt)))) s"

definition find_task :: "uint64 \<Rightarrow> (addr, 'z kernel_scheme) run" where
  "find_task pid =
     bind (gets all_tasks) (\<lambda>a. bind (get_field a ls_head) (\<lambda>node. find_task_loop pid node))"

partial_function (option) ancestor_loop ::
  "addr \<Rightarrow> addr \<Rightarrow> 'z kernel_scheme \<Rightarrow> (fault + bool \<times> 'z kernel_scheme) option" where
  "ancestor_loop ancestor tmp s =
     (if tmp = 0 then return False
      else if tmp = ancestor then return True
      else bind (get_field tmp ts_parent) (\<lambda>p. ancestor_loop ancestor p)) s"

definition is_ancestor :: "addr \<Rightarrow> addr \<Rightarrow> (bool, 'z kernel_scheme) run" where
  "is_ancestor ancestor task =
     (if task = 0 \<or> ancestor = 0 then return False
      else bind (get_field task ts_parent) (\<lambda>p. ancestor_loop ancestor p))"

definition child_with_pid :: "addr \<Rightarrow> uint64 \<Rightarrow> (addr, 'z kernel_scheme) run" where
  "child_with_pid task pid =
     bind (find_task pid) (\<lambda>child.
     if child = 0 then return 0
     else
       bind (get_field child ts_parent) (\<lambda>parent.
       if parent \<noteq> task then return 0
       else
         bind (get_state child) (\<lambda>st.
         if st \<noteq> state_code ZOMBIE then return child else return 0)))"

definition sleep :: "'z kernel_scheme platform \<Rightarrow> addr \<Rightarrow> addr \<Rightarrow> (unit, 'z kernel_scheme) run" where
  "sleep P task channel =
     bind (set_state task SLEEPING) (\<lambda>_.
     bind (set_field task ts_channel channel) (\<lambda>_.
     bind (gets runnable_tasks) (\<lambda>q.
     bind (removeAt q task) (\<lambda>_.
     yield P))))"

section \<open>Back to user mode\<close>

definition user_trap_return :: "'z kernel_scheme platform \<Rightarrow> (unit, 'z kernel_scheme) run" where
  "user_trap_return P =
     bind current_task (\<lambda>task.
     bind interrupt_off (\<lambda>_.
     bind (write_stvec (TRAMPOLINE + (user_vector P - trampoline P))) (\<lambda>_.
     bind read_satp (\<lambda>satp.
     bind (set_reg task TF_kernel_satp satp) (\<lambda>_.
     bind (get_field task ts_kernel_stack) (\<lambda>stack.
     bind (set_reg task TF_kernel_sp (stack + PGSIZE)) (\<lambda>_.
     bind (set_reg task TF_kernel_trap (user_trap_entry P)) (\<lambda>_.
     bind read_sstatus (\<lambda>sstatus.
     bind (write_sstatus ((sstatus AND NOT SSTATUS_SPP) OR SSTATUS_SPIE)) (\<lambda>_.
     bind (get_reg task TF_epc) (\<lambda>epc.
     bind (write_sepc epc) (\<lambda>_.
     bind (get_field task ts_pagetable) (\<lambda>pagetable.
     enter_user P (TRAMPOLINE + (user_return P - trampoline P)) (MAKE_SATP pagetable))))))))))))))"

lemmas [code] = skip_not_runnable.simps scheduler.simps has_alive_child_loop.simps
  zombie_child_loop.simps find_task_loop.simps ancestor_loop.simps

end
