(* ===== verification/Syscalls.thy ===== *)
theory Syscalls
  imports Scheduler
begin

text \<open>
  Process life cycle, system calls and page faults of \<open>kernel/process.c\<close>. Results of the C type
  \<open>uint64\<close> are words, so \<open>return -1\<close> is the word \<open>-1\<close>.
\<close>

section \<open>Fork, exit, exec\<close>

definition fork_process :: "'z kernel_scheme platform \<Rightarrow> addr \<Rightarrow> (uint64, 'z kernel_scheme) run" where
  "fork_process P task =
     bind (new_task P (task + ts_name) task) (\<lambda>child.
     if child = 0 then return (-1)
     else
       bind (copy_all_memory_with_pagetable task child) (\<lambda>map_result.
       bind (get_field child ts_trap_frame) (\<lambda>ctf.
       bind (get_field task ts_trap_frame) (\<lambda>tf.
       bind (do_memcpy ctf tf sizeof_trap_frame) (\<lambda>_.
       bind (set_reg child TF_a0 0) (\<lambda>_.
       bind (get_reg child TF_epc) (\<lambda>epc.
       bind (set_reg child TF_epc (epc + 4)) (\<lambda>_.
       if map_result \<noteq> 0 then
         bind (free_user_memory task) (\<lambda>_.
         bind (kfree task) (\<lambda>_.
         return (-1)))
       else
         bind (make_single_linked_list_node child) (\<lambda>node.
         bind (gets runnable_tasks) (\<lambda>q.
         bind (push_tail q node) (\<lambda>_.
         bind (make_single_linked_list_node child) (\<lambda>node.
         bind (gets all_tasks) (\<lambda>a.
         bind (push_tail a node) (\<lambda>_.
         get_field child ts_pid))))))))))))))"

text \<open>Waking a parent that sleeps on the task or on any child.\<close>

definition wake_parent :: "addr \<Rightarrow> (unit, 'z kernel_scheme) run" where
  "wake_parent task =
     bind (get_field task ts_parent) (\<lambda>parent.
     bind (get_state parent) (\<lambda>st.
     if st \<noteq> state_code SLEEPING then return ()
     else
       bind (get_field parent ts_channel) (\<lambda>channel.
       if channel \<noteq> parent \<and> channel \<noteq> task then return ()
       else
         bind (set_state task DEAD) (\<lambda>_.
         bind (get_field task ts_parent) (\<lambda>parent.
         bind (set_state parent RUNNABLE) (\<lambda>_.
         bind (get_field task ts_pid) (\<lambda>pid.
         bind (set_reg parent TF_a0 pid) (\<lambda>_.
         bind (get_field32 task ts_exit_status) (\<lambda>status.
         bind (set_reg parent TF_a1 (scast status)) (\<lambda>_.
         bind (make_single_linked_list_node parent) (\<lambda>node.
         bind (gets runnable_tasks) (\<lambda>q.
         bind (push_tail q node) (\<lambda>_.
         return ())))))))))))))"

definition exit_process :: "'z kernel_scheme platform \<Rightarrow> addr \<Rightarrow> 32 word \<Rightarrow> (unit, 'z kernel_scheme) run" where
  "exit_process P task status =
     (if task = 0 then raise (Panic ''exit_process: the process is NULL'')
      else
        bind (get_field task ts_parent) (\<lambda>parent.
        if parent = 0 then raise (Panic ''exit_process: exit from init process'')
        else
          bind (free_user_memory task) (\<lambda>_.
          bind (set_state task ZOMBIE) (\<lambda>_.
          bind (set_field32 task ts_exit_status status) (\<lambda>_.
          bind (gets all_tasks) (\<lambda>a.
          bind (for_each_node a reparent) (\<lambda>_.
          bind (wake_parent task) (\<lambda>_.
          bind (yield P) (\<lambda>_.
          raise (Panic ''exit_process: should not reach here''))))))))))"

text \<open>\<open>while (*ptr != '\0') ptr++;\<close> and \<open>while (*ptr == '\0') ptr++;\<close>\<close>

partial_function (option) skip_string ::
  "addr \<Rightarrow> 'z kernel_scheme \<Rightarrow> (fault + addr \<times> 'z kernel_scheme) option" where
  "skip_string ptr s = bind (read8 ptr) (\<lambda>c. if c \<noteq> 0 then skip_string (ptr + 1) else return ptr) s"

partial_function (option) skip_zeros ::
  "addr \<Rightarrow> 'z kernel_scheme \<Rightarrow> (fault + addr \<times> 'z kernel_scheme) option" where
  "skip_zeros ptr s = bind (read8 ptr) (\<lambda>c. if c = 0 then skip_zeros (ptr + 1) else return ptr) s"

text \<open>
  The loop that fills a pointer vector: \<open>n\<close> pointers are left, the next goes to \<open>vec\<close> and
  points to the string at \<open>str\<close> as the user will see it.
\<close>

primrec fill_vector :: "addr \<Rightarrow> uint64 \<Rightarrow> nat \<Rightarrow> addr \<Rightarrow> addr \<Rightarrow> (unit, 'z kernel_scheme) run" where
  "fill_vector task va 0 vec str = return ()"
| "fill_vector task va (Suc n) vec str =
     bind (get_field task ts_shared_memory) (\<lambda>sh.
     bind (set_field vec 0 (va + (str - sh))) (\<lambda>_.
     bind (skip_string str) (\<lambda>p.
     fill_vector task va n (vec + 8) (p + 1))))"

text \<open>The name of the process: the arguments with blanks in between, at most 31 characters.\<close>

primrec clear_name :: "addr \<Rightarrow> nat \<Rightarrow> (unit, 'z kernel_scheme) run" where
  "clear_name task 0 = return ()"
| "clear_name task (Suc n) =
     bind (set_byte task (ts_name + of_nat (31 - Suc n)) 0) (\<lambda>_. clear_name task n)"

primrec write_name :: "addr \<Rightarrow> int \<Rightarrow> nat \<Rightarrow> int \<Rightarrow> addr \<Rightarrow> (unit, 'z kernel_scheme) run" where
  "write_name task argv_size 0 count arguments = return ()"
| "write_name task argv_size (Suc n) count arguments =
     bind (read8 arguments) (\<lambda>c.
     if c \<noteq> 0 then
       bind (set_byte task (ts_name + of_nat (31 - Suc n)) c) (\<lambda>_.
       write_name task argv_size n count (arguments + 1))
     else if count + 1 \<ge> argv_size then return ()
     else
       bind (set_byte task (ts_name + of_nat (31 - Suc n)) 32) (\<lambda>_.
       bind (skip_zeros arguments) (\<lambda>arguments.
       write_name task argv_size n (count + 1) arguments)))"

definition exec_process :: "'z kernel_scheme platform \<Rightarrow> addr \<Rightarrow> int \<Rightarrow> int \<Rightarrow> (uint64, 'z kernel_scheme) run" where
  "exec_process P task argv_size envp_size =
     bind interrupt_off (\<lambda>_.
     bind (get_field task ts_shared_memory) (\<lambda>ptr.
     bind (elf_file P ptr) (\<lambda>elf.
     if elf = 0 then return (-1)
     else
       bind (clear_user_memory_space task) (\<lambda>_.
       bind (get_field task ts_trap_frame) (\<lambda>tf.
       bind (do_memset tf 0 PGSIZE) (\<lambda>_.
       bind (skip_string ptr) (\<lambda>ptr.
       bind (skip_zeros ptr) (\<lambda>argv.
       let arguments = argv; envp = argv + of_int argv_size in
       bind (load_elf elf task) (\<lambda>r.
       bind (if r \<noteq> 0 then return True else bind (set_stack task) (\<lambda>r. return (r \<noteq> 0))) (\<lambda>failed.
       bind (if_then failed (exit_process P task (-1))) (\<lambda>_.
       bind (allocate_for_user 1) (\<lambda>page.
       bind (if_then (page = 0) (exit_process P task (-1))) (\<lambda>_.
       bind (get_field task ts_shared_memory) (\<lambda>sh.
       bind (do_memcpy page sh PGSIZE) (\<lambda>_.
       bind (available_from task) (\<lambda>va.
       let argv_ptr = page + PGSIZE; envp_ptr = argv_ptr + 8 * (of_int argv_size + 1) in
       bind (fill_vector task va (nat argv_size) argv_ptr argv) (\<lambda>_.
       bind (set_field (argv_ptr + 8 * of_int argv_size) 0 0) (\<lambda>_.
       bind (fill_vector task va (nat envp_size) envp_ptr envp) (\<lambda>_.
       bind (set_field (envp_ptr + 8 * of_int envp_size) 0 0) (\<lambda>_.
       bind (set_reg task TF_a0 (of_int argv_size)) (\<lambda>_.
       bind (set_reg task TF_a1 (va + (argv_ptr - page))) (\<lambda>_.
       bind (set_reg task TF_a2 (va + (envp_ptr - page))) (\<lambda>_.
       bind (register_memory_section task va (PGSIZE * 2)) (\<lambda>r.
       bind (if_then (r \<noteq> 0) (exit_process P task (-1))) (\<lambda>_.
       bind (get_field task ts_pagetable) (\<lambda>pagetable.
       bind (map_page pagetable va page (PTE_R OR PTE_W OR PTE_U)) (\<lambda>r.
       bind (if_then (r \<noteq> 0) (exit_process P task (-1))) (\<lambda>_.
       bind (get_field task ts_pagetable) (\<lambda>pagetable.
       bind (map_page pagetable (va + PGSIZE) (page + PGSIZE) (PTE_R OR PTE_W OR PTE_U)) (\<lambda>r.
       bind (if_then (r \<noteq> 0) (exit_process P task (-1))) (\<lambda>_.
       bind (clear_name task 31) (\<lambda>_.
       bind (write_name task argv_size 31 1 arguments) (\<lambda>_.
       bind (set_byte task (ts_name + 31) 0) (\<lambda>_.
       bind interrupt_on (\<lambda>_.
       bind (user_trap_return P) (\<lambda>_.
       raise (Panic ''exec_process: should not reach here'')))))))))))))))))))))))))))))))))))))"

section \<open>System calls\<close>

text \<open>An \<open>int\<close> taken from a 64-bit register.\<close>

definition int_of_reg :: "uint64 \<Rightarrow> int" where
  "int_of_reg x = sint (ucast x :: 32 word)"

definition sys_fork :: "'z kernel_scheme platform \<Rightarrow> addr \<Rightarrow> (uint64, 'z kernel_scheme) run" where
  "sys_fork P task = fork_process P task"

definition sys_exec :: "'z kernel_scheme platform \<Rightarrow> addr \<Rightarrow> (uint64, 'z kernel_scheme) run" where
  "sys_exec P task =
     bind (get_reg task TF_a3) (\<lambda>a3.
     bind (get_reg task TF_a4) (\<lambda>a4.
     exec_process P task (int_of_reg a3) (int_of_reg a4)))"

definition sys_exit :: "'z kernel_scheme platform \<Rightarrow> addr \<Rightarrow> (uint64, 'z kernel_scheme) run" where
  "sys_exit P task =
     bind (get_reg task TF_a0) (\<lambda>a0.
     bind (exit_process P task (ucast a0)) (\<lambda>_.
     return 0))"

text \<open>What the parent does with a zombie child, and when it runs again after sleeping.\<close>

definition reap :: "addr \<Rightarrow> uint64 \<Rightarrow> addr \<Rightarrow> (uint64, 'z kernel_scheme) run" where
  "reap task status_ptr zombie_child =
     bind (if_then (status_ptr \<noteq> 0)
       (bind (get_field task ts_shared_memory) (\<lambda>sh.
        bind (get_field32 zombie_child ts_exit_status) (\<lambda>status. set_field32 sh 0 status)))) (\<lambda>_.
     bind (set_state zombie_child DEAD) (\<lambda>_.
     get_field zombie_child ts_pid))"

definition resume_wait :: "addr \<Rightarrow> uint64 \<Rightarrow> (uint64, 'z kernel_scheme) run" where
  "resume_wait task status_ptr =
     bind (if_then (status_ptr \<noteq> 0)
       (bind (get_field task ts_shared_memory) (\<lambda>sh.
        bind (get_reg task TF_a1) (\<lambda>a1. set_field32 sh 0 (ucast a1))))) (\<lambda>_.
     get_reg task TF_a0)"

definition sys_wait :: "'z kernel_scheme platform \<Rightarrow> addr \<Rightarrow> (uint64, 'z kernel_scheme) run" where
  "sys_wait P task =
     bind (get_one_zombie_child task) (\<lambda>zombie_child.
     bind (get_reg task TF_a0) (\<lambda>status_ptr.
     if zombie_child \<noteq> 0 then reap task status_ptr zombie_child
     else
       bind (has_alive_child task) (\<lambda>alive.
       if \<not> alive then return (-1)
       else
         bind (sleep P task task) (\<lambda>_.
         resume_wait task status_ptr))))"

text \<open>The first part of \<open>sys_wait_pid\<close>: \<open>None\<close> where it returns -1, else the zombie child and the channel.\<close>

definition wait_pid_target :: "addr \<Rightarrow> uint64 \<Rightarrow> ((addr \<times> addr) option, 'z kernel_scheme) run" where
  "wait_pid_target task pid =
     (if pid = -1 then
        bind (get_one_zombie_child task) (\<lambda>zombie_child.
        if zombie_child = 0 then
          bind (has_alive_child task) (\<lambda>alive.
          if \<not> alive then return None else return (Some (zombie_child, task)))
        else return (Some (zombie_child, task)))
      else
        bind (child_with_pid task pid) (\<lambda>child.
        if child = 0 then return None
        else
          bind (get_state child) (\<lambda>st.
          if st = state_code ZOMBIE then return (Some (child, 0)) else return (Some (0, child)))))"

definition sys_wait_pid :: "'z kernel_scheme platform \<Rightarrow> addr \<Rightarrow> (uint64, 'z kernel_scheme) run" where
  "sys_wait_pid P task =
     bind (get_reg task TF_a0) (\<lambda>pid.
     bind (wait_pid_target task pid) (\<lambda>target.
     case target of
       None \<Rightarrow> return (-1)
     | Some (zombie_child, channel) \<Rightarrow>
         bind (get_reg task TF_a1) (\<lambda>status_ptr.
         if zombie_child \<noteq> 0 then reap task status_ptr zombie_child
         else
           bind (sleep P task channel) (\<lambda>_.
           resume_wait task status_ptr))))"

definition sys_send_signal :: "'z kernel_scheme platform \<Rightarrow> addr \<Rightarrow> (uint64, 'z kernel_scheme) run" where
  "sys_send_signal P task =
     bind (get_reg task TF_a0) (\<lambda>pid.
     bind (get_reg task TF_a1) (\<lambda>a1.
     let signal = (ucast a1 :: 32 word) in
     bind (find_task pid) (\<lambda>target.
     bind (is_ancestor task target) (\<lambda>anc.
     if \<not> anc then return (-1)
     else
       bind (is_alive target) (\<lambda>alive.
       if alive then return (-1)
       else
         bind (if signal = NOTHING then return ()
               else if signal = SIGINT then exit_process P target 2
               else if signal = SIGKILL then exit_process P target 9
               else return ()) (\<lambda>_.
         return (scast signal)))))))"

definition sys_yield :: "'z kernel_scheme platform \<Rightarrow> addr \<Rightarrow> (uint64, 'z kernel_scheme) run" where
  "sys_yield P task = bind (yield P) (\<lambda>_. return 0)"

definition sys_power_off :: "'z kernel_scheme platform \<Rightarrow> addr \<Rightarrow> (uint64, 'z kernel_scheme) run" where
  "sys_power_off P task =
     bind (get_field task ts_pid) (\<lambda>pid.
     if pid \<noteq> 1 then return (-1)
     else bind (mmio_write32 P VIRT_TEST 0x5555) (\<lambda>_. return 0))"

definition sys_put_char :: "'z kernel_scheme platform \<Rightarrow> addr \<Rightarrow> (uint64, 'z kernel_scheme) run" where
  "sys_put_char P task =
     bind (get_reg task TF_a0) (\<lambda>a0.
     bind (print_char P (ucast a0)) (\<lambda>_.
     return 0))"

partial_function (option) wait_char_yielding ::
  "'z kernel_scheme platform \<Rightarrow> 'z kernel_scheme \<Rightarrow> (fault + unit \<times> 'z kernel_scheme) option" where
  "wait_char_yielding P s =
     bind (uart_getc P) (\<lambda>c.
     if c \<noteq> -1 then return ()
     else
       bind (gets runnable_tasks) (\<lambda>q.
       bind (get_field q ls_size) (\<lambda>n.
       if n > 0 then bind (yield P) (\<lambda>_. wait_char_yielding P) else return ()))) s"

partial_function (option) wait_char_idle ::
  "'z kernel_scheme platform \<Rightarrow> 'z kernel_scheme \<Rightarrow> (fault + int \<times> 'z kernel_scheme) option" where
  "wait_char_idle P s =
     bind (uart_getc P) (\<lambda>c.
     if c = -1 then bind (wfi P) (\<lambda>_. wait_char_idle P) else return c) s"

definition sys_get_char :: "'z kernel_scheme platform \<Rightarrow> addr \<Rightarrow> (uint64, 'z kernel_scheme) run" where
  "sys_get_char P task =
     bind (wait_char_yielding P) (\<lambda>_.
     bind (wait_char_idle P) (\<lambda>c.
     return (of_int c)))"

text \<open>The table \<open>syscalls\<close>, by number.\<close>

definition syscall_handler :: "'z kernel_scheme platform \<Rightarrow> int \<Rightarrow> (addr \<Rightarrow> (uint64, 'z kernel_scheme) run) option" where
  "syscall_handler P i =
     (if i = 1 then Some (sys_fork P)
      else if i = 2 then Some (sys_exec P)
      else if i = 3 then Some (sys_exit P)
      else if i = 4 then Some (sys_wait P)
      else if i = 5 then Some (sys_wait_pid P)
      else if i = 6 then Some (sys_send_signal P)
      else if i = 7 then Some (sys_yield P)
      else if i = 8 then Some (sys_power_off P)
      else if i = 9 then Some (sys_put_char P)
      else if i = 10 then Some (sys_get_char P)
      else None)"

definition syscall :: "'z kernel_scheme platform \<Rightarrow> (unit, 'z kernel_scheme) run" where
  "syscall P =
     bind current_task (\<lambda>current.
     if current = 0 then raise (Panic ''syscall: no task running!'')
     else
       bind (get_reg current TF_a7) (\<lambda>a7.
       let i = int_of_reg a7 in
       case syscall_handler P i of
         Some handler \<Rightarrow>
           bind (handler current) (\<lambda>r.
           bind (set_reg current TF_a0 r) (\<lambda>_.
           bind (get_reg current TF_epc) (\<lambda>epc.
           set_reg current TF_epc (epc + 4))))
       | None \<Rightarrow>
           bind (print_string P (literal P ''syscall: unknown syscall id: '')) (\<lambda>_.
           bind (print_int P (of_int i) 10) (\<lambda>_.
           bind (print_string P (literal P ''.\<newline>'')) (\<lambda>_.
           set_reg current TF_a0 (-1))))))"

section \<open>Page faults\<close>

definition within_stack_range :: "uint64 \<Rightarrow> bool" where
  "within_stack_range a \<longleftrightarrow> a \<ge> MIN_STACK_ADDR \<and> a < SHARED_MEMORY"

definition enlarge_stack_by_a_page :: "addr \<Rightarrow> (int, 'z kernel_scheme) run" where
  "enlarge_stack_by_a_page task =
     bind (allocate_for_user 0) (\<lambda>page.
     if page = 0 then return (-1)
     else
       bind (get_field task ts_stack_start) (\<lambda>original_start.
       let new_start = original_start - PGSIZE in
       bind (get_field task ts_pagetable) (\<lambda>pagetable.
       bind (get_field task ts_stack_permission) (\<lambda>permission.
       bind (map_page pagetable new_start page permission) (\<lambda>r.
       if r \<noteq> 0 then bind (deallocate page 0) (\<lambda>_. return (-1))
       else
         bind (get_field task ts_stack_start) (\<lambda>start.
         bind (set_field task ts_stack_start (start - PGSIZE)) (\<lambda>_.
         bind (get_field task ts_stack_size) (\<lambda>sz.
         bind (set_field task ts_stack_size (sz + PGSIZE)) (\<lambda>_.
         return 0)))))))))"

primrec enlarge_stack :: "addr \<Rightarrow> nat \<Rightarrow> (int, 'z kernel_scheme) run" where
  "enlarge_stack task 0 = return 0"
| "enlarge_stack task (Suc n) =
     bind (enlarge_stack_by_a_page task) (\<lambda>r.
     if r \<noteq> 0 then return (-1) else enlarge_stack task n)"

definition try_enlarge_stack :: "addr \<Rightarrow> uint64 \<Rightarrow> (int, 'z kernel_scheme) run" where
  "try_enlarge_stack task a =
     (if within_stack_range a then
        let new_start = PGROUNDDOWN a in
        bind (get_field task ts_stack_start) (\<lambda>start.
        if new_start < start then enlarge_stack task (unat ((start - new_start) div PGSIZE))
        else return 0)
      else return (-1))"

definition handle_page_fault :: "'z kernel_scheme platform \<Rightarrow> string \<Rightarrow> addr \<Rightarrow> (unit, 'z kernel_scheme) run" where
  "handle_page_fault P what task =
     bind read_stval (\<lambda>a.
     bind (try_enlarge_stack task a) (\<lambda>r.
     if r = 0 then return ()
     else
       bind (print_string P (literal P what)) (\<lambda>_.
       bind (print_int P a 16) (\<lambda>_.
       bind (print_string P (literal P '', pid '')) (\<lambda>_.
       bind (get_field task ts_pid) (\<lambda>pid.
       bind (print_int P pid 10) (\<lambda>_.
       bind (print_string P (literal P ''\<newline>'')) (\<lambda>_.
       exit_process P task (-1)))))))))"

definition handle_load_page_fault :: "'z kernel_scheme platform \<Rightarrow> addr \<Rightarrow> (unit, 'z kernel_scheme) run" where
  "handle_load_page_fault P = handle_page_fault P ''Load page fault at ''"

definition handle_store_page_fault :: "'z kernel_scheme platform \<Rightarrow> addr \<Rightarrow> (unit, 'z kernel_scheme) run" where
  "handle_store_page_fault P = handle_page_fault P ''Store page fault at ''"

lemmas [code] = skip_string.simps skip_zeros.simps wait_char_yielding.simps wait_char_idle.simps

end
