(* ===== verification/Traps.thy ===== *)
theory Traps
  imports Syscalls
begin

text \<open>
  Traps (\<open>kernel/trap.c\<close>), the interrupt controller (\<open>kernel/plic.c\<close>), the kernel's page table
  (\<open>kernel/virtual_memory.c\<close>) and the way from machine mode to the scheduler
  (\<open>kernel/start.c\<close>, \<open>kernel/main.c\<close>).
\<close>

section \<open>Interrupt controller\<close>

definition plicinit :: "'z kernel_scheme platform \<Rightarrow> (unit, 'z kernel_scheme) run" where
  "plicinit P =
     bind (mmio_write32 P (PLIC + ucast UART0_IRQ * 4) 1) (\<lambda>_.
     mmio_write32 P (PLIC + ucast VIRTIO0_IRQ * 4) 1)"

definition plicinithart :: "'z kernel_scheme platform \<Rightarrow> (unit, 'z kernel_scheme) run" where
  "plicinithart P =
     bind (mmio_write32 P (PLIC_SENABLE cpuid) (push_bit (unat UART0_IRQ) 1 OR push_bit (unat VIRTIO0_IRQ) 1)) (\<lambda>_.
     mmio_write32 P (PLIC_SPRIORITY cpuid) 0)"

definition plic_claim :: "'z kernel_scheme platform \<Rightarrow> (32 word, 'z kernel_scheme) run" where
  "plic_claim P = mmio_read32 P (PLIC_SCLAIM cpuid)"

definition plic_complete :: "'z kernel_scheme platform \<Rightarrow> 32 word \<Rightarrow> (unit, 'z kernel_scheme) run" where
  "plic_complete P irq = mmio_write32 P (PLIC_SCLAIM cpuid) irq"

section \<open>Traps\<close>

datatype cause =
    UNKNOWN | SYSCALL | TIMER | UART | VIRTIO
  | ILLEGAL_INSTRUCTION | INSTRUCTION_PAGE_FAULT | LOAD_PAGE_FAULT | STORE_PAGE_FAULT

text \<open>The \<open>switch\<close> over \<open>scause\<close> of \<open>supervisor_trap_cause\<close>.\<close>

definition decode_scause :: "uint64 \<Rightarrow> (cause, 'z kernel_scheme) run" where
  "decode_scause sc =
     (if sc = 0x8000000000000001 then
        bind read_sip (\<lambda>x.
        bind (write_sip (x AND NOT 2)) (\<lambda>_.
        return TIMER))
      else if sc = 8 then return SYSCALL
      else if sc = 2 then return ILLEGAL_INSTRUCTION
      else if sc = 12 then return INSTRUCTION_PAGE_FAULT
      else if sc = 13 then return LOAD_PAGE_FAULT
      else if sc = 15 then return STORE_PAGE_FAULT
      else return UNKNOWN)"

definition supervisor_trap_cause :: "'z kernel_scheme platform \<Rightarrow> (cause, 'z kernel_scheme) run" where
  "supervisor_trap_cause P =
     bind read_scause (\<lambda>scause.
     if scause AND 0x8000000000000000 \<noteq> 0 \<and> scause AND 0xff = 9 then
       bind (plic_claim P) (\<lambda>irq.
       if irq = UART0_IRQ then
         bind (uart_intr P) (\<lambda>_.
         bind (plic_complete P irq) (\<lambda>_.
         return UART))
       else if irq = VIRTIO0_IRQ then
         bind (plic_complete P irq) (\<lambda>_.
         return VIRTIO)
       else if irq \<noteq> 0 then
         bind (print_string P (literal P ''unexpected interrupt irq='')) (\<lambda>_.
         bind (print_int P (scast irq) 10) (\<lambda>_.
         bind (print_string P (literal P ''\<newline>'')) (\<lambda>_.
         bind (plic_complete P irq) (\<lambda>_.
         return UNKNOWN))))
       else decode_scause scause)
     else decode_scause scause)"

text \<open>The message and the exit of the two cases that always kill the process.\<close>

definition kill_faulting :: "'z kernel_scheme platform \<Rightarrow> string \<Rightarrow> addr \<Rightarrow> (unit, 'z kernel_scheme) run" where
  "kill_faulting P what task =
     bind (print_string P (literal P what)) (\<lambda>_.
     bind read_stval (\<lambda>a.
     bind (print_int P a 16) (\<lambda>_.
     bind (print_string P (literal P '', pid '')) (\<lambda>_.
     bind (get_field task ts_pid) (\<lambda>pid.
     bind (print_int P pid 10) (\<lambda>_.
     bind (print_string P (literal P ''\<newline>'')) (\<lambda>_.
     exit_process P task (-1))))))))"

text \<open>The \<open>switch\<close> of \<open>user_trap\<close>; the cases without \<open>break\<close> fall through to the next.\<close>

definition handle_user_cause :: "'z kernel_scheme platform \<Rightarrow> addr \<Rightarrow> cause \<Rightarrow> (unit, 'z kernel_scheme) run" where
  "handle_user_cause P task c =
     (let store_fault = handle_store_page_fault P task;
          load_fault = bind (handle_load_page_fault P task) (\<lambda>_. store_fault);
          instruction_fault = bind (kill_faulting P ''Instruction page fault at '' task) (\<lambda>_. load_fault) in
      case c of
        TIMER \<Rightarrow> yield P
      | SYSCALL \<Rightarrow> syscall P
      | ILLEGAL_INSTRUCTION \<Rightarrow> bind (kill_faulting P ''Illegal instruction: '' task) (\<lambda>_. instruction_fault)
      | INSTRUCTION_PAGE_FAULT \<Rightarrow> instruction_fault
      | LOAD_PAGE_FAULT \<Rightarrow> load_fault
      | STORE_PAGE_FAULT \<Rightarrow> store_fault
      | _ \<Rightarrow> return ())"

definition user_trap :: "'z kernel_scheme platform \<Rightarrow> (unit, 'z kernel_scheme) run" where
  "user_trap P =
     bind read_sepc (\<lambda>sepc.
     bind read_sstatus (\<lambda>sstatus.
     bind (supervisor_trap_cause P) (\<lambda>trap_cause.
     if sstatus AND SSTATUS_SPP \<noteq> 0 then raise (Panic ''user_trap: not from user mode'')
     else
       bind (write_stvec (kernel_vector P)) (\<lambda>_.
       bind current_task (\<lambda>task.
       bind (set_reg task TF_epc sepc) (\<lambda>_.
       bind (handle_user_cause P task trap_cause) (\<lambda>_.
       user_trap_return P)))))))"

definition kernel_trap :: "'z kernel_scheme platform \<Rightarrow> (unit, 'z kernel_scheme) run" where
  "kernel_trap P =
     bind read_sepc (\<lambda>sepc.
     bind read_sstatus (\<lambda>sstatus.
     bind (supervisor_trap_cause P) (\<lambda>trap_cause.
     if sstatus AND SSTATUS_SPP = 0 then raise (Panic ''kernel_trap: not in supervisor mode'')
     else
       bind (gets interrupt_status) (\<lambda>on.
       if on then raise (Panic ''kernel_trap: interrupts enabled in supervisor mode'')
       else
         bind (case trap_cause of TIMER \<Rightarrow> yield P | _ \<Rightarrow> return ()) (\<lambda>_.
         bind (write_sepc sepc) (\<lambda>_.
         write_sstatus sstatus))))))"

section \<open>The kernel's page table\<close>

definition make_kernel_pagetable :: "'z kernel_scheme platform \<Rightarrow> (unit, 'z kernel_scheme) run" where
  "make_kernel_pagetable P =
     bind (allocate 0) (\<lambda>pt.
     bind (modify (\<lambda>s. s\<lparr>kernel_pagetable := pt\<rparr>)) (\<lambda>_.
     if pt = 0 then raise (Panic ''make_kernel_pagetable: page table allocate failed'')
     else
       bind (do_memset pt 0 PGSIZE) (\<lambda>_.
       let rw = PTE_R OR PTE_W; rx = PTE_R OR PTE_X in
       bind (kernel_map_pages pt VIRT_TEST VIRT_TEST PGSIZE rw) (\<lambda>_.
       bind (kernel_map_pages pt UART0 UART0 PGSIZE rw) (\<lambda>_.
       bind (kernel_map_pages pt VIRTIO0 VIRTIO0 PGSIZE rw) (\<lambda>_.
       bind (kernel_map_pages pt PLIC PLIC 0x400000 rw) (\<lambda>_.
       bind (kernel_map_pages pt KERNBASE KERNBASE (etext P - KERNBASE) rx) (\<lambda>_.
       bind (kernel_map_pages pt (etext P) (etext P) (PHYSTOP - etext P) rw) (\<lambda>_.
       kernel_map_pages pt TRAMPOLINE (trampoline P) PGSIZE rx)))))))))"

definition init_kernel_pagetable :: "'z kernel_scheme platform \<Rightarrow> (unit, 'z kernel_scheme) run" where
  "init_kernel_pagetable P =
     bind (make_kernel_pagetable P) (\<lambda>_.
     bind sfence_vma (\<lambda>_.
     bind (gets kernel_pagetable) (\<lambda>pt.
     bind (write_satp (MAKE_SATP pt)) (\<lambda>_.
     sfence_vma))))"

section \<open>Start-up\<close>

text \<open>
  \<open>establish_page_table\<close>: entry \<open>i\<close> of the boot table maps the \<open>i\<close>th gigabyte to itself; \<open>n\<close>
  entries are left to be written.
\<close>

primrec boot_entries :: "addr \<Rightarrow> nat \<Rightarrow> (unit, 'z kernel_scheme) run" where
  "boot_entries pagetable 0 = return ()"
| "boot_entries pagetable (Suc n) =
     (let i = of_nat (512 - Suc n) :: uint64 in
      bind (set_field pagetable (8 * i) (push_bit 28 i OR 0xf)) (\<lambda>_.
      boot_entries pagetable n))"

definition establish_page_table :: "'z kernel_scheme platform \<Rightarrow> (unit, 'z kernel_scheme) run" where
  "establish_page_table P = boot_entries (boot_pagetable P) 512"

definition init_timer :: "'z kernel_scheme platform \<Rightarrow> (unit, 'z kernel_scheme) run" where
  "init_timer P =
     (let interval = 1000000; scratch = timer_scratch P in
      bind (mmio_read64 P CLINT_MTIME) (\<lambda>t.
      bind (mmio_write64 P (CLINT_MTIMECMP 0) (t + interval)) (\<lambda>_.
      bind (set_field scratch (8 * 3) (CLINT_MTIMECMP 0)) (\<lambda>_.
      bind (set_field scratch (8 * 4) interval) (\<lambda>_.
      bind (write_mscratch scratch) (\<lambda>_.
      bind (write_mtvec (timer_vector P)) (\<lambda>_.
      bind read_mstatus (\<lambda>x.
      bind (write_mstatus (x OR MSTATUS_MIE)) (\<lambda>_.
      bind read_mie (\<lambda>x.
      write_mie (x OR MIE_MTIE)))))))))))"

definition start :: "'z kernel_scheme platform \<Rightarrow> (unit, 'z kernel_scheme) run" where
  "start P =
     (let done = print_string P (literal P ''Done.\<newline>''); say = (\<lambda>msg. print_string P (literal P msg)) in
      bind (uart_init P) (\<lambda>_.
      bind (say ''Entering kernel...\<newline>'') (\<lambda>_.
      bind (say ''Establishing page table... '') (\<lambda>_.
      bind (establish_page_table P) (\<lambda>_.
      bind done (\<lambda>_.
      bind (say ''Setting mstatus... '') (\<lambda>_.
      bind read_mstatus (\<lambda>x.
      bind (write_mstatus ((x AND NOT MSTATUS_MPP_MASK) OR MSTATUS_MPP_S)) (\<lambda>_.
      bind done (\<lambda>_.
      bind (say ''Setting things for interruption... '') (\<lambda>_.
      bind (write_medeleg 0xffff) (\<lambda>_.
      bind (write_mideleg 0xffff) (\<lambda>_.
      bind read_sie (\<lambda>x.
      bind (write_sie (x OR SIE_SEIE OR SIE_STIE OR SIE_SSIE)) (\<lambda>_.
      bind done (\<lambda>_.
      bind (say ''Setting PMP... '') (\<lambda>_.
      bind (write_pmpaddr0 0x3fffffffffffff) (\<lambda>_.
      bind (write_pmpcfg0 0xf) (\<lambda>_.
      bind done (\<lambda>_.
      bind (say ''Enabling paging... '') (\<lambda>_.
      bind (write_satp (drop_bit 12 (boot_pagetable P) OR SATP_SV39)) (\<lambda>_.
      bind read_sstatus (\<lambda>x.
      bind (write_sstatus ((x OR SSTATUS_SPP) AND NOT SSTATUS_SIE)) (\<lambda>_.
      bind done (\<lambda>_.
      bind (write_mepc (main_entry P)) (\<lambda>_.
      bind (say ''Setting timer... '') (\<lambda>_.
      bind (init_timer P) (\<lambda>_.
      bind done (\<lambda>_.
      mret P)))))))))))))))))))))))))))))"

text \<open>\<open>main\<close>; \<open>test()\<close> behind the endless \<open>scheduler()\<close> is not reached.\<close>

definition main :: "'z kernel_scheme platform \<Rightarrow> (unit, 'z kernel_scheme) run" where
  "main P =
     (let say = (\<lambda>msg. print_string P (literal P msg)) in
      bind (say ''Switch to supervisor mode.\<newline>'') (\<lambda>_.
      bind (say ''Initialize memory buddy system... '') (\<lambda>_.
      bind (init_mem_manage (kernel_end P)) (\<lambda>_.
      bind (say ''Done.\<newline>'') (\<lambda>_.
      bind (say ''Changing page table... '') (\<lambda>_.
      bind (init_kernel_pagetable P) (\<lambda>_.
      bind (say ''Done.\<newline>'') (\<lambda>_.
      bind (plicinit P) (\<lambda>_.
      bind (plicinithart P) (\<lambda>_.
      bind (init_scheduler P) (\<lambda>_.
      scheduler P)))))))))))"

end
