(* ===== verification/Assembly.thy ===== *)
theory Assembly
  imports Traps
begin

text \<open>
  The assembly files \<open>kernel/switch.S\<close>, \<open>kernel/trampoline.S\<close>, \<open>kernel/kernel_vectors.S\<close>,
  \<open>kernel/entry.S\<close> and \<open>user/syscall.S\<close> as instruction lists, the instructions they use, the
  address translation their loads and stores go through, and the accessors of
  \<open>kernel/riscv.h\<close> for registers the C code has no other name for.

  The state extends the kernel's with the registers of the hart, so that C code and assembly
  run on the same state. Instruction fetch is not modelled: \<open>pc\<close> is the address of the code
  that runs until an instruction transfers control, and a list ends where control leaves it.
  The accessed and dirty bits of page table entries are not modelled.
\<close>

named_theorems asm_simps \<open>executing instructions\<close>

section \<open>Registers\<close>

datatype reg = RA | SP | GP | TP | T0 | T1 | T2 | S0 | S1
  | A0 | A1 | A2 | A3 | A4 | A5 | A6 | A7
  | S2 | S3 | S4 | S5 | S6 | S7 | S8 | S9 | S10 | S11 | T3 | T4 | T5 | T6

datatype privilege = User_mode | Supervisor_mode | Machine_mode

record cpu = kernel +
  gpr :: "reg \<Rightarrow> uint64"
  pc :: addr
  priv :: privilege
  sscratch :: uint64
  mcounteren :: uint64
  time :: uint64

datatype csr = Sscratch | Satp | Mscratch | Sip

primrec get_csr :: "csr \<Rightarrow> 'z cpu_scheme \<Rightarrow> uint64" where
  "get_csr Sscratch c = sscratch c"
| "get_csr Satp c = satp c"
| "get_csr Mscratch c = mscratch c"
| "get_csr Sip c = sip c"

primrec set_csr :: "csr \<Rightarrow> uint64 \<Rightarrow> 'z cpu_scheme \<Rightarrow> 'z cpu_scheme" where
  "set_csr Sscratch v c = c\<lparr>sscratch := v\<rparr>"
| "set_csr Satp v c = c\<lparr>satp := v\<rparr>"
| "set_csr Mscratch v c = c\<lparr>mscratch := v\<rparr>"
| "set_csr Sip v c = c\<lparr>sip := v\<rparr>"

definition set_gpr :: "reg \<Rightarrow> uint64 \<Rightarrow> 'z cpu_scheme \<Rightarrow> 'z cpu_scheme" where
  "set_gpr r v c = c\<lparr>gpr := (gpr c)(r := v)\<rparr>"

text \<open>The accessors of \<open>kernel/riscv.h\<close> that no C code of the kernel calls.\<close>

definition read_medeleg :: "(uint64, 'z cpu_scheme) run" where
  "read_medeleg = gets medeleg"

definition read_mideleg :: "(uint64, 'z cpu_scheme) run" where
  "read_mideleg = gets mideleg"

definition read_stvec :: "(uint64, 'z cpu_scheme) run" where
  "read_stvec = gets stvec"

definition write_mcounteren :: "uint64 \<Rightarrow> (unit, 'z cpu_scheme) run" where
  "write_mcounteren x = modify (\<lambda>c. c\<lparr>mcounteren := x\<rparr>)"

definition read_mcounteren :: "(uint64, 'z cpu_scheme) run" where
  "read_mcounteren = gets mcounteren"

definition read_time :: "(uint64, 'z cpu_scheme) run" where
  "read_time = gets time"

definition read_sp :: "(uint64, 'z cpu_scheme) run" where
  "read_sp = gets (\<lambda>c. gpr c SP)"

definition read_tp :: "(uint64, 'z cpu_scheme) run" where
  "read_tp = gets (\<lambda>c. gpr c TP)"

definition write_tp :: "uint64 \<Rightarrow> (unit, 'z cpu_scheme) run" where
  "write_tp x = modify (set_gpr TP x)"

definition read_ra :: "(uint64, 'z cpu_scheme) run" where
  "read_ra = gets (\<lambda>c. gpr c RA)"

section \<open>Address translation\<close>

text \<open>
  The Sv39 walk of the hardware: an entry is refused when it is not valid, has a reserved
  bit set or is writable but not readable; an entry with a permission bit is a leaf, also
  above the lowest level. The result is the level of the leaf and the leaf.
\<close>

definition pte_refused :: "uint64 \<Rightarrow> bool" where
  "pte_refused e \<longleftrightarrow> e AND PTE_V = 0 \<or> drop_bit 54 e \<noteq> 0 \<or> e AND PTE_W \<noteq> 0 \<and> e AND PTE_R = 0"

definition pte_is_leaf :: "uint64 \<Rightarrow> bool" where
  "pte_is_leaf e \<longleftrightarrow> e AND (PTE_R OR PTE_W OR PTE_X) \<noteq> 0"

primrec sv39_walk :: "nat \<Rightarrow> memory \<Rightarrow> addr \<Rightarrow> uint64 \<Rightarrow> (nat \<times> uint64) option" where
  "sv39_walk 0 m table va =
     (let e = load64 m (table + 8 * PX 0 va) in
      if pte_refused e \<or> \<not> pte_is_leaf e then None else Some (0, e))"
| "sv39_walk (Suc l) m table va =
     (let e = load64 m (table + 8 * PX (Suc l) va) in
      if pte_refused e then None
      else if pte_is_leaf e then Some (Suc l, e)
      else sv39_walk l m (PTE2PA e) va)"

datatype access = Load | Store

text \<open>\<open>sstatus.SUM\<close> and \<open>sstatus.MXR\<close>, which the kernel never sets, are taken as clear.\<close>

definition permits :: "privilege \<Rightarrow> access \<Rightarrow> uint64 \<Rightarrow> bool" where
  "permits p acc e \<longleftrightarrow>
     e AND (case acc of Load \<Rightarrow> PTE_R | Store \<Rightarrow> PTE_W) \<noteq> 0 \<and>
     (e AND PTE_U \<noteq> 0 \<longleftrightarrow> p = User_mode)"

text \<open>
  Machine mode and bare mode do not translate. \<open>satp\<close> has the mode in its top four bits and
  the page number of the root in its low 44 bits; an address whose bits 63 to 39 are not
  copies of bit 38 faults.
\<close>

definition translate :: "memory \<Rightarrow> uint64 \<Rightarrow> privilege \<Rightarrow> access \<Rightarrow> addr \<Rightarrow> addr option" where
  "translate m atp p acc va =
     (if p = Machine_mode \<or> drop_bit 60 atp = 0 then Some va
      else if drop_bit 60 atp \<noteq> 8 \<or> signed_take_bit 38 va \<noteq> va then None
      else
        case sv39_walk 2 m (push_bit 12 (take_bit 44 atp)) va of
          None \<Rightarrow> None
        | Some (l, e) \<Rightarrow>
            if permits p acc e \<and> take_bit (12 + 9 * l) (PTE2PA e) = 0
            then Some (PTE2PA e OR take_bit (12 + 9 * l) va) else None)"

section \<open>Instructions\<close>

datatype instr =
    Sd reg uint64 reg
  | Ld reg uint64 reg
  | Li reg uint64
  | La reg uint64
  | Addi reg reg uint64
  | Add reg reg reg
  | Csrw csr reg
  | Csrr reg csr
  | Csrrw reg csr reg
  | Sfence_vma
  | Call string
  | Jr reg
  | Ret
  | Sret
  | Mret
  | Ecall

text \<open>
  A load or store of eight bytes; a misaligned one and one the translation refuses is a trap
  inside the assembly code, which none of it is written for: the run has no result.
\<close>

definition load_at :: "addr \<Rightarrow> 'z cpu_scheme \<Rightarrow> uint64 option" where
  "load_at va c =
     (if \<not> aligned8 va then None
      else map_option (load64 (mem c)) (translate (mem c) (satp c) (priv c) Load va))"

definition store_at :: "addr \<Rightarrow> uint64 \<Rightarrow> 'z cpu_scheme \<Rightarrow> 'z cpu_scheme option" where
  "store_at va v c =
     (if \<not> aligned8 va then None
      else map_option (\<lambda>pa. c\<lparr>mem := store64 (mem c) pa v\<rparr>) (translate (mem c) (satp c) (priv c) Store va))"

text \<open>
  Returns from a trap and the trap of \<open>ecall\<close>: the privilege and the interrupt enable of the
  level move between the status register and its \<open>previous\<close> fields.
\<close>

definition SSTATUS_put :: "bool \<Rightarrow> uint64 \<Rightarrow> uint64 \<Rightarrow> uint64" where
  "SSTATUS_put b f x = (if b then x OR f else x AND NOT f)"

definition MSTATUS_MPIE :: uint64 where "MSTATUS_MPIE = push_bit 7 1"

definition sret :: "'z cpu_scheme \<Rightarrow> 'z cpu_scheme" where
  "sret c =
     (let x = sstatus c in
      c\<lparr>pc := sepc c,
        priv := (if x AND SSTATUS_SPP \<noteq> 0 then Supervisor_mode else User_mode),
        sstatus := SSTATUS_put (x AND SSTATUS_SPIE \<noteq> 0) SSTATUS_SIE ((x OR SSTATUS_SPIE) AND NOT SSTATUS_SPP)\<rparr>)"

definition mret_to :: "'z cpu_scheme \<Rightarrow> 'z cpu_scheme" where
  "mret_to c =
     (let x = mstatus c; mpp = x AND MSTATUS_MPP_MASK in
      c\<lparr>pc := mepc c,
        priv := (if mpp = MSTATUS_MPP_MASK then Machine_mode
                 else if mpp = MSTATUS_MPP_S then Supervisor_mode else User_mode),
        mstatus := SSTATUS_put (x AND MSTATUS_MPIE \<noteq> 0) MSTATUS_MIE ((x OR MSTATUS_MPIE) AND NOT MSTATUS_MPP_MASK)\<rparr>)"

definition trap_to_supervisor :: "uint64 \<Rightarrow> 'z cpu_scheme \<Rightarrow> 'z cpu_scheme" where
  "trap_to_supervisor code c =
     (let x = sstatus c in
      c\<lparr>pc := stvec c, priv := Supervisor_mode, sepc := pc c, scause := code,
        sstatus := SSTATUS_put (priv c = Supervisor_mode) SSTATUS_SPP
          (SSTATUS_put (x AND SSTATUS_SIE \<noteq> 0) SSTATUS_SPIE (x AND NOT SSTATUS_SIE))\<rparr>)"

text \<open>
  One instruction. \<open>funs f\<close> is the run of the C function \<open>f\<close> from the call to its return.
  Flushing the TLB changes nothing, since translations are not cached in the model.
\<close>

type_synonym 's callees = "string \<Rightarrow> 's \<Rightarrow> 's option"

primrec exec1 :: "'z cpu_scheme callees \<Rightarrow> instr \<Rightarrow> 'z cpu_scheme \<Rightarrow> 'z cpu_scheme option" where
  "exec1 funs (Sd r off b) c = store_at (gpr c b + off) (gpr c r) c"
| "exec1 funs (Ld r off b) c = map_option (\<lambda>v. set_gpr r v c) (load_at (gpr c b + off) c)"
| "exec1 funs (Li r v) c = Some (set_gpr r v c)"
| "exec1 funs (La r v) c = Some (set_gpr r v c)"
| "exec1 funs (Addi r a v) c = Some (set_gpr r (gpr c a + v) c)"
| "exec1 funs (Add r a b) c = Some (set_gpr r (gpr c a + gpr c b) c)"
| "exec1 funs (Csrw x r) c = Some (set_csr x (gpr c r) c)"
| "exec1 funs (Csrr r x) c = Some (set_gpr r (get_csr x c) c)"
| "exec1 funs (Csrrw r x a) c = Some (set_gpr r (get_csr x c) (set_csr x (gpr c a) c))"
| "exec1 funs Sfence_vma c = Some c"
| "exec1 funs (Call f) c = funs f c"
| "exec1 funs (Jr r) c = Some (c\<lparr>pc := gpr c r\<rparr>)"
| "exec1 funs Ret c = Some (c\<lparr>pc := gpr c RA\<rparr>)"
| "exec1 funs Sret c = (if priv c = User_mode then None else Some (sret c))"
| "exec1 funs Mret c = (if priv c = Machine_mode then Some (mret_to c) else None)"
| "exec1 funs Ecall c = (if priv c = User_mode then Some (trap_to_supervisor 8 c) else None)"

text \<open>Instructions after which the list does not go on.\<close>

primrec transfers :: "instr \<Rightarrow> bool" where
  "transfers (Sd r off b) = False"
| "transfers (Ld r off b) = False"
| "transfers (Li r v) = False"
| "transfers (La r v) = False"
| "transfers (Addi r a v) = False"
| "transfers (Add r a b) = False"
| "transfers (Csrw x r) = False"
| "transfers (Csrr r x) = False"
| "transfers (Csrrw r x a) = False"
| "transfers Sfence_vma = False"
| "transfers (Call f) = False"
| "transfers (Jr r) = True"
| "transfers Ret = True"
| "transfers Sret = True"
| "transfers Mret = True"
| "transfers Ecall = True"

primrec exec_asm :: "'z cpu_scheme callees \<Rightarrow> instr list \<Rightarrow> 'z cpu_scheme \<Rightarrow> 'z cpu_scheme option" where
  "exec_asm funs [] c = Some c"
| "exec_asm funs (i # prog) c =
     (case exec1 funs i c of
        None \<Rightarrow> None
      | Some c' \<Rightarrow> if transfers i then Some c' else exec_asm funs prog c')"

section \<open>The listings\<close>

definition switch_context_asm :: "instr list" where
  "switch_context_asm =
     [Sd RA 0 A0, Sd SP 8 A0, Sd S0 16 A0, Sd S1 24 A0, Sd S2 32 A0, Sd S3 40 A0, Sd S4 48 A0,
      Sd S5 56 A0, Sd S6 64 A0, Sd S7 72 A0, Sd S8 80 A0, Sd S9 88 A0, Sd S10 96 A0, Sd S11 104 A0,
      Ld RA 0 A1, Ld SP 8 A1, Ld S0 16 A1, Ld S1 24 A1, Ld S2 32 A1, Ld S3 40 A1, Ld S4 48 A1,
      Ld S5 56 A1, Ld S6 64 A1, Ld S7 72 A1, Ld S8 80 A1, Ld S9 88 A1, Ld S10 96 A1, Ld S11 104 A1, Ret]"

definition user_vector_asm :: "instr list" where
  "user_vector_asm =
     [Csrw Sscratch A0, Li A0 TRAPFRAME, Sd RA 40 A0, Sd SP 48 A0, Sd GP 56 A0, Sd TP 64 A0,
      Sd T0 72 A0, Sd T1 80 A0, Sd T2 88 A0, Sd S0 96 A0, Sd S1 104 A0, Sd A1 120 A0, Sd A2 128 A0,
      Sd A3 136 A0, Sd A4 144 A0, Sd A5 152 A0, Sd A6 160 A0, Sd A7 168 A0, Sd S2 176 A0, Sd S3 184 A0,
      Sd S4 192 A0, Sd S5 200 A0, Sd S6 208 A0, Sd S7 216 A0, Sd S8 224 A0, Sd S9 232 A0,
      Sd S10 240 A0, Sd S11 248 A0, Sd T3 256 A0, Sd T4 264 A0, Sd T5 272 A0, Sd T6 280 A0,
      Csrr T0 Sscratch, Sd T0 112 A0, Ld SP 8 A0, Ld TP 32 A0, Ld T0 16 A0, Ld T1 0 A0, Sfence_vma,
      Csrw Satp T1, Sfence_vma, Jr T0]"

definition user_return_asm :: "instr list" where
  "user_return_asm =
     [Sfence_vma, Csrw Satp A0, Sfence_vma, Li A0 TRAPFRAME, Ld RA 40 A0, Ld SP 48 A0, Ld GP 56 A0,
      Ld TP 64 A0, Ld T0 72 A0, Ld T1 80 A0, Ld T2 88 A0, Ld S0 96 A0, Ld S1 104 A0, Ld A1 120 A0,
      Ld A2 128 A0, Ld A3 136 A0, Ld A4 144 A0, Ld A5 152 A0, Ld A6 160 A0, Ld A7 168 A0, Ld S2 176 A0,
      Ld S3 184 A0, Ld S4 192 A0, Ld S5 200 A0, Ld S6 208 A0, Ld S7 216 A0, Ld S8 224 A0, Ld S9 232 A0,
      Ld S10 240 A0, Ld S11 248 A0, Ld T3 256 A0, Ld T4 264 A0, Ld T5 272 A0, Ld T6 280 A0,
      Ld A0 112 A0, Sret]"

definition kernel_vector_asm :: "instr list" where
  "kernel_vector_asm =
     [Addi SP SP (-256), Sd RA 0 SP, Sd SP 8 SP, Sd GP 16 SP, Sd TP 24 SP, Sd T0 32 SP, Sd T1 40 SP,
      Sd T2 48 SP, Sd S0 56 SP, Sd S1 64 SP, Sd A0 72 SP, Sd A1 80 SP, Sd A2 88 SP, Sd A3 96 SP,
      Sd A4 104 SP, Sd A5 112 SP, Sd A6 120 SP, Sd A7 128 SP, Sd S2 136 SP, Sd S3 144 SP, Sd S4 152 SP,
      Sd S5 160 SP, Sd S6 168 SP, Sd S7 176 SP, Sd S8 184 SP, Sd S9 192 SP, Sd S10 200 SP,
      Sd S11 208 SP, Sd T3 216 SP, Sd T4 224 SP, Sd T5 232 SP, Sd T6 240 SP, Call ''kernel_trap'',
      Ld RA 0 SP, Ld SP 8 SP, Ld GP 16 SP, Ld TP 24 SP, Ld T0 32 SP, Ld T1 40 SP, Ld T2 48 SP,
      Ld S0 56 SP, Ld S1 64 SP, Ld A0 72 SP, Ld A1 80 SP, Ld A2 88 SP, Ld A3 96 SP, Ld A4 104 SP,
      Ld A5 112 SP, Ld A6 120 SP, Ld A7 128 SP, Ld S2 136 SP, Ld S3 144 SP, Ld S4 152 SP, Ld S5 160 SP,
      Ld S6 168 SP, Ld S7 176 SP, Ld S8 184 SP, Ld S9 192 SP, Ld S10 200 SP, Ld S11 208 SP,
      Ld T3 216 SP, Ld T4 224 SP, Ld T5 232 SP, Ld T6 240 SP, Addi SP SP 256, Sret]"

definition timer_vector_asm :: "instr list" where
  "timer_vector_asm =
     [Csrrw A0 Mscratch A0, Sd A1 0 A0, Sd A2 8 A0, Sd A3 16 A0, Ld A1 24 A0, Ld A2 32 A0, Ld A3 0 A1,
      Add A3 A3 A2, Sd A3 0 A1, Li A1 2, Csrw Sip A1, Ld A3 16 A0, Ld A2 8 A0, Ld A1 0 A0,
      Csrrw A0 Mscratch A0, Mret]"

text \<open>\<open>entry.S\<close>, up to the endless loop behind \<open>start\<close>; \<open>user/syscall.S\<close>.\<close>

definition entry_asm :: "addr \<Rightarrow> instr list" where
  "entry_asm stack_top = [La SP stack_top, Call ''start'']"

definition get_kernel_end_asm :: "'s platform \<Rightarrow> instr list" where
  "get_kernel_end_asm P = [La A0 (kernel_end P), Ret]"

definition syscall_asm :: "instr list" where
  "syscall_asm = [Ecall, Ret]"

section \<open>Runs of saves and loads\<close>

text \<open>The bytes of \<open>n\<close> bytes from an address.\<close>

definition span :: "addr \<Rightarrow> uint64 \<Rightarrow> addr set" where
  "span a n = {x. x - a < n}"

text \<open>
  The \<open>n\<close> bytes from \<open>va\<close> are translated to those from \<open>pa\<close>, whatever is written into \<open>W\<close>.
\<close>

definition reaches :: "'z cpu_scheme \<Rightarrow> addr set \<Rightarrow> access \<Rightarrow> addr \<Rightarrow> addr \<Rightarrow> uint64 \<Rightarrow> bool" where
  "reaches c W acc va pa n \<longleftrightarrow>
     (\<forall>m'. (\<forall>x. x \<notin> W \<longrightarrow> m' x = mem c x) \<longrightarrow>
       (\<forall>off<n. translate m' (satp c) (priv c) acc (va + off) = Some (pa + off)))"

lemma reaches_bare:
  "priv c = Machine_mode \<or> drop_bit 60 (satp c) = 0 \<Longrightarrow> reaches c W acc a a n"
  by (simp add: reaches_def translate_def)

lemma reaches_cong:
  assumes "reaches c W acc va pa n" and "\<forall>x. x \<notin> W \<longrightarrow> mem d x = mem c x"
    and "satp d = satp c" and "priv d = priv c"
  shows "reaches d W acc va pa n"
  using assms by (auto simp: reaches_def)

definition saves :: "reg \<Rightarrow> (reg \<times> uint64) list \<Rightarrow> instr list" where
  "saves b tab = map (\<lambda>(r, off). Sd r off b) tab"

definition loads :: "reg \<Rightarrow> (reg \<times> uint64) list \<Rightarrow> instr list" where
  "loads b tab = map (\<lambda>(r, off). Ld r off b) tab"

text \<open>Memory after the saves and registers after the loads.\<close>

primrec saved :: "memory \<Rightarrow> (reg \<Rightarrow> uint64) \<Rightarrow> addr \<Rightarrow> (reg \<times> uint64) list \<Rightarrow> memory" where
  "saved m g pa [] = m"
| "saved m g pa (x # tab) = saved (store64 m (pa + snd x) (g (fst x))) g pa tab"

primrec loaded :: "memory \<Rightarrow> (reg \<Rightarrow> uint64) \<Rightarrow> addr \<Rightarrow> (reg \<times> uint64) list \<Rightarrow> reg \<Rightarrow> uint64" where
  "loaded m g pa [] = g"
| "loaded m g pa (x # tab) = loaded m (g(fst x := load64 m (pa + snd x))) pa tab"

text \<open>A table of cells within \<open>n\<close> bytes.\<close>

definition cells_in :: "uint64 \<Rightarrow> (reg \<times> uint64) list \<Rightarrow> bool" where
  "cells_in n tab \<longleftrightarrow> list_all (\<lambda>(r, off). aligned8 off \<and> unat off + 8 \<le> unat n) tab"

lemma aligned8_num: "aligned8 (numeral n) \<longleftrightarrow> 8 dvd unat (numeral n :: uint64)" "aligned8 0"
  by (simp_all add: aligned8_def)

lemma cells_in_simps [simp]:
  "cells_in n []"
  "cells_in n ((r, off) # tab) \<longleftrightarrow> aligned8 off \<and> unat off + 8 \<le> unat n \<and> cells_in n tab"
  by (simp_all add: cells_in_def)

lemma cell_in_span:
  assumes "unat off + 8 \<le> unat n" and "x - (pa + off) < 8"
  shows "x \<in> span pa n"
proof -
  have "unat (x - (pa + off)) < 8" using assms(2) by (simp add: word_less_nat_alt)
  moreover have "unat (off + (x - (pa + off))) = unat off + unat (x - (pa + off))"
    using assms(1) calculation unat_lt_64 [of n] by (intro unat_add_no_overflow) simp
  moreover have "off + (x - (pa + off)) = x - pa" by simp
  ultimately show ?thesis using assms(1) by (simp add: span_def word_less_nat_alt)
qed

lemma store_in_span:
  "unat off + 8 \<le> unat n \<Longrightarrow> x \<notin> span pa n \<Longrightarrow> store64 m (pa + off) v x = m x"
  using cell_in_span [of off n x pa] by (auto simp: store64_def)

lemma saved_outside: "cells_in n tab \<Longrightarrow> x \<notin> span pa n \<Longrightarrow> saved m g pa tab x = m x"
proof (induction tab arbitrary: m)
  case (Cons y tab)
  then show ?case using store_in_span [of "snd y" n x pa m] by (cases y) simp
qed simp

lemma exec_append:
  "\<not> list_ex transfers prog \<Longrightarrow>
   exec_asm funs (prog @ rest) c =
     (case exec_asm funs prog c of None \<Rightarrow> None | Some c' \<Rightarrow> exec_asm funs rest c')"
  by (induction prog arbitrary: c) (auto split: option.splits)

text \<open>The saves write the table, and nothing else.\<close>

lemma exec_saves:
  assumes "reaches c W Store va pa n" and "span pa n \<subseteq> W" and "gpr c b = va"
    and "aligned8 va" and "cells_in n tab"
  shows "exec_asm funs (saves b tab @ rest) c = exec_asm funs rest (c\<lparr>mem := saved (mem c) (gpr c) pa tab\<rparr>)"
  using assms
proof (induction tab arbitrary: c)
  case Nil
  then show ?case by (simp add: saves_def)
next
  case (Cons x tab)
  obtain r off where x: "x = (r, off)" by (cases x)
  let ?c = "c\<lparr>mem := store64 (mem c) (pa + off) (gpr c r)\<rparr>"
  have off: "aligned8 off" "unat off + 8 \<le> unat n" "cells_in n tab" using Cons.prems(5) x by auto
  then have "off < n" by (simp add: word_less_nat_alt)
  then have "translate (mem c) (satp c) (priv c) Store (va + off) = Some (pa + off)"
    using Cons.prems(1) by (simp add: reaches_def)
  then have "exec_asm funs (Sd r off b # p) c = exec_asm funs p ?c" for p
    using off(1) Cons.prems(3,4) by (simp add: store_at_def)
  moreover have "reaches ?c W Store va pa n"
    using Cons.prems(1,2) off(2) by (intro reaches_cong [OF Cons.prems(1)]) (auto intro!: store_in_span [of off n])
  ultimately show ?case
    using Cons.IH [of ?c] Cons.prems(2,3,4) off(3) x by (simp add: saves_def del: exec_asm.simps)
qed

lemma exec_loads:
  assumes "reaches c W Load va pa n" and "gpr c b = va" and "aligned8 va"
    and "cells_in n tab" and "b \<notin> fst ` set tab"
  shows "exec_asm funs (loads b tab @ rest) c = exec_asm funs rest (c\<lparr>gpr := loaded (mem c) (gpr c) pa tab\<rparr>)"
  using assms
proof (induction tab arbitrary: c)
  case Nil
  then show ?case by (simp add: loads_def)
next
  case (Cons x tab)
  obtain r off where x: "x = (r, off)" by (cases x)
  let ?c = "c\<lparr>gpr := (gpr c)(r := load64 (mem c) (pa + off))\<rparr>"
  have off: "aligned8 off" "unat off + 8 \<le> unat n" "cells_in n tab" using Cons.prems(4) x by auto
  then have "off < n" by (simp add: word_less_nat_alt)
  then have "translate (mem c) (satp c) (priv c) Load (va + off) = Some (pa + off)"
    using Cons.prems(1) by (simp add: reaches_def)
  then have "exec_asm funs (Ld r off b # p) c = exec_asm funs p ?c" for p
    using off(1) Cons.prems(2,3) by (simp add: load_at_def set_gpr_def)
  moreover have "reaches ?c W Load va pa n" using Cons.prems(1) by (simp add: reaches_def)
  ultimately show ?case
    using Cons.IH [of ?c] Cons.prems(2,3,5) off(3) x by (simp add: loads_def fun_upd_def del: exec_asm.simps)
qed

text \<open>What a table of saves leaves in memory, and what a table of loads leaves in the registers.\<close>

lemma saved_other:
  assumes "cells_in n tab" and "aligned8 pa" and "aligned8 off" and "off \<notin> snd ` set tab"
  shows "load64 (saved m g pa tab) (pa + off) = load64 m (pa + off)"
  using assms
proof (induction tab arbitrary: m)
  case (Cons y tab)
  then show ?case by (cases y) (auto simp: load64_store64_aligned)
qed simp

lemma saved_cell:
  assumes "cells_in n tab" and "aligned8 pa" and "distinct (map snd tab)" and "(r, off) \<in> set tab"
  shows "load64 (saved m g pa tab) (pa + off) = g r"
  using assms
proof (induction tab arbitrary: m)
  case (Cons y tab)
  show ?case
  proof (cases "y = (r, off)")
    case True
    with Cons.prems show ?thesis using saved_other [of n tab pa off "store64 m (pa + off) (g r)" g] by simp
  next
    case False
    with Cons show ?thesis by (cases y) auto
  qed
qed simp

lemma loaded_other: "r \<notin> fst ` set tab \<Longrightarrow> loaded m g pa tab r = g r"
  by (induction tab arbitrary: g) auto

lemma loaded_cell:
  "distinct (map fst tab) \<Longrightarrow> (r, off) \<in> set tab \<Longrightarrow> loaded m g pa tab r = load64 m (pa + off)"
proof (induction tab arbitrary: g)
  case (Cons y tab)
  then show ?case by (cases y) (auto simp: loaded_other dest: in_set_takeD image_eqI)
qed simp

text \<open>A hart with all registers zero, for witnesses.\<close>

definition cpu_zero :: cpu where
  "cpu_zero = kernel.extend kernel_zero (cpu.fields (\<lambda>_. 0) 0 Supervisor_mode 0 0 0)"

lemma cpu_zero_simps [simp]:
  "mem cpu_zero = (\<lambda>_. 0)" "sstatus cpu_zero = 0" "satp cpu_zero = 0" "priv cpu_zero = Supervisor_mode"
  "gpr cpu_zero = (\<lambda>_. 0)" "mstatus cpu_zero = 0" "mscratch cpu_zero = 0" "mepc cpu_zero = 0" "sepc cpu_zero = 0"
  by (simp_all add: cpu_zero_def kernel.extend_def cpu.fields_def kernel_zero_def)

text \<open>A platform whose CLINT is in memory.\<close>

definition clint_platform :: "cpu platform" where
  "clint_platform =
     \<lparr>mmio_read8 = (\<lambda>_. return 0), mmio_write8 = (\<lambda>_ _. return ()),
      mmio_read32 = (\<lambda>_. return 0), mmio_write32 = (\<lambda>_ _. return ()),
      mmio_read64 = read64, mmio_write64 = write64,
      switch_context = (\<lambda>_ _. return ()), enter_user = (\<lambda>_ _. return ()), wfi = return (), mret = return (),
      literal = (\<lambda>_. 64), trampoline = 0x80000000, user_vector = 0x80000000, user_return = 0x80000100,
      kernel_vector = 0x80002000, timer_vector = 0x80002100, user_trap_entry = 0x80003000,
      user_trap_return_entry = 0x80003100, main_entry = 0x80003200, etext = 0x80005000, kernel_end = 0x80011000,
      init_program = 0x80006000, sh_program = 0x80007000, echo_program = 0x80008000, now_context = 0x80009000,
      boot_pagetable = 0x8000a000, timer_scratch = 0x8000b000\<rparr>"

end
