(* ===== verification/Context_Switch.thy ===== *)
theory Context_Switch
  imports Assembly
begin

text \<open>
  \<open>switch_context\<close>, \<open>kernel_vector\<close> and \<open>timer_vector\<close>: what is saved is what is restored. The
  kernel runs with memory mapped to itself, which \<open>direct\<close> states of the bytes these routines
  touch.
\<close>

definition direct :: "'z cpu_scheme \<Rightarrow> addr set \<Rightarrow> addr \<Rightarrow> uint64 \<Rightarrow> bool" where
  "direct c W a n \<longleftrightarrow> (\<forall>acc. reaches c W acc a a n)"

lemma direct_cong:
  "direct c W a n \<Longrightarrow> (\<And>x. x \<notin> W \<Longrightarrow> mem d x = mem c x) \<Longrightarrow> satp d = satp c \<Longrightarrow> priv d = priv c \<Longrightarrow> direct d W a n"
  by (auto simp: direct_def intro: reaches_cong)

section \<open>Switching contexts\<close>

text \<open>\<open>struct context\<close>: the fourteen registers in the order of the struct.\<close>

definition context_cells :: "(reg \<times> uint64) list" where
  "context_cells = [(RA, 0), (SP, 8), (S0, 16), (S1, 24), (S2, 32), (S3, 40), (S4, 48),
     (S5, 56), (S6, 64), (S7, 72), (S8, 80), (S9, 88), (S10, 96), (S11, 104)]"

lemma switch_context_parts:
  "switch_context_asm = saves A0 context_cells @ loads A1 context_cells @ [Ret]"
  by (simp add: switch_context_asm_def context_cells_def saves_def loads_def)

lemma context_cells_ok:
  "cells_in 112 context_cells" "distinct (map snd context_cells)" "distinct (map fst context_cells)"
  "A1 \<notin> fst ` set context_cells" "(RA, cx_ra) \<in> set context_cells" "(SP, cx_sp) \<in> set context_cells"
  by (simp_all add: context_cells_def cells_in_def aligned8_num cx_ra_def cx_sp_def)

lemma switch_run:
  assumes "direct c (span old 112) old 112" and "direct c (span old 112) new 112"
    and "gpr c A0 = old" and "gpr c A1 = new" and "aligned8 old" and "aligned8 new"
  shows "exec_asm funs switch_context_asm c = Some
    (let m = saved (mem c) (gpr c) old context_cells; g = loaded m (gpr c) new context_cells in
     c\<lparr>mem := m, gpr := g, pc := g RA\<rparr>)"
proof -
  define c1 where "c1 = c\<lparr>mem := saved (mem c) (gpr c) old context_cells\<rparr>"
  have "direct c1 (span old 112) new 112"
    by (rule direct_cong [OF assms(2)]) (simp_all add: c1_def saved_outside [OF context_cells_ok(1)])
  then have r1: "reaches c1 (span old 112) Load new new 112" by (simp add: direct_def)
  have r: "reaches c (span old 112) Store old old 112" using assms(1) by (simp add: direct_def)
  have "exec_asm funs switch_context_asm c = exec_asm funs (loads A1 context_cells @ [Ret]) c1"
    unfolding switch_context_parts c1_def
    by (rule exec_saves [OF r subset_refl assms(3,5) context_cells_ok(1)])
  also have "\<dots> = exec_asm funs [Ret] (c1\<lparr>gpr := loaded (mem c1) (gpr c1) new context_cells\<rparr>)"
    using assms(4) by (intro exec_loads [OF r1 _ assms(6) context_cells_ok(1,4)]) (simp add: c1_def)
  finally show ?thesis by (simp add: c1_def Let_def)
qed

lemma load_in_span:
  assumes "\<And>x. x \<in> span a n \<Longrightarrow> m' x = m x" and "unat off + 8 \<le> unat n"
  shows "load64 m' (a + off) = load64 m (a + off)"
proof (rule load64_cong)
  fix i :: nat assume "i < 8"
  then have "a + off + of_nat i - (a + off) < 8" by (simp add: word_less_nat_alt unat_of_nat_64)
  from cell_in_span [OF assms(2) this] show "m' (a + off + of_nat i) = m (a + off + of_nat i)" by (rule assms(1))
qed

text \<open>A register outside the context keeps its value, those of the context come from the new one.\<close>

lemma switch_result:
  assumes "direct c (span old 112) old 112" and "direct c (span old 112) new 112"
    and "gpr c A0 = old" and "gpr c A1 = new" and "aligned8 old" and "aligned8 new"
    and apart: "span old 112 \<inter> span new 112 = {}"
  obtains c' where "exec_asm funs switch_context_asm c = Some c'"
    "\<And>r off. (r, off) \<in> set context_cells \<Longrightarrow> load64 (mem c') (old + off) = gpr c r"
    "\<And>r off. (r, off) \<in> set context_cells \<Longrightarrow> gpr c' r = load64 (mem c) (new + off)"
    "\<And>r. r \<notin> fst ` set context_cells \<Longrightarrow> gpr c' r = gpr c r"
    "\<And>x. x \<notin> span old 112 \<Longrightarrow> mem c' x = mem c x" "pc c' = gpr c' RA"
proof -
  define m where "m = saved (mem c) (gpr c) old context_cells"
  define g where "g = loaded m (gpr c) new context_cells"
  have run: "exec_asm funs switch_context_asm c = Some (c\<lparr>mem := m, gpr := g, pc := g RA\<rparr>)"
    using switch_run [OF assms(1-6)] by (simp add: m_def g_def Let_def)
  have out: "m x = mem c x" if "x \<notin> span old 112" for x
    using saved_outside [OF context_cells_ok(1) that] by (simp add: m_def)
  have off: "unat off + 8 \<le> unat (112 :: uint64)" if "(r, off) \<in> set context_cells" for r off
    using context_cells_ok(1) that by (auto simp: cells_in_def list_all_iff)
  show ?thesis
  proof (rule that [OF run])
    show "load64 (mem (c\<lparr>mem := m, gpr := g, pc := g RA\<rparr>)) (old + off) = gpr c r"
      if "(r, off) \<in> set context_cells" for r off
      using saved_cell [OF context_cells_ok(1) assms(5) context_cells_ok(2) that] by (simp add: m_def)
    show "gpr (c\<lparr>mem := m, gpr := g, pc := g RA\<rparr>) r = load64 (mem c) (new + off)"
      if "(r, off) \<in> set context_cells" for r off
    proof -
      have "load64 m (new + off) = load64 (mem c) (new + off)"
        using off [OF that] out apart by (intro load_in_span) auto
      then show ?thesis using loaded_cell [OF context_cells_ok(3) that] by (simp add: g_def)
    qed
    show "gpr (c\<lparr>mem := m, gpr := g, pc := g RA\<rparr>) r = gpr c r" if "r \<notin> fst ` set context_cells" for r
      using loaded_other [OF that] by (simp add: g_def)
  qed (simp_all add: out)
qed

text \<open>
  C33. \<open>switch_context old new\<close> saves the callee-saved registers, the stack pointer and the return
  address in \<open>old\<close>, takes them from \<open>new\<close>, continues where \<open>new\<close> was switched away and writes
  nothing outside \<open>old\<close>; and a later switch to \<open>old\<close>, from any state that has left its 112 bytes
  alone, returns to the caller of the first one with those registers as they were.
\<close>

theorem switch_context_there_and_back:
  assumes "direct c (span old 112) old 112" and "direct c (span old 112) new 112"
    and "gpr c A0 = old" and "gpr c A1 = new" and "aligned8 old" and "aligned8 new"
    and "span old 112 \<inter> span new 112 = {}"
  shows "\<exists>c'. exec_asm funs switch_context_asm c = Some c' \<and>
    pc c' = load64 (mem c) (new + cx_ra) \<and> gpr c' SP = load64 (mem c) (new + cx_sp) \<and>
    (\<forall>(r, off)\<in>set context_cells. gpr c' r = load64 (mem c) (new + off) \<and> load64 (mem c') (old + off) = gpr c r) \<and>
    (\<forall>r. r \<notin> fst ` set context_cells \<longrightarrow> gpr c' r = gpr c r) \<and>
    (\<forall>x. x \<notin> span old 112 \<longrightarrow> mem c' x = mem c x) \<and>
    (\<forall>d other. gpr d A0 = other \<and> gpr d A1 = old \<and> aligned8 other \<and> span other 112 \<inter> span old 112 = {} \<and>
       direct d (span other 112) other 112 \<and> direct d (span other 112) old 112 \<and>
       (\<forall>x\<in>span old 112. mem d x = mem c' x) \<longrightarrow>
       (\<exists>d'. exec_asm funs switch_context_asm d = Some d' \<and> pc d' = gpr c RA \<and>
          (\<forall>r\<in>fst ` set context_cells. gpr d' r = gpr c r)))"
proof -
  obtain c' where c': "exec_asm funs switch_context_asm c = Some c'"
    and sv: "\<And>r off. (r, off) \<in> set context_cells \<Longrightarrow> load64 (mem c') (old + off) = gpr c r"
    and ld: "\<And>r off. (r, off) \<in> set context_cells \<Longrightarrow> gpr c' r = load64 (mem c) (new + off)"
    and other: "\<And>r. r \<notin> fst ` set context_cells \<Longrightarrow> gpr c' r = gpr c r"
    and out: "\<And>x. x \<notin> span old 112 \<Longrightarrow> mem c' x = mem c x" and pc: "pc c' = gpr c' RA"
    by (rule switch_result [OF assms, of funs]) (rule that)
  have again: "\<exists>d'. exec_asm funs switch_context_asm d = Some d' \<and> pc d' = gpr c RA \<and>
      (\<forall>r\<in>fst ` set context_cells. gpr d' r = gpr c r)"
    if d: "gpr d A1 = old" "aligned8 (gpr d A0)" "span (gpr d A0) 112 \<inter> span old 112 = {}"
      "direct d (span (gpr d A0) 112) (gpr d A0) 112" "direct d (span (gpr d A0) 112) old 112"
      "\<forall>x\<in>span old 112. mem d x = mem c' x" for d
  proof -
    obtain d' where d': "exec_asm funs switch_context_asm d = Some d'"
      and "\<And>r off. (r, off) \<in> set context_cells \<Longrightarrow> load64 (mem d') (gpr d A0 + off) = gpr d r"
      and ld': "\<And>r off. (r, off) \<in> set context_cells \<Longrightarrow> gpr d' r = load64 (mem d) (old + off)"
      and "\<And>r. r \<notin> fst ` set context_cells \<Longrightarrow> gpr d' r = gpr d r"
      and "\<And>x. x \<notin> span (gpr d A0) 112 \<Longrightarrow> mem d' x = mem d x" and pc': "pc d' = gpr d' RA"
      by (rule switch_result [OF d(4,5) refl d(1,2) assms(5) d(3), of funs]) (rule that)
    have v: "gpr d' r = gpr c r" if "(r, off) \<in> set context_cells" for r off
    proof -
      have "unat off + 8 \<le> unat (112 :: uint64)"
        using context_cells_ok(1) that by (auto simp: cells_in_def list_all_iff)
      then have "load64 (mem d) (old + off) = load64 (mem c') (old + off)" using d(6) by (intro load_in_span) auto
      then show ?thesis using ld' [OF that] sv [OF that] by simp
    qed
    then show ?thesis using d' pc' context_cells_ok(5) by fastforce
  qed
  show ?thesis
  proof (intro exI [of _ c'] conjI)
    show "pc c' = load64 (mem c) (new + cx_ra)" "gpr c' SP = load64 (mem c) (new + cx_sp)"
      using pc ld context_cells_ok(5,6) by auto
    show "\<forall>(r, off)\<in>set context_cells. gpr c' r = load64 (mem c) (new + off) \<and> load64 (mem c') (old + off) = gpr c r"
      using sv ld by auto
    show "\<forall>d other. gpr d A0 = other \<and> gpr d A1 = old \<and> aligned8 other \<and> span other 112 \<inter> span old 112 = {} \<and>
       direct d (span other 112) other 112 \<and> direct d (span other 112) old 112 \<and>
       (\<forall>x\<in>span old 112. mem d x = mem c' x) \<longrightarrow>
       (\<exists>d'. exec_asm funs switch_context_asm d = Some d' \<and> pc d' = gpr c RA \<and>
          (\<forall>r\<in>fst ` set context_cells. gpr d' r = gpr c r))"
      using again by blast
  qed (use c' other out in auto)
qed

lemma span_apart:
  assumes "n \<le> b - a" and "n \<le> a - b"
  shows "span a n \<inter> span b n = {}"
proof -
  have False if "x - a < n" "x - b < n" for x
    using that assms unat_lt_64 [of a] unat_lt_64 [of b] unat_lt_64 [of x]
    by (auto simp: word_le_nat_alt word_less_nat_alt unat_diff_64 split: if_splits)
  then show ?thesis by (auto simp: span_def)
qed

lemma direct_bare: "drop_bit 60 (satp c) = 0 \<Longrightarrow> direct c W a n"
  by (simp add: direct_def reaches_bare)

theorem switch_context_there_and_back_witness:
  "\<exists>c' d'. exec_asm (\<lambda>_ _. None) switch_context_asm (cpu_zero\<lparr>gpr := (\<lambda>_. 0)(A0 := 0x1000, A1 := 0x2000, S0 := 7)\<rparr>) = Some c' \<and>
     load64 (mem c') 0x1010 = 7 \<and>
     exec_asm (\<lambda>_ _. None) switch_context_asm (c'\<lparr>gpr := (\<lambda>_. 0)(A0 := 0x2000, A1 := 0x1000)\<rparr>) = Some d' \<and>
     gpr d' S0 = 7"
proof -
  let ?c = "cpu_zero\<lparr>gpr := (\<lambda>_. 0)(A0 := 0x1000, A1 := 0x2000, S0 := 7)\<rparr>"
  have sp: "span 0x1000 112 \<inter> span 0x2000 112 = {}" "span 0x2000 112 \<inter> span 0x1000 112 = {}"
    by (rule span_apart; simp)+
  have al: "aligned8 0x1000" "aligned8 0x2000" by (simp_all add: aligned8_num)
  have d: "direct ?c W a n" for W a n by (rule direct_bare) simp
  obtain c' where c': "exec_asm (\<lambda>_ _. None) switch_context_asm ?c = Some c'"
    "\<forall>(r, off)\<in>set context_cells. gpr c' r = load64 (mem ?c) (0x2000 + off) \<and> load64 (mem c') (0x1000 + off) = gpr ?c r"
    and again: "\<forall>(d :: cpu) other. gpr d A0 = other \<and> gpr d A1 = 0x1000 \<and> aligned8 other \<and>
       span other 112 \<inter> span 0x1000 112 = {} \<and> direct d (span other 112) other 112 \<and> direct d (span other 112) 0x1000 112 \<and>
       (\<forall>x\<in>span 0x1000 112. mem d x = mem c' x) \<longrightarrow>
       (\<exists>d'. exec_asm (\<lambda>_ _. None) switch_context_asm d = Some d' \<and> pc d' = gpr ?c RA \<and>
          (\<forall>r\<in>fst ` set context_cells. gpr d' r = gpr ?c r))"
    using switch_context_there_and_back [OF d d _ _ al sp(1), of "\<lambda>_ _. None"] by auto
  have m: "(S0, 16) \<in> set context_cells" by (simp add: context_cells_def)
  then have s0: "S0 \<in> fst ` set context_cells" by force
  have "satp c' = satp ?c" using switch_run [OF d d _ _ al, of "\<lambda>_ _. None"] c'(1) by (auto simp: Let_def)
  then have "direct (c'\<lparr>gpr := (\<lambda>_. 0)(A0 := 0x2000, A1 := 0x1000)\<rparr>) W a n" for W a n by (intro direct_bare) simp
  with again [rule_format, of "c'\<lparr>gpr := (\<lambda>_. 0)(A0 := 0x2000, A1 := 0x1000)\<rparr>" "0x2000"] al sp s0
  have "\<exists>d'. exec_asm (\<lambda>_ _. None) switch_context_asm (c'\<lparr>gpr := (\<lambda>_. 0)(A0 := 0x2000, A1 := 0x1000)\<rparr>) = Some d' \<and> gpr d' S0 = 7"
    by auto
  with c' m show ?thesis by auto
qed

section \<open>Traps in the kernel\<close>

text \<open>The frame \<open>kernel_vector\<close> pushes; the loads after the stack pointer's.\<close>

definition pushed_cells :: "(reg \<times> uint64) list" where
  "pushed_cells = [(GP, 16), (TP, 24), (T0, 32), (T1, 40), (T2, 48), (S0, 56), (S1, 64), (A0, 72), (A1, 80),
     (A2, 88), (A3, 96), (A4, 104), (A5, 112), (A6, 120), (A7, 128), (S2, 136), (S3, 144), (S4, 152), (S5, 160),
     (S6, 168), (S7, 176), (S8, 184), (S9, 192), (S10, 200), (S11, 208), (T3, 216), (T4, 224), (T5, 232), (T6, 240)]"

definition vector_cells :: "(reg \<times> uint64) list" where
  "vector_cells = (RA, 0) # (SP, 8) # pushed_cells"

lemma kernel_vector_parts:
  "kernel_vector_asm = Addi SP SP (-256) # saves SP vector_cells @ Call ''kernel_trap'' #
     loads SP [(RA, 0)] @ Ld SP 8 SP # loads SP pushed_cells @ [Addi SP SP 256, Sret]"
  by (simp add: kernel_vector_asm_def vector_cells_def pushed_cells_def saves_def loads_def)

lemma vector_cells_ok:
  "cells_in 256 vector_cells" "distinct (map snd vector_cells)" "distinct (map fst vector_cells)"
  "SP \<notin> fst ` set pushed_cells" "RA \<notin> fst ` set pushed_cells" "cells_in 256 pushed_cells" "cells_in 256 [(RA, 0)]"
  "distinct (map fst pushed_cells)"
  by (simp_all add: vector_cells_def pushed_cells_def cells_in_def aligned8_num)

lemma every_register_pushed: "\<exists>off. (r, off) \<in> set vector_cells"
  by (cases r) (auto simp: vector_cells_def pushed_cells_def)

lemma exec_pops:
  assumes "direct k W b 256" and "gpr k SP = b" and "aligned8 b" and "priv k \<noteq> User_mode"
    and "load64 (mem k) (b + 8) = b"
  shows "exec_asm funs (loads SP [(RA, 0)] @ Ld SP 8 SP # loads SP pushed_cells @ [Addi SP SP 256, Sret]) k =
    Some (sret (k\<lparr>gpr := (loaded (mem k) (gpr k) b vector_cells)(SP := b + 256)\<rparr>))"
proof -
  let ?m = "mem k"
  have r: "reaches (k\<lparr>gpr := g\<rparr>) W Load b b 256" for g using assms(1) by (simp add: direct_def reaches_def)
  have r0: "reaches k W Load b b 256" using assms(1) by (simp add: direct_def)
  define g1 where "g1 = loaded ?m (gpr k) b [(RA, 0)]"
  define g2 where "g2 = loaded ?m (g1(SP := b)) b pushed_cells"
  have g1: "gpr (k\<lparr>gpr := g1\<rparr>) SP = b" using assms(2) by (simp add: g1_def)
  have "(8 :: uint64) < 256" by simp
  then have "translate ?m (satp k) (priv k) Load (b + 8) = Some (b + 8)" using r0 by (simp add: reaches_def)
  then have ld: "exec1 funs (Ld SP 8 SP) (k\<lparr>gpr := g1\<rparr>) = Some (k\<lparr>gpr := g1(SP := b)\<rparr>)"
    using assms(3,5) g1 by (simp add: load_at_def set_gpr_def aligned8_num)
  have "exec_asm funs (loads SP [(RA, 0)] @ Ld SP 8 SP # loads SP pushed_cells @ [Addi SP SP 256, Sret]) k =
      exec_asm funs (Ld SP 8 SP # loads SP pushed_cells @ [Addi SP SP 256, Sret]) (k\<lparr>gpr := g1\<rparr>)"
    unfolding g1_def by (rule exec_loads [OF r0 assms(2,3) vector_cells_ok(7)]) simp
  also have "\<dots> = exec_asm funs (loads SP pushed_cells @ [Addi SP SP 256, Sret]) (k\<lparr>gpr := g1(SP := b)\<rparr>)"
    by (simp only: exec_asm.simps ld option.case transfers.simps if_False)
  also have "\<dots> = exec_asm funs [Addi SP SP 256, Sret] (k\<lparr>gpr := g2\<rparr>)"
    using exec_loads [OF r [of "g1(SP := b)"] _ assms(3) vector_cells_ok(6,4), of funs "[Addi SP SP 256, Sret]"]
    by (simp add: g2_def)
  also have "\<dots> = Some (sret (k\<lparr>gpr := g2(SP := g2 SP + 256)\<rparr>))"
    using assms(4) by (simp add: set_gpr_def)
  finally have run: "exec_asm funs (loads SP [(RA, 0)] @ Ld SP 8 SP # loads SP pushed_cells @ [Addi SP SP 256, Sret]) k =
      Some (sret (k\<lparr>gpr := g2(SP := g2 SP + 256)\<rparr>))" .
  have "g2 SP = b" using loaded_other [OF vector_cells_ok(4)] by (simp add: g2_def)
  moreover have "g2 = loaded ?m (gpr k) b vector_cells"
    using assms(5) by (simp add: g2_def g1_def vector_cells_def)
  ultimately show ?thesis using run by simp
qed



section \<open>The timer interrupt\<close>

text \<open>
  What \<open>init_timer\<close> sets up: the scratch area holds the address of the compare register and
  the interval, \<open>mscratch\<close> points to it, and the register holds the time of the next interrupt.
\<close>

definition timer_armed :: "'z cpu_scheme \<Rightarrow> addr \<Rightarrow> uint64 \<Rightarrow> bool" where
  "timer_armed c scratch deadline \<longleftrightarrow> mscratch c = scratch \<and> aligned8 scratch \<and>
     CLINT_MTIMECMP 0 \<notin> {scratch, scratch + 8, scratch + 16, scratch + 24, scratch + 32} \<and>
     load64 (mem c) (scratch + 24) = CLINT_MTIMECMP 0 \<and> load64 (mem c) (scratch + 32) = 1000000 \<and>
     load64 (mem c) (CLINT_MTIMECMP 0) = deadline"

lemma machine_access:
  assumes "priv c = Machine_mode"
  shows "aligned8 va \<Longrightarrow> load_at va c = Some (load64 (mem c) va)"
    "aligned8 va \<Longrightarrow> store_at va v c = Some (c\<lparr>mem := store64 (mem c) va v\<rparr>)"
  using assms by (simp_all add: load_at_def store_at_def translate_def)

lemma MTIMECMP_aligned: "aligned8 (CLINT_MTIMECMP 0)"
  by (simp add: CLINT_MTIMECMP_def CLINT_def aligned8_def)

text \<open>The memory after a run of \<open>timer_vector\<close>.\<close>

definition ticked :: "memory \<Rightarrow> (reg \<Rightarrow> uint64) \<Rightarrow> addr \<Rightarrow> memory" where
  "ticked m g scratch =
     (let m' = store64 (store64 (store64 m scratch (g A1)) (scratch + 8) (g A2)) (scratch + 16) (g A3) in
      store64 m' (CLINT_MTIMECMP 0) (load64 m (CLINT_MTIMECMP 0) + 1000000))"

lemma timer_vector_run:
  assumes "timer_armed c scratch deadline" and "priv c = Machine_mode"
  shows "exec_asm funs timer_vector_asm c =
    Some (mret_to (c\<lparr>mem := ticked (mem c) (gpr c) scratch, sip := 2, mscratch := scratch\<rparr>))"
proof -
  have a: "mscratch c = scratch" "aligned8 scratch" "load64 (mem c) (scratch + 24) = CLINT_MTIMECMP 0"
    "load64 (mem c) (scratch + 32) = 1000000"
    "CLINT_MTIMECMP 0 \<noteq> scratch" "CLINT_MTIMECMP 0 \<noteq> scratch + 8" "CLINT_MTIMECMP 0 \<noteq> scratch + 16"
    using assms(1) by (auto simp: timer_armed_def)
  have al: "aligned8 (scratch + 8)" "aligned8 (scratch + 16)" "aligned8 (scratch + 24)" "aligned8 (scratch + 32)"
    using a(2) by (simp_all add: aligned8_num)
  note al = al a(2) MTIMECMP_aligned
  show ?thesis
    using al a assms(2)
    by (simp add: timer_vector_asm_def set_gpr_def machine_access load64_store64_aligned ticked_def Let_def
        a(5-7) [symmetric])
qed

lemma ticked_cells:
  assumes "aligned8 scratch" and "CLINT_MTIMECMP 0 \<notin> {scratch, scratch + 8, scratch + 16, scratch + 24, scratch + 32}"
  shows "load64 (ticked m g scratch) (CLINT_MTIMECMP 0) = load64 m (CLINT_MTIMECMP 0) + 1000000"
    "load64 (ticked m g scratch) (scratch + 24) = load64 m (scratch + 24)"
    "load64 (ticked m g scratch) (scratch + 32) = load64 m (scratch + 32)"
proof -
  have al: "aligned8 (scratch + 8)" "aligned8 (scratch + 16)" "aligned8 (scratch + 24)" "aligned8 (scratch + 32)"
    using assms(1) by (simp_all add: aligned8_num)
  then show "load64 (ticked m g scratch) (CLINT_MTIMECMP 0) = load64 m (CLINT_MTIMECMP 0) + 1000000"
    "load64 (ticked m g scratch) (scratch + 24) = load64 m (scratch + 24)"
    "load64 (ticked m g scratch) (scratch + 32) = load64 m (scratch + 32)"
    using assms MTIMECMP_aligned by (simp_all add: ticked_def Let_def load64_store64_aligned)
qed

text \<open>The registers of the CLINT as the hart reaches them: 64-bit cells of memory.\<close>

definition clint_in_memory :: "'z cpu_scheme platform \<Rightarrow> bool" where
  "clint_in_memory P \<longleftrightarrow> mmio_read64 P = read64 \<and> mmio_write64 P = write64"

lemma init_timer_arms:
  fixes P :: "'z cpu_scheme platform" and s :: "'z cpu_scheme"
  assumes "clint_in_memory P" and "aligned8 (timer_scratch P)" and "timer_scratch P \<noteq> 0"
    and "CLINT_MTIMECMP 0 \<notin> {timer_scratch P + 8 * i |i. i < 5}"
  shows "\<exists>s'. init_timer P s = Ok () s' \<and>
    timer_armed s' (timer_scratch P) (load64 (mem s) CLINT_MTIME + 1000000) \<and> gpr s' = gpr s \<and>
    mtvec s' = timer_vector P \<and> mie s' = mie s OR MIE_MTIE \<and> mstatus s' = mstatus s OR MSTATUS_MIE"
proof -
  let ?t = "timer_scratch P"
  have "CLINT_MTIMECMP 0 \<noteq> ?t + 8 * i" if "i < 5" for i using assms(4) that by blast
  from this [of 0] this [of 1] this [of 2] this [of 3] this [of 4]
  have n: "CLINT_MTIMECMP 0 \<notin> {?t, ?t + 8, ?t + 16, ?t + 24, ?t + 32}" by simp
  then have n': "?t + 24 \<noteq> CLINT_MTIMECMP 0" "?t + 32 \<noteq> CLINT_MTIMECMP 0" by auto
  have al: "aligned8 (?t + 24)" "aligned8 (?t + 32)" using assms(2) by (simp_all add: aligned8_num)
  show ?thesis
    using assms(1-3) n n' al MTIMECMP_aligned
    by (simp add: init_timer_def clint_in_memory_def Let_def run_simps timer_armed_def load64_store64_aligned)
qed

lemma ticked_outside:
  assumes "x \<notin> span scratch 24" and "x \<notin> span (CLINT_MTIMECMP 0) 8"
  shows "ticked m g scratch x = m x"
proof -
  have "\<not> x - (scratch + off) < 8" if "unat off + 8 \<le> 24" for off
    using cell_in_span [of off 24 x scratch] that assms(1) by auto
  from this [of 0] this [of 8] this [of 16] assms(2) show ?thesis
    by (simp add: ticked_def Let_def store64_def span_def)
qed

text \<open>
  C35. The timer: \<open>init_timer\<close> arms it, and each run of \<open>timer_vector\<close> on an armed timer moves the
  next deadline by exactly one interval and leaves it armed, raises the supervisor software
  interrupt, and returns to the interrupted code with every register as it was; besides its
  three words of scratch and the compare register it writes nothing.
\<close>

theorem timer_keeps_ticking:
  fixes P :: "'z cpu_scheme platform" and funs :: "'z cpu_scheme callees"
  assumes "clint_in_memory P" and "aligned8 (timer_scratch P)" and "timer_scratch P \<noteq> 0"
    and "CLINT_MTIMECMP 0 \<notin> {timer_scratch P + 8 * i |i. i < 5}"
  shows "(\<exists>s'. init_timer P s = Ok () s' \<and> mtvec s' = timer_vector P \<and>
      timer_armed s' (timer_scratch P) (load64 (mem s) CLINT_MTIME + 1000000)) \<and>
    (\<forall>c deadline. timer_armed c (timer_scratch P) deadline \<and> priv c = Machine_mode \<longrightarrow>
      (\<exists>c'. exec_asm funs timer_vector_asm c = Some c' \<and> timer_armed c' (timer_scratch P) (deadline + 1000000) \<and>
        gpr c' = gpr c \<and> sip c' = 2 \<and> pc c' = mepc c \<and> satp c' = satp c \<and>
        (mstatus c AND MSTATUS_MPP_MASK = MSTATUS_MPP_S \<longrightarrow> priv c' = Supervisor_mode) \<and>
        (\<forall>x. x \<notin> span (timer_scratch P) 24 \<union> span (CLINT_MTIMECMP 0) 8 \<longrightarrow> mem c' x = mem c x)))"
proof -
  let ?t = "timer_scratch P"
  have "\<exists>c'. exec_asm funs timer_vector_asm c = Some c' \<and> timer_armed c' ?t (deadline + 1000000) \<and>
        gpr c' = gpr c \<and> sip c' = 2 \<and> pc c' = mepc c \<and> satp c' = satp c \<and>
        (mstatus c AND MSTATUS_MPP_MASK = MSTATUS_MPP_S \<longrightarrow> priv c' = Supervisor_mode) \<and>
        (\<forall>x. x \<notin> span ?t 24 \<union> span (CLINT_MTIMECMP 0) 8 \<longrightarrow> mem c' x = mem c x)"
    if a: "timer_armed c ?t deadline" "priv c = Machine_mode" for c :: "'z cpu_scheme" and deadline
  proof -
    have t: "aligned8 ?t" "CLINT_MTIMECMP 0 \<notin> {?t, ?t + 8, ?t + 16, ?t + 24, ?t + 32}"
      using a(1) by (simp_all add: timer_armed_def)
    have "timer_armed (mret_to (c\<lparr>mem := ticked (mem c) (gpr c) ?t, sip := 2, mscratch := ?t\<rparr>)) ?t (deadline + 1000000)"
      using a(1) ticked_cells [OF t] by (simp add: timer_armed_def mret_to_def Let_def)
    moreover have "MSTATUS_MPP_S \<noteq> MSTATUS_MPP_MASK" by (simp add: MSTATUS_MPP_S_def MSTATUS_MPP_MASK_def)
    ultimately show ?thesis
      using timer_vector_run [OF a, of funs] ticked_outside
      by (intro exI [of _ "mret_to (c\<lparr>mem := ticked (mem c) (gpr c) ?t, sip := 2, mscratch := ?t\<rparr>)"])
        (auto simp: mret_to_def Let_def)
  qed
  then show ?thesis using init_timer_arms [OF assms, of s] by blast
qed

theorem timer_keeps_ticking_witness:
  "\<exists>s' c'. init_timer clint_platform cpu_zero = Ok () s' \<and> timer_armed s' 0x8000b000 1000000 \<and>
     exec_asm (\<lambda>_ _. None) timer_vector_asm (s'\<lparr>priv := Machine_mode\<rparr>) = Some c' \<and>
     timer_armed c' 0x8000b000 2000000 \<and> gpr c' = gpr s'"
proof -
  have p: "clint_in_memory clint_platform" "aligned8 (timer_scratch clint_platform)" "timer_scratch clint_platform \<noteq> 0"
    "timer_scratch clint_platform = 0x8000b000"
    by (simp_all add: clint_in_memory_def clint_platform_def aligned8_num)
  have "timer_scratch clint_platform + 8 * i \<noteq> CLINT_MTIMECMP 0" if "i < 5" for i
  proof
    have "unat i < 5" using that by (simp add: word_less_nat_alt)
    moreover assume "timer_scratch clint_platform + 8 * i = CLINT_MTIMECMP 0"
    then have "8 * i = CLINT_MTIMECMP 0 - 0x8000b000" using p(4) by (simp add: eq_diff_eq add.commute)
    then have "unat (8 * i) = unat (CLINT_MTIMECMP 0 - 0x8000b000)" by simp
    ultimately show False by (simp add: CLINT_MTIMECMP_def CLINT_def unat_word_ariths)
  qed
  then have n: "CLINT_MTIMECMP 0 \<notin> {timer_scratch clint_platform + 8 * i |i. i < 5}" by force
  note t = timer_keeps_ticking [OF p(1-3) n, of cpu_zero "\<lambda>_ _. None"]
  have z: "load64 (mem cpu_zero) CLINT_MTIME + 1000000 = 1000000" by (simp add: load64_zeroed)
  from t obtain s' where s': "init_timer clint_platform cpu_zero = Ok () s'" "timer_armed s' 0x8000b000 1000000"
    unfolding z p(4) by blast
  have "timer_armed (s'\<lparr>priv := Machine_mode\<rparr>) 0x8000b000 1000000" using s'(2) by (simp add: timer_armed_def)
  with t obtain c' where "exec_asm (\<lambda>_ _. None) timer_vector_asm (s'\<lparr>priv := Machine_mode\<rparr>) = Some c'"
    "timer_armed c' 0x8000b000 (1000000 + 1000000)" "gpr c' = gpr (s'\<lparr>priv := Machine_mode\<rparr>)"
    unfolding p(4) by fastforce
  with s' show ?thesis by auto
qed

end
