(* ===== verification/Mmu.thy ===== *)
theory Mmu
  imports Assembly
begin

text \<open>
  The Sv39 walk of the hardware on the page tables that \<open>kernel/virtual_memory.c\<close> builds:
  it finds the entry the tree has, and so the address that \<open>physical_address\<close> computes.
\<close>

section \<open>Entries of inner tables\<close>

lemma high_bit_clear:
  fixes a :: uint64
  assumes "unat a < 2 ^ k" and "k \<le> n"
  shows "\<not> bit a n"
proof -
  have "unat a < 2 ^ n" using assms by (meson not_less order.strict_trans2 one_le_numeral power_increasing)
  then have "\<not> bit (unat a) n" by (simp add: bit_iff_odd)
  then show ?thesis by (simp add: bit_unsigned_iff)
qed

lemma below_MAXVA: "va < MAXVA \<longleftrightarrow> unat va < 2 ^ 38"
  by (simp add: word_less_nat_alt MAXVA_def)

lemma table_page_small: "table_page p \<Longrightarrow> p < 2 ^ 20"
  by (simp add: table_page_def end_page_def)

lemma bit_page_addr:
  assumes "p < 2 ^ 44" and "bit (page_addr p) n"
  shows "12 \<le> n \<and> n < 56"
proof -
  have u: "unat (page_addr p) = 4096 * p" using assms(1) by (intro unat_page_addr) simp
  then have "\<not> 56 \<le> n" using assms high_bit_clear [of "page_addr p" 56 n] by auto
  moreover have "take_bit 12 (page_addr p) = 0" using u by (simp add: word_unat_eq_iff take_bit_eq_mod unat_mod_distrib)
  then have "12 \<le> n" using assms(2) by (metis bit_0_eq bit_take_bit_iff bot_apply bot_bool_def not_less)
  ultimately show ?thesis by simp
qed

lemma PA2PTE_clean:
  assumes "p < 2 ^ 44" and "n < 10 \<or> 54 \<le> n"
  shows "\<not> bit (PA2PTE (page_addr p)) n"
  using assms bit_page_addr [of p "n - 10 + 12"] by (auto simp: PA2PTE_def bit_simps)

lemma bit_PTE [simp]:
  "bit PTE_V n \<longleftrightarrow> n = 0" "bit PTE_R n \<longleftrightarrow> n = 1" "bit PTE_W n \<longleftrightarrow> n = 2"
  "bit PTE_X n \<longleftrightarrow> n = 3" "bit PTE_U n \<longleftrightarrow> n = 4"
  unfolding pte_consts by (auto simp only: bit_simps) simp_all

lemma table_entry_pointer:
  assumes "table_page p"
  shows "\<not> pte_refused (table_entry p)" "\<not> pte_is_leaf (table_entry p)"
proof -
  have p: "p < 2 ^ 44" using table_page_small [OF assms] by simp
  have "drop_bit 54 (table_entry p) = 0" "table_entry p AND PTE_W = 0" "table_entry p AND (PTE_R OR PTE_W OR PTE_X) = 0"
    using PA2PTE_clean [OF p]
    by (auto simp: uint64_eq_iff_bit table_entry_def bit_simps)
  then show "\<not> pte_refused (table_entry p)" "\<not> pte_is_leaf (table_entry p)"
    by (simp_all add: pte_refused_def pte_is_leaf_def)
qed

section \<open>The walk\<close>

text \<open>What the hardware makes of an entry of a lowest table.\<close>

definition usable :: "uint64 \<Rightarrow> bool" where
  "usable e \<longleftrightarrow> \<not> pte_refused e \<and> pte_is_leaf e"

lemma sv39_step:
  assumes "sub_table m p (PX (Suc l) va) = map_option table_entry q" and "\<forall>t. q = Some t \<longrightarrow> table_page t"
  shows "sv39_walk (Suc l) m (page_addr p) va =
    (case q of None \<Rightarrow> None | Some t \<Rightarrow> sv39_walk l m (page_addr t) va)"
proof (cases q)
  case None
  with assms(1) have "load64 m (page_addr p + 8 * PX (Suc l) va) AND PTE_V = 0"
    by (auto simp: sub_table_def slot_def Let_def split: if_splits)
  with None show ?thesis by (simp add: pte_refused_def Let_def)
next
  case (Some t)
  with assms have e: "load64 m (page_addr p + 8 * PX (Suc l) va) = table_entry t" and t: "table_page t"
    by (auto simp: sub_table_def slot_def Let_def split: if_splits)
  then show ?thesis using Some table_entry_pointer [OF t] by (simp add: Let_def)
qed

lemma sv39_walk_tree:
  assumes "tree_repr m T" and "tree_shape T"
  shows "sv39_walk 2 m (page_addr (pt_root T)) va =
    (case leaf m T va of None \<Rightarrow> None | Some e \<Rightarrow> if usable e then Some (0, e) else None)"
proof -
  have mid: "sub_table m (pt_root T) (PX (Suc 1) va) = map_option table_entry (pt_mid T (PX 2 va))"
    using assms(1) by (simp add: tree_repr_def numeral_2_eq_2)
  have pages: "\<forall>t. pt_mid T i = Some t \<longrightarrow> table_page t" "\<forall>t. pt_low T ij = Some t \<longrightarrow> table_page t" for i ij
    using tree_shape_page [OF assms(2)] tables_member by blast+
  note top = sv39_step [OF mid pages(1)]
  show ?thesis
  proof (cases "pt_mid T (PX 2 va)")
    case None
    then show ?thesis using top by (simp add: numeral_2_eq_2 leaf_def low_table_def)
  next
    case (Some p)
    have low: "sub_table m p (PX (Suc 0) va) = map_option table_entry (pt_low T (PX 2 va, PX 1 va))"
      using assms(1) Some by (simp add: tree_repr_def)
    have "sv39_walk 2 m (page_addr (pt_root T)) va = sv39_walk 1 m (page_addr p) va"
      using top Some by (simp add: numeral_2_eq_2)
    also have "\<dots> = (case pt_low T (PX 2 va, PX 1 va) of None \<Rightarrow> None | Some t \<Rightarrow> sv39_walk 0 m (page_addr t) va)"
      using sv39_step [OF low pages(2)] by simp
    finally show ?thesis
      using Some by (auto simp: leaf_def low_table_def slot_def usable_def pte_refused_def Let_def split: option.splits)
  qed
qed

section \<open>Translation\<close>

lemma MAKE_SATP_fields:
  assumes "p < 2 ^ 44"
  shows "drop_bit 60 (MAKE_SATP (page_addr p)) = 8" "push_bit 12 (take_bit 44 (MAKE_SATP (page_addr p))) = page_addr p"
proof -
  have h: "bit (8 :: uint64) n \<longleftrightarrow> n = 3" for n
  proof -
    have "(8 :: uint64) = push_bit 3 1" by simp
    then show ?thesis by (simp only: bit_simps) auto
  qed
  show "drop_bit 60 (MAKE_SATP (page_addr p)) = 8"
    using bit_page_addr [OF assms] by (auto simp: uint64_eq_iff_bit MAKE_SATP_def SATP_SV39_def bit_simps h)
  have "n - 12 < 44" if "bit (page_addr p) n" for n using bit_page_addr [OF assms that] by linarith
  then show "push_bit 12 (take_bit 44 (MAKE_SATP (page_addr p))) = page_addr p"
    using bit_page_addr [OF assms] by (auto simp: uint64_eq_iff_bit MAKE_SATP_def SATP_SV39_def bit_simps h)
qed

lemma canonical:
  assumes "va < MAXVA"
  shows "signed_take_bit 38 va = va"
proof -
  have n: "\<not> bit va n" if "38 \<le> n" for n
    using assms that by (intro high_bit_clear [of va 38]) (simp_all add: below_MAXVA)
  show ?thesis by (auto simp: uint64_eq_iff_bit bit_signed_take_bit_iff n min_def)
qed

lemma offset_or:
  "take_bit 12 (PTE2PA e) = 0" "PTE2PA e OR take_bit 12 va = PTE2PA e + PGOFFSET va"
proof -
  have o: "PGOFFSET va = take_bit 12 va"
    by (simp add: PGOFFSET_def PGSIZE_def take_bit_eq_mask mask_eq_exp_minus_1)
  show "take_bit 12 (PTE2PA e) = 0" by (auto simp: uint64_eq_iff_bit PTE2PA_def bit_simps)
  have "PTE2PA e AND take_bit 12 va = 0" by (auto simp: uint64_eq_iff_bit PTE2PA_def bit_simps)
  then show "PTE2PA e OR take_bit 12 va = PTE2PA e + PGOFFSET va" by (simp add: o disjunctive_add_eq_or)
qed

text \<open>Below \<open>MAXVA\<close> the hardware translates with the entry of the tree, or faults.\<close>

lemma translate_tree:
  assumes "tree_repr m T" and "tree_shape T" and "va < MAXVA" and "p \<noteq> Machine_mode"
  shows "translate m (MAKE_SATP (page_addr (pt_root T))) p acc va =
    (case leaf m T va of
       None \<Rightarrow> None
     | Some e \<Rightarrow> if usable e \<and> permits p acc e then Some (PTE2PA e + PGOFFSET va) else None)"
proof -
  have "pt_root T < 2 ^ 44"
    using table_page_small [OF tree_shape_page [OF assms(2) tables_member(1)]] by simp
  note f = MAKE_SATP_fields [OF this]
  show ?thesis
    using assms(4) offset_or canonical [OF assms(3)]
    by (simp add: translate_def f sv39_walk_tree [OF assms(1,2)] split: option.splits)
qed

section \<open>What \<open>map_page\<close> makes the hardware do\<close>

text \<open>Permissions the hardware accepts in a leaf.\<close>

definition leaf_perm :: "uint64 \<Rightarrow> bool" where
  "leaf_perm f \<longleftrightarrow> perm_ok f \<and> f AND (PTE_R OR PTE_W OR PTE_X) \<noteq> 0 \<and> (f AND PTE_W \<noteq> 0 \<longrightarrow> f AND PTE_R \<noteq> 0)"

lemma bit_page_entry:
  assumes "leaf_perm f" and "pa < 2 ^ 56"
  shows "0 < n \<Longrightarrow> n < 10 \<Longrightarrow> bit (page_entry pa f) n = bit f n" "54 \<le> n \<Longrightarrow> \<not> bit (page_entry pa f) n"
proof -
  have f: "bit f n \<Longrightarrow> n < 10" for n using assms(1) perm_bit by (auto simp: leaf_perm_def)
  have pa: "\<not> bit pa n" if "56 \<le> n" for n
    using assms(2) that by (intro high_bit_clear [of pa 56]) (simp_all add: word_less_nat_alt)
  show "0 < n \<Longrightarrow> n < 10 \<Longrightarrow> bit (page_entry pa f) n = bit f n"
    by (auto simp: page_entry_def PA2PTE_def bit_simps)
  show "54 \<le> n \<Longrightarrow> \<not> bit (page_entry pa f) n"
    using f [of n] pa [of "n - 10 + 12"] by (auto simp: page_entry_def PA2PTE_def PGROUNDDOWN_def bit_simps)
qed

lemma and_bit_zero_iff:
  "a AND PTE_R = 0 \<longleftrightarrow> \<not> bit a 1" "a AND PTE_W = 0 \<longleftrightarrow> \<not> bit a 2" "a AND PTE_U = 0 \<longleftrightarrow> \<not> bit a 4"
  "a AND PTE_V = 0 \<longleftrightarrow> \<not> bit a 0" "a AND (PTE_R OR PTE_W OR PTE_X) = 0 \<longleftrightarrow> \<not> bit a 1 \<and> \<not> bit a 2 \<and> \<not> bit a 3"
  for a :: uint64
proof -
  have "a AND b = 0 \<longleftrightarrow> (\<forall>n<64. bit b n \<longrightarrow> \<not> bit a n)" for b :: uint64
    by (auto simp: uint64_eq_iff_bit bit_simps)
  then have single: "a AND PTE_R = 0 \<longleftrightarrow> \<not> bit a 1" "a AND PTE_W = 0 \<longleftrightarrow> \<not> bit a 2" "a AND PTE_X = 0 \<longleftrightarrow> \<not> bit a 3"
    "a AND PTE_U = 0 \<longleftrightarrow> \<not> bit a 4" "a AND PTE_V = 0 \<longleftrightarrow> \<not> bit a 0" by auto
  then show "a AND PTE_R = 0 \<longleftrightarrow> \<not> bit a 1" "a AND PTE_W = 0 \<longleftrightarrow> \<not> bit a 2" "a AND PTE_U = 0 \<longleftrightarrow> \<not> bit a 4"
    "a AND PTE_V = 0 \<longleftrightarrow> \<not> bit a 0" by simp_all
  show "a AND (PTE_R OR PTE_W OR PTE_X) = 0 \<longleftrightarrow> \<not> bit a 1 \<and> \<not> bit a 2 \<and> \<not> bit a 3"
    by (simp add: bit.conj_disj_distrib or_eq_0_iff single)
qed

lemma PTE_nonzero [simp]: "PTE_R \<noteq> 0" "PTE_W \<noteq> 0" "PTE_X \<noteq> 0" "PTE_U \<noteq> 0"
  by (simp_all add: pte_consts)

lemma page_entry_usable:
  assumes "leaf_perm f" and "pa < 2 ^ 56"
  shows "usable (page_entry pa f)" "permits p acc (page_entry pa f) = permits p acc f"
proof -
  note b = bit_page_entry [OF assms]
  have "drop_bit 54 (page_entry pa f) = 0" using b(2) by (auto simp: uint64_eq_iff_bit bit_simps)
  moreover have "page_entry pa f AND PTE_V \<noteq> 0" by (simp add: page_entry_def)
  ultimately show "usable (page_entry pa f)"
    using assms(1) by (auto simp: usable_def pte_refused_def pte_is_leaf_def leaf_perm_def and_bit_zero_iff b(1))
  show "permits p acc (page_entry pa f) = permits p acc f"
    by (auto simp: permits_def and_bit_zero_iff b(1) split: access.splits)
qed

text \<open>
  C10. The page tables that \<open>map_page\<close> writes are what the hardware reads: after a successful
  call every access the permissions allow to an address of the page reaches the same offset
  of the physical page, every other access to the page faults, accesses to all other pages
  are translated as before, and \<open>physical_address\<close> computes the address the hardware finds.
\<close>

theorem map_page_hardware:
  assumes "pt_inv s T F" and "va < MAXVA" and "leaf (mem s) T va = None" and "leaf_perm f" and "pa < 2 ^ 56"
    and "map_page (page_addr (pt_root T)) va pa f s = Ok 0 s'" and "va' < MAXVA" and "p \<noteq> Machine_mode"
  shows "translate (mem s') (MAKE_SATP (page_addr (pt_root T))) p acc va' =
      (if vpage va' = vpage va
       then if permits p acc f then Some (PGROUNDDOWN pa + PGOFFSET va') else None
       else translate (mem s) (MAKE_SATP (page_addr (pt_root T))) p acc va') \<and>
    (\<forall>a. translate (mem s') (MAKE_SATP (page_addr (pt_root T))) p acc va' = Some a \<longrightarrow>
      physical_address (page_addr (pt_root T)) va' s' = Ok a s')"
proof -
  obtain T' F' where g: "pt_grows s T F s' T' F'"
    and l: "leaf (mem s') T' va' = (if vpn va' = vpn va then Some (page_entry pa f) else leaf (mem s) T va')" for va'
    using map_page_result [OF assms(1-3), of pa f] assms(6) by auto
  have d: "tree_repr (mem s) T" "tree_shape T" "tree_repr (mem s') T'" "tree_shape T'" and root: "pt_root T' = pt_root T"
    using g assms(1) by (auto simp: pt_grows_def pt_inv_def)
  have e: "PTE2PA (page_entry pa f) = PGROUNDDOWN pa"
    using assms(4) PTE2PA_PA2PTE [of f "PGROUNDDOWN pa"] by (simp add: page_entry_def leaf_perm_def)
  have "translate (mem s') (MAKE_SATP (page_addr (pt_root T))) p acc va' =
      (if vpage va' = vpage va
       then if permits p acc f then Some (PGROUNDDOWN pa + PGOFFSET va') else None
       else translate (mem s) (MAKE_SATP (page_addr (pt_root T))) p acc va')"
    using translate_tree [OF d(3,4) assms(7,8), of acc] translate_tree [OF d(1,2) assms(7,8), of acc]
      page_entry_usable [OF assms(4,5)] vpn_vpage [OF assms(2,7)] l [of va'] e
    by (auto simp: root split: option.splits)
  moreover have "physical_address (page_addr (pt_root T)) va' s' = Ok a s'"
    if "translate (mem s') (MAKE_SATP (page_addr (pt_root T))) p acc va' = Some a" for a
    using that translate_tree [OF d(3,4) assms(7,8), of acc] physical_address_ok [OF d(3,4) assms(7)]
    by (auto simp: root split: option.splits if_splits)
  ultimately show ?thesis by blast
qed

theorem map_page_hardware_witness:
  "\<exists>s'. map_page (page_addr 0x80100) 0 (page_addr 0x80200) PTE_R small_space = Ok 0 s' \<and>
     translate (mem s') (MAKE_SATP (page_addr 0x80100)) Supervisor_mode Load 0x123 = Some (page_addr 0x80200 + 0x123) \<and>
     translate (mem s') (MAKE_SATP (page_addr 0x80100)) Supervisor_mode Store 0x123 = None"
proof -
  obtain s' where s': "map_page (page_addr (pt_root small_tree)) 0 (page_addr 0x80200) PTE_R small_space = Ok 0 s'"
    by (rule small_map)
  have va: "0 < MAXVA" "0x123 < MAXVA" by (simp_all add: MAXVA_def)
  have pa: "page_addr 0x80200 < 2 ^ 56" by (simp add: page_addr_def)
  have f: "leaf_perm PTE_R" "permits Supervisor_mode Load PTE_R" "\<not> permits Supervisor_mode Store PTE_R"
    using PTE_R_perm(1) by (simp_all add: leaf_perm_def permits_def and_bit_zero_iff)
  have "vpage 0x123 = vpage 0" "PGROUNDDOWN (page_addr 0x80200) = page_addr 0x80200" "PGOFFSET 0x123 = 0x123"
    by (simp_all add: vpage_def PGROUNDDOWN_page PGOFFSET_def PGSIZE_def)
  with map_page_hardware [OF small_space_ok(1) va(1) small_space_ok(3) f(1) pa s' va(2), of Supervisor_mode Load]
    map_page_hardware [OF small_space_ok(1) va(1) small_space_ok(3) f(1) pa s' va(2), of Supervisor_mode Store] f s'
  show ?thesis by (simp add: small_tree_def)
qed

end
