(* ===== verification/Task_Queries.thy ===== *)
theory Task_Queries
  imports Syscalls
begin

text \<open>
  The queries over the list of all tasks: \<open>find_task\<close>, \<open>get_one_zombie_child\<close>,
  \<open>has_alive_child\<close> and \<open>is_ancestor\<close> compute what they should of the list and of the parent
  pointers, and what follows for signals and for waiting.
\<close>

section \<open>The list of all tasks\<close>

abbreviation parent_of :: "'z kernel_scheme \<Rightarrow> addr \<Rightarrow> addr" where
  "parent_of s t \<equiv> load64 (mem s) (t + ts_parent)"

abbreviation pid_of :: "'z kernel_scheme \<Rightarrow> addr \<Rightarrow> uint64" where
  "pid_of s t \<equiv> load64 (mem s) (t + ts_pid)"

abbreviation state_of :: "'z kernel_scheme \<Rightarrow> addr \<Rightarrow> 32 word" where
  "state_of s t \<equiv> load32 (mem s) (t + ts_state)"

text \<open>\<open>task_list s ts\<close>: the list \<open>all_tasks\<close> holds the tasks \<open>ts\<close>, in this order.\<close>

definition task_list :: "'z kernel_scheme \<Rightarrow> addr list \<Rightarrow> bool" where
  "task_list s ts \<longleftrightarrow> all_tasks s \<noteq> 0 \<and> 0 \<notin> set ts \<and> (\<exists>ns. list_at s (all_tasks s) ns ts)"

text \<open>The first element with a property, or NULL.\<close>

fun first_task :: "(addr \<Rightarrow> bool) \<Rightarrow> addr list \<Rightarrow> addr" where
  "first_task p [] = 0"
| "first_task p (t # ts) = (if p t then t else first_task p ts)"

lemma first_task_zero: "0 \<notin> set ts \<Longrightarrow> first_task p ts = 0 \<longleftrightarrow> (\<forall>t\<in>set ts. \<not> p t)"
  by (induction ts) auto

lemma first_task_in: "first_task p ts \<noteq> 0 \<Longrightarrow> first_task p ts \<in> set ts \<and> p (first_task p ts)"
  by (induction ts) (auto split: if_splits)

lemma task_listE:
  assumes "task_list s ts"
  obtains ns where "chain (load64 (mem s)) (load64 (mem s) (all_tasks s + ls_head)) ns"
    "map (\<lambda>n. load64 (mem s) (n + nd_data)) ns = ts" "all_tasks s \<noteq> 0" "0 \<notin> set ts"
  using assms by (auto simp: task_list_def list_at_def)

lemma find_task_loop_ok:
  "chain (load64 (mem s)) p ns \<Longrightarrow> map (\<lambda>n. load64 (mem s) (n + nd_data)) ns = ts \<Longrightarrow> 0 \<notin> set ts \<Longrightarrow>
   find_task_loop pid p s = Ok (first_task (\<lambda>t. pid_of s t = pid) ts) s"
proof (induction ns arbitrary: p ts)
  case Nil
  then show ?case by (simp add: find_task_loop.simps run_simps)
next
  case (Cons n ns)
  then obtain ts' where ts: "ts = load64 (mem s) (n + nd_data) # ts'" "map (\<lambda>n. load64 (mem s) (n + nd_data)) ns = ts'" by auto
  from Cons.prems Cons.IH [of "load64 (mem s) n" ts'] ts show ?case
    by (subst find_task_loop.simps) (auto simp: struct_simps return_def nd_next_def)
qed

lemma zombie_child_loop_ok:
  "chain (load64 (mem s)) p ns \<Longrightarrow> map (\<lambda>n. load64 (mem s) (n + nd_data)) ns = ts \<Longrightarrow> 0 \<notin> set ts \<Longrightarrow>
   zombie_child_loop task p s =
     Ok (first_task (\<lambda>t. parent_of s t = task \<and> state_of s t = state_code ZOMBIE) ts) s"
proof (induction ns arbitrary: p ts)
  case Nil
  then show ?case by (simp add: zombie_child_loop.simps run_simps)
next
  case (Cons n ns)
  then obtain ts' where ts: "ts = load64 (mem s) (n + nd_data) # ts'" "map (\<lambda>n. load64 (mem s) (n + nd_data)) ns = ts'" by auto
  from Cons.prems Cons.IH [of "load64 (mem s) n" ts'] ts show ?case
    by (subst zombie_child_loop.simps) (auto simp: struct_simps run_simps nd_next_def get_state_def)
qed

text \<open>\<open>is_alive\<close> tests for a state that is not ZOMBIE or not DEAD: it holds for every task.\<close>

lemma is_alive_any: "is_alive t s = Ok (t \<noteq> 0) s"
  by (auto simp: is_alive_def get_state_def run_simps)

lemma has_alive_child_loop_ok:
  "chain (load64 (mem s)) p ns \<Longrightarrow> map (\<lambda>n. load64 (mem s) (n + nd_data)) ns = ts \<Longrightarrow> 0 \<notin> set ts \<Longrightarrow>
   has_alive_child_loop task p s = Ok (\<exists>t\<in>set ts. parent_of s t = task) s"
proof (induction ns arbitrary: p ts)
  case Nil
  then show ?case by (simp add: has_alive_child_loop.simps run_simps)
next
  case (Cons n ns)
  then obtain ts' where ts: "ts = load64 (mem s) (n + nd_data) # ts'" "map (\<lambda>n. load64 (mem s) (n + nd_data)) ns = ts'" by auto
  have k: "bind (is_alive t) c s = c (t \<noteq> 0) s" for t and c :: "bool \<Rightarrow> (bool, 'a kernel_scheme) run"
    using is_alive_any by (rule bind_Ok)
  from Cons.prems Cons.IH [of "load64 (mem s) n" ts'] ts show ?case
    by (subst has_alive_child_loop.simps) (auto simp: struct_simps run_simps nd_next_def k)
qed

lemma find_task_ok: "task_list s ts \<Longrightarrow> find_task pid s = Ok (first_task (\<lambda>t. pid_of s t = pid) ts) s"
  by (elim task_listE) (simp add: find_task_def run_simps find_task_loop_ok)

lemma zombie_child_ok:
  "task_list s ts \<Longrightarrow> get_one_zombie_child task s =
     Ok (first_task (\<lambda>t. parent_of s t = task \<and> state_of s t = state_code ZOMBIE) ts) s"
  by (elim task_listE) (simp add: get_one_zombie_child_def run_simps zombie_child_loop_ok)

lemma has_alive_child_ok: "task_list s ts \<Longrightarrow> has_alive_child task s = Ok (\<exists>t\<in>set ts. parent_of s t = task) s"
  by (elim task_listE) (simp add: has_alive_child_def run_simps has_alive_child_loop_ok)

section \<open>Ancestors\<close>

text \<open>The ancestors of a task, nearest first: the chain of its parent pointers.\<close>

definition ancestors :: "'z kernel_scheme \<Rightarrow> addr \<Rightarrow> addr list \<Rightarrow> bool" where
  "ancestors s t as \<longleftrightarrow> chain (parent_of s) (parent_of s t) as"

lemma ancestor_loop_ok:
  "chain (parent_of s) p as \<Longrightarrow> ancestor_loop a p s = Ok (a \<in> set as) s"
proof (induction as arbitrary: p)
  case Nil
  then show ?case by (simp add: ancestor_loop.simps run_simps)
next
  case (Cons x xs)
  then show ?case by (subst ancestor_loop.simps) (auto simp: struct_simps run_simps)
qed

lemma is_ancestor_ok:
  assumes "t \<noteq> 0 \<Longrightarrow> ancestors s t as"
  shows "is_ancestor a t s = Ok (t \<noteq> 0 \<and> a \<noteq> 0 \<and> a \<in> set as) s"
  using assms ancestor_loop_ok [of s "parent_of s t" as a]
  by (auto simp: is_ancestor_def ancestors_def run_simps)

section \<open>Memories given by their cells\<close>

text \<open>For concrete states: memory that is zero but for a list of aligned 64-bit cells.\<close>

definition cells :: "(addr \<times> uint64) list \<Rightarrow> memory" where
  "cells cs = foldr (\<lambda>(a, v) m. store64 m a v) cs (\<lambda>_. 0)"

definition cell :: "(addr \<times> uint64) list \<Rightarrow> addr \<Rightarrow> uint64" where
  "cell cs a = (case map_of cs a of None \<Rightarrow> 0 | Some v \<Rightarrow> v)"

lemma load64_cells: "\<forall>(b, v)\<in>set cs. aligned8 b \<Longrightarrow> aligned8 a \<Longrightarrow> load64 (cells cs) a = cell cs a"
  by (induction cs) (auto simp: cells_def cell_def load64_zeroed load64_store64)

lemma load32_low_half: "load32 m a = ucast (load64 m a)"
  by (rule bit_word_eqI) (auto simp: bit_load32 bit_load64 bit_simps)

lemma load32_cells: "\<forall>(b, v)\<in>set cs. aligned8 b \<Longrightarrow> aligned8 a \<Longrightarrow> load32 (cells cs) a = ucast (cell cs a)"
  by (simp add: load32_low_half load64_cells)

text \<open>
  Two tasks: init at \<open>0x1000\<close> with process number 1, and its child at \<open>0x2000\<close> with number
  2 in the given state. Both are in \<open>all_tasks\<close>. Init has made a system call with the given
  arguments; its trap frame is at \<open>0x3000\<close> and its shared page at \<open>0x4000\<close>.
\<close>

definition family_cells :: "process_state \<Rightarrow> uint64 \<Rightarrow> uint64 \<Rightarrow> (addr \<times> uint64) list" where
  "family_cells st a0 a1 =
     [(0x100, 0x200), (0x108, 0x300), (0x110, 2),
      (0x200, 0x300), (0x208, 0x1000), (0x300, 0), (0x308, 0x2000),
      (0x1000, 2), (0x1010, 1), (0x1018, 0), (0x1060, 0x3000), (0x1068, 0x4000),
      (0x2000, ucast (state_code st)), (0x2010, 2), (0x2018, 0x1000), (0x20e0, 42),
      (0x3070, a0), (0x3078, a1)]"

definition family :: "process_state \<Rightarrow> uint64 \<Rightarrow> uint64 \<Rightarrow> kernel" where
  "family st a0 a1 = kernel_zero\<lparr>mem := cells (family_cells st a0 a1), all_tasks := 0x100\<rparr>"

text \<open>A platform whose devices are silent and whose switches come back at once.\<close>

definition idle_platform :: "kernel platform" where
  "idle_platform =
     \<lparr>mmio_read8 = (\<lambda>_. return 0), mmio_write8 = (\<lambda>_ _. return ()),
      mmio_read32 = (\<lambda>_. return 0), mmio_write32 = (\<lambda>_ _. return ()),
      mmio_read64 = (\<lambda>_. return 0), mmio_write64 = (\<lambda>_ _. return ()),
      switch_context = (\<lambda>_ _. return ()), enter_user = (\<lambda>_ _. return ()), wfi = return (), mret = return (),
      literal = (\<lambda>_. 64), trampoline = 0x80000000, user_vector = 0x80000000, user_return = 0x80000100,
      kernel_vector = 0x80002000, timer_vector = 0x80002100, user_trap_entry = 0x80003000,
      user_trap_return_entry = 0x80003100, main_entry = 0x80003200, etext = 0x80005000, kernel_end = 0x80011000,
      init_program = 0x80006000, sh_program = 0x80007000, echo_program = 0x80008000, now_context = 0x80009000,
      boot_pagetable = 0x8000a000, timer_scratch = 0x8000b000\<rparr>"

lemma family_mem [simp]:
  "all_tasks (family st a0 a1) = 0x100"
  "aligned8 a \<Longrightarrow> load64 (mem (family st a0 a1)) a = cell (family_cells st a0 a1) a"
  "aligned8 a \<Longrightarrow> load32 (mem (family st a0 a1)) a = ucast (cell (family_cells st a0 a1) a)"
  by (simp_all add: family_def load64_cells load32_cells family_cells_def aligned8_def)

lemma family_task_list: "task_list (family st a0 a1) [0x1000, 0x2000]"
  unfolding task_list_def
  by (rule conjI, simp, rule conjI, simp, rule exI [of _ "[0x200, 0x300]"])
    (simp add: list_at_def list_layout aligned8_def cell_def family_cells_def)

lemma family_fields [simp]:
  "parent_of (family st a0 a1) 0x1000 = 0" "parent_of (family st a0 a1) 0x2000 = 0x1000"
  "pid_of (family st a0 a1) 0x1000 = 1" "pid_of (family st a0 a1) 0x2000 = 2"
  "state_of (family st a0 a1) 0x1000 = state_code RUNNING" "state_of (family st a0 a1) 0x2000 = state_code st"
  "load64 (mem (family st a0 a1)) (0x1000 + ts_trap_frame) = 0x3000"
  "load64 (mem (family st a0 a1)) (0x1000 + ts_shared_memory) = 0x4000"
  "load64 (mem (family st a0 a1)) (0x3000 + tf_offset TF_a0) = a0"
  "load64 (mem (family st a0 a1)) (0x3000 + tf_offset TF_a1) = a1"
  by (simp_all add: aligned8_def cell_def family_cells_def task_layout) (cases st; simp)

section \<open>The system calls that look for a task\<close>

definition syscall_ready :: "'z kernel_scheme \<Rightarrow> addr \<Rightarrow> bool" where
  "syscall_ready s task \<longleftrightarrow> task \<noteq> 0 \<and> load64 (mem s) (task + ts_trap_frame) \<noteq> 0"

abbreviation reg_of :: "'z kernel_scheme \<Rightarrow> addr \<Rightarrow> trap_frame_field \<Rightarrow> uint64" where
  "reg_of s task r \<equiv> load64 (mem s) (load64 (mem s) (task + ts_trap_frame) + tf_offset r)"

lemma get_reg_ok: "syscall_ready s task \<Longrightarrow> get_reg task r s = Ok (reg_of s task r) s"
  by (simp add: syscall_ready_def get_reg_def struct_simps run_simps)

lemma bind_get_reg [run_simps]: "syscall_ready s task \<Longrightarrow> bind (get_reg task r) k s = k (reg_of s task r) s"
  by (rule bind_Ok) (rule get_reg_ok)

lemma family_ready [simp]: "syscall_ready (family st a0 a1) 0x1000"
  by (simp add: syscall_ready_def)

text \<open>
  \<open>find_task\<close> leaves the state alone and returns a task of the list with the process number
  asked for, or NULL exactly when no task has it.
\<close>

theorem find_task_correct:
  assumes "task_list s ts"
  shows "\<exists>t. find_task pid s = Ok t s \<and>
    (if \<exists>u\<in>set ts. pid_of s u = pid then t \<in> set ts \<and> pid_of s t = pid else t = 0)"
proof -
  have z: "0 \<notin> set ts" using assms by (simp add: task_list_def)
  show ?thesis
    using find_task_ok [OF assms, of pid] first_task_zero [OF z, of "\<lambda>t. pid_of s t = pid"]
      first_task_in [of "\<lambda>t. pid_of s t = pid" ts] by auto
qed

theorem find_task_correct_witness:
  "find_task 2 (family ZOMBIE 0 0) = Ok 0x2000 (family ZOMBIE 0 0) \<and>
   find_task 7 (family ZOMBIE 0 0) = Ok 0 (family ZOMBIE 0 0)"
  using find_task_correct [OF family_task_list [of ZOMBIE 0 0], of 2]
    find_task_correct [OF family_task_list [of ZOMBIE 0 0], of 7] by auto

text \<open>
  C19: \<open>sys_send_signal\<close> never delivers a signal. With a list of tasks whose parent pointers
  lead to NULL it returns -1 and changes nothing, whatever the arguments: a target that is a
  descendant of the caller always counts as alive.
\<close>

theorem sys_send_signal_never_delivers:
  assumes "task_list s ts" and "syscall_ready s task" and "\<forall>t\<in>set ts. \<exists>as. ancestors s t as"
  shows "sys_send_signal P task s = Ok (-1) s"
proof -
  define t where "t = first_task (\<lambda>t. pid_of s t = reg_of s task TF_a0) ts"
  have "\<exists>as. t \<noteq> 0 \<longrightarrow> ancestors s t as"
    using assms(3) first_task_in [of _ ts] by (auto simp: t_def)
  then obtain as where as: "t \<noteq> 0 \<Longrightarrow> ancestors s t as" by blast
  have f: "bind (find_task (reg_of s task TF_a0)) k s = k t s" for k :: "addr \<Rightarrow> (uint64, 'a kernel_scheme) run"
    unfolding t_def using find_task_ok [OF assms(1)] by (rule bind_Ok)
  have a: "bind (is_ancestor task t) k s = k (t \<noteq> 0 \<and> task \<noteq> 0 \<and> task \<in> set as) s" for k :: "bool \<Rightarrow> (uint64, 'a kernel_scheme) run"
    using is_ancestor_ok [OF as] by (rule bind_Ok)
  have l: "bind (is_alive t) k s = k (t \<noteq> 0) s" for k :: "bool \<Rightarrow> (uint64, 'a kernel_scheme) run"
    using is_alive_any by (rule bind_Ok)
  show ?thesis
    unfolding sys_send_signal_def bind_get_reg [OF assms(2)] Let_def f a
    by (cases "t \<noteq> 0 \<and> task \<noteq> 0 \<and> task \<in> set as") (simp_all only: l simp_thms if_True if_False return_def)
qed

lemma family_ancestors: "\<forall>t\<in>set [0x1000, 0x2000]. \<exists>as. ancestors (family st a0 a1) t as"
proof -
  have "ancestors (family st a0 a1) 0x1000 []" "ancestors (family st a0 a1) 0x2000 [0x1000]"
    by (simp_all only: ancestors_def family_fields chain.simps) simp
  then show ?thesis by auto
qed

theorem sys_send_signal_never_delivers_witness:
  "sys_send_signal idle_platform 0x1000 (family RUNNABLE 2 9) = Ok (-1) (family RUNNABLE 2 9)"
  using sys_send_signal_never_delivers [OF family_task_list family_ready family_ancestors] by simp

text \<open>
  C20: \<open>sys_wait\<close> on every branch. A zombie child is reaped: the first one in the list becomes
  DEAD, its process number is returned, and its exit status is stored in the caller's shared
  page when a status pointer was passed. Without a child the call returns -1 and changes
  nothing. Otherwise the caller sleeps on itself until a child wakes it.
\<close>

theorem sys_wait_correct:
  assumes "task_list s ts" and "syscall_ready s task"
    and "z = first_task (\<lambda>t. parent_of s t = task \<and> state_of s t = state_code ZOMBIE) ts"
    and "sh = load64 (mem s) (task + ts_shared_memory)"
    and "aligned8 z" and "aligned8 sh" and "sh \<noteq> 0" and "sh \<noteq> z" and "sh \<noteq> z + ts_pid"
  shows "if z \<noteq> 0 then
      \<exists>s'. sys_wait P task s = Ok (pid_of s z) s' \<and> state_of s' z = state_code DEAD \<and>
        (reg_of s task TF_a0 \<noteq> 0 \<longrightarrow> load32 (mem s') sh = load32 (mem s) (z + ts_exit_status)) \<and>
        (\<forall>a. aligned8 a \<longrightarrow> a \<noteq> z \<longrightarrow> a \<noteq> sh \<longrightarrow> load64 (mem s') a = load64 (mem s) a)
    else if \<forall>t\<in>set ts. parent_of s t \<noteq> task then sys_wait P task s = Ok (-1) s
    else sys_wait P task s = bind (sleep P task task) (\<lambda>_. resume_wait task (reg_of s task TF_a0)) s"
proof -
  have zc: "bind (get_one_zombie_child task) k s = k z s" for k :: "addr \<Rightarrow> (uint64, 'a kernel_scheme) run"
    unfolding assms(3) using zombie_child_ok [OF assms(1)] by (rule bind_Ok)
  have ac: "bind (has_alive_child task) k s = k (\<exists>t\<in>set ts. parent_of s t = task) s" for k :: "bool \<Rightarrow> (uint64, 'a kernel_scheme) run"
    using has_alive_child_ok [OF assms(1)] by (rule bind_Ok)
  have w: "sys_wait P task s = (if z \<noteq> 0 then reap task (reg_of s task TF_a0) z s
      else if \<forall>t\<in>set ts. parent_of s t \<noteq> task then Ok (-1) s
      else bind (sleep P task task) (\<lambda>_. resume_wait task (reg_of s task TF_a0)) s)"
    unfolding sys_wait_def zc bind_get_reg [OF assms(2)] by (simp add: ac) (auto simp: run_simps)
  have al: "aligned8 (z + ts_pid)" "z + ts_pid \<noteq> z"
    using assms(5) by (auto simp: ts_pid_def)
  show ?thesis
  proof (cases "z = 0")
    case False
    have r: "reap task (reg_of s task TF_a0) z s = Ok (pid_of s' z) s'"
      if "s' = s\<lparr>mem := store32 (if reg_of s task TF_a0 \<noteq> 0
          then store32 (mem s) sh (load32 (mem s) (z + ts_exit_status)) else mem s) (z + ts_state) (state_code DEAD)\<rparr>" for s'
      using that False assms(2,4,7)
      by (simp add: reap_def set_state_def struct_simps run_simps syscall_ready_def)
    show ?thesis
      unfolding w using False al assms(5-9) r [OF refl]
      by (simp only: simp_thms if_True if_False) (auto simp: ts_state_def mixed_cells)
  qed (simp_all add: w)
qed

theorem sys_wait_correct_witness:
  "\<exists>s'. sys_wait idle_platform 0x1000 (family ZOMBIE 0x5000 0) = Ok 2 s' \<and>
     state_of s' 0x2000 = state_code DEAD \<and> load32 (mem s') 0x4000 = 42"
proof -
  have z: "0x2000 = first_task (\<lambda>t. parent_of (family ZOMBIE 0x5000 0) t = 0x1000 \<and>
      state_of (family ZOMBIE 0x5000 0) t = state_code ZOMBIE) [0x1000, 0x2000]"
    by (simp only: first_task.simps family_fields) simp
  have e: "load32 (mem (family ZOMBIE 0x5000 0)) (0x2000 + ts_exit_status) = 42"
    by (simp add: aligned8_def cell_def family_cells_def task_layout)
  have "aligned8 (0x2000 :: addr)" "aligned8 (0x4000 :: addr)" "(0x4000 :: addr) \<noteq> 0" "(0x4000 :: addr) \<noteq> 0x2000"
    "(0x4000 :: addr) \<noteq> 0x2000 + ts_pid"
    by (simp_all add: aligned8_def ts_pid_def)
  from sys_wait_correct [OF family_task_list family_ready z family_fields(8) [symmetric] this, of idle_platform]
  show ?thesis by (simp only: family_fields e) auto
qed

text \<open>
  C21: \<open>sys_wait_pid\<close> for one process never finds a zombie. With a process number other than
  -1 it returns -1 and changes nothing when no task has the number, when the task that has it is
  not a child of the caller, and also when the child has already exited; otherwise the caller
  sleeps on the child.
\<close>

theorem sys_wait_pid_correct:
  assumes "task_list s ts" and "syscall_ready s task" and "reg_of s task TF_a0 \<noteq> -1"
    and "t = first_task (\<lambda>t. pid_of s t = reg_of s task TF_a0) ts"
  shows "sys_wait_pid P task s =
    (if t = 0 \<or> parent_of s t \<noteq> task \<or> state_of s t = state_code ZOMBIE then Ok (-1) s
     else bind (sleep P task t) (\<lambda>_. resume_wait task (reg_of s task TF_a1)) s)"
proof -
  have f: "bind (find_task (reg_of s task TF_a0)) k s = k t s" for k :: "addr \<Rightarrow> ('k, 'a kernel_scheme) run"
    unfolding assms(4) using find_task_ok [OF assms(1)] by (rule bind_Ok)
  have c: "child_with_pid task (reg_of s task TF_a0) s =
      Ok (if t = 0 \<or> parent_of s t \<noteq> task \<or> state_of s t = state_code ZOMBIE then 0 else t) s"
    unfolding child_with_pid_def f by (auto simp: struct_simps run_simps get_state_def)
  have k: "bind (child_with_pid task (reg_of s task TF_a0)) k s =
      k (if t = 0 \<or> parent_of s t \<noteq> task \<or> state_of s t = state_code ZOMBIE then 0 else t) s"
    for k :: "addr \<Rightarrow> ((addr \<times> addr) option, 'a kernel_scheme) run"
    using c by (rule bind_Ok)
  have w: "wait_pid_target task (reg_of s task TF_a0) s =
      Ok (if t = 0 \<or> parent_of s t \<noteq> task \<or> state_of s t = state_code ZOMBIE then None else Some (0, t)) s"
    using assms(3) unfolding wait_pid_target_def
    by (simp only: if_False k) (auto simp: run_simps get_state_def)
  have l: "bind (wait_pid_target task (reg_of s task TF_a0)) k s =
      k (if t = 0 \<or> parent_of s t \<noteq> task \<or> state_of s t = state_code ZOMBIE then None else Some (0, t)) s"
    for k :: "(addr \<times> addr) option \<Rightarrow> (uint64, 'a kernel_scheme) run"
    using w by (rule bind_Ok)
  show ?thesis
    unfolding sys_wait_pid_def bind_get_reg [OF assms(2)] l
    by (auto simp: bind_get_reg [OF assms(2)] return_def simp del: tf_offset.simps state_code.simps)
qed

theorem sys_wait_pid_correct_witness:
  "sys_wait_pid idle_platform 0x1000 (family ZOMBIE 2 0) = Ok (-1) (family ZOMBIE 2 0)"
proof -
  have z: "0x2000 = first_task (\<lambda>t. pid_of (family ZOMBIE 2 0) t = reg_of (family ZOMBIE 2 0) 0x1000 TF_a0) [0x1000, 0x2000]"
    by (simp only: first_task.simps family_fields) simp
  have "reg_of (family ZOMBIE 2 0) 0x1000 TF_a0 \<noteq> -1" by (simp only: family_fields) simp
  from sys_wait_pid_correct [OF family_task_list family_ready this z, of idle_platform]
  show ?thesis by (simp only: family_fields simp_thms if_True)
qed

end
