(* ===== verification/Trampoline.thy ===== *)
theory Trampoline
  imports Mmu Task_Queries
begin

text \<open>
  What the assembly routines do: \<open>user_vector\<close> and \<open>user_return\<close> move the user's registers into
  and out of the trap frame, \<open>switch_context\<close> exchanges kernel contexts, \<open>kernel_vector\<close> and
  \<open>timer_vector\<close> are invisible to the code they interrupt.
\<close>

section \<open>Pages that the hardware reaches\<close>

lemma in_page_iff:
  assumes "q < 2 ^ 44"
  shows "x \<in> span (page_addr q) 4096 \<longleftrightarrow> page_of x = q"
proof -
  have q: "q < 2 ^ 51" using assms by simp
  have "memset (\<lambda>_. 1) (page_addr q) 0 PGSIZE x = (if x - page_addr q < PGSIZE then 0 else 1)"
    by (simp add: memset_eq)
  with memset_page [OF q, of "\<lambda>_. 1" x] show ?thesis
    by (simp add: span_def PGSIZE_def split: if_splits)
qed

lemma page_offset:
  assumes "PGOFFSET va = 0" and "off < 4096" and "va < MAXVA"
  shows "PGROUNDDOWN (va + off) = va" "PGOFFSET (va + off) = off" "va + off < MAXVA"
proof -
  have m: "PGOFFSET a = take_bit 12 a" "PGROUNDDOWN a = a AND NOT (mask 12)" for a
    by (simp_all add: PGOFFSET_def PGROUNDDOWN_def PGSIZE_def take_bit_eq_mask mask_eq_exp_minus_1)
  have "take_bit 12 va = 0" using assms(1) by (simp add: m)
  then have v: "\<not> bit va n" if "n < 12" for n using that by (metis bit_0_eq bit_take_bit_iff bot_apply bot_bool_def)
  have o: "\<not> bit off n" if "12 \<le> n" for n
    using assms(2) that by (intro high_bit_clear [of off 12]) (simp_all add: word_less_nat_alt)
  have "va AND off = 0" using v o by (auto simp: uint64_eq_iff_bit bit_simps) (meson not_less)
  then have s: "va + off = va OR off" by (rule disjunctive_add_eq_or)
  show r: "PGROUNDDOWN (va + off) = va"
    unfolding s m using v o by (auto simp: uint64_eq_iff_bit bit_simps)
  show "PGOFFSET (va + off) = off"
    unfolding s m using v o by (auto simp: uint64_eq_iff_bit bit_simps)
  show "va + off < MAXVA"
  proof -
    have "\<not> bit (va + off) n" if "38 \<le> n" for n
    proof -
      have "\<not> bit va n" using assms(3) that by (intro high_bit_clear [of va 38]) (simp_all add: below_MAXVA)
      then show ?thesis using o [of n] that unfolding s by (simp add: bit_or_iff)
    qed
    then have "va + off = take_bit 38 (va + off)" by (auto simp: uint64_eq_iff_bit bit_take_bit_iff) (meson not_less)
    moreover have "unat (take_bit 38 (va + off)) < 2 ^ 38" by (simp add: take_bit_eq_mod unat_mod_distrib)
    ultimately have "unat (va + off) < 2 ^ 38" by metis
    then show ?thesis by (simp add: below_MAXVA)
  qed
qed

text \<open>A mapped page that is not one of the tables, in supervisor mode.\<close>

lemma reaches_page:
  assumes T: "tree_repr (mem c) T" "tree_shape T" and atp: "satp c = MAKE_SATP (page_addr (pt_root T))"
    and va: "PGOFFSET va = 0" "va < MAXVA" and e: "leaf (mem c) T va = Some e"
    and u: "usable e" "permits Supervisor_mode acc e" and p: "priv c = Supervisor_mode"
    and q: "PTE2PA e = page_addr q" "q \<notin> tables T" "q < 2 ^ 44"
  shows "reaches c (span (page_addr q) 4096) acc va (page_addr q) 4096"
  unfolding reaches_def
proof (intro allI impI)
  fix m' off
  assume m': "\<forall>x. x \<notin> span (page_addr q) 4096 \<longrightarrow> m' x = mem c x" and off: "off < (4096 :: uint64)"
  have same: "m' x = mem c x" if "page_of x \<in> tables T" for x
    using m' q(2) that in_page_iff [OF q(3), of x] by auto
  have t: "tree_repr m' T" using T same by (rule tree_repr_cong)
  note o = page_offset [OF va(1) off va(2)]
  have "leaf m' T (va + off) = leaf m' T va" using leaf_round [of m' T "va + off"] o(1) by simp
  also have "\<dots> = Some e"
    using e same by (subst leaf_cong [OF T(2), of m' "mem c"]) (auto simp: tables_def)
  finally have "leaf m' T (va + off) = Some e" .
  then show "translate m' (satp c) (priv c) acc (va + off) = Some (page_addr q + off)"
    using translate_tree [OF t T(2) o(3), of "priv c" acc] u q(1) o(2) by (simp add: atp p)
qed

section \<open>The trap frame of a user task\<close>

primrec frame_field :: "reg \<Rightarrow> trap_frame_field" where
  "frame_field RA = TF_ra" | "frame_field SP = TF_sp" | "frame_field GP = TF_gp" | "frame_field TP = TF_tp"
| "frame_field T0 = TF_t0" | "frame_field T1 = TF_t1" | "frame_field T2 = TF_t2" | "frame_field S0 = TF_s0"
| "frame_field S1 = TF_s1" | "frame_field A0 = TF_a0" | "frame_field A1 = TF_a1" | "frame_field A2 = TF_a2"
| "frame_field A3 = TF_a3" | "frame_field A4 = TF_a4" | "frame_field A5 = TF_a5" | "frame_field A6 = TF_a6"
| "frame_field A7 = TF_a7" | "frame_field S2 = TF_s2" | "frame_field S3 = TF_s3" | "frame_field S4 = TF_s4"
| "frame_field S5 = TF_s5" | "frame_field S6 = TF_s6" | "frame_field S7 = TF_s7" | "frame_field S8 = TF_s8"
| "frame_field S9 = TF_s9" | "frame_field S10 = TF_s10" | "frame_field S11 = TF_s11" | "frame_field T3 = TF_t3"
| "frame_field T4 = TF_t4" | "frame_field T5 = TF_t5" | "frame_field T6 = TF_t6"

definition frame_cell :: "reg \<Rightarrow> uint64" where
  "frame_cell r = tf_offset (frame_field r)"

definition user_regs :: "reg list" where
  "user_regs = [RA, SP, GP, TP, T0, T1, T2, S0, S1, A1, A2, A3, A4, A5, A6, A7,
     S2, S3, S4, S5, S6, S7, S8, S9, S10, S11, T3, T4, T5, T6]"

definition user_cells :: "(reg \<times> uint64) list" where
  "user_cells = map (\<lambda>r. (r, frame_cell r)) user_regs"

lemma reg_cases_A0: "r = A0 \<or> r \<in> set user_regs"
  by (cases r) (simp_all add: user_regs_def)

lemma user_vector_parts:
  "user_vector_asm = Csrw Sscratch A0 # Li A0 TRAPFRAME # saves A0 user_cells @ Csrr T0 Sscratch #
     saves A0 [(T0, frame_cell A0)] @
     loads A0 [(SP, tf_offset TF_kernel_sp), (TP, tf_offset TF_kernel_hartid), (T0, tf_offset TF_kernel_trap),
       (T1, tf_offset TF_kernel_satp)] @ [Sfence_vma, Csrw Satp T1, Sfence_vma, Jr T0]"
  by (simp add: user_vector_asm_def user_cells_def user_regs_def saves_def loads_def frame_cell_def)

lemma user_return_parts:
  "user_return_asm = Sfence_vma # Csrw Satp A0 # Sfence_vma # Li A0 TRAPFRAME # loads A0 user_cells @
     [Ld A0 (frame_cell A0) A0, Sret]"
  by (simp add: user_return_asm_def user_cells_def user_regs_def loads_def frame_cell_def)

lemma user_cells_ok:
  "cells_in 4096 user_cells" "distinct (map snd user_cells)" "distinct (map fst user_cells)"
  "A0 \<notin> fst ` set user_cells"
  by (simp_all add: user_cells_def user_regs_def cells_in_def frame_cell_def aligned8_num)

lemma frame_cell_in: "r \<noteq> A0 \<Longrightarrow> (r, frame_cell r) \<in> set user_cells"
  using reg_cases_A0 [of r] by (auto simp: user_cells_def)

text \<open>
  The page tables map the address \<open>TRAPFRAME\<close> to the page \<open>q\<close>, readable and writable for the
  supervisor, as \<open>new_task\<close> enters it.
\<close>

definition frame_mapped :: "memory \<Rightarrow> page_tree \<Rightarrow> nat \<Rightarrow> bool" where
  "frame_mapped m T q \<longleftrightarrow> tree_repr m T \<and> tree_shape T \<and> q \<notin> tables T \<and> q < 2 ^ 44 \<and>
     leaf m T TRAPFRAME = Some (page_entry (page_addr q) (PTE_R OR PTE_W))"

lemma perm_RW: "perm_ok (PTE_R OR PTE_W)"
  by (simp add: perm_ok_def pte_consts)

lemma frame_reaches:
  assumes "frame_mapped (mem c) T q" and "satp c = MAKE_SATP (page_addr (pt_root T))"
    and "priv c = Supervisor_mode"
  shows "reaches c (span (page_addr q) 4096) acc TRAPFRAME (page_addr q) 4096"
proof -
  have m: "tree_repr (mem c) T" "tree_shape T" "q \<notin> tables T" "q < 2 ^ 44"
    "leaf (mem c) T TRAPFRAME = Some (page_entry (page_addr q) (PTE_R OR PTE_W))"
    using assms(1) by (auto simp: frame_mapped_def)
  have f: "leaf_perm (PTE_R OR PTE_W)" "permits Supervisor_mode acc (PTE_R OR PTE_W)"
    using perm_RW by (auto simp add: leaf_perm_def permits_def and_bit_zero_iff bit_or_iff split: access.splits)
  have "unat (page_addr q) < 2 ^ 56" using m(4) by (subst unat_page_addr) simp_all
  then have pa: "page_addr q < 2 ^ 56" by (simp add: word_less_nat_alt)
  have "PTE2PA (page_entry (page_addr q) (PTE_R OR PTE_W)) = page_addr q"
    using PTE2PA_PA2PTE [of "PTE_R OR PTE_W" "PGROUNDDOWN (page_addr q)"] f(1) PGROUNDDOWN_page [of q] m(4)
    by (simp add: page_entry_def leaf_perm_def)
  moreover have "PGOFFSET TRAPFRAME = 0" "TRAPFRAME < MAXVA" by (simp_all add: page_consts PGOFFSET_def)
  ultimately show ?thesis
    using m page_entry_usable [OF f(1) pa] f(2) assms(2,3)
    by (intro reaches_page [where T = T and e = "page_entry (page_addr q) (PTE_R OR PTE_W)"]) simp_all
qed

lemma frame_aligned: "aligned8 TRAPFRAME" "q < 2 ^ 44 \<Longrightarrow> aligned8 (page_addr q)"
proof -
  show "aligned8 TRAPFRAME" by (simp add: page_consts aligned8_def)
  show "q < 2 ^ 44 \<Longrightarrow> aligned8 (page_addr q)" by (simp add: aligned8_def unat_page_addr)
qed

text \<open>Running the two routines.\<close>

abbreviation kernel_cells :: "(reg \<times> uint64) list" where
  "kernel_cells \<equiv> [(SP, tf_offset TF_kernel_sp), (TP, tf_offset TF_kernel_hartid), (T0, tf_offset TF_kernel_trap),
     (T1, tf_offset TF_kernel_satp)]"

definition frame_saved :: "memory \<Rightarrow> (reg \<Rightarrow> uint64) \<Rightarrow> addr \<Rightarrow> memory" where
  "frame_saved m g tf = saved (saved m (g(A0 := TRAPFRAME)) tf user_cells) (\<lambda>_. g A0) tf [(T0, frame_cell A0)]"

lemma user_vector_run:
  assumes "frame_mapped (mem c) T q" and "satp c = MAKE_SATP (page_addr (pt_root T))"
    and "priv c = Supervisor_mode"
  shows "exec_asm funs user_vector_asm c = Some
    (let tf = page_addr q; m = frame_saved (mem c) (gpr c) tf;
         g = loaded m ((gpr c)(A0 := TRAPFRAME, T0 := gpr c A0)) tf kernel_cells in
     c\<lparr>mem := m, gpr := g, sscratch := gpr c A0, satp := g T1, pc := g T0\<rparr>)"
proof -
  let ?tf = "page_addr q" and ?W = "span (page_addr q) 4096"
  let ?g = "(gpr c)(A0 := TRAPFRAME)"
  define c1 where "c1 = c\<lparr>sscratch := gpr c A0, gpr := ?g\<rparr>"
  define c2 where "c2 = c1\<lparr>mem := saved (mem c) ?g ?tf user_cells, gpr := ?g(T0 := gpr c A0)\<rparr>"
  define c3 where "c3 = c2\<lparr>mem := saved (mem c2) (gpr c2) ?tf [(T0, frame_cell A0)]\<rparr>"
  note al = frame_aligned(1)
  have r: "reaches c ?W acc TRAPFRAME ?tf 4096" for acc using assms by (rule frame_reaches)
  have r1: "reaches c1 ?W acc TRAPFRAME ?tf 4096" for acc
    by (rule reaches_cong [OF r]) (simp_all add: c1_def)
  have r2: "reaches c2 ?W acc TRAPFRAME ?tf 4096" for acc
    by (rule reaches_cong [OF r1]) (simp_all add: c1_def c2_def saved_outside [OF user_cells_ok(1)])
  have one: "cells_in 4096 [(T0, frame_cell A0)]" by (simp add: frame_cell_def aligned8_num)
  have r3: "reaches c3 ?W acc TRAPFRAME ?tf 4096" for acc
    using saved_outside [OF one] by (intro reaches_cong [OF r2]) (simp_all add: c3_def del: saved.simps)
  have "exec_asm funs user_vector_asm c = exec_asm funs (saves A0 user_cells @ Csrr T0 Sscratch #
      saves A0 [(T0, frame_cell A0)] @ loads A0 kernel_cells @ [Sfence_vma, Csrw Satp T1, Sfence_vma, Jr T0]) c1"
    by (simp add: user_vector_parts c1_def set_gpr_def)
  also have "\<dots> = exec_asm funs (saves A0 [(T0, frame_cell A0)] @ loads A0 kernel_cells @
      [Sfence_vma, Csrw Satp T1, Sfence_vma, Jr T0]) c2"
    by (subst exec_saves [OF r1 subset_refl _ al user_cells_ok(1)])
      (simp_all add: c1_def c2_def set_gpr_def)
  also have "\<dots> = exec_asm funs (loads A0 kernel_cells @ [Sfence_vma, Csrw Satp T1, Sfence_vma, Jr T0]) c3"
    unfolding c3_def by (rule exec_saves [OF r2 subset_refl _ al one]) (simp add: c2_def)
  also have "\<dots> = exec_asm funs [Sfence_vma, Csrw Satp T1, Sfence_vma, Jr T0]
      (c3\<lparr>gpr := loaded (mem c3) (gpr c3) ?tf kernel_cells\<rparr>)"
    by (rule exec_loads [OF r3 _ al]) (simp_all add: c3_def c2_def aligned8_num)
  finally show ?thesis
    by (simp add: c3_def c2_def c1_def frame_saved_def Let_def)
qed

lemma user_return_run:
  assumes "frame_mapped (mem k) T q" and "gpr k A0 = MAKE_SATP (page_addr (pt_root T))"
    and "priv k = Supervisor_mode"
  shows "exec_asm funs user_return_asm k = Some
    (sret (k\<lparr>satp := gpr k A0, gpr := \<lambda>r. load64 (mem k) (page_addr q + frame_cell r)\<rparr>))"
proof -
  let ?tf = "page_addr q" and ?W = "span (page_addr q) 4096"
  define k1 where "k1 = k\<lparr>satp := gpr k A0, gpr := (gpr k)(A0 := TRAPFRAME)\<rparr>"
  define k2 where "k2 = k1\<lparr>gpr := loaded (mem k) (gpr k1) ?tf user_cells\<rparr>"
  have r: "reaches k1 ?W Load TRAPFRAME ?tf 4096"
    using assms by (intro frame_reaches [where T = T]) (simp_all add: k1_def)
  have a0: "gpr k2 A0 = TRAPFRAME" using loaded_other [OF user_cells_ok(4)] by (simp add: k2_def k1_def)
  have "exec_asm funs user_return_asm k = exec_asm funs (loads A0 user_cells @ [Ld A0 (frame_cell A0) A0, Sret]) k1"
    by (simp add: user_return_parts k1_def set_gpr_def)
  also have "\<dots> = exec_asm funs [Ld A0 (frame_cell A0) A0, Sret] k2"
    by (subst exec_loads [OF r _ frame_aligned(1) user_cells_ok(1,4)]) (simp_all add: k1_def k2_def)
  finally have run: "exec_asm funs user_return_asm k = exec_asm funs [Ld A0 (frame_cell A0) A0, Sret] k2" .
  have "frame_cell A0 < 4096" by (simp add: frame_cell_def)
  then have "translate (mem k2) (satp k2) (priv k2) Load (TRAPFRAME + frame_cell A0) = Some (?tf + frame_cell A0)"
    using r by (simp add: reaches_def k2_def)
  then have l: "load_at (gpr k2 A0 + frame_cell A0) k2 = Some (load64 (mem k) (?tf + frame_cell A0))"
    unfolding a0 load_at_def using frame_aligned(1) tf_offset_aligned [of "frame_field A0"]
    by (simp add: frame_cell_def k2_def k1_def)
  have g: "(gpr k2)(A0 := load64 (mem k) (?tf + frame_cell A0)) = (\<lambda>r. load64 (mem k) (?tf + frame_cell r))"
    using loaded_cell [OF user_cells_ok(3) frame_cell_in] by (auto simp: k2_def)
  have "exec_asm funs [Ld A0 (frame_cell A0) A0, Sret] k2 =
      Some (sret (k2\<lparr>gpr := (gpr k2)(A0 := load64 (mem k) (?tf + frame_cell A0))\<rparr>))"
    using l assms(3) by (simp add: set_gpr_def k2_def k1_def)
  then show ?thesis unfolding run g by (simp add: k2_def k1_def)
qed

text \<open>The frame after \<open>user_vector\<close>.\<close>

lemma frame_field_inj [simp]: "frame_field r = frame_field r' \<longleftrightarrow> r = r'"
  by (cases r; cases r') simp_all

lemma frame_cell_inj [simp]: "frame_cell r = frame_cell r' \<longleftrightarrow> r = r'"
  by (simp add: frame_cell_def del: tf_offset.simps frame_field.simps)

lemma frame_cell_aligned [simp]: "aligned8 (frame_cell r)"
  by (simp add: frame_cell_def del: tf_offset.simps frame_field.simps)

lemma frame_saved_cell:
  assumes "q < 2 ^ 44"
  shows "load64 (frame_saved m g (page_addr q)) (page_addr q + frame_cell r) = g r"
proof (cases "r = A0")
  case True
  then show ?thesis by (simp add: frame_saved_def)
next
  case False
  then have "load64 (frame_saved m g (page_addr q)) (page_addr q + frame_cell r) =
      load64 (saved m (g(A0 := TRAPFRAME)) (page_addr q) user_cells) (page_addr q + frame_cell r)"
    using frame_aligned(2) [OF assms] by (simp add: frame_saved_def load64_store64_aligned)
  with False show ?thesis
    using saved_cell [OF user_cells_ok(1) frame_aligned(2) [OF assms] user_cells_ok(2) frame_cell_in] by simp
qed

lemma frame_saved_kernel:
  assumes "q < 2 ^ 44" and "f \<notin> range frame_field"
  shows "load64 (frame_saved m g (page_addr q)) (page_addr q + tf_offset f) = load64 m (page_addr q + tf_offset f)"
proof -
  have "f \<noteq> frame_field r" for r using assms(2) by blast
  then have "tf_offset f \<noteq> frame_cell A0" "tf_offset f \<notin> snd ` set user_cells"
    by (auto simp: frame_cell_def user_cells_def simp del: tf_offset.simps frame_field.simps)
  then show ?thesis
    using frame_aligned(2) [OF assms(1)] tf_offset_aligned [of f]
      saved_other [OF user_cells_ok(1) frame_aligned(2) [OF assms(1)] tf_offset_aligned, of f]
    by (simp add: frame_saved_def load64_store64_aligned)
qed

lemma frame_saved_outside:
  assumes "x \<notin> span tf 4096"
  shows "frame_saved m g tf x = m x"
proof -
  have "cells_in 4096 [(T0, frame_cell A0)]" by (simp add: frame_cell_def aligned8_num)
  from saved_outside [OF this assms] saved_outside [OF user_cells_ok(1) assms] show ?thesis
    by (simp only: frame_saved_def)
qed

lemma kernel_field_not_user:
  "TF_kernel_satp \<notin> range frame_field" "TF_kernel_sp \<notin> range frame_field" "TF_kernel_trap \<notin> range frame_field"
  "TF_epc \<notin> range frame_field" "TF_kernel_hartid \<notin> range frame_field"
proof -
  have "frame_field r \<noteq> TF_kernel_satp \<and> frame_field r \<noteq> TF_kernel_sp \<and> frame_field r \<noteq> TF_kernel_trap \<and>
    frame_field r \<noteq> TF_epc \<and> frame_field r \<noteq> TF_kernel_hartid" for r by (cases r) simp_all
  then show "TF_kernel_satp \<notin> range frame_field" "TF_kernel_sp \<notin> range frame_field" "TF_kernel_trap \<notin> range frame_field"
    "TF_epc \<notin> range frame_field" "TF_kernel_hartid \<notin> range frame_field" by (metis imageE)+
qed

section \<open>A task in user space\<close>

text \<open>A page table that maps the trap frame, and a hart in a trap from user mode.\<close>

definition tramp_tree :: page_tree where
  "tramp_tree = \<lparr>pt_root = 0x80100, pt_mid = [255 \<mapsto> 0x80101], pt_low = [(255, 511) \<mapsto> 0x80102]\<rparr>"

definition tramp_memory :: memory where
  "tramp_memory = store64 (store64 (store64 (\<lambda>_. 0) (slot 0x80100 255) (table_entry 0x80101))
     (slot 0x80101 511) (table_entry 0x80102)) (slot 0x80102 510) (page_entry (page_addr 0x80200) (PTE_R OR PTE_W))"

definition trapped_cpu :: cpu where
  "trapped_cpu = cpu_zero\<lparr>mem := tramp_memory, satp := MAKE_SATP (page_addr 0x80100), gpr := (\<lambda>_. 0)(S0 := 7, A0 := 9)\<rparr>"

lemma load_tramp_memory:
  assumes "p < 2 ^ 51" and "i < 512"
  shows "load64 tramp_memory (slot p i) =
    (if p = 0x80102 \<and> i = 510 then page_entry (page_addr 0x80200) (PTE_R OR PTE_W)
     else if p = 0x80101 \<and> i = 511 then table_entry 0x80102
     else if p = 0x80100 \<and> i = 255 then table_entry 0x80101 else 0)"
  using assms by (auto simp: tramp_memory_def load_store_slot)

lemma TRAPFRAME_indices: "PX 2 TRAPFRAME = 255" "PX 1 TRAPFRAME = 511" "PX 0 TRAPFRAME = 510" "PX (Suc 0) TRAPFRAME = 511"
  by (simp_all add: PX_def page_consts)

lemma tramp_frame: "frame_mapped tramp_memory tramp_tree 0x80200"
proof -
  have "tree_shape tramp_tree"
    by (auto simp: tree_shape_def tables_def tramp_tree_def ran_def table_page_def first_page_def end_page_def
        inj_on_def split: if_splits)
  moreover have "tree_repr tramp_memory tramp_tree"
    by (auto simp: tree_repr_def sub_table_def load_tramp_memory tramp_tree_def)
  moreover have "leaf tramp_memory tramp_tree TRAPFRAME = Some (page_entry (page_addr 0x80200) (PTE_R OR PTE_W))"
    by (simp add: leaf_def low_table_def tramp_tree_def TRAPFRAME_indices load_tramp_memory) (simp add: page_entry_def)
  moreover have "0x80200 \<notin> tables tramp_tree" by (auto simp: tables_def tramp_tree_def ran_def split: if_splits)
  ultimately show ?thesis by (simp add: frame_mapped_def)
qed

lemma frame_mapped_tables:
  assumes "frame_mapped m T q" and same: "\<And>x. page_of x \<in> tables T \<Longrightarrow> m' x = m x"
  shows "frame_mapped m' T q"
proof -
  have q: "tree_repr m T" "tree_shape T" using assms(1) by (simp_all add: frame_mapped_def)
  have "tree_repr m' T" using q same by (rule tree_repr_cong)
  moreover have "leaf m' T TRAPFRAME = leaf m T TRAPFRAME"
    using same by (intro leaf_cong [OF q(2)]) (simp add: tables_def)
  ultimately show ?thesis using assms(1) by (simp add: frame_mapped_def)
qed

lemma frame_mapped_cong:
  assumes "frame_mapped m T q" and "\<And>x. x \<notin> span (page_addr q) 4096 \<Longrightarrow> m' x = m x"
  shows "frame_mapped m' T q"
proof (rule frame_mapped_tables [OF assms(1)])
  have q: "q \<notin> tables T" "q < 2 ^ 44" using assms(1) by (simp_all add: frame_mapped_def)
  show "m' x = m x" if "page_of x \<in> tables T" for x
    using assms(2) [of x] in_page_iff [OF q(2), of x] q(1) that by auto
qed

text \<open>
  C32. A trap from user mode: \<open>user_vector\<close> enters the kernel at the address, on the stack and
  with the page table that the trap frame names, with every user register in its field of the
  task's trap frame and nothing else changed; and when the kernel later runs \<open>user_return\<close> with
  the frame as it was left, the user program continues in user mode at \<open>sepc\<close> with all 31
  registers as they were.
\<close>

theorem user_trap_roundtrip:
  assumes "frame_mapped (mem c) T q" and "satp c = MAKE_SATP (page_addr (pt_root T))"
    and "priv c = Supervisor_mode"
  shows "\<exists>k. exec_asm funs user_vector_asm c = Some k \<and>
    (\<forall>r. load64 (mem k) (page_addr q + tf_offset (frame_field r)) = gpr c r) \<and>
    (\<forall>f. f \<notin> range frame_field \<longrightarrow>
       load64 (mem k) (page_addr q + tf_offset f) = load64 (mem c) (page_addr q + tf_offset f)) \<and>
    (\<forall>x. x \<notin> span (page_addr q) 4096 \<longrightarrow> mem k x = mem c x) \<and>
    pc k = load64 (mem c) (page_addr q + tf_offset TF_kernel_trap) \<and>
    gpr k SP = load64 (mem c) (page_addr q + tf_offset TF_kernel_sp) \<and>
    satp k = load64 (mem c) (page_addr q + tf_offset TF_kernel_satp) \<and> priv k = Supervisor_mode \<and>
    (\<forall>k' T'. frame_mapped (mem k') T' q \<and> gpr k' A0 = MAKE_SATP (page_addr (pt_root T')) \<and>
       priv k' = Supervisor_mode \<and> sstatus k' AND SSTATUS_SPP = 0 \<and>
       (\<forall>r. load64 (mem k') (page_addr q + tf_offset (frame_field r)) =
            load64 (mem k) (page_addr q + tf_offset (frame_field r))) \<longrightarrow>
       (\<exists>u. exec_asm funs user_return_asm k' = Some u \<and> gpr u = gpr c \<and> pc u = sepc k' \<and>
          priv u = User_mode \<and> satp u = gpr k' A0 \<and> mem u = mem k'))"
proof -
  have q: "q < 2 ^ 44" using assms(1) by (simp add: frame_mapped_def)
  define m where "m = frame_saved (mem c) (gpr c) (page_addr q)"
  define g where "g = loaded m ((gpr c)(A0 := TRAPFRAME, T0 := gpr c A0)) (page_addr q) kernel_cells"
  define k where "k = c\<lparr>mem := m, gpr := g, sscratch := gpr c A0, satp := g T1, pc := g T0\<rparr>"
  have run: "exec_asm funs user_vector_asm c = Some k"
    using user_vector_run [OF assms] by (simp only: k_def g_def m_def Let_def)
  have g: "g SP = load64 m (page_addr q + tf_offset TF_kernel_sp)" "g T0 = load64 m (page_addr q + tf_offset TF_kernel_trap)"
    "g T1 = load64 m (page_addr q + tf_offset TF_kernel_satp)"
    by (simp_all add: g_def del: tf_offset.simps)
  have cell: "load64 m (page_addr q + tf_offset (frame_field r)) = gpr c r" for r
    using frame_saved_cell [OF q] by (simp add: m_def frame_cell_def del: tf_offset.simps)
  have kern: "load64 m (page_addr q + tf_offset f) = load64 (mem c) (page_addr q + tf_offset f)"
    if "f \<notin> range frame_field" for f
    using frame_saved_kernel [OF q that] by (simp add: m_def)
  have again: "\<exists>u. exec_asm funs user_return_asm k' = Some u \<and> gpr u = gpr c \<and> pc u = sepc k' \<and>
      priv u = User_mode \<and> satp u = gpr k' A0 \<and> mem u = mem k'"
    if "frame_mapped (mem k') T' q" "gpr k' A0 = MAKE_SATP (page_addr (pt_root T'))" "priv k' = Supervisor_mode"
      "sstatus k' AND SSTATUS_SPP = 0"
      "\<forall>r. load64 (mem k') (page_addr q + tf_offset (frame_field r)) = load64 m (page_addr q + tf_offset (frame_field r))"
    for k' T'
  proof -
    have "(\<lambda>r. load64 (mem k') (page_addr q + frame_cell r)) = gpr c" using that(5) cell by (simp add: frame_cell_def)
    then show ?thesis using user_return_run [OF that(1-3), of funs] that(4) by (simp add: sret_def Let_def)
  qed
  show ?thesis
    using run cell kern kernel_field_not_user g again assms(3) frame_saved_outside [of _ "page_addr q" "mem c" "gpr c"]
    by (intro exI [of _ k]) (auto simp: k_def m_def simp del: tf_offset.simps frame_field.simps)
qed

theorem user_trap_roundtrip_witness:
  "\<exists>k u. exec_asm (\<lambda>_ _. None) user_vector_asm trapped_cpu = Some k \<and>
     load64 (mem k) (page_addr 0x80200 + tf_offset TF_s0) = 7 \<and>
     exec_asm (\<lambda>_ _. None) user_return_asm
       (k\<lparr>gpr := (gpr k)(A0 := MAKE_SATP (page_addr 0x80100)), sstatus := 0\<rparr>) = Some u \<and>
     gpr u = gpr trapped_cpu \<and> priv u = User_mode"
proof -
  have c: "frame_mapped (mem trapped_cpu) tramp_tree 0x80200" "satp trapped_cpu = MAKE_SATP (page_addr (pt_root tramp_tree))"
    "priv trapped_cpu = Supervisor_mode" "gpr trapped_cpu S0 = 7" "pt_root tramp_tree = 0x80100"
    using tramp_frame by (simp_all add: trapped_cpu_def tramp_tree_def)
  obtain k where k: "exec_asm (\<lambda>_ _. None) user_vector_asm trapped_cpu = Some k"
    "\<forall>r. load64 (mem k) (page_addr 0x80200 + tf_offset (frame_field r)) = gpr trapped_cpu r"
    "\<forall>x. x \<notin> span (page_addr 0x80200) 4096 \<longrightarrow> mem k x = mem trapped_cpu x" "priv k = Supervisor_mode"
    and ret: "\<forall>(k' :: cpu) T'. frame_mapped (mem k') T' 0x80200 \<and> gpr k' A0 = MAKE_SATP (page_addr (pt_root T')) \<and>
       priv k' = Supervisor_mode \<and> sstatus k' AND SSTATUS_SPP = 0 \<and>
       (\<forall>r. load64 (mem k') (page_addr 0x80200 + tf_offset (frame_field r)) =
            load64 (mem k) (page_addr 0x80200 + tf_offset (frame_field r))) \<longrightarrow>
       (\<exists>u. exec_asm (\<lambda>_ _. None) user_return_asm k' = Some u \<and> gpr u = gpr trapped_cpu \<and> pc u = sepc k' \<and>
          priv u = User_mode \<and> satp u = gpr k' A0 \<and> mem u = mem k')"
    using user_trap_roundtrip [OF c(1-3), of "\<lambda>_ _. None"] by blast
  let ?k = "k\<lparr>gpr := (gpr k)(A0 := MAKE_SATP (page_addr 0x80100)), sstatus := 0\<rparr>"
  have "frame_mapped (mem ?k) tramp_tree 0x80200" using frame_mapped_cong [OF c(1)] k(3) by simp
  then have "\<exists>u. exec_asm (\<lambda>_ _. None) user_return_asm ?k = Some u \<and> gpr u = gpr trapped_cpu \<and> priv u = User_mode"
    using ret [rule_format, of ?k tramp_tree] c(5) k(4) by auto
  with k(1) k(2) [rule_format, of S0] c(4) show ?thesis by auto
qed

end
