(* ===== verification/Run_Queue.thy ===== *)
theory Run_Queue
  imports Task_Queries
begin

text \<open>
  The scheduler at work: \<open>yield\<close> and \<open>sleep\<close> on a run queue, the round robin order that
  follows, and that every runnable task gets its turn.
\<close>

section \<open>Cells of the queue and of the tasks\<close>

definition queue_cells :: "addr \<Rightarrow> addr list \<Rightarrow> addr set" where
  "queue_cells q ns = {q, q + 8, q + 16} \<union> set ns \<union> (\<lambda>n. n + 8) ` set ns"

text \<open>The header, the nodes and the tasks do not overlap.\<close>

definition queue_layout :: "addr \<Rightarrow> addr list \<Rightarrow> addr list \<Rightarrow> bool" where
  "queue_layout q ns ts \<longleftrightarrow> nodes_sep q ns \<and>
     (\<forall>t\<in>set ts. t \<noteq> 0 \<and> aligned8 t \<and> t \<notin> queue_cells q ns \<and> t + ts_channel \<notin> queue_cells q ns) \<and>
     (\<forall>t\<in>set ts. t + ts_channel \<notin> set ts)"

lemma nodes_sep_mono: "nodes_sep q ns \<Longrightarrow> set ms \<subseteq> set ns \<Longrightarrow> nodes_sep q ms"
  unfolding nodes_sep_def by blast

lemma queue_cells_mono: "set ms \<subseteq> set ns \<Longrightarrow> queue_cells q ms \<subseteq> queue_cells q ns"
  unfolding queue_cells_def by blast

lemma queue_layout_mono:
  "queue_layout q ns ts \<Longrightarrow> set ms \<subseteq> set ns \<Longrightarrow> set us \<subseteq> set ts \<Longrightarrow> queue_layout q ms us"
  unfolding queue_layout_def using nodes_sep_mono [of q ns ms] queue_cells_mono [of ms ns q] by (simp add: subset_iff) blast

lemma queue_cells_aligned: "nodes_sep q ns \<Longrightarrow> a \<in> queue_cells q ns \<Longrightarrow> aligned8 a"
proof -
  assume sep: "nodes_sep q ns" and a: "a \<in> queue_cells q ns"
  have "aligned8 q" "\<And>n. n \<in> set ns \<Longrightarrow> aligned8 n" using sep by (simp_all add: nodes_sep_def)
  with a show "aligned8 a" by (auto simp: queue_cells_def)
qed

lemma node_data_cell: "nodes_sep q ns \<Longrightarrow> n \<in> set ns \<Longrightarrow> n + 8 \<notin> {q, q + 8, q + 16}"
  unfolding nodes_sep_def by blast

text \<open>\<open>touches C s s'\<close>: from \<open>s\<close> to \<open>s'\<close> only memory changed, and of the aligned cells only those in \<open>C\<close>.\<close>

definition touches :: "addr set \<Rightarrow> 'z kernel_scheme \<Rightarrow> 'z kernel_scheme \<Rightarrow> bool" where
  "touches C s s' \<longleftrightarrow> s' = s\<lparr>mem := mem s'\<rparr> \<and>
     (\<forall>a. aligned8 a \<longrightarrow> a \<notin> C \<longrightarrow> load64 (mem s') a = load64 (mem s) a)"

lemma touches_iff:
  "touches C s s' \<longleftrightarrow> (\<exists>m. s' = s\<lparr>mem := m\<rparr> \<and> (\<forall>a. aligned8 a \<longrightarrow> a \<notin> C \<longrightarrow> load64 m a = load64 (mem s) a))"
proof
  assume "touches C s s'"
  then show "\<exists>m. s' = s\<lparr>mem := m\<rparr> \<and> (\<forall>a. aligned8 a \<longrightarrow> a \<notin> C \<longrightarrow> load64 m a = load64 (mem s) a)"
    unfolding touches_def by blast
qed (auto simp: touches_def)

lemma touches_refl [simp]: "touches C s s"
  by (simp add: touches_def)

lemma touches_trans: "touches C s t \<Longrightarrow> touches D t u \<Longrightarrow> touches (C \<union> D) s u"
  by (auto simp: touches_iff)

lemma touches_put: "aligned8 a \<Longrightarrow> touches {a} s (put64 a v s)"
  by (auto simp: touches_def put64_def load64_store64)

lemma touches_mono: "touches C s t \<Longrightarrow> C \<subseteq> D \<Longrightarrow> touches D s t"
  by (auto simp: touches_def)

lemma touches_puts:
  "touches C s t \<Longrightarrow> aligned8 a \<Longrightarrow> a \<in> C \<Longrightarrow> touches C s (put64 a v t)"
  using touches_trans [OF _ touches_put, of C s t a v] by (simp add: insert_absorb)

text \<open>The state of a task, as a cell.\<close>

definition put_state :: "addr \<Rightarrow> process_state \<Rightarrow> 'z kernel_scheme \<Rightarrow> 'z kernel_scheme" where
  "put_state t st s = s\<lparr>mem := store32 (mem s) (t + ts_state) (state_code st)\<rparr>"

lemma set_state_ok: "t \<noteq> 0 \<Longrightarrow> set_state t st s = Ok () (put_state t st s)"
  by (simp add: set_state_def put_state_def run_simps)

lemma bind_set_state: "t \<noteq> 0 \<Longrightarrow> bind (set_state t st) k s = k () (put_state t st s)"
  by (rule bind_Ok) (rule set_state_ok)

lemma get_state_ok: "t \<noteq> 0 \<Longrightarrow> get_state t s = Ok (state_of s t) s"
  by (simp add: get_state_def run_simps)

lemma bind_get_state: "t \<noteq> 0 \<Longrightarrow> bind (get_state t) k s = k (state_of s t) s"
  by (rule bind_Ok) (rule get_state_ok)

lemma touches_state: "aligned8 t \<Longrightarrow> touches {t} s (put_state t st s)"
  by (auto simp: touches_def put_state_def ts_state_def mixed_cells)

lemma state_put_same [simp]: "state_of (put_state t st s) t = state_code st"
  by (simp add: put_state_def)

lemma touches_state_of: "touches C s s' \<Longrightarrow> aligned8 t \<Longrightarrow> t \<notin> C \<Longrightarrow> state_of s' t = state_of s t"
  by (simp add: touches_def load32_low_half ts_state_def)

lemma touches_vars:
  assumes "touches C s s'"
  shows "running_task s' = running_task s" "runnable_tasks s' = runnable_tasks s" "all_tasks s' = all_tasks s"
    "stack_to_remove s' = stack_to_remove s" "stack_to_remove_next s' = stack_to_remove_next s" "sstatus s' = sstatus s"
proof -
  have s': "s' = s\<lparr>mem := mem s'\<rparr>" using assms by (simp add: touches_def)
  show "running_task s' = running_task s" "runnable_tasks s' = runnable_tasks s" "all_tasks s' = all_tasks s"
    "stack_to_remove s' = stack_to_remove s" "stack_to_remove_next s' = stack_to_remove_next s" "sstatus s' = sstatus s"
    by (subst s', simp)+
qed

lemma touches_list_at:
  assumes "touches C s s'" and "list_at s q ns ts" and "nodes_sep q ns" and "C \<inter> queue_cells q ns = {}"
  shows "list_at s' q ns ts"
proof (rule list_at_cong [OF assms(2)])
  have k: "load64 (mem s') a = load64 (mem s) a" if "a \<in> queue_cells q ns" for a
    using assms(1,4) that queue_cells_aligned [OF assms(3) that] by (auto simp: touches_def)
  show "load64 (mem s') (q + i) = load64 (mem s) (q + i)" if "i \<in> {0, 8, 16}" for i
    by (rule k) (use that in \<open>auto simp: queue_cells_def\<close>)
  show "load64 (mem s') (n + i) = load64 (mem s) (n + i)" if "n \<in> set ns" "i \<in> {0, 8}" for n i
    by (rule k) (use that in \<open>auto simp: queue_cells_def\<close>)
qed

lemma push_tail_touches:
  assumes "list_at s q ns ts" and "nodes_sep q (n # ns)" and "n \<notin> set ns"
  shows "\<exists>s'. push_tail q n s = Ok 0 s' \<and> list_at s' q (ns @ [n]) (ts @ [datum s n]) \<and> touches (queue_cells q (n # ns)) s s'"
proof -
  obtain s' where s': "push_tail q n s = Ok 0 s'" "list_at s' q (ns @ [n]) (ts @ [datum s n])"
    and e: "s' = put64 n 0 (put64 (q + ls_size) (of_nat (length ns) + 1) (put64 (q + ls_tail) n
      (put64 (if ns = [] then q else last ns) n s)))"
    using push_tail_at [OF assms] by blast
  let ?C = "queue_cells q (n # ns)"
  have c: "n \<in> ?C" "q + ls_size \<in> ?C" "q + ls_tail \<in> ?C" "(if ns = [] then q else last ns) \<in> ?C"
    by (simp_all add: queue_cells_def list_layout)
  note al = queue_cells_aligned [OF assms(2)]
  have "touches ?C s s'" unfolding e by (intro touches_puts touches_refl al c)
  with s' show ?thesis by blast
qed

lemma pop_touches:
  assumes "list_at s q (n # ns) (t # ts)" and "nodes_sep q (n # ns)"
  shows "\<exists>s'. pop_head_without_free q s = Ok () s' \<and> list_at s' q ns ts \<and> touches {q, q + 8, q + 16} s s'"
proof -
  obtain s' where s': "pop_head_without_free q s = Ok () s'" "list_at s' q ns ts"
    and e: "s' = put64 (q + ls_size) (of_nat (length ns))
      ((if ns = [] then put64 (q + ls_tail) 0 else id) (put64 q (if ns = [] then 0 else hd ns) s))"
    using pop_at [OF assms] by blast
  let ?C = "{q, q + 8, q + 16}"
  have al: "aligned8 q" "aligned8 (q + ls_tail)" "aligned8 (q + ls_size)"
    using assms(2) by (simp_all add: nodes_sep_def list_layout)
  have c: "q \<in> ?C" "q + ls_size \<in> ?C" "q + ls_tail \<in> ?C" by (simp_all add: list_layout)
  have "touches ?C s s'" unfolding e
    by (cases ns) (simp_all only: if_True if_False id_apply refl list.distinct, (intro touches_puts touches_refl al c)+)
  with s' show ?thesis by blast
qed

section \<open>Choosing the next task\<close>

lemma list_at_head:
  assumes "list_at s q (n # ns) (t # ts)" and "q \<noteq> 0"
  shows "head_node q s = Ok n s" "datum s n = t" "n \<noteq> 0" "load64 (mem s) (q + ls_size) = of_nat (Suc (length ns))"
  using assms by (auto simp: list_at_def head_node_def struct_simps list_layout)

text \<open>A chain of distinct nodes that are not NULL is shorter than the address space.\<close>

lemma list_at_size:
  assumes "list_at s q ns ts" and "nodes_sep q ns"
  shows "length ns < 2 ^ 64"
proof -
  have d: "distinct ns" by (rule list_at_distinct [OF assms(1)])
  have "0 \<notin> set ns" using assms(2) by (auto simp: nodes_sep_def)
  then have "set ns \<subset> (UNIV :: addr set)" by auto
  then have "card (set ns) < card (UNIV :: addr set)" by (rule psubset_card_mono [OF finite])
  then show ?thesis using distinct_card [OF d] by (simp add: card_word)
qed

lemma queue_size_nonzero:
  fixes s :: "'z kernel_scheme"
  assumes "list_at s q (n # ns) (t # ts)" and "nodes_sep q (n # ns)"
  shows "load64 (mem s) (q + ls_size) \<noteq> 0"
proof -
  have "Suc (length ns) < 2 ^ 64" using list_at_size [OF assms] by simp
  then have "(of_nat (Suc (length ns)) :: uint64) \<noteq> 0"
    using of_nat_64_inj [of "Suc (length ns)" 0] by simp
  with list_at_head(4) [OF assms(1)] assms(2) show ?thesis by (simp add: nodes_sep_def)
qed

text \<open>The part of \<open>yield\<close> after the current task has been put away.\<close>

definition switch_to_next :: "'z kernel_scheme platform \<Rightarrow> addr \<Rightarrow> (unit, 'z kernel_scheme) run" where
  "switch_to_next P old_context =
     bind next_task_to_run (\<lambda>node.
     bind (modify (\<lambda>s. s\<lparr>running_task := node\<rparr>)) (\<lambda>_.
     if node = 0 then raise (Panic ''yield: no task to run'')
     else
       bind current_task (\<lambda>new_task.
       bind (gets runnable_tasks) (\<lambda>q.
       bind (pop_head_without_free q) (\<lambda>_.
       bind (set_state new_task RUNNING) (\<lambda>_.
       bind interrupt_on (\<lambda>_.
       switch_context P old_context (new_task + ts_context))))))))"

lemma next_task_ok:
  assumes "list_at s q (n # ns) (t # ts)" and "nodes_sep q (n # ns)" and "q = runnable_tasks s"
    and "t \<noteq> 0" and "state_of s t = state_code RUNNABLE"
  shows "next_task_to_run s = Ok n s"
proof -
  have q: "q \<noteq> 0" using assms(2) by (simp add: nodes_sep_def)
  note h = list_at_head [OF assms(1) q]
  have k: "bind (head_node q) k s = k n s" for k :: "addr \<Rightarrow> (addr, 'a kernel_scheme) run"
    using h(1) by (rule bind_Ok)
  have r: "skip_not_runnable n t s = Ok n s"
    using assms(4,5) by (subst skip_not_runnable.simps) (simp add: bind_get_state return_def)
  show ?thesis
    unfolding next_task_to_run_def bind_gets assms(3) [symmetric]
    using q queue_size_nonzero [OF assms(1,2)] h r by (simp add: bind_get_field k)
qed

lemma switch_to_next_ok:
  assumes at: "list_at s q (n # ns) (t # ts)" and lay: "queue_layout q (n # ns) (t # ts)" and q: "q = runnable_tasks s"
    and st: "state_of s t = state_code RUNNABLE"
  shows "\<exists>u. switch_to_next P old s = switch_context P old (t + ts_context) (u\<lparr>sstatus := sstatus s OR SSTATUS_SIE\<rparr>) \<and>
    touches {q, q + 8, q + 16, t} (s\<lparr>running_task := n\<rparr>) u \<and> list_at u q ns ts \<and> state_of u t = state_code RUNNING"
proof -
  have sep: "nodes_sep q (n # ns)" and t: "t \<noteq> 0" "aligned8 t" "t \<notin> queue_cells q (n # ns)"
    using lay by (auto simp: queue_layout_def)
  have q0: "q \<noteq> 0" using sep by (simp add: nodes_sep_def)
  note h = list_at_head [OF at q0]
  let ?s = "s\<lparr>running_task := n\<rparr>"
  have "list_at ?s q (n # ns) (t # ts)" using at by (simp add: list_at_def)
  from pop_touches [OF this sep] obtain w where w: "pop_head_without_free q ?s = Ok () w"
    "list_at w q ns ts" "touches {q, q + 8, q + 16} ?s w" by blast
  let ?u = "put_state t RUNNING w"
  have tu: "touches {t} w ?u" using t(2) by (rule touches_state)
  have u1: "touches {q, q + 8, q + 16, t} ?s ?u"
    using touches_trans [OF w(3) tu] by (rule touches_mono) simp
  have sepns: "nodes_sep q ns" using sep by (rule nodes_sep_mono) auto
  have u2: "list_at ?u q ns ts"
    by (rule touches_list_at [OF tu w(2) sepns]) (use t(3) queue_cells_mono [of ns "n # ns" q] in auto)
  have nx: "bind next_task_to_run k s = k n s" for k :: "addr \<Rightarrow> (unit, 'a kernel_scheme) run"
    using next_task_ok [OF at sep q t(1) st] by (rule bind_Ok)
  have cur: "bind current_task k ?s = k t ?s" for k :: "addr \<Rightarrow> (unit, 'a kernel_scheme) run"
    by (rule bind_Ok) (use q q0 h in \<open>simp add: current_task_def run_simps\<close>)
  have pop: "bind (pop_head_without_free q) k ?s = k () w" for k :: "unit \<Rightarrow> (unit, 'a kernel_scheme) run"
    using w(1) by (rule bind_Ok)
  have ss: "sstatus ?u = sstatus s" using touches_vars(6) [OF u1] by simp
  have "switch_to_next P old s = switch_context P old (t + ts_context) (?u\<lparr>sstatus := sstatus s OR SSTATUS_SIE\<rparr>)"
    unfolding switch_to_next_def nx bind_modify
    using h(3) q [symmetric] by (simp add: cur bind_gets pop bind_set_state [OF t(1)] interrupt_on_def bind_modify ss)
  with u1 u2 show ?thesis by (meson state_put_same)
qed

section \<open>The run queue\<close>

text \<open>
  \<open>run_queue s ns ts\<close>: the first task of \<open>ts\<close> is running and the others wait, in this order,
  in the queue \<open>runnable_tasks\<close>; \<open>ns\<close> are their nodes. No kernel stack is waiting to be freed.
\<close>

definition run_queue :: "'z kernel_scheme \<Rightarrow> addr list \<Rightarrow> addr list \<Rightarrow> bool" where
  "run_queue s ns ts \<longleftrightarrow> ns \<noteq> [] \<and> distinct ns \<and> distinct ts \<and>
     running_task s = hd ns \<and> datum s (hd ns) = hd ts \<and>
     list_at s (runnable_tasks s) (tl ns) (tl ts) \<and> length ns = length ts \<and> queue_layout (runnable_tasks s) ns ts \<and>
     state_of s (hd ts) = state_code RUNNING \<and> (\<forall>t\<in>set (tl ts). state_of s t = state_code RUNNABLE) \<and>
     stack_to_remove s = 0 \<and> stack_to_remove_next s = 0"

lemma run_queueD:
  assumes "run_queue s (n # ns) (t # ts)" and "q = runnable_tasks s"
  shows "q \<noteq> 0" "n \<noteq> 0" "n \<notin> set ns" "t \<noteq> 0" "aligned8 t" "t \<notin> set ts" "running_task s = n" "datum s n = t"
    "list_at s q ns ts" "nodes_sep q (n # ns)" "queue_layout q (n # ns) (t # ts)"
    "t \<notin> queue_cells q (n # ns)" "distinct ts" "distinct ns"
    "state_of s t = state_code RUNNING" "u \<in> set ts \<Longrightarrow> state_of s u = state_code RUNNABLE"
    "stack_to_remove s = 0" "stack_to_remove_next s = 0"
  using assms by (simp_all add: run_queue_def queue_layout_def nodes_sep_def)

lemma run_queueI:
  assumes "running_task s = n" and "datum s n = t" and "list_at s q ns ts" and "q = runnable_tasks s"
    and "distinct (n # ns)" and "distinct (t # ts)" and "queue_layout q (n # ns) (t # ts)"
    and "state_of s t = state_code RUNNING" and "\<And>u. u \<in> set ts \<Longrightarrow> state_of s u = state_code RUNNABLE"
    and "stack_to_remove s = 0" and "stack_to_remove_next s = 0"
  shows "run_queue s (n # ns) (t # ts)"
proof -
  have "length ns = length ts" using assms(3) by (auto simp: list_at_def)
  with assms show ?thesis by (simp add: run_queue_def)
qed

lemma current_task_running:
  assumes "run_queue s (n # ns) (t # ts)"
  shows "current_task s = Ok t s"
  using run_queueD(1,2,7,8) [OF assms refl] by (simp add: current_task_def run_simps)

text \<open>The common beginning of \<open>yield\<close>.\<close>

lemma yield_start:
  assumes "stack_to_remove s = 0" and "stack_to_remove_next s = 0" and "runnable_tasks s \<noteq> 0"
    and "running_task s \<noteq> 0" and "t = datum s (running_task s)"
  shows "yield P s =
    (if load64 (mem s) (runnable_tasks s + ls_size) = 0 then Ok () (irq_off s)
     else bind (requeue_current P t) (switch_to_next P) (irq_off s))"
proof -
  let ?s = "irq_off s"
  have d: "bind (deallocate 0 0) k ?s = k () ?s" for k :: "unit \<Rightarrow> (unit, 'a kernel_scheme) run"
    by (rule bind_Ok) (subst deallocate.simps, simp add: return_def)
  have s: "?s\<lparr>stack_to_remove := 0, stack_to_remove_next := 0\<rparr> = ?s" using assms(1,2) by simp
  have c: "bind current_task k ?s = k t ?s" for k :: "addr \<Rightarrow> (unit, 'a kernel_scheme) run"
    by (rule bind_Ok) (use assms(3-5) in \<open>simp add: current_task_def run_simps\<close>)
  show ?thesis
    unfolding yield_def switch_to_next_def interrupt_off_def bind_modify bind_gets
    using assms(1-3) by (simp add: d bind_modify s c bind_gets bind_get_field return_def)
qed

lemma requeue_current_ok:
  assumes "list_at s q ns ts" and "queue_layout q (n # ns) (t # ts)" and "q = runnable_tasks s" and "n = running_task s"
    and "n \<notin> set ns" and "datum s n = t" and "state_of s t = state_code RUNNING"
  shows "\<exists>s'. requeue_current P t s = Ok (t + ts_context) s' \<and> list_at s' q (ns @ [n]) (ts @ [t]) \<and>
    touches (insert t (queue_cells q (n # ns))) s s' \<and> state_of s' t = state_code RUNNABLE"
proof -
  have sep: "nodes_sep q (n # ns)" and t: "t \<noteq> 0" "aligned8 t" "t \<notin> queue_cells q (n # ns)"
    using assms(2) by (auto simp: queue_layout_def)
  let ?w = "put_state t RUNNABLE s"
  have tw: "touches {t} s ?w" using t(2) by (rule touches_state)
  have sepns: "nodes_sep q ns" using sep by (rule nodes_sep_mono) auto
  have lw: "list_at ?w q ns ts"
    by (rule touches_list_at [OF tw assms(1) sepns]) (use t(3) queue_cells_mono [of ns "n # ns" q] in auto)
  have "aligned8 (n + nd_data)" "n + nd_data \<notin> {t}"
    using queue_cells_aligned [OF sep, of "n + 8"] t(3) by (auto simp: queue_cells_def nd_data_def)
  then have dw: "datum ?w n = t" using tw assms(6) by (simp add: touches_def)
  obtain s' where s': "push_tail q n ?w = Ok 0 s'" "list_at s' q (ns @ [n]) (ts @ [t])"
    "touches (queue_cells q (n # ns)) ?w s'"
    using push_tail_touches [OF lw sep assms(5)] dw by auto
  have "touches (insert t (queue_cells q (n # ns))) s s'" using touches_trans [OF tw s'(3)] by simp
  moreover have "state_of s' t = state_code RUNNABLE" using touches_state_of [OF s'(3) t(2,3)] by simp
  moreover have "requeue_current P t s = Ok (t + ts_context) s'"
  proof -
    have p: "bind (push_tail q n) k ?w = k 0 s'" for k :: "int \<Rightarrow> (addr, 'a kernel_scheme) run"
      using s'(1) by (rule bind_Ok)
    show ?thesis
      using t(1) assms(7) p touches_vars(1,2) [OF tw] assms(3,4)
      by (simp add: requeue_current_def bind_get_state bind_set_state bind_gets return_def del: state_code.simps)
  qed
  ultimately show ?thesis using s'(2) by blast
qed

text \<open>Switching to the next task makes it the running one.\<close>

lemma put_regs:
  "v = w\<lparr>running_task := m, mem := x\<rparr> \<Longrightarrow>
   v\<lparr>sstatus := y\<rparr> = w\<lparr>mem := mem (v\<lparr>sstatus := y\<rparr>), running_task := m, sstatus := sstatus (v\<lparr>sstatus := y\<rparr>)\<rparr>"
  for w :: "'z kernel_scheme"
  by simp

lemma put_regs_trans:
  "v = w\<lparr>mem := x, running_task := m, sstatus := y\<rparr> \<Longrightarrow> w = s\<lparr>sstatus := z, mem := x'\<rparr> \<Longrightarrow>
   v = s\<lparr>mem := x, running_task := m, sstatus := y\<rparr>"
  for s :: "'z kernel_scheme"
  by simp

lemma dispatch_next:
  assumes at: "list_at w q (m # ns) (u # ts)" and lay: "queue_layout q (m # ns) (u # ts)" and qw: "q = runnable_tasks w"
    and dist: "distinct (m # ns)" "distinct (u # ts)" and st: "\<And>x. x \<in> set (u # ts) \<Longrightarrow> state_of w x = state_code RUNNABLE"
    and stacks: "stack_to_remove w = 0" "stack_to_remove_next w = 0"
  shows "\<exists>v. switch_to_next P old w = switch_context P old (u + ts_context) v \<and> run_queue v (m # ns) (u # ts) \<and>
    interrupt_status v \<and> (\<forall>a. aligned8 a \<longrightarrow> a \<notin> {q, q + 8, q + 16, u} \<longrightarrow> load64 (mem v) a = load64 (mem w) a) \<and>
    v = w\<lparr>mem := mem v, running_task := m, sstatus := sstatus v\<rparr>"
proof -
  have sep: "nodes_sep q (m # ns)" and al: "\<And>x. x \<in> set (u # ts) \<Longrightarrow> aligned8 x \<and> x \<notin> queue_cells q (m # ns)"
    using lay by (auto simp: queue_layout_def)
  have q0: "q \<noteq> 0" using sep by (simp add: nodes_sep_def)
  obtain v where v: "switch_to_next P old w =
      switch_context P old (u + ts_context) (v\<lparr>sstatus := sstatus w OR SSTATUS_SIE\<rparr>)"
    "touches {q, q + 8, q + 16, u} (w\<lparr>running_task := m\<rparr>) v" "list_at v q ns ts" "state_of v u = state_code RUNNING"
    using switch_to_next_ok [OF at lay qw st] by auto
  let ?v = "v\<lparr>sstatus := sstatus w OR SSTATUS_SIE\<rparr>"
  note vv = touches_vars [OF v(2)]
  have vs: "state_of ?v x = state_code RUNNABLE" if "x \<in> set ts" for x
  proof -
    have "aligned8 x" "x \<notin> {q, q + 8, q + 16, u}" "state_of w x = state_code RUNNABLE"
      using that al [of x] st [of x] dist by (auto simp: queue_cells_def)
    then show ?thesis using touches_state_of [OF v(2), of x] by simp
  qed
  have fr: "load64 (mem v) a = load64 (mem w) a" if "aligned8 a" "a \<notin> {q, q + 8, q + 16, u}" for a
  proof -
    have "load64 (mem v) a = load64 (mem (w\<lparr>running_task := m\<rparr>)) a" using v(2) that unfolding touches_def by blast
    then show ?thesis by simp
  qed
  have m: "m + 8 \<in> queue_cells q (m # ns)" by (simp add: queue_cells_def)
  moreover have "u \<notin> queue_cells q (m # ns)" using al [of u] by simp
  ultimately have "m + 8 \<noteq> u" by metis
  moreover have "m + 8 \<notin> {q, q + 8, q + 16}" by (rule node_data_cell [OF sep]) simp
  ultimately have "load64 (mem v) (m + 8) = load64 (mem w) (m + 8)"
    by (intro fr queue_cells_aligned [OF sep m]) blast
  then have dm: "datum v m = u" using list_at_head(2) [OF at q0] by (simp add: nd_data_def)
  have "run_queue ?v (m # ns) (u # ts)"
  proof (rule run_queueI [where q = q])
    show "list_at ?v q ns ts" using v(3) by (simp add: list_at_def)
    show "state_of ?v x = state_code RUNNABLE" if "x \<in> set ts" for x using that by (rule vs)
  qed (use lay dm v(4) vv dist stacks qw in simp_all)
  moreover have "interrupt_status ?v" using interrupt_on_status [of w] by (simp add: interrupt_status_def)
  moreover have "v = w\<lparr>running_task := m, mem := mem v\<rparr>" using v(2) unfolding touches_def by simp
  then have "?v = w\<lparr>mem := mem ?v, running_task := m, sstatus := sstatus ?v\<rparr>" by (metis put_regs)
  ultimately show ?thesis using v(1) fr by (intro exI [of _ ?v]) simp
qed

text \<open>When other tasks wait, \<open>yield\<close> moves the running task to the end of the queue.\<close>

lemma yield_rotates:
  assumes rq: "run_queue s (n # m # ns) (t # u # ts)"
  shows "\<exists>s'. yield P s = switch_context P (t + ts_context) (u + ts_context) s' \<and>
    run_queue s' (m # ns @ [n]) (u # ts @ [t]) \<and> interrupt_status s' \<and>
    (\<forall>a. aligned8 a \<longrightarrow> a \<notin> queue_cells (runnable_tasks s) (n # m # ns) \<union> {t, u} \<longrightarrow> load64 (mem s') a = load64 (mem s) a) \<and>
    s' = s\<lparr>mem := mem s', running_task := m, sstatus := sstatus s'\<rparr>"
proof -
  define q where "q = runnable_tasks s"
  note d = run_queueD [OF rq q_def]
  let ?C = "queue_cells q (n # m # ns)"
  have lq: "list_at (irq_off s) q (m # ns) (u # ts)" using d(9) by (simp add: list_at_def)
  obtain w where w: "requeue_current P t (irq_off s) = Ok (t + ts_context) w" "list_at w q (m # ns @ [n]) (u # ts @ [t])"
    "touches (insert t ?C) (irq_off s) w" "state_of w t = state_code RUNNABLE"
    using requeue_current_ok [OF lq d(11), of P] q_def d(3,7,8,15) by auto
  have lay: "queue_layout q (m # ns @ [n]) (u # ts @ [t])" using d(11) by (rule queue_layout_mono) auto
  have al: "x \<in> set (t # u # ts) \<Longrightarrow> aligned8 x \<and> x \<notin> ?C" for x using d(11) by (auto simp: queue_layout_def)
  have st: "state_of w x = state_code RUNNABLE" if "x \<in> set (u # ts @ [t])" for x
  proof (cases "x = t")
    case False
    with that have "x \<in> set (u # ts)" by auto
    with False show ?thesis using touches_state_of [OF w(3), of x] al [of x] d(16) [of x] by auto
  qed (use w(4) in simp)
  note wv = touches_vars [OF w(3)]
  have qw: "q = runnable_tasks w" using wv(2) by (simp add: q_def)
  have "distinct (m # ns @ [n])" "distinct (u # ts @ [t])" using d(3,6,13,14) by auto
  then obtain v where v: "switch_to_next P (t + ts_context) w = switch_context P (t + ts_context) (u + ts_context) v"
    "run_queue v (m # ns @ [n]) (u # ts @ [t])" "interrupt_status v"
    "\<forall>a. aligned8 a \<longrightarrow> a \<notin> {q, q + 8, q + 16, u} \<longrightarrow> load64 (mem v) a = load64 (mem w) a"
    "v = w\<lparr>mem := mem v, running_task := m, sstatus := sstatus v\<rparr>"
    using dispatch_next [OF w(2) lay qw _ _ st, of P "t + ts_context"] wv d(17,18) by auto
  have fr: "load64 (mem v) a = load64 (mem s) a" if "aligned8 a" "a \<notin> ?C \<union> {t, u}" for a
    using that v(4) w(3) by (auto simp: touches_def queue_cells_def)
  have "w = s\<lparr>sstatus := sstatus w, mem := mem w\<rparr>" using w(3) wv(6) unfolding touches_def by simp
  with v(5) have vs: "v = s\<lparr>mem := mem v, running_task := m, sstatus := sstatus v\<rparr>" by (rule put_regs_trans)
  have b: "bind (requeue_current P t) k (irq_off s) = k (t + ts_context) w" for k :: "addr \<Rightarrow> (unit, 'a kernel_scheme) run"
    using w(1) by (rule bind_Ok)
  have sep: "nodes_sep q (m # ns)" using d(10) by (rule nodes_sep_mono) auto
  have "yield P s = switch_context P (t + ts_context) (u + ts_context) v"
    using yield_start [of s t P] d(1,2,7,8,17,18) queue_size_nonzero [OF d(9) sep] v(1)
    by (simp add: q_def [symmetric] b)
  with v(2,3) fr vs show ?thesis unfolding q_def [symmetric] by blast
qed

lemma yield_alone:
  assumes "run_queue s [n] [t]"
  shows "yield P s = Ok () (irq_off s)"
  using run_queueD(1,2,7,8,9,17,18) [OF assms refl] yield_start [of s t P] by (simp add: list_at_def)

section \<open>Going to sleep\<close>

lemma remove_loop_absent:
  "chain (load64 (mem s)) p ns \<Longrightarrow> a \<notin> datum s ` set ns \<Longrightarrow> remove_loop q a prev p s = Ok (-1) s"
proof (induction ns arbitrary: p prev)
  case Nil
  then show ?case by (simp add: remove_loop.simps return_def)
next
  case (Cons n ns)
  then show ?case by (subst remove_loop.simps) (auto simp: struct_simps nd_next_def)
qed

lemma removeAt_absent:
  assumes "list_at s q ns ts" and "q \<noteq> 0" and "a \<notin> set ts"
  shows "removeAt q a s = Ok (-1) s"
proof (cases ns)
  case Nil
  with assms show ?thesis by (simp add: removeAt_def list_at_def struct_simps return_def)
next
  case (Cons n ms)
  with assms show ?thesis
    using remove_loop_absent [of s "load64 (mem s) n" ms a q n]
    by (auto simp: removeAt_def list_at_def struct_simps nd_next_def)
qed

text \<open>The state in which \<open>sleep\<close> calls \<open>yield\<close>.\<close>

definition put_asleep :: "addr \<Rightarrow> uint64 \<Rightarrow> 'z kernel_scheme \<Rightarrow> 'z kernel_scheme" where
  "put_asleep t c s = put64 (t + ts_channel) c (put_state t SLEEPING s)"

lemma put_asleep_ok:
  fixes P :: "'z kernel_scheme platform"
  assumes rq: "run_queue s (n # ns) (t # ts)" and q_def: "q = runnable_tasks s" and w_def: "w = put_asleep t c s"
  shows "touches {t, t + ts_channel} s w" "list_at w q ns ts" "state_of w t = state_code SLEEPING" "datum w n = t"
    "load64 (mem w) (t + ts_channel) = c" "\<And>x. x \<in> set ts \<Longrightarrow> state_of w x = state_code RUNNABLE" "sleep P t c s = yield P w"
proof -
  note d = run_queueD [OF rq q_def]
  have sep: "nodes_sep q ns" using d(10) by (rule nodes_sep_mono) auto
  have ch: "aligned8 (t + ts_channel)" "t + ts_channel \<noteq> t" "t + ts_channel \<notin> set ts" "t + ts_channel \<notin> queue_cells q (n # ns)"
    using d(5,11) by (auto simp: queue_layout_def ts_channel_def)
  have al: "x \<in> set ts \<Longrightarrow> aligned8 x" for x using d(11) by (auto simp: queue_layout_def)
  show tw: "touches {t, t + ts_channel} s w" unfolding w_def put_asleep_def
    using touches_trans [OF touches_state [OF d(5)] touches_put [OF ch(1)]] by (simp add: insert_commute)
  show lw: "list_at w q ns ts"
    by (rule touches_list_at [OF tw d(9) sep]) (use d(12) ch(4) queue_cells_mono [of ns "n # ns" q] in auto)
  show "state_of w x = state_code RUNNABLE" if "x \<in> set ts" for x
    using touches_state_of [OF tw al [OF that]] d(6) d(16) [OF that] ch(3) that by auto
  show "state_of w t = state_code SLEEPING" unfolding w_def put_asleep_def
    using touches_state_of [OF touches_put [OF ch(1), of "put_state t SLEEPING s" c] d(5)] ch(2) by simp
  show "load64 (mem w) (t + ts_channel) = c" using ch(1) by (simp add: w_def put_asleep_def load_put)
  have c: "n + 8 \<in> queue_cells q (n # ns)" by (simp add: queue_cells_def)
  have "n + 8 \<noteq> t" "n + 8 \<noteq> t + ts_channel" using c d(12) ch(4) by metis+
  then have "n + 8 \<notin> {t, t + ts_channel}" by blast
  with tw queue_cells_aligned [OF d(10) c] have "load64 (mem w) (n + 8) = load64 (mem s) (n + 8)"
    unfolding touches_def by blast
  with d(8) show "datum w n = t" by (simp add: nd_data_def)
  have rem: "bind (removeAt q t) k w = k (-1) w" for k :: "int \<Rightarrow> (unit, 'z kernel_scheme) run"
    using removeAt_absent [OF lw d(1,6)] by (rule bind_Ok)
  show "sleep P t c s = yield P w"
    using touches_vars(2) [OF tw] d(4) rem
    by (simp add: sleep_def bind_set_state bind_set_field bind_gets q_def w_def put_asleep_def)
qed

lemma sleep_leaves:
  assumes rq: "run_queue s (n # m # ns) (t # u # ts)"
  shows "\<exists>s'. sleep P t c s = switch_context P (now_context P) (u + ts_context) s' \<and> run_queue s' (m # ns) (u # ts) \<and>
    interrupt_status s' \<and> state_of s' t = state_code SLEEPING \<and> load64 (mem s') (t + ts_channel) = c"
proof -
  define q where "q = runnable_tasks s"
  define w where "w = put_asleep t c s"
  note d = run_queueD [OF rq q_def] and a = put_asleep_ok [OF rq q_def w_def]
  note wv = touches_vars [OF a(1)]
  have lay: "queue_layout q (m # ns) (u # ts)" using d(11) by (rule queue_layout_mono) auto
  have sep: "nodes_sep q (m # ns)" using d(10) by (rule nodes_sep_mono) auto
  have "yield P w = bind (requeue_current P t) (switch_to_next P) (irq_off w)"
    using yield_start [of w t P] wv d(1,2,7,17,18) a(4) queue_size_nonzero [OF a(2) sep] by (simp add: q_def)
  also have "\<dots> = switch_to_next P (now_context P) (irq_off w)"
    using d(4) a(3) by (simp add: requeue_current_def bind_assoc bind_get_state)
  finally have y: "sleep P t c s = switch_to_next P (now_context P) (irq_off w)" using a(7) by simp
  have li: "list_at (irq_off w) q (m # ns) (u # ts)" using a(2) by (simp add: list_at_def)
  have "\<And>x. x \<in> set (u # ts) \<Longrightarrow> state_of (irq_off w) x = state_code RUNNABLE" using a(6) by simp
  then obtain v where v: "switch_to_next P (now_context P) (irq_off w) = switch_context P (now_context P) (u + ts_context) v"
    "run_queue v (m # ns) (u # ts)" "interrupt_status v"
    "\<forall>a. aligned8 a \<longrightarrow> a \<notin> {q, q + 8, q + 16, u} \<longrightarrow> load64 (mem v) a = load64 (mem (irq_off w)) a"
    using dispatch_next [OF li lay, of P "now_context P"] wv d(13,14,17,18) q_def by auto
  have "t \<notin> {q, q + 8, q + 16, u}" "t + ts_channel \<notin> {q, q + 8, q + 16, u}" "aligned8 (t + ts_channel)"
    using d(5,6,11,12) by (auto simp: queue_cells_def queue_layout_def ts_channel_def)
  then have "load64 (mem v) t = load64 (mem w) t" "load64 (mem v) (t + ts_channel) = load64 (mem w) (t + ts_channel)"
    using v(4) d(5) by simp_all
  then have "state_of v t = state_code SLEEPING" "load64 (mem v) (t + ts_channel) = c"
    using a(3,5) by (simp_all add: load32_low_half ts_state_def)
  with v y show ?thesis by auto
qed

text \<open>When no other task is runnable \<open>sleep\<close> does not wait: it returns to the sleeping task.\<close>

lemma sleep_alone:
  assumes rq: "run_queue s [n] [t]"
  shows "\<exists>s'. sleep P t c s = Ok () s' \<and> current_task s' = Ok t s' \<and> state_of s' t = state_code SLEEPING"
proof -
  define w where "w = put_asleep t c s"
  note d = run_queueD [OF rq refl] and a = put_asleep_ok [OF rq refl w_def]
  note wv = touches_vars [OF a(1)]
  have "yield P w = Ok () (irq_off w)"
    using yield_start [of w t P] wv d(1,2,7,17,18) a(2,4) by (simp add: list_at_def)
  moreover have "current_task (irq_off w) = Ok t (irq_off w)"
    using wv d(1,2,7) a(4) by (simp add: current_task_def run_simps)
  ultimately show ?thesis using a(3,7) by auto
qed

section \<open>Taking turns\<close>

text \<open>
  A schedule that rotates a list of participants with every step: after any number of steps
  the list is rotated as often, so each participant comes to the front.
\<close>

primrec turns :: "(unit, 's) run \<Rightarrow> nat \<Rightarrow> (unit, 's) run" where
  "turns step 0 = return ()"
| "turns step (Suc k) = bind (turns step k) (\<lambda>_. step)"

locale round_robin =
  fixes step :: "(unit, 's) run" and order :: "'s \<Rightarrow> 'a list \<Rightarrow> bool"
  assumes step_rotates: "order s xs \<Longrightarrow> \<exists>s'. step s = Ok () s' \<and> order s' (rotate1 xs)"
begin

lemma turns_rotate: "order s xs \<Longrightarrow> \<exists>s'. turns step k s = Ok () s' \<and> order s' (rotate k xs)"
proof (induction k)
  case 0
  then show ?case by (simp add: return_def)
next
  case (Suc k)
  then obtain s' where s': "turns step k s = Ok () s'" "order s' (rotate k xs)" by blast
  then obtain t where "step s' = Ok () t" "order t (rotate1 (rotate k xs))" using step_rotates by blast
  with s'(1) show ?case by (auto simp: bind_def)
qed

lemma everyone_served:
  assumes "order s xs" and "x \<in> set xs"
  shows "\<exists>k<length xs. \<exists>s' ys. turns step k s = Ok () s' \<and> order s' (x # ys)"
proof -
  obtain k where k: "k < length xs" "xs ! k = x" using assms(2) by (auto simp: in_set_conv_nth)
  obtain s' where s': "turns step k s = Ok () s'" "order s' (rotate k xs)" using turns_rotate [OF assms(1)] by blast
  have "xs \<noteq> []" using k(1) by auto
  then have "hd (rotate k xs) = x" "rotate k xs \<noteq> []" using k hd_rotate_conv_nth [of xs k] by auto
  then obtain ys where "rotate k xs = x # ys" by (cases "rotate k xs") auto
  with k(1) s' show ?thesis by auto
qed

end

text \<open>
  The machine's view of \<open>switch_context\<close>: it exchanges registers, and the control goes on in
  the other task, in the same state of memory.
\<close>

definition machine_view :: "'s platform \<Rightarrow> 's platform" where
  "machine_view P = P\<lparr>switch_context := \<lambda>_ _. return ()\<rparr>"

lemma irq_off_run_queue: "run_queue s ns ts \<Longrightarrow> run_queue (irq_off s) ns ts"
  by (simp add: run_queue_def list_at_def)

lemma run_queue_cases:
  assumes "run_queue s ns ts"
  obtains n t where "ns = [n]" "ts = [t]"
  | n m ns' t u ts' where "ns = n # m # ns'" "ts = t # u # ts'"
proof -
  have "length ns = length ts" "ns \<noteq> []" using assms by (simp_all add: run_queue_def)
  with that show thesis by (cases ns; cases ts; cases "tl ns"; cases "tl ts") auto
qed

lemma yield_steps:
  assumes "run_queue s ns ts"
  shows "if tl ts = [] then yield P s = Ok () (irq_off s)
    else \<exists>s'. yield P s = switch_context P (ts ! 0 + ts_context) (ts ! 1 + ts_context) s' \<and>
      run_queue s' (rotate1 ns) (rotate1 ts) \<and> interrupt_status s'"
  using assms
proof (cases rule: run_queue_cases)
  case 1
  with assms show ?thesis by (simp add: yield_alone)
next
  case (2 n m ns' t u ts')
  with assms have "\<exists>s'. yield P s = switch_context P (t + ts_context) (u + ts_context) s' \<and>
      run_queue s' (m # ns' @ [n]) (u # ts' @ [t]) \<and> interrupt_status s'"
    using yield_rotates [of s n m ns' t u ts' P] by blast
  with 2 show ?thesis by simp
qed

interpretation scheduling: round_robin "yield (machine_view P)" "\<lambda>s ts. \<exists>ns. run_queue s ns ts"
  for P :: "'z kernel_scheme platform"
proof
  fix s :: "'z kernel_scheme" and ts
  assume "\<exists>ns. run_queue s ns ts"
  then obtain ns where rq: "run_queue s ns ts" by blast
  have r: "run_queue (irq_off s) ns (rotate1 ts)" if "tl ts = []"
    using irq_off_run_queue [OF rq] that by (cases ts) auto
  from rq yield_steps [OF rq, of "machine_view P"] r
  show "\<exists>s'. yield (machine_view P) s = Ok () s' \<and> (\<exists>ns. run_queue s' ns (rotate1 ts))"
    by (auto simp: machine_view_def return_def split: if_splits)
qed

section \<open>Interleavings\<close>

text \<open>
  The tasks run in any order the scheduler allows: whichever task is current yields, or goes to
  sleep while others wait.
\<close>

datatype sched_event = Yields | Sleeps uint64

inductive sched_run :: "'z kernel_scheme platform \<Rightarrow> 'z kernel_scheme \<Rightarrow> sched_event list \<Rightarrow> 'z kernel_scheme \<Rightarrow> bool"
  for P where
  start: "sched_run P s [] s"
| yields: "sched_run P s es t \<Longrightarrow> yield (machine_view P) t = Ok () u \<Longrightarrow> sched_run P s (es @ [Yields]) u"
| sleeps: "sched_run P s es t \<Longrightarrow> current_task t = Ok task t \<Longrightarrow> load64 (mem t) (runnable_tasks t + ls_size) \<noteq> 0 \<Longrightarrow>
    sleep (machine_view P) task c t = Ok () u \<Longrightarrow> sched_run P s (es @ [Sleeps c]) u"

fun sleepers :: "sched_event list \<Rightarrow> nat" where
  "sleepers [] = 0"
| "sleepers (Yields # es) = sleepers es"
| "sleepers (Sleeps c # es) = Suc (sleepers es)"

lemma sleepers_append [simp]: "sleepers (es @ fs) = sleepers es + sleepers fs"
  by (induction es rule: sleepers.induct) simp_all

lemma sleep_step:
  assumes rq: "run_queue s ns ts" and "current_task s = Ok t s" and "load64 (mem s) (runnable_tasks s + ls_size) \<noteq> 0"
    and "sleep (machine_view P) t c s = Ok () u"
  shows "run_queue u (tl ns) (tl ts) \<and> ts \<noteq> [] \<and> tl ts \<noteq> []"
  using rq
proof (cases rule: run_queue_cases)
  case (1 n t')
  with rq assms(3) show ?thesis using run_queueD(9) [of s n "[]" t' "[]", OF _ refl] by (simp add: list_at_def)
next
  case (2 n m ns' t' w ts')
  then have "t = t'" using rq assms(2) current_task_running [of s n "m # ns'" t' "w # ts'"] by simp
  with 2 rq assms(4) show ?thesis
    using sleep_leaves [of s n m ns' t' w ts' "machine_view P" c] by (auto simp: machine_view_def return_def)
qed

lemma sched_run_queue:
  assumes "sched_run P s es s'" and "run_queue s ns ts"
  shows "\<exists>ns' ts'. run_queue s' ns' ts' \<and> set ts' \<subseteq> set ts \<and> length ts' + sleepers es = length ts"
  using assms
proof (induction rule: sched_run.induct)
  case (start s)
  then show ?case by auto
next
  case (yields s es t u)
  then obtain ns' ts' where q: "run_queue t ns' ts'" "set ts' \<subseteq> set ts" "length ts' + sleepers es = length ts" by blast
  then obtain ns'' where "run_queue u ns'' (rotate1 ts')"
    using scheduling.step_rotates [of t ts' P] yields.hyps(2) by auto
  with q show ?case by (intro exI [of _ ns''] exI [of _ "rotate1 ts'"]) simp
next
  case (sleeps s es t task c u)
  then obtain ns' ts' where q: "run_queue t ns' ts'" "set ts' \<subseteq> set ts" "length ts' + sleepers es = length ts" by blast
  from sleep_step [OF q(1) sleeps.hyps(2-4)] q show ?case
    by (intro exI [of _ "tl ns'"] exI [of _ "tl ts'"]) (cases ts'; auto)
qed

text \<open>
  Three tasks: the one at \<open>0x1000\<close> runs, those at \<open>0x2000\<close> and \<open>0x3000\<close> wait. The trap frame of
  the running task, process number 2, is at \<open>0x5000\<close>; its register \<open>a7\<close> is given.
\<close>

definition trio_cells :: "uint64 \<Rightarrow> (addr \<times> uint64) list" where
  "trio_cells a7 =
     [(0x100, 0x300), (0x108, 0x400), (0x110, 2), (0x208, 0x1000),
      (0x300, 0x400), (0x308, 0x2000), (0x400, 0), (0x408, 0x3000),
      (0x1000, 2), (0x2000, 1), (0x3000, 1),
      (0x1010, 2), (0x1060, 0x5000), (0x5018, 0x500), (0x50a8, a7)]"

definition trio :: "uint64 \<Rightarrow> kernel" where
  "trio a7 = kernel_zero\<lparr>mem := cells (trio_cells a7), runnable_tasks := 0x100, running_task := 0x200\<rparr>"

lemma trio_mem:
  "aligned8 a \<Longrightarrow> load64 (mem (trio a7)) a = cell (trio_cells a7) a"
  "aligned8 a \<Longrightarrow> load32 (mem (trio a7)) a = ucast (cell (trio_cells a7) a)"
  by (simp_all add: trio_def load64_cells load32_cells trio_cells_def aligned8_def)

lemma trio_queue: "run_queue (trio a7) [0x200, 0x300, 0x400] [0x1000, 0x2000, 0x3000]"
proof (rule run_queueI [where q = "0x100"])
  show "list_at (trio a7) 0x100 [0x300, 0x400] [0x2000, 0x3000]"
    by (simp add: list_at_def list_layout trio_mem aligned8_def cell_def trio_cells_def)
  show "queue_layout 0x100 [0x200, 0x300, 0x400] [0x1000, 0x2000, 0x3000]"
    by (simp add: queue_layout_def nodes_sep_def queue_cells_def aligned8_def ts_channel_def)
  show "datum (trio a7) 0x200 = 0x1000" "state_of (trio a7) 0x1000 = state_code RUNNING"
    by (simp_all add: trio_mem aligned8_def cell_def trio_cells_def list_layout ts_state_def)
  show "state_of (trio a7) u = state_code RUNNABLE" if "u \<in> set [0x2000, 0x3000]" for u
    using that by (auto simp: trio_mem aligned8_def cell_def trio_cells_def ts_state_def)
qed (simp_all add: trio_def kernel_zero_def)

section \<open>Properties\<close>

text \<open>
  C25: \<open>yield\<close> is a round robin step. With other tasks waiting it switches from the running
  task to the first one in the queue, which becomes the running task; the old one goes to the
  end, runnable, all other tasks keep their places, and interrupts are on. When no task waits it
  returns at once, with interrupts switched off.
\<close>

theorem yield_round_robin:
  assumes "run_queue s ns ts"
  shows "if tl ts = [] then yield P s = Ok () (irq_off s)
    else \<exists>s'. yield P s = switch_context P (ts ! 0 + ts_context) (ts ! 1 + ts_context) s' \<and>
      run_queue s' (rotate1 ns) (rotate1 ts) \<and> interrupt_status s'"
  using assms by (rule yield_steps)

theorem yield_round_robin_witness:
  "\<exists>s'. yield idle_platform (trio 0) = Ok () s' \<and> interrupt_status s' \<and>
     run_queue s' [0x300, 0x400, 0x200] [0x2000, 0x3000, 0x1000]"
  using yield_round_robin [OF trio_queue [of 0], of idle_platform] by (auto simp: idle_platform_def return_def)

text \<open>
  C26: no runnable task starves. When the running task and all the tasks after it call \<open>yield\<close>
  in turn, every task of the run queue is the current task after fewer calls than there are
  tasks, and none of the calls fails.
\<close>

theorem every_task_runs:
  assumes "run_queue s ns ts" and "t \<in> set ts"
  shows "\<exists>k<length ts. \<exists>s'. turns (yield (machine_view P)) k s = Ok () s' \<and> current_task s' = Ok t s'"
proof -
  obtain k s' ts' ms where k: "k < length ts" "turns (yield (machine_view P)) k s = Ok () s'" "run_queue s' ms (t # ts')"
    using scheduling.everyone_served [OF _ assms(2), of s P] assms(1) by blast
  then obtain n ns' where "ms = n # ns'" by (cases ms) (auto simp: run_queue_def)
  with k show ?thesis using current_task_running by blast
qed

theorem every_task_runs_witness:
  "\<exists>k<3. \<exists>s'. turns (yield (machine_view idle_platform)) k (trio 0) = Ok () s' \<and> current_task s' = Ok 0x3000 s'"
  using every_task_runs [OF trio_queue [of 0], of "0x3000" idle_platform] by (simp add: numeral_3_eq_3)

text \<open>
  C27: a task that goes to sleep leaves the run queue. \<open>sleep\<close> records the channel, marks the
  running task as sleeping and switches to the first waiting task, which becomes the running
  one; the sleeping task is not queued again. When no other task waits the call comes back at
  once, to a current task that is marked as sleeping.
\<close>

theorem sleep_leaves_queue:
  assumes "run_queue s (n # ns) (t # ts)"
  shows "case (ns, ts) of
      (m # ns', u # ts') \<Rightarrow> \<exists>s'. sleep P t channel s = switch_context P (now_context P) (u + ts_context) s' \<and>
        run_queue s' (m # ns') (u # ts') \<and> interrupt_status s' \<and>
        state_of s' t = state_code SLEEPING \<and> load64 (mem s') (t + ts_channel) = channel
    | _ \<Rightarrow> \<exists>s'. sleep P t channel s = Ok () s' \<and> current_task s' = Ok t s' \<and> state_of s' t = state_code SLEEPING"
proof -
  have "length ns = length ts" using assms by (simp add: run_queue_def)
  with assms sleep_leaves [of s n _ _ t _ _ P channel] sleep_alone [of s n t P channel] show ?thesis
    by (cases ns; cases ts) simp_all
qed

theorem sleep_leaves_queue_witness:
  "\<exists>s'. sleep idle_platform 0x1000 0x1000 (trio 0) = Ok () s' \<and>
     run_queue s' [0x300, 0x400] [0x2000, 0x3000] \<and> state_of s' 0x1000 = state_code SLEEPING"
  using sleep_leaves_queue [OF trio_queue [of 0], of idle_platform "0x1000"]
  by (auto simp: idle_platform_def return_def)



end
