(* ===== verification/Trap_Handling.thy ===== *)
theory Trap_Handling
  imports Traps Run_Queue
begin

text \<open>
  What the trap handlers make of the other components: the system call dispatcher, the
  preemption of a task by the timer, and the page table the kernel boots with.
\<close>

section \<open>Registers of a trapped task\<close>

declare tf_offset.simps [simp del]

text \<open>
  A trap frame behind a task: both are aligned, and no register lies on the pointer to the
  frame.
\<close>

definition trap_frame_ok :: "'z kernel_scheme \<Rightarrow> addr \<Rightarrow> addr \<Rightarrow> bool" where
  "trap_frame_ok s t f \<longleftrightarrow> t \<noteq> 0 \<and> f \<noteq> 0 \<and> aligned8 t \<and> aligned8 f \<and> load64 (mem s) (t + ts_trap_frame) = f \<and>
     (\<forall>r. f + tf_offset r \<noteq> t + ts_trap_frame)"

lemma trap_frame_ready: "trap_frame_ok s t f \<Longrightarrow> syscall_ready s t"
  by (auto simp: trap_frame_ok_def syscall_ready_def)

lemma trap_frame_aligned: "trap_frame_ok s t f \<Longrightarrow> aligned8 (f + tf_offset r) \<and> aligned8 (t + ts_trap_frame)"
  by (auto simp: trap_frame_ok_def ts_trap_frame_def aligned8_def [of "0x60"])

lemma get_reg_frame: "trap_frame_ok s t f \<Longrightarrow> get_reg t r s = Ok (load64 (mem s) (f + tf_offset r)) s"
  using get_reg_ok [OF trap_frame_ready, of s t f r] by (simp add: trap_frame_ok_def)

lemma set_reg_frame: "trap_frame_ok s t f \<Longrightarrow> set_reg t r v s = Ok () (put64 (f + tf_offset r) v s)"
  by (simp add: trap_frame_ok_def set_reg_def struct_simps)

lemma bind_get_reg_frame: "trap_frame_ok s t f \<Longrightarrow> bind (get_reg t r) k s = k (load64 (mem s) (f + tf_offset r)) s"
  by (rule bind_Ok) (rule get_reg_frame)

lemma bind_set_reg_frame: "trap_frame_ok s t f \<Longrightarrow> bind (set_reg t r v) k s = k () (put64 (f + tf_offset r) v s)"
  by (rule bind_Ok) (rule set_reg_frame)

lemma trap_frame_put:
  assumes "trap_frame_ok s t f"
  shows "trap_frame_ok (put64 (f + tf_offset r) v s) t f"
  using assms trap_frame_aligned [OF assms, of r] by (simp add: trap_frame_ok_def load_put)

lemma reg_put:
  assumes "trap_frame_ok s t f"
  shows "load64 (mem (put64 (f + tf_offset r) v s)) (f + tf_offset r') = (if r' = r then v else load64 (mem s) (f + tf_offset r'))"
  using trap_frame_aligned [OF assms, of r] trap_frame_aligned [OF assms, of r'] by (auto simp: load_put)

section \<open>The dispatcher\<close>

lemma syscall_start:
  assumes "current_task s = Ok t s" and "trap_frame_ok s t f" and "i = int_of_reg (load64 (mem s) (f + tf_offset TF_a7))"
  shows "syscall P s =
    (case syscall_handler P i of
       Some handler \<Rightarrow>
         bind (handler t) (\<lambda>r. bind (set_reg t TF_a0 r) (\<lambda>_. bind (get_reg t TF_epc) (\<lambda>epc. set_reg t TF_epc (epc + 4))))
     | None \<Rightarrow>
         bind (print_string P (literal P ''syscall: unknown syscall id: '')) (\<lambda>_.
         bind (print_int P (of_int i) 10) (\<lambda>_.
         bind (print_string P (literal P ''.\<newline>'')) (\<lambda>_. set_reg t TF_a0 (-1))))) s"
proof -
  have c: "bind current_task k s = k t s" for k :: "addr \<Rightarrow> (unit, 'a kernel_scheme) run"
    using assms(1) by (rule bind_Ok)
  have "t \<noteq> 0" using assms(2) by (simp add: trap_frame_ok_def)
  then show ?thesis
    unfolding syscall_def c assms(3) by (simp only: if_False bind_get_reg_frame [OF assms(2)] Let_def)
qed

text \<open>The state after a handler of the table has returned.\<close>

lemma syscall_run:
  assumes "current_task s = Ok t s" and "trap_frame_ok s t f"
    and "syscall_handler P (int_of_reg (load64 (mem s) (f + tf_offset TF_a7))) = Some handler"
    and "handler t s = Ok r s'" and "trap_frame_ok s' t f"
  shows "syscall P s = Ok () (put64 (f + tf_offset TF_epc) (load64 (mem s') (f + tf_offset TF_epc) + 4)
    (put64 (f + tf_offset TF_a0) r s'))"
proof -
  note f' = trap_frame_put [OF assms(5), of TF_a0 r]
  have h: "bind (handler t) k s = k r s'" for k :: "uint64 \<Rightarrow> (unit, 'a kernel_scheme) run"
    using assms(4) by (rule bind_Ok)
  show ?thesis
    unfolding syscall_start [OF assms(1,2) refl] assms(3) option.case h bind_set_reg_frame [OF assms(5)]
      bind_get_reg_frame [OF f'] set_reg_frame [OF f'] reg_put [OF assms(5)] by simp
qed

text \<open>
  A system call with a number of the table runs its handler on the current task. When the
  handler comes back with a result, \<open>syscall\<close> returns with this result in register \<open>a0\<close> of the
  task and the program counter moved past the call; all other registers are as the handler left
  them.
\<close>

theorem syscall_dispatch:
  assumes "current_task s = Ok t s" and "trap_frame_ok s t f"
    and "syscall_handler P (int_of_reg (load64 (mem s) (f + tf_offset TF_a7))) = Some handler"
    and "handler t s = Ok r s'" and "trap_frame_ok s' t f"
  shows "\<exists>u. syscall P s = Ok () u \<and> load64 (mem u) (f + tf_offset TF_a0) = r \<and>
    load64 (mem u) (f + tf_offset TF_epc) = load64 (mem s') (f + tf_offset TF_epc) + 4 \<and>
    (\<forall>x. x \<noteq> TF_a0 \<longrightarrow> x \<noteq> TF_epc \<longrightarrow> load64 (mem u) (f + tf_offset x) = load64 (mem s') (f + tf_offset x))"
proof -
  note f' = trap_frame_put [OF assms(5), of TF_a0 r]
  let ?u = "put64 (f + tf_offset TF_epc) (load64 (mem s') (f + tf_offset TF_epc) + 4) (put64 (f + tf_offset TF_a0) r s')"
  have "syscall P s = Ok () ?u" using assms by (rule syscall_run)
  moreover have "load64 (mem ?u) (f + tf_offset x) =
      (if x = TF_epc then load64 (mem s') (f + tf_offset TF_epc) + 4 else if x = TF_a0 then r else load64 (mem s') (f + tf_offset x))" for x
    by (simp only: reg_put [OF f'] reg_put [OF assms(5)])
  ultimately show ?thesis by (intro exI [of _ ?u]) simp
qed

lemma trio_frame: "trap_frame_ok (trio a7) 0x1000 0x5000"
proof -
  have "(0x5000 :: addr) + tf_offset r \<noteq> 0x1000 + ts_trap_frame" for r
    by (cases r) (simp_all add: tf_offset.simps ts_trap_frame_def)
  then show ?thesis
    by (simp add: trap_frame_ok_def aligned8_def trio_mem cell_def trio_cells_def ts_trap_frame_def)
qed

lemma trio_a7: "load64 (mem (trio a7)) (0x5000 + tf_offset TF_a7) = a7"
  "load64 (mem (trio a7)) (0x5000 + tf_offset TF_epc) = 0x500"
  by (simp_all add: tf_offset.simps trio_mem cell_def trio_cells_def aligned8_def)

theorem syscall_dispatch_witness:
  "\<exists>u. syscall idle_platform (trio 8) = Ok () u \<and> load64 (mem u) (0x5000 + tf_offset TF_a0) = -1 \<and>
     load64 (mem u) (0x5000 + tf_offset TF_epc) = 0x504"
proof -
  have h: "syscall_handler idle_platform (int_of_reg (load64 (mem (trio 8)) (0x5000 + tf_offset TF_a7))) = Some (sys_power_off idle_platform)"
    by (simp add: trio_a7 syscall_handler_def int_of_reg_def)
  have r: "sys_power_off idle_platform 0x1000 (trio 8) = Ok (-1) (trio 8)"
    by (simp add: sys_power_off_def struct_simps return_def ts_pid_def trio_mem cell_def trio_cells_def aligned8_def)
  from syscall_dispatch [OF current_task_running [OF trio_queue] trio_frame h r trio_frame] show ?thesis
    by (auto simp: trio_a7)
qed

text \<open>
  C29: a system call with an unknown number is reported on the serial line and answered with -1
  in \<open>a0\<close>; the program counter stays on the call, so the task will make it again.
\<close>

theorem syscall_unknown:
  assumes "current_task s = Ok t s" and "trap_frame_ok s t f"
    and "i = int_of_reg (load64 (mem s) (f + tf_offset TF_a7))" and "i < 1 \<or> 10 < i"
    and "serial_line P out" and "panicked s = 0" and "\<And>s m. out (s\<lparr>mem := m\<rparr>) = out s"
    and "cstring (mem s) (literal P ''syscall: unknown syscall id: '') before" and "literal P ''syscall: unknown syscall id: '' \<noteq> 0"
    and "cstring (mem s) (literal P ''.\<newline>'') after" and "literal P ''.\<newline>'' \<noteq> 0"
  shows "\<exists>ds u. syscall P s = Ok () u \<and> numeral_of 10 (unat (of_int i :: uint64)) ds \<and>
    out u = out s @ before @ map digit_char ds @ after \<and> load64 (mem u) (f + tf_offset TF_a0) = -1 \<and>
    (\<forall>x. x \<noteq> TF_a0 \<longrightarrow> load64 (mem u) (f + tf_offset x) = load64 (mem s) (f + tf_offset x))"
proof -
  have h: "syscall_handler P i = None" using assms(4) by (auto simp: syscall_handler_def)
  have b: "sends out (print_string P (literal P ''syscall: unknown syscall id: '')) before s"
    using sends_string_loop [OF assms(5,6,8)] assms(9) by (simp add: print_string_def)
  then obtain s1 where s1: "print_string P (literal P ''syscall: unknown syscall id: '') s = Ok () s1"
    "kernel_same s s1" "out s1 = out s @ before" by (auto simp: sends_def)
  have "panicked s1 = 0" using assms(6) kernel_sameD [OF s1(2)] by simp
  from sends_dec [OF assms(5) this, of "of_int i"] obtain ds s2 where s2: "numeral_of 10 (unat (of_int i :: uint64)) ds"
    "print_int P (of_int i) 10 s1 = Ok () s2" "kernel_same s1 s2" "out s2 = out s1 @ map digit_char ds"
    by (auto simp: sends_def print_int_def)
  have ks: "kernel_same s s2" using s1(2) s2(3) by (rule kernel_same_trans)
  have "panicked s2 = 0" "cstring (mem s2) (literal P ''.\<newline>'') after" using assms(6,10) kernel_sameD [OF ks] by simp_all
  from sends_string_loop [OF assms(5) this] assms(11) obtain s3 where s3: "print_string P (literal P ''.\<newline>'') s2 = Ok () s3"
    "kernel_same s2 s3" "out s3 = out s2 @ after" by (auto simp: sends_def print_string_def)
  have m: "mem s3 = mem s" using kernel_sameD(1) [OF ks] kernel_sameD(1) [OF s3(2)] by simp
  then have f3: "trap_frame_ok s3 t f" using assms(2) by (simp add: trap_frame_ok_def)
  let ?u = "put64 (f + tf_offset TF_a0) (-1) s3"
  have "syscall P s = Ok () ?u"
    unfolding syscall_start [OF assms(1-3)] h option.case
    by (simp add: bind_def s1(1) s2(2) s3(1) set_reg_frame [OF f3])
  moreover have "out ?u = out s @ before @ map digit_char ds @ after"
    using assms(7) s1(3) s2(4) s3(3) by (simp add: put64_def)
  ultimately show ?thesis using s2(1) m by (intro exI [of _ ds] exI [of _ ?u]) (simp add: reg_put [OF f3])
qed

lemma sink_trio:
  fixes s :: "byte list kernel_scheme"
  assumes "s = kernel.extend (trio a7) []"
  shows "current_task s = Ok 0x1000 s" "trap_frame_ok s 0x1000 0x5000" "panicked s = 0" "mem s = mem (trio a7)" "kernel.more s = []"
proof -
  have v: "mem s = mem (trio a7)" "running_task s = running_task (trio a7)" "runnable_tasks s = runnable_tasks (trio a7)"
    using assms by (simp_all add: kernel.extend_def)
  then show "mem s = mem (trio a7)" by simp
  show "trap_frame_ok s 0x1000 0x5000" using trio_frame [of a7] v by (simp add: trap_frame_ok_def)
  show "current_task s = Ok 0x1000 s"
    using run_queueD(1,2,7,8) [OF trio_queue [of a7] refl] v by (simp add: current_task_def run_simps)
  show "panicked s = 0" "kernel.more s = []" using assms by (simp_all add: kernel.extend_def trio_def kernel_zero_def)
qed

theorem syscall_unknown_witness:
  "\<exists>ds u. syscall sink_platform (kernel.extend (trio 99) []) = Ok () u \<and> numeral_of 10 99 ds \<and>
     kernel.more u = map digit_char ds \<and> load64 (mem u) (0x5000 + tf_offset TF_a0) = -1 \<and>
     load64 (mem u) (0x5000 + tf_offset TF_epc) = 0x500"
proof -
  define s :: "byte list kernel_scheme" where "s = kernel.extend (trio 99) []"
  note k = sink_trio [OF s_def]
  have i: "99 = int_of_reg (load64 (mem s) (0x5000 + tf_offset TF_a7))" by (simp add: k(4) trio_a7 int_of_reg_def)
  have z: "mem (trio 99) 64 = 0"
    by (simp add: trio_def cells_def trio_cells_def store64_def)
  have c: "cstring (mem s) (literal sink_platform x) []" "literal sink_platform x \<noteq> 0" for x
    by (simp_all add: sink_platform_def k(4) z)
  have "(99 :: int) < 1 \<or> 10 < (99 :: int)" "kernel.more (t\<lparr>mem := m\<rparr>) = kernel.more t" for t :: "byte list kernel_scheme" and m
    by simp_all
  from syscall_unknown [OF k(1,2) i this(1) sink_line(1) k(3) this(2) c c]
  show ?thesis by (auto simp: s_def [symmetric] k trio_a7)
qed

section \<open>Preemption\<close>

lemma timer_cause:
  assumes "scause s = 0x8000000000000001"
  shows "supervisor_trap_cause P s = Ok TIMER (s\<lparr>sip := sip s AND NOT 2\<rparr>)"
  using assms by (simp add: supervisor_trap_cause_def decode_scause_def run_simps)

lemma run_queue_cong:
  assumes "run_queue s ns ts" and "C \<inter> (queue_cells (runnable_tasks s) ns \<union> set ts) = {}"
    and "\<And>a. aligned8 a \<Longrightarrow> a \<notin> C \<Longrightarrow> load64 (mem s') a = load64 (mem s) a"
    and "running_task s' = running_task s" "runnable_tasks s' = runnable_tasks s"
    "stack_to_remove s' = stack_to_remove s" "stack_to_remove_next s' = stack_to_remove_next s"
  shows "run_queue s' ns ts"
proof -
  obtain n ms t us where e: "ns = n # ms" "ts = t # us" using assms(1) by (cases ns; cases ts) (auto simp: run_queue_def)
  define q where "q = runnable_tasks s"
  note d = run_queueD [OF assms(1) [unfolded e] q_def]
  let ?s = "s\<lparr>mem := mem s'\<rparr>"
  have tc: "touches C s ?s" using assms(3) by (simp add: touches_def)
  have sep: "nodes_sep q ms" using d(10) by (rule nodes_sep_mono) auto
  have cm: "C \<inter> queue_cells q (n # ms) = {}" "C \<inter> set ts = {}" using assms(2) by (auto simp: q_def e)
  have "queue_cells q ms \<subseteq> queue_cells q (n # ms)" by (rule queue_cells_mono) auto
  then have "C \<inter> queue_cells q ms = {}" using cm(1) by (auto simp: disjoint_iff)
  then have "list_at ?s q ms us" by (rule touches_list_at [OF tc d(9) sep])
  then have l: "list_at s' q ms us" by (simp add: list_at_def)
  have st: "state_of s' x = state_of s x" if "x \<in> set ts" for x
  proof -
    have "aligned8 x" "x \<notin> C" using that d(11) cm(2) by (auto simp: e queue_layout_def)
    then show ?thesis using assms(3) by (simp add: load32_low_half ts_state_def)
  qed
  have c: "n + 8 \<in> queue_cells q (n # ms)" by (simp add: queue_cells_def)
  then have "n + 8 \<notin> C" using cm(1) by blast
  then have dn: "datum s' n = t" using assms(3) [OF queue_cells_aligned [OF d(10) c]] d(8) by (simp add: nd_data_def)
  show ?thesis unfolding e
  proof (rule run_queueI [where q = q])
    show "state_of s' u = state_code RUNNABLE" if "u \<in> set us" for u using st [of u] d(16) [OF that] that e by simp
    show "state_of s' t = state_code RUNNING" using st [of t] d(15) e by simp
  qed (use l d assms(4-7) dn q_def in auto)
qed

text \<open>
  C30: the timer preempts. A timer interrupt in user mode saves the program counter of the
  running task in its trap frame, acknowledges the interrupt, and switches to the first waiting
  task; the interrupted task goes to the end of the run queue, and when it is switched to again
  it returns to user mode.
\<close>

theorem timer_preempts:
  assumes "run_queue s (n # m # ns) (t # u # ts)" and "trap_frame_ok s t f"
    and "f + tf_offset TF_epc \<notin> queue_cells (runnable_tasks s) (n # m # ns) \<union> set (t # u # ts)"
    and "scause s = 0x8000000000000001" and "sstatus s AND SSTATUS_SPP = 0"
  shows "\<exists>s'. user_trap P s = bind (switch_context P (t + ts_context) (u + ts_context)) (\<lambda>_. user_trap_return P) s' \<and>
    run_queue s' (m # ns @ [n]) (u # ts @ [t]) \<and> interrupt_status s' \<and>
    load64 (mem s') (f + tf_offset TF_epc) = sepc s \<and> sip s' = sip s AND NOT 2 \<and> stvec s' = kernel_vector P"
proof -
  define sp where "sp = sip s AND NOT 2"
  let ?e = "f + tf_offset TF_epc"
  let ?s1 = "s\<lparr>sip := sp, stvec := kernel_vector P\<rparr>"
  let ?s2 = "put64 ?e (sepc s) ?s1"
  have ta: "aligned8 ?e" using trap_frame_aligned [OF assms(2)] by blast
  have f1: "trap_frame_ok ?s1 t f" using assms(2) by (simp add: trap_frame_ok_def)
  have rq: "run_queue ?s2 (n # m # ns) (t # u # ts)"
    by (rule run_queue_cong [OF assms(1), where C = "{?e}"]) (use assms(3) ta in \<open>auto simp: load_put put64_def load64_store64\<close>)
  have r2: "runnable_tasks ?s2 = runnable_tasks s" "sip ?s2 = sp" "stvec ?s2 = kernel_vector P" by (simp_all add: put64_def)
  obtain s' where s': "yield P ?s2 = switch_context P (t + ts_context) (u + ts_context) s'"
    "run_queue s' (m # ns @ [n]) (u # ts @ [t])" "interrupt_status s'"
    "\<forall>a. aligned8 a \<longrightarrow> a \<notin> queue_cells (runnable_tasks ?s2) (n # m # ns) \<union> {t, u} \<longrightarrow> load64 (mem s') a = load64 (mem ?s2) a"
    "s' = ?s2\<lparr>mem := mem s', running_task := m, sstatus := sstatus s'\<rparr>"
    using yield_rotates [OF rq, of P] by blast
  have "load64 (mem s') ?e = load64 (mem ?s2) ?e"
    by (rule s'(4) [rule_format, OF ta]) (use assms(3) in \<open>simp add: r2 [unfolded put64_def] put64_def\<close>)
  then have "load64 (mem s') ?e = sepc s" using ta by (simp add: load_put)
  moreover have "sip s' = sp" "stvec s' = kernel_vector P" by (subst s'(5), simp add: put64_def)+
  moreover have "user_trap P s = bind (switch_context P (t + ts_context) (u + ts_context)) (\<lambda>_. user_trap_return P) s'"
  proof -
    have c: "bind (supervisor_trap_cause P) k s = k TIMER (s\<lparr>sip := sp\<rparr>)" for k :: "cause \<Rightarrow> (unit, 'a kernel_scheme) run"
      unfolding sp_def using timer_cause [OF assms(4)] by (rule bind_Ok)
    have cur: "bind current_task k ?s1 = k t ?s1" for k :: "addr \<Rightarrow> (unit, 'a kernel_scheme) run"
      by (rule bind_Ok) (use run_queueD(1,2,7,8) [OF assms(1) refl] in \<open>simp add: current_task_def run_simps\<close>)
    have "user_trap P s = bind (handle_user_cause P t TIMER) (\<lambda>_. user_trap_return P) ?s2"
      unfolding user_trap_def read_sepc_def read_sstatus_def bind_gets c
      using assms(5) by (simp add: write_stvec_def bind_modify cur bind_set_reg_frame [OF f1])
    also have "\<dots> = bind (yield P) (\<lambda>_. user_trap_return P) ?s2" by (simp add: handle_user_cause_def)
    finally show ?thesis using s'(1) by (simp add: bind_def)
  qed
  ultimately show ?thesis using s'(2,3) unfolding sp_def by blast
qed

theorem timer_preempts_witness:
  "\<exists>s'. user_trap idle_platform ((trio 0)\<lparr>scause := 0x8000000000000001, sepc := 0x1234, sip := 2\<rparr>) = user_trap_return idle_platform s' \<and>
     run_queue s' [0x300, 0x400, 0x200] [0x2000, 0x3000, 0x1000] \<and>
     load64 (mem s') (0x5000 + tf_offset TF_epc) = 0x1234 \<and> sip s' = 0"
proof -
  let ?s = "(trio 0)\<lparr>scause := 0x8000000000000001, sepc := 0x1234, sip := 2\<rparr>"
  have q: "run_queue ?s [0x200, 0x300, 0x400] [0x1000, 0x2000, 0x3000]" using trio_queue [of 0] by (simp add: run_queue_def list_at_def)
  have f: "trap_frame_ok ?s 0x1000 0x5000" using trio_frame [of 0] by (simp add: trap_frame_ok_def)
  have c: "0x5000 + tf_offset TF_epc \<notin> queue_cells (runnable_tasks ?s) [0x200, 0x300, 0x400] \<union> set [0x1000, 0x2000, 0x3000]"
    by (simp add: tf_offset.simps queue_cells_def trio_def)
  have p: "sstatus ?s AND SSTATUS_SPP = 0" by (simp add: trio_def kernel_zero_def)
  obtain s' where s': "user_trap idle_platform ?s = bind (switch_context idle_platform (0x1000 + ts_context) (0x2000 + ts_context))
      (\<lambda>_. user_trap_return idle_platform) s'" "run_queue s' [0x300, 0x400, 0x200] [0x2000, 0x3000, 0x1000]"
    "load64 (mem s') (0x5000 + tf_offset TF_epc) = 0x1234" "sip s' = sip ?s AND NOT 2"
    using timer_preempts [OF q f c _ p, of idle_platform] by auto
  have "user_trap idle_platform ?s = user_trap_return idle_platform s'" using s'(1) by (simp add: idle_platform_def)
  with s' show ?thesis by (intro exI [of _ s']) simp
qed

section \<open>The boot page table\<close>

text \<open>Where the boot table sends an address: one level of Sv39 translation to a gigabyte page.\<close>

definition boot_translate :: "memory \<Rightarrow> addr \<Rightarrow> addr \<Rightarrow> addr" where
  "boot_translate m pagetable va = PTE2PA (load64 m (pagetable + 8 * PX 2 va)) OR (va AND mask 30)"

lemma boot_entries_ok:
  fixes s :: "'z kernel_scheme"
  assumes "pt \<noteq> 0" and "aligned8 pt"
  shows "n \<le> 512 \<Longrightarrow> \<exists>s'. boot_entries pt n s = Ok () s' \<and>
    (\<forall>i<512. load64 (mem s') (pt + 8 * of_nat i) =
      (if 512 - n \<le> i then push_bit 28 (of_nat i) OR 0xf else load64 (mem s) (pt + 8 * of_nat i)))"
proof (induction n arbitrary: s)
  case 0
  then show ?case by (simp add: return_def)
next
  case (Suc n)
  have al: "aligned8 (pt + 8 * of_nat i)" for i
  proof -
    have "aligned8 (of_nat (8 * i))" by (rule aligned8_of_nat) simp
    with assms(2) show ?thesis by auto
  qed
  have neq: "(8 * of_nat i :: uint64) = 8 * of_nat j \<longleftrightarrow> i = j" if "i < 512" "j < 512" for i j :: nat
    using of_nat_64_inj [of "8 * i" "8 * j"] that by simp
  define j where "j = 512 - Suc n"
  have j: "j < 512" "512 - n = Suc j" using Suc.prems by (simp_all add: j_def)
  define w where "w = put64 (pt + 8 * of_nat j) (push_bit 28 (of_nat j) OR 0xf) s"
  obtain s' where s': "boot_entries pt n w = Ok () s'" "\<forall>i<512. load64 (mem s') (pt + 8 * of_nat i) =
      (if Suc j \<le> i then push_bit 28 (of_nat i) OR 0xf else load64 (mem w) (pt + 8 * of_nat i))"
    using Suc.IH [of w] Suc.prems unfolding j(2) by auto
  have wi: "load64 (mem w) (pt + 8 * of_nat i) = (if i = j then push_bit 28 (of_nat j) OR 0xf else load64 (mem s) (pt + 8 * of_nat i))" if "i < 512" for i
    unfolding w_def load_put [OF al al] using neq [OF j(1) that] by auto
  have "load64 (mem s') (pt + 8 * of_nat i) =
      (if j \<le> i then push_bit 28 (of_nat i) OR 0xf else load64 (mem s) (pt + 8 * of_nat i))" if "i < 512" for i
    using s'(2) [rule_format, OF that] wi [OF that] by (cases "i = j") auto
  moreover have "boot_entries pt (Suc n) s = Ok () s'"
    using s'(1) unfolding w_def j_def by (simp only: boot_entries.simps Let_def bind_set_field [OF assms(1)])
  ultimately show ?case unfolding j_def by blast
qed

lemma bit_low_39: "va < 2 ^ 39 \<Longrightarrow> bit va k \<Longrightarrow> k < 39" for va :: uint64
proof (rule ccontr)
  assume va: "va < 2 ^ 39" and k: "bit va k" "\<not> k < 39"
  have u: "unat va < 2 ^ 39" using va by (simp add: word_less_nat_alt)
  have "take_bit 39 (unat va) = unat va" using u by (simp add: take_bit_nat_eq_self_iff)
  moreover have "bit (unat va) k" using k(1) by (simp add: bit_simps)
  ultimately have "bit (take_bit 39 (unat va)) k" by simp
  with k(2) show False by (simp add: bit_take_bit_iff)
qed

lemma word_masks: "(0xf :: uint64) = mask 4" "(0x1FF :: uint64) = mask 9" "(0x3FF :: uint64) = mask 10"
  by (simp_all add: mask_eq_exp_minus_1)

lemma PX_top: "PX 2 va = drop_bit 30 va AND mask 9"
  by (simp add: PX_def PGSHIFT_def word_masks)

lemma boot_leaf:
  assumes "va < 2 ^ 39"
  shows "PTE2PA (push_bit 28 (PX 2 va) OR mask 4) OR (va AND mask 30) = va"
proof (rule bit_word_eqI)
  fix k assume "k < LENGTH(64)"
  then have k: "k < 64" by simp
  have "bit (PTE2PA (push_bit 28 (PX 2 va) OR mask 4) OR (va AND mask 30)) k \<longleftrightarrow> (30 \<le> k \<and> k < 39 \<or> k < 30) \<and> bit va k"
    using k unfolding PTE2PA_def PX_top bit_or_iff bit_and_iff bit_push_bit_iff bit_drop_bit_eq bit_mask_iff o_def
    by (cases "30 \<le> k") auto
  with bit_low_39 [OF assms, of k] show "bit (PTE2PA (push_bit 28 (PX 2 va) OR mask 4) OR (va AND mask 30)) k \<longleftrightarrow> bit va k" by auto
qed

lemma boot_flags: "PTE_FLAGS (push_bit 28 x OR mask 4) = PTE_V OR PTE_R OR PTE_W OR PTE_X"
proof -
  have "(push_bit 28 x OR mask 4) AND mask 10 = mask 4"
    by (rule bit_word_eqI) (auto simp: bit_or_iff bit_and_iff bit_push_bit_iff bit_mask_iff)
  moreover have "PTE_V OR PTE_R OR PTE_W OR PTE_X = mask 4" by (simp add: pte_consts mask_eq_exp_minus_1)
  ultimately show ?thesis by (simp add: PTE_FLAGS_def word_masks)
qed

text \<open>
  The boot page table is the identity. \<open>establish_page_table\<close> returns, and afterwards every
  address below 512 GiB is translated to itself through an entry that is a valid,
  readable, writable and executable page of the supervisor.
\<close>

theorem boot_table_identity:
  assumes "boot_pagetable P \<noteq> 0" and "aligned8 (boot_pagetable P)"
  shows "\<exists>s'. establish_page_table P s = Ok () s' \<and>
    (\<forall>va<2 ^ 39. boot_translate (mem s') (boot_pagetable P) va = va \<and>
      PTE_FLAGS (load64 (mem s') (boot_pagetable P + 8 * PX 2 va)) = PTE_V OR PTE_R OR PTE_W OR PTE_X)"
proof -
  obtain s' where s': "establish_page_table P s = Ok () s'"
    "\<forall>i<512. load64 (mem s') (boot_pagetable P + 8 * of_nat i) = push_bit 28 (of_nat i) OR 0xf"
    using boot_entries_ok [OF assms, of 512 s] by (auto simp: establish_page_table_def)
  have e: "load64 (mem s') (boot_pagetable P + 8 * PX 2 va) = push_bit 28 (PX 2 va) OR mask 4" for va
  proof -
    have "PX 2 va \<le> 0x1FF" unfolding PX_def by (rule word_and_le1)
    then have "unat (PX 2 va) < 512" by (simp add: word_le_nat_alt)
    from s'(2) [rule_format, OF this] show ?thesis by (simp add: word_masks)
  qed
  show ?thesis using s'(1) by (auto simp: boot_translate_def e boot_leaf boot_flags)
qed

theorem boot_table_identity_witness:
  "\<exists>s'. establish_page_table idle_platform kernel_zero = Ok () s' \<and> boot_translate (mem s') 0x8000a000 0x80001234 = 0x80001234"
  using boot_table_identity [of idle_platform kernel_zero] by (auto simp: idle_platform_def aligned8_def)

end
