(* ===== verification/User_Resume.thy ===== *)
theory User_Resume
  imports Trampoline Trap_Handling
begin

text \<open>
  The C code and the assembly together: \<open>user_trap_return\<close> of \<open>kernel/trap.c\<close> with its last call,
  the jump into the trampoline page, run as the code of \<open>user_return\<close> on the same state.
\<close>

declare tf_offset.simps [simp del] frame_field.simps [simp del]

section \<open>The jump into the trampoline\<close>

text \<open>
  \<open>enter_user\<close> with the code of \<open>trampoline.S\<close>: the C code calls it with the value for \<open>satp\<close> as
  its argument, which the calling convention puts into \<open>a0\<close>. A run without a result is a run
  that does not return.
\<close>

definition call_user_return :: "'z cpu_scheme callees \<Rightarrow> addr \<Rightarrow> uint64 \<Rightarrow> (unit, 'z cpu_scheme) run" where
  "call_user_return funs entry atp c =
     map_option (\<lambda>u. Inr ((), u)) (exec_asm funs user_return_asm (c\<lparr>pc := entry, gpr := (gpr c)(A0 := atp)\<rparr>))"

text \<open>
  The task at \<open>t\<close> with its trap frame on page \<open>q\<close>, its page tables \<open>T\<close> and its kernel stack: the
  frame is mapped at \<open>TRAPFRAME\<close> there, and the task structure lies outside the frame.
\<close>

definition user_task :: "'z kernel_scheme \<Rightarrow> addr \<Rightarrow> nat \<Rightarrow> page_tree \<Rightarrow> addr \<Rightarrow> bool" where
  "user_task s t q T stack \<longleftrightarrow> trap_frame_ok s t (page_addr q) \<and> frame_mapped (mem s) T q \<and>
     load64 (mem s) (t + ts_kernel_stack) = stack \<and>
     load64 (mem s) (t + ts_pagetable) = page_addr (pt_root T) \<and>
     (\<forall>f. page_addr q + tf_offset f \<notin> {t + ts_kernel_stack, t + ts_pagetable})"

lemma frame_put:
  assumes "frame_mapped (mem s) T q"
  shows "frame_mapped (mem (put64 (page_addr q + tf_offset f) v s)) T q"
proof (rule frame_mapped_cong [OF assms])
  fix x assume x: "x \<notin> span (page_addr q) 4096"
  have "unat (tf_offset f) + 8 \<le> unat (4096 :: uint64)" by (cases f) (simp_all add: tf_offset.simps)
  from store_in_span [OF this x] show "mem (put64 (page_addr q + tf_offset f) v s) x = mem s x"
    by (simp add: put64_def)
qed

lemma task_cells_aligned: "aligned8 t \<Longrightarrow> aligned8 (t + ts_kernel_stack) \<and> aligned8 (t + ts_pagetable)"
  by (simp add: task_layout aligned8_num)

lemma user_task_put:
  assumes "user_task s t q T stack"
  shows "user_task (put64 (page_addr q + tf_offset f) v s) t q T stack"
proof -
  have u: "trap_frame_ok s t (page_addr q)" "frame_mapped (mem s) T q"
    "load64 (mem s) (t + ts_kernel_stack) = stack" "load64 (mem s) (t + ts_pagetable) = page_addr (pt_root T)"
    "\<forall>f. page_addr q + tf_offset f \<notin> {t + ts_kernel_stack, t + ts_pagetable}"
    using assms by (simp_all add: user_task_def)
  have "aligned8 t" using u(1) by (simp add: trap_frame_ok_def)
  note al = task_cells_aligned [OF this] trap_frame_aligned [OF u(1), of f]
  show ?thesis
    using trap_frame_put [OF u(1), of f v] frame_put [OF u(2), of f v] u(3-5) al
    by (simp add: user_task_def load_put)
qed

lemma user_task_csr [simp]:
  "user_task (s\<lparr>sstatus := x\<rparr>) t q T stack = user_task s t q T stack"
  "user_task (s\<lparr>stvec := x\<rparr>) t q T stack = user_task s t q T stack"
  "user_task (s\<lparr>sepc := x\<rparr>) t q T stack = user_task s t q T stack"
  by (simp_all add: user_task_def trap_frame_ok_def)

text \<open>The state in which \<open>user_trap_return\<close> jumps.\<close>

definition leaving :: "'z kernel_scheme platform \<Rightarrow> addr \<Rightarrow> addr \<Rightarrow> 'z kernel_scheme \<Rightarrow> 'z kernel_scheme" where
  "leaving P tf stack s =
     (let m = put64 (tf + tf_offset TF_kernel_trap) (user_trap_entry P)
         (put64 (tf + tf_offset TF_kernel_sp) (stack + PGSIZE)
         (put64 (tf + tf_offset TF_kernel_satp) (satp s)
         (s\<lparr>sstatus := sstatus s AND NOT SSTATUS_SIE, stvec := TRAMPOLINE + (user_vector P - trampoline P)\<rparr>))) in
      m\<lparr>sstatus := (sstatus m AND NOT SSTATUS_SPP) OR SSTATUS_SPIE, sepc := load64 (mem m) (tf + tf_offset TF_epc)\<rparr>)"

lemma user_trap_return_run:
  assumes "current_task s = Ok t s" and "user_task s t q T stack"
  shows "user_trap_return P s = enter_user P (TRAMPOLINE + (user_return P - trampoline P))
    (MAKE_SATP (page_addr (pt_root T))) (leaving P (page_addr q) stack s)"
proof -
  let ?s = "s\<lparr>sstatus := sstatus s AND NOT SSTATUS_SIE, stvec := TRAMPOLINE + (user_vector P - trampoline P)\<rparr>"
  let ?f = "page_addr q"
  let ?a = "put64 (?f + tf_offset TF_kernel_satp) (satp s) ?s"
  let ?b = "put64 (?f + tf_offset TF_kernel_sp) (stack + PGSIZE) ?a"
  let ?c = "put64 (?f + tf_offset TF_kernel_trap) (user_trap_entry P) ?b"
  let ?d = "?c\<lparr>sstatus := (sstatus ?c AND NOT SSTATUS_SPP) OR SSTATUS_SPIE\<rparr>"
  have u: "user_task ?s t q T stack" "user_task ?a t q T stack" "user_task ?b t q T stack" "user_task ?c t q T stack"
    "user_task ?d t q T stack" using assms(2) by (simp_all add: user_task_put)
  note ok = user_task_def [THEN iffD1, THEN conjunct1]
  have t: "t \<noteq> 0" using ok [OF assms(2)] by (simp add: trap_frame_ok_def)
  have stack: "load64 (mem ?a) (t + ts_kernel_stack) = stack" using u(2) by (simp add: user_task_def)
  have pt: "load64 (mem (?d\<lparr>sepc := x\<rparr>)) (t + ts_pagetable) = page_addr (pt_root T)" for x
    using u(5) by (simp add: user_task_def)
  have cur: "bind current_task k s = k t s" for k :: "addr \<Rightarrow> (unit, 'a kernel_scheme) run"
    using assms(1) by (rule bind_Ok)
  have 1: "bind (set_reg t TF_kernel_satp v) k ?s = k () (put64 (?f + tf_offset TF_kernel_satp) v ?s)"
    for v and k :: "unit \<Rightarrow> (unit, 'a kernel_scheme) run" by (rule bind_set_reg_frame [OF ok [OF u(1)]])
  have 2: "bind (set_reg t TF_kernel_sp v) k ?a = k () (put64 (?f + tf_offset TF_kernel_sp) v ?a)"
    for v and k :: "unit \<Rightarrow> (unit, 'a kernel_scheme) run" by (rule bind_set_reg_frame [OF ok [OF u(2)]])
  have 3: "bind (set_reg t TF_kernel_trap v) k ?b = k () (put64 (?f + tf_offset TF_kernel_trap) v ?b)"
    for v and k :: "unit \<Rightarrow> (unit, 'a kernel_scheme) run" by (rule bind_set_reg_frame [OF ok [OF u(3)]])
  have 4: "bind (get_reg t TF_epc) k ?d = k (load64 (mem ?d) (?f + tf_offset TF_epc)) ?d"
    for k :: "uint64 \<Rightarrow> (unit, 'a kernel_scheme) run" by (rule bind_get_reg_frame [OF ok [OF u(5)]])
  have sat: "satp ?s = satp s" by simp
  have "user_trap_return P s = bind read_satp (\<lambda>satp.
     bind (set_reg t TF_kernel_satp satp) (\<lambda>_.
     bind (get_field t ts_kernel_stack) (\<lambda>stack.
     bind (set_reg t TF_kernel_sp (stack + PGSIZE)) (\<lambda>_.
     bind (set_reg t TF_kernel_trap (user_trap_entry P)) (\<lambda>_.
     bind read_sstatus (\<lambda>sstatus.
     bind (write_sstatus ((sstatus AND NOT SSTATUS_SPP) OR SSTATUS_SPIE)) (\<lambda>_.
     bind (get_reg t TF_epc) (\<lambda>epc.
     bind (write_sepc epc) (\<lambda>_.
     bind (get_field t ts_pagetable) (\<lambda>pagetable.
     enter_user P (TRAMPOLINE + (user_return P - trampoline P)) (MAKE_SATP pagetable))))))))))) ?s"
    unfolding user_trap_return_def cur by (simp add: run_simps)
  then show ?thesis
    unfolding read_satp_def read_sstatus_def write_sstatus_def write_sepc_def bind_gets bind_modify sat 1
      bind_get_field [OF t] stack 2 3 4 pt leaving_def Let_def by simp
qed

text \<open>What the state of the jump holds.\<close>

lemma frame_cells_leaving:
  assumes "user_task s t q T stack"
  shows "user_task (leaving P (page_addr q) stack s) t q T stack"
    "load64 (mem (leaving P (page_addr q) stack s)) (page_addr q + tf_offset f) =
      (if f = TF_kernel_trap then user_trap_entry P else if f = TF_kernel_sp then stack + PGSIZE
       else if f = TF_kernel_satp then satp s else load64 (mem s) (page_addr q + tf_offset f))"
    "sepc (leaving P (page_addr q) stack s) = load64 (mem s) (page_addr q + tf_offset TF_epc)"
proof -
  show "user_task (leaving P (page_addr q) stack s) t q T stack"
    using assms by (simp add: leaving_def Let_def user_task_put)
  have al: "aligned8 (page_addr q + tf_offset f)" for f
    using assms trap_frame_aligned by (auto simp: user_task_def)
  have cell: "load64 (mem (leaving P (page_addr q) stack s)) (page_addr q + tf_offset f) =
      (if f = TF_kernel_trap then user_trap_entry P else if f = TF_kernel_sp then stack + PGSIZE
       else if f = TF_kernel_satp then satp s else load64 (mem s) (page_addr q + tf_offset f))" for f
    by (auto simp: leaving_def Let_def load_put al)
  then show "load64 (mem (leaving P (page_addr q) stack s)) (page_addr q + tf_offset f) =
      (if f = TF_kernel_trap then user_trap_entry P else if f = TF_kernel_sp then stack + PGSIZE
       else if f = TF_kernel_satp then satp s else load64 (mem s) (page_addr q + tf_offset f))" .
  have "sepc (leaving P (page_addr q) stack s) = load64 (mem (leaving P (page_addr q) stack s)) (page_addr q + tf_offset TF_epc)"
    by (simp add: leaving_def Let_def)
  then show "sepc (leaving P (page_addr q) stack s) = load64 (mem s) (page_addr q + tf_offset TF_epc)"
    by (simp add: cell)
qed

lemma leaving_regs [simp]:
  fixes s :: "'z cpu_scheme"
  shows "gpr (leaving P tf stack s) = gpr s" "priv (leaving P tf stack s) = priv s"
    "stvec (leaving P tf stack s) = TRAMPOLINE + (user_vector P - trampoline P)"
    "sstatus (leaving P tf stack s) = ((sstatus s AND NOT SSTATUS_SIE) AND NOT SSTATUS_SPP) OR SSTATUS_SPIE"
  by (simp_all add: leaving_def Let_def put64_def)

lemma bit_SSTATUS: "bit SSTATUS_SPP n \<longleftrightarrow> n = 8" "bit SSTATUS_SPIE n \<longleftrightarrow> n = 5" "bit SSTATUS_SIE n \<longleftrightarrow> n = 1"
  unfolding SSTATUS_SPP_def SSTATUS_SPIE_def SSTATUS_SIE_def by (auto simp only: bit_simps) simp_all

lemma status_bits: "x AND SSTATUS_SPP = 0 \<longleftrightarrow> \<not> bit x 8" "x AND SSTATUS_SPIE = 0 \<longleftrightarrow> \<not> bit x 5"
  "x AND SSTATUS_SIE = 0 \<longleftrightarrow> \<not> bit x 1" for x :: uint64
proof -
  have "x AND b = 0 \<longleftrightarrow> (\<forall>n<64. bit b n \<longrightarrow> \<not> bit x n)" for b :: uint64
    by (auto simp: uint64_eq_iff_bit bit_simps)
  then show "x AND SSTATUS_SPP = 0 \<longleftrightarrow> \<not> bit x 8" "x AND SSTATUS_SPIE = 0 \<longleftrightarrow> \<not> bit x 5"
    "x AND SSTATUS_SIE = 0 \<longleftrightarrow> \<not> bit x 1" by (auto simp: bit_SSTATUS)
qed

lemma SIE_nonzero [simp]: "SSTATUS_SIE \<noteq> 0"
  by (simp add: SSTATUS_SIE_def)

lemma not_kernel_field [simp]: "frame_field r \<noteq> TF_kernel_trap" "frame_field r \<noteq> TF_kernel_sp"
  "frame_field r \<noteq> TF_kernel_satp" "frame_field r \<noteq> TF_epc"
  by (cases r; simp add: frame_field.simps)+

lemma resume_user:
  assumes "current_task s = Ok t s" and "user_task s t q T stack" and "priv s = Supervisor_mode"
    and "enter_user P = call_user_return funs"
  obtains u where "user_trap_return P s = Ok () u" "priv u = User_mode" "interrupt_status u"
    "pc u = load64 (mem s) (page_addr q + tf_offset TF_epc)"
    "gpr u = (\<lambda>r. load64 (mem s) (page_addr q + tf_offset (frame_field r)))"
    "satp u = MAKE_SATP (page_addr (pt_root T))" "stvec u = TRAMPOLINE + (user_vector P - trampoline P)"
    "mem u = mem (leaving P (page_addr q) stack s)"
proof -
  let ?l = "leaving P (page_addr q) stack s" and ?atp = "MAKE_SATP (page_addr (pt_root T))"
  let ?e = "TRAMPOLINE + (user_return P - trampoline P)"
  let ?k = "?l\<lparr>pc := ?e, gpr := (gpr ?l)(A0 := ?atp)\<rparr>"
  note lv = frame_cells_leaving [OF assms(2), of P]
  have fm: "frame_mapped (mem ?k) T q" using lv(1) by (simp add: user_task_def)
  define u where "u = sret (?k\<lparr>satp := ?atp, gpr := \<lambda>r. load64 (mem ?l) (page_addr q + frame_cell r)\<rparr>)"
  have "user_trap_return P s = Ok () u"
    using user_trap_return_run [OF assms(1,2), of P] user_return_run [OF fm, of funs] assms(3,4)
    by (simp add: call_user_return_def u_def)
  moreover have "gpr u = (\<lambda>r. load64 (mem s) (page_addr q + tf_offset (frame_field r)))"
    by (simp add: u_def sret_def Let_def frame_cell_def lv(2))
  moreover have "mem u = mem ?l" "satp u = ?atp" "pc u = sepc ?l"
    "stvec u = TRAMPOLINE + (user_vector P - trampoline P)" "priv u = User_mode" "interrupt_status u"
    by (simp_all add: u_def sret_def Let_def interrupt_status_def SSTATUS_put_def status_bits bit_SSTATUS bit_simps)
  ultimately show ?thesis using lv(3) by (intro that [of u]) simp_all
qed

text \<open>
  C36. \<open>user_trap_return\<close> with the code of the trampoline: the user program continues at the saved
  program counter, in user mode with interrupts enabled, on its own page table and with every
  register as its trap frame has it; and its next trap, whatever the cause, enters \<open>user_trap\<close>
  on the task's kernel stack and the kernel's page table with the registers of that moment in
  the trap frame.
\<close>

theorem user_resumes:
  assumes "current_task s = Ok t s" and "user_task s t q T stack" and "priv s = Supervisor_mode"
    and "enter_user P = call_user_return funs"
  shows "\<exists>u. user_trap_return P s = Ok () u \<and> priv u = User_mode \<and> interrupt_status u \<and>
    pc u = load64 (mem s) (page_addr q + tf_offset TF_epc) \<and>
    (\<forall>r. gpr u r = load64 (mem s) (page_addr q + tf_offset (frame_field r))) \<and>
    satp u = MAKE_SATP (page_addr (pt_root T)) \<and> stvec u = TRAMPOLINE + (user_vector P - trampoline P) \<and>
    (\<forall>code g. \<exists>k. exec_asm funs user_vector_asm (trap_to_supervisor code (u\<lparr>gpr := g\<rparr>)) = Some k \<and>
       pc k = user_trap_entry P \<and> gpr k SP = stack + PGSIZE \<and> satp k = satp s \<and> sepc k = pc u \<and> scause k = code \<and>
       (\<forall>r. load64 (mem k) (page_addr q + tf_offset (frame_field r)) = g r))"
proof -
  let ?l = "leaving P (page_addr q) stack s" and ?atp = "MAKE_SATP (page_addr (pt_root T))"
  note lv = frame_cells_leaving [OF assms(2), of P]
  obtain u where u: "user_trap_return P s = Ok () u" "priv u = User_mode" "interrupt_status u"
    "pc u = load64 (mem s) (page_addr q + tf_offset TF_epc)"
    "gpr u = (\<lambda>r. load64 (mem s) (page_addr q + tf_offset (frame_field r)))"
    "satp u = ?atp" "stvec u = TRAMPOLINE + (user_vector P - trampoline P)" "mem u = mem ?l"
    by (rule resume_user [OF assms])
  have "\<exists>k. exec_asm funs user_vector_asm (trap_to_supervisor code (u\<lparr>gpr := g\<rparr>)) = Some k \<and>
       pc k = user_trap_entry P \<and> gpr k SP = stack + PGSIZE \<and> satp k = satp s \<and> sepc k = pc u \<and> scause k = code \<and>
       (\<forall>r. load64 (mem k) (page_addr q + tf_offset (frame_field r)) = g r)" for code g
  proof -
    let ?c = "trap_to_supervisor code (u\<lparr>gpr := g\<rparr>)"
    have c: "mem ?c = mem ?l" "satp ?c = ?atp" "priv ?c = Supervisor_mode" "gpr ?c = g" "sepc ?c = pc u" "scause ?c = code"
      using u(6,8) by (simp_all add: trap_to_supervisor_def Let_def)
    have fc: "frame_mapped (mem ?c) T q" using lv(1) c(1) by (simp add: user_task_def)
    then have q: "q < 2 ^ 44" by (simp add: frame_mapped_def)
    show ?thesis
      using user_vector_run [OF fc c(2,3), of funs] frame_saved_cell [OF q] lv(2) c
        frame_saved_kernel [OF q kernel_field_not_user(1)] frame_saved_kernel [OF q kernel_field_not_user(2)]
        frame_saved_kernel [OF q kernel_field_not_user(3)]
      by (simp add: Let_def frame_cell_def)
  qed
  with u show ?thesis by (intro exI [of _ u]) simp
qed

section \<open>A system call, from the call to the return\<close>

text \<open>
  The user program at \<open>ecall\<close> in \<open>user/syscall.S\<close>, the trap, \<open>user_vector\<close>, and \<open>user_trap\<close>, which ends
  with the return to user mode.
\<close>

definition ecall_trip :: "'z cpu_scheme platform \<Rightarrow> 'z cpu_scheme callees \<Rightarrow> (unit, 'z cpu_scheme) run" where
  "ecall_trip P funs c =
     (case exec_asm funs syscall_asm c of
        None \<Rightarrow> None
      | Some c1 \<Rightarrow> (case exec_asm funs user_vector_asm c1 of None \<Rightarrow> None | Some k \<Rightarrow> user_trap P k))"

text \<open>The task runs: the node \<open>running_task\<close> refers to it, and the node is not in the trap frame.\<close>

definition running_user :: "'z kernel_scheme \<Rightarrow> addr \<Rightarrow> nat \<Rightarrow> page_tree \<Rightarrow> addr \<Rightarrow> bool" where
  "running_user s t q T stack \<longleftrightarrow> user_task s t q T stack \<and> runnable_tasks s \<noteq> 0 \<and> running_task s \<noteq> 0 \<and>
     aligned8 (running_task s + nd_data) \<and> load64 (mem s) (running_task s + nd_data) = t \<and>
     (\<forall>f. page_addr q + tf_offset f \<noteq> running_task s + nd_data)"

lemma running_user_current: "running_user s t q T stack \<Longrightarrow> current_task s = Ok t s"
  by (simp add: running_user_def current_task_def run_simps)

lemma running_user_put:
  assumes "running_user s t q T stack"
  shows "running_user (put64 (page_addr q + tf_offset f) v s) t q T stack"
proof -
  have "aligned8 (page_addr q + tf_offset f)"
    using assms trap_frame_aligned [of s t "page_addr q" f] by (simp add: running_user_def user_task_def)
  moreover have "running_task (put64 a v s) = running_task s" "runnable_tasks (put64 a v s) = runnable_tasks s" for a
    by (simp_all add: put64_def)
  ultimately show ?thesis
    using assms user_task_put [of s t q T stack f v] by (simp add: running_user_def load_put)
qed

lemma frame_saved_other:
  assumes "q < 2 ^ 44" and "aligned8 a" and "\<And>f. page_addr q + tf_offset f \<noteq> a"
  shows "load64 (frame_saved m g (page_addr q)) a = load64 m a"
proof -
  define off where "off = a - page_addr q"
  have a: "a = page_addr q + off" by (simp add: off_def)
  have al: "aligned8 (page_addr q)" "aligned8 off"
    using frame_aligned(2) [OF assms(1)] assms(2) by (simp_all add: off_def)
  have "off \<noteq> frame_cell r" for r using assms(3) [of "frame_field r"] a by (auto simp: frame_cell_def)
  then have "off \<notin> frame_cell ` set user_regs" and A0: "frame_cell A0 \<noteq> off" by blast+
  moreover have "snd ` set user_cells = frame_cell ` set user_regs" by (simp add: user_cells_def image_image)
  ultimately have "off \<notin> snd ` set user_cells" by simp
  then show ?thesis
    unfolding a using al A0 saved_other [OF user_cells_ok(1) al]
    by (simp add: frame_saved_def load64_store64_aligned)
qed

lemma running_user_saved:
  assumes "running_user s t q T stack" and "mem s' = frame_saved (mem s) g (page_addr q)"
    and "running_task s' = running_task s" and "runnable_tasks s' = runnable_tasks s"
  shows "running_user s' t q T stack"
proof -
  have u: "user_task s t q T stack" using assms(1) by (simp add: running_user_def)
  then have q: "q < 2 ^ 44" and fm: "frame_mapped (mem s) T q" and tf: "trap_frame_ok s t (page_addr q)"
    by (simp_all add: user_task_def frame_mapped_def)
  have t: "aligned8 t" using tf by (simp add: trap_frame_ok_def)
  have same: "load64 (mem s') a = load64 (mem s) a" if "aligned8 a" "\<And>f. page_addr q + tf_offset f \<noteq> a" for a
    using frame_saved_other [OF q that] assms(2) by simp
  have "frame_mapped (mem s') T q"
    using frame_mapped_cong [OF fm, of "mem s'"] frame_saved_outside assms(2) by simp
  moreover have "load64 (mem s') (t + ts_trap_frame) = load64 (mem s) (t + ts_trap_frame)"
    using tf trap_frame_aligned [OF tf] by (intro same) (auto simp: trap_frame_ok_def)
  moreover have "load64 (mem s') (t + ts_kernel_stack) = load64 (mem s) (t + ts_kernel_stack)"
    using u task_cells_aligned [OF t] by (intro same) (auto simp: user_task_def)
  moreover have "load64 (mem s') (t + ts_pagetable) = load64 (mem s) (t + ts_pagetable)"
    using u task_cells_aligned [OF t] by (intro same) (auto simp: user_task_def)
  moreover have "load64 (mem s') (running_task s + nd_data) = load64 (mem s) (running_task s + nd_data)"
    using assms(1) by (intro same) (auto simp: running_user_def)
  ultimately show ?thesis
    using assms(1,3,4) by (simp add: running_user_def user_task_def trap_frame_ok_def)
qed

lemma running_user_frame: "running_user s t q T stack \<Longrightarrow> trap_frame_ok s t (page_addr q) \<and> user_task s t q T stack"
  by (simp add: running_user_def user_task_def)

lemma running_user_stvec [simp]: "running_user (s\<lparr>stvec := x\<rparr>) t q T stack = running_user s t q T stack"
  by (simp add: running_user_def)

text \<open>\<open>user_trap\<close> for a system call, up to the return: the handler has run on \<open>entered P q s\<close>.\<close>

definition entered :: "'z kernel_scheme platform \<Rightarrow> nat \<Rightarrow> 'z kernel_scheme \<Rightarrow> 'z kernel_scheme" where
  "entered P q s = put64 (page_addr q + tf_offset TF_epc) (sepc s) (s\<lparr>stvec := kernel_vector P\<rparr>)"

lemma entered_ok:
  assumes "running_user k t q T stack"
  shows "running_user (entered P q k) t q T stack"
    "load64 (mem (entered P q k)) (page_addr q + tf_offset f) =
      (if f = TF_epc then sepc k else load64 (mem k) (page_addr q + tf_offset f))"
proof -
  have r: "running_user (k\<lparr>stvec := kernel_vector P\<rparr>) t q T stack" using assms by simp
  then show "running_user (entered P q k) t q T stack" unfolding entered_def by (rule running_user_put)
  show "load64 (mem (entered P q k)) (page_addr q + tf_offset f) =
      (if f = TF_epc then sepc k else load64 (mem k) (page_addr q + tf_offset f))"
    using reg_put [OF running_user_frame [OF r, THEN conjunct1]] by (simp add: entered_def)
qed

lemma entered_outside: "x \<notin> span (page_addr q) 4096 \<Longrightarrow> mem (entered P q k) x = mem k x"
  using store_in_span [of "tf_offset TF_epc" 4096 x "page_addr q" "mem k" "sepc k"]
  by (simp add: entered_def put64_def tf_offset.simps)

lemma user_trap_syscall:
  assumes k: "running_user k t q T stack" "scause k = 8" "sstatus k AND SSTATUS_SPP = 0"
    and h: "syscall_handler P (int_of_reg (load64 (mem (entered P q k)) (page_addr q + tf_offset TF_a7))) = Some handler"
    and s': "handler t (entered P q k) = Ok v s'" "running_user s' t q T stack"
  shows "user_trap P k = user_trap_return P (put64 (page_addr q + tf_offset TF_epc)
    (load64 (mem s') (page_addr q + tf_offset TF_epc) + 4) (put64 (page_addr q + tf_offset TF_a0) v s'))"
    (is "_ = user_trap_return P ?u")
proof -
  let ?k1 = "k\<lparr>stvec := kernel_vector P\<rparr>"
  have r1: "running_user ?k1 t q T stack" using k(1) by simp
  note frame = running_user_frame [THEN conjunct1]
  have "supervisor_trap_cause P k = Ok SYSCALL k"
    using k(2) by (simp add: supervisor_trap_cause_def decode_scause_def run_simps)
  then have b1: "bind (supervisor_trap_cause P) K k = K SYSCALL k" for K :: "cause \<Rightarrow> (unit, 'a kernel_scheme) run"
    by (rule bind_Ok)
  have b2: "bind current_task K ?k1 = K t ?k1" for K :: "addr \<Rightarrow> (unit, 'a kernel_scheme) run"
    using running_user_current [OF r1] by (rule bind_Ok)
  have b3: "bind (set_reg t TF_epc (sepc k)) K ?k1 = K () (entered P q k)" for K :: "unit \<Rightarrow> (unit, 'a kernel_scheme) run"
    unfolding entered_def by (rule bind_set_reg_frame [OF frame [OF r1]])
  have "syscall P (entered P q k) = Ok () ?u"
    using entered_ok(1) [OF k(1), of P] s'(2)
    by (intro syscall_run [OF _ _ h s'(1)] running_user_current frame)
  then have b4: "bind (syscall P) K (entered P q k) = K () ?u" for K :: "unit \<Rightarrow> (unit, 'a kernel_scheme) run"
    by (rule bind_Ok)
  show ?thesis
    unfolding user_trap_def read_sepc_def read_sstatus_def bind_gets b1
    using k(3) by (simp add: write_stvec_def bind_modify b2 b3 handle_user_cause_def Let_def b4)
qed

text \<open>The way into the kernel.\<close>

lemma ecall_enters:
  assumes "priv c = User_mode" and "running_user c t q T stack" and "satp c = MAKE_SATP (page_addr (pt_root T))"
  obtains k where "ecall_trip P funs c = user_trap P k" "running_user k t q T stack" "priv k = Supervisor_mode"
    "sepc k = pc c" "scause k = 8" "sstatus k AND SSTATUS_SPP = 0"
    "\<And>r. load64 (mem k) (page_addr q + tf_offset (frame_field r)) = gpr c r"
    "\<And>x. x \<notin> span (page_addr q) 4096 \<Longrightarrow> mem k x = mem c x"
proof -
  let ?c1 = "trap_to_supervisor 8 c"
  have c1: "mem ?c1 = mem c" "satp ?c1 = satp c" "priv ?c1 = Supervisor_mode" "gpr ?c1 = gpr c" "sepc ?c1 = pc c"
    "scause ?c1 = 8" "running_task ?c1 = running_task c" "runnable_tasks ?c1 = runnable_tasks c"
    "sstatus ?c1 AND SSTATUS_SPP = 0"
    using assms(1) by (simp_all add: trap_to_supervisor_def Let_def SSTATUS_put_def status_bits bit_SSTATUS bit_simps)
  have fm: "frame_mapped (mem ?c1) T q" and q: "q < 2 ^ 44"
    using assms(2) c1(1) by (simp_all add: running_user_def user_task_def frame_mapped_def)
  from user_vector_run [OF fm, of funs] c1(2,3,4) assms(3) obtain k where
    k: "exec_asm funs user_vector_asm ?c1 = Some k" "mem k = frame_saved (mem c) (gpr c) (page_addr q)"
      "priv k = Supervisor_mode" "sepc k = pc c" "scause k = 8" "sstatus k AND SSTATUS_SPP = 0"
      "running_task k = running_task c" "runnable_tasks k = runnable_tasks c"
    using c1 by (simp add: Let_def)
  have "running_user k t q T stack" using k by (intro running_user_saved [OF assms(2)])
  moreover have "ecall_trip P funs c = user_trap P k"
    using k(1) assms(1) by (simp add: ecall_trip_def syscall_asm_def)
  ultimately show ?thesis
    using k frame_saved_cell [OF q] frame_saved_outside by (intro that [of k]) (simp_all add: frame_cell_def)
qed

section \<open>A user program\<close>

text \<open>A user task with its structure at \<open>0x1000\<close> and its trap frame on the page of \<open>tramp_tree\<close>.\<close>

definition user_memory :: memory where
  "user_memory = store64 (store64 (store64 (store64 (store64 tramp_memory 0x1060 (page_addr 0x80200)) 0x1020 0x80300000)
     0x1058 (page_addr 0x80100)) 0x1010 2) 0x2008 0x1000"

definition user_cpu :: cpu where
  "user_cpu = cpu_zero\<lparr>mem := user_memory, satp := MAKE_SATP (page_addr 0x80100), gpr := (\<lambda>_. 3)(A7 := 8), pc := 0x400,
     priv := User_mode, runnable_tasks := 0x3000, running_task := 0x2000\<rparr>"

definition tramp_platform :: "cpu platform" where
  "tramp_platform = clint_platform\<lparr>enter_user := call_user_return (\<lambda>_ _. None)\<rparr>"

lemma user_memory_cells:
  "load64 user_memory 0x1060 = page_addr 0x80200" "load64 user_memory 0x1020 = 0x80300000"
  "load64 user_memory 0x1058 = page_addr 0x80100" "load64 user_memory 0x1010 = 2" "load64 user_memory 0x2008 = 0x1000"
  by (simp_all add: user_memory_def load64_store64_aligned aligned8_num)

lemma low_store:
  assumes "unat a + 8 \<le> 0x10000" and "page_of x \<in> tables tramp_tree"
  shows "store64 m a v x = m x"
proof (rule store64_outside)
  show "unat a + 8 \<le> 2 ^ 64" using assms(1) by simp
  have "0x80100 \<le> page_of x" using assms(2) by (auto simp: tables_def tramp_tree_def ran_def split: if_splits)
  then have "0x80100000 \<le> unat x" by (simp add: page_of_def)
  then show "unat x < unat a \<or> unat a + 8 \<le> unat x" using assms(1) by simp
qed

lemma user_cpu_task: "running_user user_cpu 0x1000 0x80200 tramp_tree 0x80300000"
proof -
  have "frame_mapped user_memory tramp_tree 0x80200"
    by (rule frame_mapped_tables [OF tramp_frame]) (simp add: user_memory_def low_store)
  moreover have ne: "page_addr 0x80200 + tf_offset f \<noteq> a" if "unat a < 0x10000" for f a
  proof
    have "unat (page_addr 0x80200 + tf_offset f) = unat (page_addr 0x80200) + unat (tf_offset f)"
      by (intro unat_add_no_overflow) (cases f; simp add: tf_offset.simps page_addr_def)
    moreover assume "page_addr 0x80200 + tf_offset f = a"
    ultimately show False using that by (simp add: page_addr_def)
  qed
  moreover have "page_addr 0x80200 \<noteq> 0" "aligned8 (page_addr 0x80200)" by (simp_all add: page_addr_def aligned8_num)
  ultimately show ?thesis
    using ne [of "0x1060"] ne [of "0x1020"] ne [of "0x1058"] ne [of "0x2008"]
    by (simp add: running_user_def user_task_def trap_frame_ok_def user_cpu_def user_memory_cells task_layout nd_data_def
        aligned8_num tramp_tree_def)
qed



theorem user_resumes_witness:
  "\<exists>u. user_trap_return tramp_platform (user_cpu\<lparr>priv := Supervisor_mode\<rparr>) = Ok () u \<and> priv u = User_mode \<and>
     pc u = load64 user_memory (page_addr 0x80200 + tf_offset TF_epc) \<and> satp u = MAKE_SATP (page_addr 0x80100)"
proof -
  let ?s = "user_cpu\<lparr>priv := Supervisor_mode\<rparr>"
  have "running_user ?s 0x1000 0x80200 tramp_tree 0x80300000"
    using user_cpu_task by (simp add: running_user_def user_task_def trap_frame_ok_def)
  note r = running_user_current [OF this] running_user_frame [OF this, THEN conjunct2]
  from user_resumes [OF r, of tramp_platform "\<lambda>_ _. None"] show ?thesis
    by (auto simp: tramp_platform_def user_cpu_def tramp_tree_def)
qed

end
