(* ===== verification/Copy_Memory.thy ===== *)
theory Copy_Memory
  imports Virtual_Memory
begin

text \<open>
  Copying the pages of one address space into another: \<open>copy_memory_with_pagetable\<close> of
  \<open>kernel/virtual_memory.c\<close>, which \<open>fork\<close> uses for every section and for the stack.
\<close>

section \<open>Pages and tables\<close>

text \<open>The tables only depend on the pool and on their own pages.\<close>

lemma pt_inv_frame:
  fixes s s' :: "'z buddy_scheme"
  assumes "pt_inv s T F" and "page_pool s' G" and "G \<inter> tables T = {}" and "\<And>x. page_of x \<in> tables T \<Longrightarrow> mem s' x = mem s x"
  shows "pt_inv s' T G" "leaf (mem s') T w = leaf (mem s) T w"
proof -
  note d = pt_invD [OF assms(1)]
  show "pt_inv s' T G" using assms d(3) tree_repr_cong [OF d(2,3) assms(4)] by (auto simp: pt_inv_def)
  show "leaf (mem s') T w = leaf (mem s) T w"
    using d(3) assms(4) by (intro leaf_cong) (auto simp: tables_def)
qed

lemma in_page: "p < 2 ^ 51 \<Longrightarrow> x - page_addr p < PGSIZE \<longleftrightarrow> page_of x = p"
proof -
  assume p: "p < 2 ^ 51"
  have "memset (\<lambda>_. 1) (page_addr p) 0 PGSIZE x = (if x - page_addr p < PGSIZE then 0 else 1)"
    by (simp add: memset_eq)
  then show ?thesis using memset_page [OF p, of "\<lambda>_. 1" x] by (metis zero_neq_one)
qed

lemma page_byte: "p < 2 ^ 51 \<Longrightarrow> i < 4096 \<Longrightarrow> page_of (page_addr p + of_nat i) = p"
proof -
  assume p: "p < 2 ^ 51" and i: "i < 4096"
  have "unat (of_nat i :: uint64) = i" using i by (intro unat_of_nat_64) simp
  then have "page_addr p + of_nat i - page_addr p < PGSIZE" using i by (simp add: word_less_nat_alt PGSIZE_def)
  then show ?thesis using in_page [OF p] by blast
qed

lemma memcpy_page:
  assumes "p < 2 ^ 51" and "q < 2 ^ 51" and "p \<noteq> q"
  shows "memcpy m (page_addr p) (page_addr q) PGSIZE x =
    (if page_of x = p then m (page_addr q + (x - page_addr p)) else m x)"
proof -
  have "page_of (page_addr p) = p" "page_of (page_addr q) = q" using assms by (simp_all add: page_of_page_addr)
  then have "ranges_apart (page_addr p) (page_addr q) PGSIZE"
    using in_page [OF assms(1), of "page_addr q"] in_page [OF assms(2), of "page_addr p"] assms(3)
    by (auto simp: ranges_apart_def)
  then show ?thesis by (simp add: memcpy_eq in_page [OF assms(1)])
qed

lemma valid_page_small: "valid_block 0 p \<Longrightarrow> p < 2 ^ 51"
  by (simp add: valid_block_def end_page_def)

lemma pool_small: "page_pool s F \<Longrightarrow> F \<subseteq> {..<2 ^ 51}"
  unfolding page_pool_def using free_pages_in_range by (fastforce simp: end_page_def)

lemma page_aligned: "unat a = 4096 * k \<Longrightarrow> a AND (PGSIZE - 1) = 0"
proof -
  assume "unat a = 4096 * k"
  then have "unat (take_bit 12 a) = 0" by (simp only: unsigned_take_bit_eq) (simp add: take_bit_eq_mod)
  then show ?thesis by (simp add: PGSIZE_def uint64_eq_iff_unat take_bit_eq_mask mask_eq_exp_minus_1)
qed

lemma allocate_page:
  fixes s :: "'z buddy_scheme"
  assumes "page_pool s F"
  shows "F = {} \<and> allocate_for_user 0 s = Ok 0 s \<or>
    (\<exists>p s'. allocate_for_user 0 s = Ok (page_addr p) s' \<and> page_addr p \<noteq> 0 \<and> table_page p \<and> p \<in> F \<and>
      valid_block 0 p \<and> page_pool s' (F - {p}) \<and> frame F s s' \<and> (\<forall>x. page_of x = p \<longrightarrow> mem s' x = 0))"
proof (cases "F = {}")
  case True
  then have "allocate 0 s = Ok 0 s" using page_pool_alloc_fails [OF assms, of 0] by (auto simp: block_def)
  then show ?thesis using True by (simp add: allocate_for_user_def bind_Ok return_def)
next
  case False
  then obtain q where "q \<in> F" by blast
  then have "\<exists>q. 2 ^ 0 dvd q \<and> block 0 q \<subseteq> F" by (auto simp: block_def)
  from page_pool_alloc [OF assms this] obtain p t where t: "allocate 0 s = Ok (page_addr p) t" "valid_block 0 p"
    "p \<in> F" "page_pool t (F - {p})" "frame (F - {p}) s t" by (auto simp: block_def)
  have p: "table_page p" using t(2) by (auto simp: valid_block_def table_page_def)
  note pb = table_page_bound [OF p] and nz = table_nonzero [OF p]
  let ?m = "memset (mem t) (page_addr p) 0 PGSIZE"
  have m: "?m x = (if page_of x = p then 0 else mem t x)" for x using pb by (simp add: memset_page)
  have "bind (allocate 0) c s = c (page_addr p) t" for c :: "addr \<Rightarrow> (addr, 'z buddy_scheme) run"
    using t(1) by (rule bind_Ok)
  then have "allocate_for_user 0 s = Ok (page_addr p) (t\<lparr>mem := ?m\<rparr>)"
    using nz by (simp add: allocate_for_user_def do_memset_def run_simps)
  moreover have "page_pool (t\<lparr>mem := ?m\<rparr>) (F - {p})" using m by (intro page_pool_cong [OF t(4)]) auto
  moreover have "frame F s (t\<lparr>mem := ?m\<rparr>)" using t(3,5) m by (auto simp: frame_def)
  ultimately show ?thesis using nz p t(2,3) m by auto
qed

lemma one_free_page:
  fixes s :: "'z buddy_scheme"
  assumes "space s = page_addr p # replicate 15 0" and "\<And>i. i < 8 \<Longrightarrow> mem s (page_addr p + of_nat i) = 0" and "valid_block 0 p"
  shows "page_pool s {p}"
proof -
  let ?fl = "(\<lambda>_. [])(0 := [p]) :: free_lists"
  have "load64 (mem s) (page_addr p) = 0" using assms(2) by (rule load64_zeroed)
  then have "pool_repr s ?fl"
    using assms(1) valid_addr_nonzero [OF assms(3)] by (auto simp: pool_repr_def BUDDY_MAX_ORDER_def nth_Cons')
  moreover have "buddy 0 p \<noteq> p" by (rule buddy_neq) simp
  then have "buddy_wf ?fl" using assms(3) by (auto simp: buddy_wf_def disjoint_blocks_def coalesced_def)
  moreover have "free_pages ?fl = {p}" by (auto simp: free_pages_def block_def split: if_splits)
  ultimately show ?thesis unfolding page_pool_def by blast
qed

section \<open>The source and the copy\<close>

text \<open>
  The source maps the pages \<open>lo, \<dots>, lo + n - 1\<close> to the physical pages given by \<open>sp\<close>, which are in
  use; its tables are apart from those of the target.
\<close>

definition source_space :: "memory \<Rightarrow> page_tree \<Rightarrow> page_tree \<Rightarrow> nat set \<Rightarrow> nat \<Rightarrow> nat \<Rightarrow> (nat \<Rightarrow> nat) \<Rightarrow> bool" where
  "source_space m S T F lo n sp \<longleftrightarrow> tree_repr m S \<and> tree_shape S \<and> tables S \<inter> (F \<union> tables T) = {} \<and>
     (\<forall>w<MAXVA. vpage w \<in> {lo..<lo + n} \<longrightarrow> (\<exists>e. leaf m S w = Some e \<and> PTE2PA e = page_addr (sp (vpage w)))) \<and>
     (\<forall>i\<in>{lo..<lo + n}. valid_block 0 (sp i) \<and> sp i \<notin> F \<union> tables T)"

lemma source_kept:
  assumes "source_space m S T F lo n sp" and "F' \<union> tables T' \<subseteq> F \<union> tables T"
    and same: "\<And>x. page_of x \<notin> F \<union> tables T \<Longrightarrow> m' x = m x"
  shows "source_space m' S T' F' lo n sp" "leaf m' S w = leaf m S w"
proof -
  have r: "tree_repr m S" "tree_shape S" "tables S \<inter> (F \<union> tables T) = {}"
    and p: "\<And>i. i \<in> {lo..<lo + n} \<Longrightarrow> valid_block 0 (sp i) \<and> sp i \<notin> F \<union> tables T"
    and l: "\<forall>w<MAXVA. vpage w \<in> {lo..<lo + n} \<longrightarrow> (\<exists>e. leaf m S w = Some e \<and> PTE2PA e = page_addr (sp (vpage w)))"
    using assms(1) by (simp_all add: source_space_def)
  have t: "m' x = m x" if "page_of x \<in> tables S" for x using r(3) same that by blast
  have lf: "leaf m' S w = leaf m S w" for w using r(2) t by (intro leaf_cong) (auto simp: tables_def)
  then show "leaf m' S w = leaf m S w" .
  have "tree_repr m' S" using r(1,2) t by (rule tree_repr_cong)
  moreover have "tables S \<inter> (F' \<union> tables T') = {}" using r(3) assms(2) by blast
  moreover have "valid_block 0 (sp i) \<and> sp i \<notin> F' \<union> tables T'" if "i \<in> {lo..<lo + n}" for i
    using p [OF that] assms(2) by blast
  ultimately show "source_space m' S T' F' lo n sp" using r(2) l by (simp add: source_space_def lf)
qed

lemma source_mono: "source_space m S T F lo n sp \<Longrightarrow> lo \<le> lo' \<Longrightarrow> lo' + n' \<le> lo + n \<Longrightarrow> source_space m S T F lo' n' sp"
  unfolding source_space_def by auto

text \<open>
  The target maps the same pages to fresh physical pages \<open>dp\<close> with the flags and the contents of
  the source; a page is missing only if no table can be allocated any more.
\<close>

definition pages_copied :: "memory \<Rightarrow> page_tree \<Rightarrow> page_tree \<Rightarrow> nat set \<Rightarrow> memory \<Rightarrow> page_tree \<Rightarrow> nat set \<Rightarrow>
    nat \<Rightarrow> nat \<Rightarrow> (nat \<Rightarrow> nat) \<Rightarrow> (nat \<Rightarrow> nat) \<Rightarrow> bool" where
  "pages_copied m S T F m' T' F' lo n sp dp \<longleftrightarrow>
     inj_on dp {lo..<lo + n} \<and> dp ` {lo..<lo + n} \<subseteq> F - F' - tables T' \<and>
     (\<forall>i\<in>{lo..<lo + n}. \<forall>k<4096. m' (page_addr (dp i) + of_nat k) = m (page_addr (sp i) + of_nat k)) \<and>
     (\<forall>w<MAXVA.
        if vpage w \<in> {lo..<lo + n}
        then (\<exists>e. leaf m S w = Some e \<and> leaf m' T' w = Some (page_entry (page_addr (dp (vpage w))) (PTE_FLAGS e))) \<or>
          leaf m' T' w = None \<and> no_pair F'
        else leaf m' T' w = leaf m T w)"

lemma pages_copied_none: "pages_copied m S T F m T F lo 0 sp dp"
  by (simp add: pages_copied_def)

text \<open>The first page and the rest.\<close>

lemma pages_copied_step:
  assumes a: "pages_copied m S T F m1 U G lo 1 sp dp1" and b: "pages_copied m1 S U G m2 T' F' (Suc lo) n sp dp"
    and src: "source_space m S T F lo (Suc n) sp"
    and F: "F \<subseteq> {..<2 ^ 51}" "G \<subseteq> F" "F' \<subseteq> G" "tables U \<subseteq> tables T \<union> F" "tables T' \<subseteq> tables U \<union> G"
    and m1: "\<And>x. page_of x \<notin> F \<union> tables T \<Longrightarrow> m1 x = m x" and m2: "\<And>x. page_of x \<notin> G \<union> tables U \<Longrightarrow> m2 x = m1 x"
  shows "pages_copied m S T F m2 T' F' lo (Suc n) sp (dp(lo := dp1 lo))"
proof -
  note a' = a [unfolded pages_copied_def] and b' = b [unfolded pages_copied_def]
  let ?dp = "dp(lo := dp1 lo)"
  have r: "{lo..<lo + Suc n} = insert lo {Suc lo..<Suc lo + n}" by auto
  have p: "dp1 lo \<in> F" "dp1 lo \<notin> G" "dp1 lo \<notin> tables U" using a' by auto
  have im: "?dp ` {lo..<lo + Suc n} = insert (dp1 lo) (dp ` {Suc lo..<Suc lo + n})" unfolding r by auto
  have "inj_on ?dp {lo..<lo + Suc n}"
    unfolding r using b' p by (auto simp: inj_on_def image_subset_iff)
  moreover have "?dp ` {lo..<lo + Suc n} \<subseteq> F - F' - tables T'" unfolding im using b' p F by blast
  moreover have "m2 (page_addr (?dp i) + of_nat k) = m (page_addr (sp i) + of_nat k)"
    if i: "i \<in> {lo..<lo + Suc n}" "k < 4096" for i k
  proof (cases "i = lo")
    case True
    have "page_of (page_addr (dp1 lo) + of_nat k) = dp1 lo" using p(1) F(1) i(2) by (intro page_byte) auto
    then have "m2 (page_addr (dp1 lo) + of_nat k) = m1 (page_addr (dp1 lo) + of_nat k)" using m2 p by simp
    with True a' i(2) show ?thesis by simp
  next
    case False
    have s: "valid_block 0 (sp i)" "sp i \<notin> F \<union> tables T" using src i(1) by (auto simp: source_space_def)
    have "sp i < 2 ^ 51" using valid_page_small [OF s(1)] .
    then have "m1 (page_addr (sp i) + of_nat k) = m (page_addr (sp i) + of_nat k)"
      using m1 s(2) i(2) by (simp add: page_byte)
    with False b' i show ?thesis by simp
  qed
  moreover have "if vpage w \<in> {lo..<lo + Suc n}
      then (\<exists>e. leaf m S w = Some e \<and> leaf m2 T' w = Some (page_entry (page_addr (?dp (vpage w))) (PTE_FLAGS e))) \<or>
        leaf m2 T' w = None \<and> no_pair F'
      else leaf m2 T' w = leaf m T w" if w: "w < MAXVA" for w
  proof -
    have lf: "leaf m1 S w = leaf m S w" using source_kept(2) [OF src subset_refl m1] by simp
    note aw = a' [THEN conjunct2, THEN conjunct2, THEN conjunct2, rule_format, OF w]
      and bw = b' [THEN conjunct2, THEN conjunct2, THEN conjunct2, rule_format, OF w]
    show ?thesis using aw bw lf no_pair_mono [OF _ F(3)] by (cases "vpage w = lo") (auto split: if_splits)
  qed
  ultimately show ?thesis unfolding pages_copied_def by blast
qed

section \<open>The loop\<close>

text \<open>What one round reads from the source.\<close>

lemma source_reads:
  fixes s :: "'z buddy_scheme"
  assumes "source_space (mem s) S T F v n sp" and "0 < n" and va: "unat va = 4096 * v" "va < MAXVA"
  obtains e q where "leaf (mem s) S va = Some e" "physical_address (page_addr (pt_root S)) va s = Ok (page_addr (sp v)) s"
    "page_addr (sp v) \<noteq> 0" "low_table S va = Some q" "slot q (PX 0 va) \<noteq> 0" "load64 (mem s) (slot q (PX 0 va)) = e"
    "q \<in> tables S"
proof -
  note d = assms(1) [unfolded source_space_def]
  have v: "vpage va = v" using va by (simp add: vpage_def)
  obtain e where e: "leaf (mem s) S va = Some e" "PTE2PA e = page_addr (sp v)" using d va(2) v assms(2) by auto
  then obtain q where q: "low_table S va = Some q" "load64 (mem s) (slot q (PX 0 va)) = e"
    by (auto simp: leaf_def Let_def split: option.splits if_splits)
  have tq: "table_page q" "q \<in> tables S"
    using low_table_page [of S va q] d q(1) tables_member(3) [of S "(PX 2 va, PX 1 va)" q]
    by (auto simp: low_table_def split: option.splits)
  have "PGOFFSET va = 0" using page_aligned [OF va(1)] by (simp add: PGOFFSET_def)
  then have "physical_address (page_addr (pt_root S)) va s = Ok (page_addr (sp v)) s"
    using physical_address_ok [of s S va] d va(2) e by simp
  moreover have "page_addr (sp v) \<noteq> 0" using d assms(2) valid_addr_nonzero [of 0 "sp v"] by simp
  moreover have "slot q (PX 0 va) \<noteq> 0" using tq(1) table_page_bound by (intro slot_nonzero) auto
  ultimately show thesis using that e(1) q tq(2) by blast
qed

text \<open>A page allocated and filled with the contents of the source's page.\<close>

lemma page_duplicated:
  fixes s :: "'z buddy_scheme"
  assumes inv: "pt_inv s T F" and src: "source_space (mem s) S T F v n sp" and n: "0 < n" and F: "F \<noteq> {}"
  obtains p s1 s2 where "allocate 0 s = Ok (page_addr p) s1" "page_addr p \<noteq> 0" "p \<in> F" "p < 2 ^ 51"
    "s2 = s1\<lparr>mem := memcpy (mem s1) (page_addr p) (page_addr (sp v)) PGSIZE\<rparr>"
    "pt_inv s2 T (F - {p})" "\<And>w. leaf (mem s2) T w = leaf (mem s) T w" "\<And>x. page_of x \<notin> F \<Longrightarrow> mem s2 x = mem s x"
    "\<And>k. k < 4096 \<Longrightarrow> mem s2 (page_addr p + of_nat k) = mem s (page_addr (sp v) + of_nat k)"
proof -
  have sv: "valid_block 0 (sp v)" "sp v \<notin> F \<union> tables T" using src n by (auto simp: source_space_def)
  have "\<exists>q. 2 ^ 0 dvd q \<and> block 0 q \<subseteq> F" using F by (auto simp: block_def)
  from page_pool_alloc [OF pt_invD(1) [OF inv] this] obtain p s1 where s1: "allocate 0 s = Ok (page_addr p) s1"
    "valid_block 0 p" "p \<in> F" "page_pool s1 (F - {p})" "frame (F - {p}) s s1" by (auto simp: block_def)
  note pb = valid_page_small [OF s1(2)] and sb = valid_page_small [OF sv(1)]
  define s2 where "s2 = s1\<lparr>mem := memcpy (mem s1) (page_addr p) (page_addr (sp v)) PGSIZE\<rparr>"
  have ne: "p \<noteq> sp v" using s1(3) sv(2) by blast
  have m2: "mem s2 x = (if page_of x = p then mem s1 (page_addr (sp v) + (x - page_addr p)) else mem s1 x)" for x
    by (simp add: s2_def memcpy_page [OF pb sb ne])
  have tF: "tables T \<inter> F = {}" using inv by (simp add: pt_inv_def)
  have m1: "mem s1 x = mem s x" if "page_of x \<notin> F - {p}" for x using s1(5) that by (simp add: frame_def)
  have out: "mem s2 x = mem s x" if "page_of x \<notin> F" for x using m2 [of x] s1(3) m1 [of x] that by auto
  have pool2: "page_pool s2 (F - {p})" by (rule page_pool_cong [OF s1(4)]) (simp_all add: m2, simp add: s2_def)
  have "mem s2 x = mem s x" if "page_of x \<in> tables T" for x using out tF that by blast
  then have inv2: "pt_inv s2 T (F - {p})" and l2: "leaf (mem s2) T w = leaf (mem s) T w" for w
    using pt_inv_frame [OF inv pool2] tF by blast+
  have "mem s2 (page_addr p + of_nat k) = mem s (page_addr (sp v) + of_nat k)" if "k < 4096" for k
    using m2 page_byte [OF pb that] page_byte [OF sb that] m1 sv(2) by simp
  then show thesis using that s1(1,3) valid_addr_nonzero [OF s1(2)] pb s2_def inv2 l2 out by blast
qed

lemma copy_run:
  fixes s :: "'z buddy_scheme"
  assumes "offset < sz" and "physical_address S (va_start + offset) s = Ok src s" and "src \<noteq> 0"
    and "allocate 0 s = Ok dest s1" and "dest \<noteq> 0" and "s2 = s1\<lparr>mem := memcpy (mem s1) dest src PGSIZE\<rparr>"
    and "pagetable_entry S (va_start + offset) False s2 = Ok pte s2" and "pte \<noteq> 0" and "load64 (mem s2) pte = e"
    and "map_page T (va_start + offset) dest (PTE_FLAGS e) s2 = Ok r s'" and "r \<noteq> -1"
  shows "copy_memory_loop S T va_start sz offset s = copy_memory_loop S T va_start sz (offset + PGSIZE) s'"
proof -
  have "bind (do_memcpy dest src PGSIZE) c s1 = c () s2" for c :: "unit \<Rightarrow> (int, 'z buddy_scheme) run"
    using assms(3,5) by (simp add: do_memcpy_def assms(6) run_simps)
  moreover have "bind (get_field pte 0) c s2 = c e s2" for c :: "uint64 \<Rightarrow> (int, 'z buddy_scheme) run"
    using assms(8,9) by (simp add: run_simps)
  ultimately show ?thesis using assms by (subst copy_memory_loop.simps) (simp add: bind_Ok)
qed

lemma copy_round:
  fixes s :: "'z buddy_scheme"
  assumes inv: "pt_inv s T F" and src: "source_space (mem s) S T F v n sp" and n: "0 < n"
    and va: "unat (va_start + offset) = 4096 * v" "va_start + offset < MAXVA" and less: "offset < sz"
    and none: "leaf (mem s) T (va_start + offset) = None" and F: "F \<noteq> {}"
  shows "\<exists>dp T' F' s'. copy_memory_loop (page_addr (pt_root S)) (page_addr (pt_root T)) va_start sz offset s =
      copy_memory_loop (page_addr (pt_root S)) (page_addr (pt_root T)) va_start sz (offset + PGSIZE) s' \<and>
    pt_grows s T F s' T' F' \<and> pages_copied (mem s) S T F (mem s') T' F' v 1 sp dp"
proof -
  let ?va = "va_start + offset"
  obtain e q where e: "leaf (mem s) S ?va = Some e" and pa: "physical_address (page_addr (pt_root S)) ?va s = Ok (page_addr (sp v)) s"
    "page_addr (sp v) \<noteq> 0" and q: "low_table S ?va = Some q" "slot q (PX 0 ?va) \<noteq> 0" "load64 (mem s) (slot q (PX 0 ?va)) = e"
    using source_reads [OF src n va] by blast
  note d = src [unfolded source_space_def]
  obtain p s1 s2 where s1: "allocate 0 s = Ok (page_addr p) s1" "page_addr p \<noteq> 0" "p \<in> F" "p < 2 ^ 51"
    and s2: "s2 = s1\<lparr>mem := memcpy (mem s1) (page_addr p) (page_addr (sp v)) PGSIZE\<rparr>"
    and inv2: "pt_inv s2 T (F - {p})" and l2: "\<And>w. leaf (mem s2) T w = leaf (mem s) T w"
    and out: "\<And>x. page_of x \<notin> F \<Longrightarrow> mem s2 x = mem s x"
    and cont: "\<And>k. k < 4096 \<Longrightarrow> mem s2 (page_addr p + of_nat k) = mem s (page_addr (sp v) + of_nat k)"
    using page_duplicated [OF inv src n F] by metis
  have src2: "source_space (mem s2) S T (F - {p}) v n sp" "leaf (mem s2) S w = leaf (mem s) S w" for w
    using source_kept [OF src, of "F - {p}" T "mem s2"] out by auto
  have ld: "load64 (mem s2) (slot q (PX 0 ?va)) = e"
    using src2(2) [of ?va] e q by (auto simp: leaf_def Let_def split: if_splits)
  obtain r T' F' s' where mp: "map_page (page_addr (pt_root T)) ?va (page_addr p) (PTE_FLAGS e) s2 = Ok r s'" "r \<noteq> -1"
    and gr: "pt_grows s2 T (F - {p}) s' T' F'"
    and lf: "(\<forall>w. leaf (mem s') T' w = (if vpn w = vpn ?va then Some (page_entry (page_addr p) (PTE_FLAGS e)) else leaf (mem s) T w)) \<or>
      no_pair F' \<and> (\<forall>w. leaf (mem s') T' w = leaf (mem s) T w)"
    using map_page_result [OF inv2 va(2), of "page_addr p" "PTE_FLAGS e"] none l2 by fastforce
  have pe: "pagetable_entry (page_addr (pt_root S)) ?va False s2 = Ok (slot q (PX 0 ?va)) s2"
    using pagetable_entry_no_alloc [of s2 S ?va] src2(1) va(2) q(1) by (simp add: source_space_def)
  note round = copy_run [OF less pa s1(1,2) s2 pe q(2) ld mp]
  have fr: "pt_inv s' T' F'" "F' \<subseteq> F - {p}" "pt_root T' = pt_root T" "tables T' \<subseteq> tables T \<union> (F - {p})"
    and m': "\<And>x. page_of x \<notin> F - {p} \<Longrightarrow> page_of x \<notin> tables T \<Longrightarrow> mem s' x = mem s2 x"
    using gr by (auto simp: pt_grows_def)
  have pT: "p \<notin> tables T" using inv s1(3) by (auto simp: pt_inv_def)
  have "mem s' x = mem s x" if "page_of x \<notin> F" "page_of x \<notin> tables T" for x using m' [of x] out that by simp
  then have "pt_grows s T F s' T' F'" using fr unfolding pt_grows_def by blast
  moreover have "pages_copied (mem s) S T F (mem s') T' F' v 1 sp (\<lambda>_. p)"
  proof -
    have "mem s' (page_addr p + of_nat k) = mem s (page_addr (sp v) + of_nat k)" if "k < 4096" for k
      using m' [of "page_addr p + of_nat k"] page_byte [OF s1(4) that] pT cont [OF that] by simp
    moreover have "if vpage w = v
        then (\<exists>e. leaf (mem s) S w = Some e \<and> leaf (mem s') T' w = Some (page_entry (page_addr p) (PTE_FLAGS e))) \<or>
          leaf (mem s') T' w = None \<and> no_pair F'
        else leaf (mem s') T' w = leaf (mem s) T w" if w: "w < MAXVA" for w
    proof -
      have eq: "vpn w = vpn ?va \<longleftrightarrow> vpage w = v" using vpn_vpage [OF va(2) w] va(1) by (simp add: vpage_def)
      show ?thesis
      proof (cases "vpage w = v")
        case True
        then have "leaf (mem s) S w = Some e" "leaf (mem s) T w = None" using eq e none leaf_vpn [of w ?va] by simp_all
        with True eq lf show ?thesis by auto
      qed (use eq lf in auto)
    qed
    moreover have "p \<notin> F'" "p \<notin> tables T'" using fr pT by auto
    moreover have "{v..<v + 1} = {v}" by auto
    ultimately show ?thesis using s1(3) by (simp add: pages_copied_def)
  qed
  ultimately show ?thesis using round by blast
qed

lemma copy_exhausted:
  fixes s :: "'z buddy_scheme"
  assumes "pt_inv s T F" and "F = {}" and "source_space (mem s) S T F v (Suc n) sp"
    and "unat (va_start + offset) = 4096 * v" and "va_start + offset < MAXVA" and "offset < sz"
  shows "copy_memory_loop (page_addr (pt_root S)) (page_addr (pt_root T)) va_start sz offset s =
    bind (undo_copy (page_addr (pt_root S)) (page_addr (pt_root T)) va_start offset 0) (\<lambda>_. return (-1)) s"
proof -
  obtain pa where "physical_address (page_addr (pt_root S)) (va_start + offset) s = Ok pa s" "pa \<noteq> 0"
    using source_reads [OF assms(3) _ assms(4,5)] by (metis zero_less_Suc)
  moreover have "allocate 0 s = Ok 0 s"
    using page_pool_alloc_fails [OF pt_invD(1) [OF assms(1)], of 0] assms(2) by (auto simp: block_def)
  ultimately show ?thesis using assms(6) by (subst copy_memory_loop.simps) (simp add: bind_Ok)
qed

text \<open>The loop from page \<open>v + k\<close> on, \<open>n\<close> pages before the end: it ends, or the pool runs empty on the way.\<close>

lemma copy_loop_ok:
  fixes s :: "'z buddy_scheme"
  assumes "pt_inv s T F" and "source_space (mem s) S T F (v + k) n sp"
    and "unat va_start = 4096 * v" and "4096 * (v + k + n) \<le> 2 ^ 38" and "unat sz = 4096 * (k + n)"
    and "\<And>w. w < MAXVA \<Longrightarrow> vpage w \<in> {v + k..<v + k + n} \<Longrightarrow> leaf (mem s) T w = None"
  shows "\<exists>j dp T' F' s'. j \<le> n \<and> pt_grows s T F s' T' F' \<and> pages_copied (mem s) S T F (mem s') T' F' (v + k) j sp dp \<and>
    (j = n \<and> copy_memory_loop (page_addr (pt_root S)) (page_addr (pt_root T)) va_start sz (of_nat (4096 * k)) s = Ok 0 s' \<or>
     j < n \<and> F' = {} \<and> copy_memory_loop (page_addr (pt_root S)) (page_addr (pt_root T)) va_start sz (of_nat (4096 * k)) s =
       bind (undo_copy (page_addr (pt_root S)) (page_addr (pt_root T)) va_start (of_nat (4096 * (k + j))) 0) (\<lambda>_. return (-1)) s')"
  using assms
proof (induction n arbitrary: k s T F)
  case 0
  have "unat (of_nat (4096 * k) :: uint64) = 4096 * k" using "0.prems"(4) by (intro unat_of_nat_64) simp
  then have "\<not> of_nat (4096 * k) < sz" using "0.prems"(5) by (simp add: word_less_nat_alt)
  then have "copy_memory_loop (page_addr (pt_root S)) (page_addr (pt_root T)) va_start sz (of_nat (4096 * k)) s = Ok 0 s"
    by (simp add: copy_memory_loop.simps return_def)
  then show ?case using pt_grows_refl [OF "0.prems"(1)] pages_copied_none [of "mem s" S T F "v + k" sp]
    by (intro exI [of _ 0]) auto
next
  case (Suc n)
  let ?o = "of_nat (4096 * k) :: uint64"
  have o: "unat ?o = 4096 * k" using Suc.prems(4) by (intro unat_of_nat_64) simp
  have less: "?o < sz" using Suc.prems(5) o by (simp add: word_less_nat_alt)
  have u: "unat (va_start + ?o) = 4096 * (v + k)"
    using Suc.prems(3,4) o by (subst unat_add_no_overflow) (simp_all add: algebra_simps)
  have va: "va_start + ?o < MAXVA" "vpage (va_start + ?o) = v + k"
    using Suc.prems(4) u by (simp_all add: word_less_nat_alt unat_MAXVA vpage_def)
  have none: "leaf (mem s) T (va_start + ?o) = None" using Suc.prems(6) va by simp
  show ?case
  proof (cases "F = {}")
    case True
    from copy_exhausted [OF Suc.prems(1) True Suc.prems(2) u va(1) less]
    have "copy_memory_loop (page_addr (pt_root S)) (page_addr (pt_root T)) va_start sz ?o s =
        bind (undo_copy (page_addr (pt_root S)) (page_addr (pt_root T)) va_start ?o 0) (\<lambda>_. return (-1)) s" .
    then show ?thesis using pt_grows_refl [OF Suc.prems(1)] pages_copied_none [of "mem s" S T F "v + k" sp] True
      by (intro exI [of _ 0]) auto
  next
    case False
    obtain dp1 U G t where run: "copy_memory_loop (page_addr (pt_root S)) (page_addr (pt_root T)) va_start sz ?o s =
        copy_memory_loop (page_addr (pt_root S)) (page_addr (pt_root T)) va_start sz (?o + PGSIZE) t"
      and g: "pt_grows s T F t U G" and pc: "pages_copied (mem s) S T F (mem t) U G (v + k) 1 sp dp1"
      using copy_round [OF Suc.prems(1,2) _ u va(1) less none False] by blast
    have g': "pt_inv t U G" "G \<subseteq> F" "pt_root U = pt_root T" "tables U \<subseteq> tables T \<union> F"
      and m1: "\<And>x. page_of x \<notin> F \<union> tables T \<Longrightarrow> mem t x = mem s x" using g by (auto simp: pt_grows_def)
    have step: "?o + PGSIZE = of_nat (4096 * Suc k)" by (simp add: PGSIZE_def algebra_simps)
    have "G \<union> tables U \<subseteq> F \<union> tables T" using g' by blast
    from source_kept(1) [OF Suc.prems(2) this m1]
    have src: "source_space (mem t) S U G (v + Suc k) n sp" by (rule source_mono) simp_all
    have b: "4096 * (v + Suc k + n) \<le> 2 ^ 38" "unat sz = 4096 * (Suc k + n)" using Suc.prems(4,5) by simp_all
    have un: "leaf (mem t) U w = None" if "w < MAXVA" "vpage w \<in> {v + Suc k..<v + Suc k + n}" for w
      using pc Suc.prems(6) [of w] that by (auto simp: pages_copied_def)
    from Suc.IH [OF g'(1) src Suc.prems(3) b un, unfolded g'(3)]
    obtain j dp T' F' s' where j: "j \<le> n" "pt_grows t U G s' T' F'" "pages_copied (mem t) S U G (mem s') T' F' (v + Suc k) j sp dp"
      and r: "j = n \<and> copy_memory_loop (page_addr (pt_root S)) (page_addr (pt_root T)) va_start sz (of_nat (4096 * Suc k)) t = Ok 0 s' \<or>
        j < n \<and> F' = {} \<and> copy_memory_loop (page_addr (pt_root S)) (page_addr (pt_root T)) va_start sz (of_nat (4096 * Suc k)) t =
          bind (undo_copy (page_addr (pt_root S)) (page_addr (pt_root T)) va_start (of_nat (4096 * (Suc k + j))) 0) (\<lambda>_. return (-1)) s'"
      by blast
    have "pages_copied (mem s) S T F (mem s') T' F' (v + k) (Suc j) sp (dp(v + k := dp1 (v + k)))"
    proof (rule pages_copied_step [OF pc])
      show "pages_copied (mem t) S U G (mem s') T' F' (Suc (v + k)) j sp dp" using j(3) by simp
      show "source_space (mem s) S T F (v + k) (Suc j) sp" using source_mono [OF Suc.prems(2)] j(1) by simp
      show "F \<subseteq> {..<2 ^ 51}" using pool_small pt_invD(1) [OF Suc.prems(1)] by blast
      show "F' \<subseteq> G" "tables T' \<subseteq> tables U \<union> G" "\<And>x. page_of x \<notin> G \<union> tables U \<Longrightarrow> mem s' x = mem t x"
        using j(2) by (auto simp: pt_grows_def)
    qed (use g' m1 in auto)
    moreover have "pt_grows s T F s' T' F'" using g j(2) by (rule pt_grows_trans)
    moreover have "k + Suc j = Suc k + j" by simp
    ultimately show ?thesis using r j(1) unfolding run step
      by (intro exI [of _ "Suc j"]) (metis Suc_le_mono Suc_less_eq)
  qed
qed

section \<open>The clean-up\<close>

lemma page_given_back:
  fixes s2 :: "'z buddy_scheme"
  assumes "pt_inv s2 T' G" and "valid_block 0 p" and "p \<notin> G" and "p \<notin> tables T'"
  shows "\<exists>s3. deallocate (page_addr p) 0 s2 = Ok () s3 \<and> pt_inv s3 T' (insert p G) \<and>
    (\<forall>w. leaf (mem s3) T' w = leaf (mem s2) T' w) \<and> frame (insert p G) s2 s3"
proof -
  have b: "block 0 p = {p}" by (auto simp: block_def)
  obtain s3 where s3: "deallocate (page_addr p) 0 s2 = Ok () s3" "page_pool s3 (insert p G)" "frame (insert p G) s2 s3"
    using page_pool_release [OF pt_invD(1) [OF assms(1)] assms(2)] assms(3) b by auto
  have t: "insert p G \<inter> tables T' = {}" using assms(1,4) by (auto simp: pt_inv_def)
  have "mem s3 x = mem s2 x" if "page_of x \<in> tables T'" for x using s3(3) t that by (auto simp: frame_def)
  from pt_inv_frame [OF assms(1) s3(2) t this] s3 show ?thesis by blast
qed

lemma unmap_cases:
  fixes s :: "'z buddy_scheme"
  assumes inv: "pt_inv s T G" and va: "va < MAXVA" and fl: "\<And>e. leaf (mem s) T va = Some e \<Longrightarrow> PTE_FLAGS e \<noteq> PTE_V"
  shows "unmap_page (page_addr (pt_root T)) va s = Fault (Panic ''unmap_page: page not mapped'') \<or>
    (\<exists>r s'. unmap_page (page_addr (pt_root T)) va s = Ok r s' \<and> pt_grows s T G s' T G \<and>
      (\<forall>w e. leaf (mem s') T w = Some e \<longrightarrow> leaf (mem s) T w = Some e))"
proof (cases "leaf (mem s) T va")
  case None
  then show ?thesis using unmap_page_result [OF inv va] pt_grows_refl [OF inv] by (cases "low_table T va") auto
next
  case (Some e)
  obtain s' where s': "unmap_page (page_addr (pt_root T)) va s = Ok 0 s'" "pt_grows s T G s' T G"
    "\<forall>w. leaf (mem s') T w = (if vpn w = vpn va then None else leaf (mem s) T w)"
    using unmap_page_mapped [OF inv va Some fl [OF Some]] by blast
  then have "\<forall>w e. leaf (mem s') T w = Some e \<longrightarrow> leaf (mem s) T w = Some e" by simp
  with s'(1,2) show ?thesis by blast
qed

text \<open>One round: the page it gives back is the one of the source.\<close>

lemma undo_round:
  fixes s :: "'z buddy_scheme"
  assumes inv: "pt_inv s T G" and src: "source_space (mem s) S T G v (Suc m) sp" and inj: "inj_on sp {v..<v + Suc m}"
    and apart: "sp v \<notin> tables S" and va: "unat (va_start + offset) = 4096 * v" "va_start + offset < MAXVA" and less: "offset < bound"
    and fl: "\<And>e. leaf (mem s) T (va_start + offset) = Some e \<Longrightarrow> PTE_FLAGS e \<noteq> PTE_V"
  defines "undo \<equiv> undo_copy (page_addr (pt_root S)) (page_addr (pt_root T)) va_start bound"
  shows "undo offset s = Fault (Panic ''unmap_page: page not mapped'') \<or>
    (\<exists>s'. undo offset s = undo (offset + PGSIZE) s' \<and> pt_inv s' T (insert (sp v) G) \<and>
      source_space (mem s') S T (insert (sp v) G) (Suc v) m sp \<and> (\<forall>w. leaf (mem s') S w = leaf (mem s) S w) \<and>
      (\<forall>w e. leaf (mem s') T w = Some e \<longrightarrow> leaf (mem s) T w = Some e))"
proof -
  let ?va = "va_start + offset" and ?p = "sp v"
  have pa: "physical_address (page_addr (pt_root S)) ?va s = Ok (page_addr ?p) s"
    using source_reads [OF src _ va] by (metis zero_less_Suc)
  have p: "valid_block 0 ?p" "?p \<notin> G" "?p \<notin> tables T" using src by (auto simp: source_space_def)
  have "unmap_page (page_addr (pt_root T)) ?va s = Fault (Panic ''unmap_page: page not mapped'') \<or>
    (\<exists>r s'. unmap_page (page_addr (pt_root T)) ?va s = Ok r s' \<and> pt_grows s T G s' T G \<and>
      (\<forall>w e. leaf (mem s') T w = Some e \<longrightarrow> leaf (mem s) T w = Some e))"
    using fl by (rule unmap_cases [OF inv va(2)])
  then show ?thesis
  proof (elim disjE exE conjE)
    assume "unmap_page (page_addr (pt_root T)) ?va s = Fault (Panic ''unmap_page: page not mapped'')"
    then show ?thesis unfolding undo_def using less pa by (subst undo_copy.simps) (simp add: bind_Ok bind_Fault)
  next
    fix r s1 assume um: "unmap_page (page_addr (pt_root T)) ?va s = Ok r s1" and g1: "pt_grows s T G s1 T G"
      and l1: "\<forall>w e. leaf (mem s1) T w = Some e \<longrightarrow> leaf (mem s) T w = Some e"
    have g: "pt_inv s1 T G" "\<And>x. page_of x \<notin> G \<Longrightarrow> page_of x \<notin> tables T \<Longrightarrow> mem s1 x = mem s x"
      using g1 by (auto simp: pt_grows_def)
    obtain s2 where s2: "deallocate (page_addr ?p) 0 s1 = Ok () s2" "pt_inv s2 T (insert ?p G)"
      "\<And>w. leaf (mem s2) T w = leaf (mem s1) T w" "frame (insert ?p G) s1 s2"
      using page_given_back [OF g(1) p] by blast
    have same: "mem s2 x = mem s x" if "page_of x \<notin> insert ?p G \<union> tables T" for x
      using s2(4) g(2) [of x] that by (simp add: frame_def)
    have "sp j \<noteq> ?p" if "j \<in> {Suc v..<Suc v + m}" for j using inj_onD [OF inj, of j v] that by auto
    with src apart have src1: "source_space (mem s) S T (insert ?p G) (Suc v) m sp" by (auto simp: source_space_def)
    have "source_space (mem s2) S T (insert ?p G) (Suc v) m sp" "leaf (mem s2) S w = leaf (mem s) S w" for w
      by (rule source_kept [OF src1 subset_refl], erule same)+
    moreover have "undo offset s = undo (offset + PGSIZE) s2"
      unfolding undo_def using less pa um s2(1) by (subst undo_copy.simps) (simp add: bind_Ok)
    ultimately show ?thesis using s2(2,3) l1 by auto
  qed
qed

lemma undo_copy_ok:
  fixes s :: "'z buddy_scheme"
  assumes "pt_inv s T G" and "source_space (mem s) S T G (v + i) m sp" and "inj_on sp {v + i..<v + i + m}"
    and "sp ` {v + i..<v + i + m} \<inter> tables S = {}"
    and "unat va_start = 4096 * v" and "4096 * (v + i + m) \<le> 2 ^ 38"
    and "\<And>w e. leaf (mem s) T w = Some e \<Longrightarrow> w < MAXVA \<Longrightarrow> vpage w \<in> {v + i..<v + i + m} \<Longrightarrow> PTE_FLAGS e \<noteq> PTE_V"
  shows "undo_copy (page_addr (pt_root S)) (page_addr (pt_root T)) va_start (of_nat (4096 * (i + m))) (of_nat (4096 * i)) s =
      Fault (Panic ''unmap_page: page not mapped'') \<or>
    (\<exists>s'. undo_copy (page_addr (pt_root S)) (page_addr (pt_root T)) va_start (of_nat (4096 * (i + m))) (of_nat (4096 * i)) s = Ok () s' \<and>
      pt_inv s' T (G \<union> sp ` {v + i..<v + i + m}) \<and> (\<forall>w. leaf (mem s') S w = leaf (mem s) S w))"
  using assms
proof (induction m arbitrary: i s G)
  case 0
  then show ?case by (simp add: undo_copy.simps return_def)
next
  case (Suc m)
  let ?o = "of_nat (4096 * i) :: uint64" and ?e = "of_nat (4096 * (i + Suc m)) :: uint64" and ?p = "sp (v + i)"
  have o: "unat ?o = 4096 * i" "unat ?e = 4096 * (i + Suc m)" using Suc.prems(6) by (intro unat_of_nat_64, simp)+
  then have less: "?o < ?e" by (simp add: word_less_nat_alt)
  have u: "unat (va_start + ?o) = 4096 * (v + i)"
    using Suc.prems(5,6) o by (subst unat_add_no_overflow) (simp_all add: algebra_simps)
  have va: "va_start + ?o < MAXVA" "vpage (va_start + ?o) = v + i"
    using Suc.prems(6) u by (simp_all add: word_less_nat_alt unat_MAXVA vpage_def)
  have r: "{v + i..<v + i + Suc m} = insert (v + i) {v + Suc i..<v + Suc i + m}" by auto
  have pS: "?p \<notin> tables S" using Suc.prems(4) unfolding r by simp
  have fl: "PTE_FLAGS e \<noteq> PTE_V" if "leaf (mem s) T (va_start + ?o) = Some e" for e
    using Suc.prems(7) [OF that va(1)] va(2) by simp
  have step: "?o + PGSIZE = of_nat (4096 * Suc i)" "i + Suc m = Suc i + m" by (simp_all add: PGSIZE_def algebra_simps)
  from undo_round [OF Suc.prems(1-3) pS u va(1) less] fl
  consider "undo_copy (page_addr (pt_root S)) (page_addr (pt_root T)) va_start ?e ?o s = Fault (Panic ''unmap_page: page not mapped'')"
    | s2 where "undo_copy (page_addr (pt_root S)) (page_addr (pt_root T)) va_start ?e ?o s =
        undo_copy (page_addr (pt_root S)) (page_addr (pt_root T)) va_start ?e (?o + PGSIZE) s2"
      "pt_inv s2 T (insert ?p G)" "source_space (mem s2) S T (insert ?p G) (v + Suc i) m sp"
      "\<forall>w. leaf (mem s2) S w = leaf (mem s) S w" "\<forall>w e. leaf (mem s2) T w = Some e \<longrightarrow> leaf (mem s) T w = Some e"
    by force
  then show ?case
  proof cases
    case (2 s2)
    have un: "G \<union> sp ` {v + i..<v + i + Suc m} = insert ?p G \<union> sp ` {v + Suc i..<v + Suc i + m}" unfolding r by simp
    show ?thesis
      unfolding un step(2) 2(1) [unfolded step] spec [OF 2(4), symmetric]
    proof (rule Suc.IH [OF 2(2,3)])
      show "inj_on sp {v + Suc i..<v + Suc i + m}" "sp ` {v + Suc i..<v + Suc i + m} \<inter> tables S = {}"
        using Suc.prems(3,4) unfolding r by auto
      show "PTE_FLAGS e \<noteq> PTE_V" if "leaf (mem s2) T w = Some e" "w < MAXVA" "vpage w \<in> {v + Suc i..<v + Suc i + m}" for w e
        using Suc.prems(7) [of w e] 2(5) that by auto
    qed (use Suc.prems(5,6) in simp_all)
  qed simp
qed

text \<open>With the lowest table in place a page is mapped.\<close>

lemma map_page_present:
  fixes s :: "'z buddy_scheme"
  assumes inv: "pt_inv s T F" and "low_table T va = Some q" and "va < MAXVA" and "leaf (mem s) T va = None"
  shows "\<exists>s'. map_page (page_addr (pt_root T)) va pa f s = Ok 0 s'"
proof -
  note d = pt_invD [OF inv]
  have va': "\<not> MAXVA \<le> PGROUNDDOWN va" using order.strict_trans1 [OF round_le assms(3)] by simp
  have "low_table T (PGROUNDDOWN va) = Some q" using assms(2) by simp
  then have "pagetable_entry (page_addr (pt_root T)) (PGROUNDDOWN va) True s = Ok (slot q (PX 0 va)) s"
    using walk_present [OF d(2,3), of "PGROUNDDOWN va" q True] va'
    by (simp add: pagetable_entry_def bind_Ok return_def slot_def)
  then have "bind (pagetable_entry (page_addr (pt_root T)) (PGROUNDDOWN va) True) c s = c (slot q (PX 0 va)) s"
    for c :: "addr \<Rightarrow> (int, 'z buddy_scheme) run" by (rule bind_Ok)
  moreover have "load64 (mem s) (slot q (PX 0 va)) AND PTE_V = 0"
    using assms(2,4) by (auto simp: leaf_def Let_def split: if_splits)
  ultimately show ?thesis
    using entry_slot [OF inv assms(2)] by (simp add: map_page_def Let_def run_simps)
qed

section \<open>Copying a section\<close>

lemma flags_perm: "perm_ok (PTE_FLAGS e)"
proof -
  have "PTE_FLAGS e = take_bit 10 e" by (simp add: PTE_FLAGS_def take_bit_eq_mask mask_eq_exp_minus_1)
  then show ?thesis by (simp add: perm_ok_def)
qed


section \<open>Two address spaces\<close>

definition fork_memory :: memory where
  "fork_memory = store64 small_memory (slot 0x80102 0) (page_entry (page_addr 0x80200) (PTE_R OR PTE_U))"

definition fork_state :: buddy where
  "fork_state = boot_state\<lparr>mem := fork_memory, space := page_addr 0x80300 # replicate 15 0\<rparr>"

lemma fork_memory_outside: "page_of x \<notin> {0x80100, 0x80101, 0x80102} \<Longrightarrow> fork_memory x = 0"
  by (simp add: fork_memory_def small_memory_def store_slot_other)

lemma fork_tables: "tables small_tree = {0x80100, 0x80101, 0x80102}"
  by (auto simp: tables_def small_tree_def ran_def)

lemma fork_target: "pt_inv fork_state (empty_tree 0x80110) {0x80300}"
proof -
  have "page_pool fork_state {0x80300}"
  proof (rule one_free_page)
    show "mem fork_state (page_addr 0x80300 + of_nat i) = 0" if "i < 8" for i
      using page_byte [of "0x80300" i] that by (simp add: fork_state_def fork_memory_outside)
    show "valid_block 0 0x80300" by (simp add: valid_block_def first_page_def end_page_def)
  qed (simp add: fork_state_def)
  moreover have t: "table_page 0x80110" by (simp add: table_page_def first_page_def end_page_def)
  moreover have "sub_table (mem fork_state) 0x80110 i = None" if "i < 512" for i
    by (rule sub_table_zero(1) [OF t _ that]) (simp add: fork_state_def fork_memory_outside)
  ultimately show ?thesis
    by (simp add: pt_inv_def tree_repr_def tree_shape_def) (simp add: empty_tree_def)
qed

lemma load_fork_memory:
  assumes "p < 2 ^ 51" and "i < 512"
  shows "load64 fork_memory (slot p i) =
    (if p = 0x80102 \<and> i = 0 then page_entry (page_addr 0x80200) (PTE_R OR PTE_U) else load64 small_memory (slot p i))"
  using assms by (auto simp: fork_memory_def load_store_slot)

lemma fork_leaf: "leaf fork_memory small_tree w = (if vpn w = (0, 0, 0) then Some (page_entry (page_addr 0x80200) (PTE_R OR PTE_U)) else None)"
  by (auto simp: leaf_def low_table_def small_tree_def vpn_def load_fork_memory load_small_memory page_entry_def Let_def)

lemma fork_source: "source_space (mem fork_state) small_tree (empty_tree 0x80110) {0x80300} 0 1 (\<lambda>_. 0x80200)"
proof -
  have "tree_shape small_tree" using small_space_ok(1) by (simp add: pt_inv_def)
  moreover have "tree_repr fork_memory small_tree"
    by (auto simp: tree_repr_def sub_table_def load_fork_memory load_small_memory small_tree_def table_entry_def)
  moreover have "perm_ok (PTE_R OR PTE_U)" by (simp add: perm_ok_def pte_consts)
  then have "PTE2PA (page_entry (page_addr 0x80200) (PTE_R OR PTE_U)) = page_addr 0x80200"
    by (simp add: page_entry_def PTE2PA_PA2PTE PGROUNDDOWN_page)
  moreover have "vpn w = (0, 0, 0)" if "w < MAXVA" "vpage w = 0" for w
  proof -
    have "vpn 0 = (0, 0, 0)" by (simp add: vpn_def PX_def)
    then show ?thesis using vpn_vpage [of 0 w] that by (simp add: vpage_def MAXVA_def)
  qed
  ultimately show ?thesis
    by (simp add: source_space_def fork_tables fork_leaf fork_state_def valid_block_def first_page_def end_page_def)
qed


end
