(* ===== verification/Stack_Growth.thy ===== *)
theory Stack_Growth
  imports Trampoline Copy_Memory
begin

text \<open>
  Page faults below the stack: \<open>enlarge_stack_by_a_page\<close>, \<open>try_enlarge_stack\<close> and the page fault
  handlers of \<open>kernel/process.c\<close> on the task's page tables.
\<close>

section \<open>A task and its tables\<close>

definition struct_bytes :: "addr \<Rightarrow> addr set" where
  "struct_bytes t = (\<lambda>i. t + of_nat i) ` {..<unat sizeof_task_struct}"

text \<open>
  The task at \<open>t\<close> uses the tables of \<open>T\<close>; its structure lies on pages that are neither free nor
  tables.
\<close>

definition stack_task :: "'z kernel_scheme \<Rightarrow> addr \<Rightarrow> page_tree \<Rightarrow> nat set \<Rightarrow> bool" where
  "stack_task s t T F \<longleftrightarrow> pt_inv s T F \<and> t \<noteq> 0 \<and> aligned8 t \<and>
     page_of ` struct_bytes t \<inter> (F \<union> tables T) = {} \<and>
     load64 (mem s) (t + ts_pagetable) = page_addr (pt_root T)"

lemma stack_taskD:
  assumes "stack_task s t T F"
  shows "pt_inv s T F" "t \<noteq> 0" "aligned8 t" "load64 (mem s) (t + ts_pagetable) = page_addr (pt_root T)"
    "x \<in> struct_bytes t \<Longrightarrow> page_of x \<notin> F" "x \<in> struct_bytes t \<Longrightarrow> page_of x \<notin> tables T"
  using assms by (auto simp: stack_task_def)

lemma stack_cells:
  assumes "c \<in> {ts_pagetable, ts_stack_start, ts_stack_size, ts_stack_permission}"
  shows "aligned8 t \<Longrightarrow> aligned8 (t + c)" "i < 8 \<Longrightarrow> t + c + of_nat i \<in> struct_bytes t"
proof -
  have c: "8 dvd unat c" "unat c + 8 \<le> unat sizeof_task_struct"
    using assms by (auto simp: task_layout sizeof_task_struct_def)
  then have "aligned8 c" by (simp add: aligned8_def)
  then show "aligned8 t \<Longrightarrow> aligned8 (t + c)" by (simp add: aligned8_add)
  show "t + c + of_nat i \<in> struct_bytes t" if "i < 8"
  proof -
    have "t + c + of_nat i = t + of_nat (unat c + i)" by (simp add: add.assoc)
    moreover have "unat c + i < unat sizeof_task_struct" using c(2) that by simp
    ultimately show ?thesis unfolding struct_bytes_def by blast
  qed
qed

lemma stack_cell_kept:
  assumes "c \<in> {ts_pagetable, ts_stack_start, ts_stack_size, ts_stack_permission}"
    and "\<And>x. x \<in> struct_bytes t \<Longrightarrow> m' x = m x"
  shows "load64 m' (t + c) = load64 m (t + c)"
  using stack_cells(2) [OF assms(1)] assms(2) by (intro load64_cong) blast

text \<open>
  \<open>n\<close> pages have been added to the stack, from page number \<open>lo\<close> on: page \<open>v\<close> is the formerly free
  physical page \<open>pg v\<close>, filled with zeros; different pages are different physical pages. No other
  translation and no other memory has changed.
\<close>

definition new_pages :: "'z kernel_scheme \<Rightarrow> page_tree \<Rightarrow> nat set \<Rightarrow> 'z kernel_scheme \<Rightarrow> page_tree \<Rightarrow> nat set \<Rightarrow>
    nat \<Rightarrow> nat \<Rightarrow> uint64 \<Rightarrow> (nat \<Rightarrow> nat) \<Rightarrow> bool" where
  "new_pages s T F s' T' F' lo n perm pg \<longleftrightarrow>
     inj_on pg {lo..<lo + n} \<and> pg ` {lo..<lo + n} \<subseteq> F - F' - tables T' \<and>
     (\<forall>x. page_of x \<in> pg ` {lo..<lo + n} \<longrightarrow> mem s' x = 0) \<and>
     (\<forall>w<MAXVA. leaf (mem s') T' w =
        (if vpage w \<in> {lo..<lo + n} then Some (page_entry (page_addr (pg (vpage w))) perm) else leaf (mem s) T w))"

definition grown :: "'z kernel_scheme \<Rightarrow> addr \<Rightarrow> page_tree \<Rightarrow> nat set \<Rightarrow> 'z kernel_scheme \<Rightarrow> page_tree \<Rightarrow> nat set \<Rightarrow>
    nat \<Rightarrow> nat \<Rightarrow> uint64 \<Rightarrow> bool" where
  "grown s t T F s' T' F' lo n perm \<longleftrightarrow>
     stack_task s' t T' F' \<and> F' \<subseteq> F \<and> pt_root T' = pt_root T \<and> tables T' \<subseteq> tables T \<union> F \<and>
     (\<forall>x. page_of x \<notin> F \<union> tables T \<longrightarrow> x \<notin> struct_bytes t \<longrightarrow> mem s' x = mem s x) \<and>
     load64 (mem s') (t + ts_stack_start) = of_nat (4096 * lo) \<and>
     load64 (mem s') (t + ts_stack_size) = load64 (mem s) (t + ts_stack_size) + of_nat (4096 * n) \<and>
     load64 (mem s') (t + ts_stack_permission) = load64 (mem s) (t + ts_stack_permission) \<and>
     (\<exists>pg. new_pages s T F s' T' F' lo n perm pg)"

lemma grown_refl:
  assumes "stack_task s t T F" and "load64 (mem s) (t + ts_stack_start) = of_nat (4096 * lo)"
  shows "grown s t T F s T F lo 0 perm"
  using assms by (simp add: grown_def new_pages_def)

lemma new_pages_trans:
  assumes "new_pages s T F s1 U G (lo + n) k perm pg1" and "new_pages s1 U G s2 V H lo n perm pg2"
    and sub: "G \<subseteq> F" "H \<subseteq> G" "tables V \<subseteq> tables U \<union> G"
    and out: "\<And>x. page_of x \<in> F \<Longrightarrow> page_of x \<notin> G \<union> tables U \<Longrightarrow> mem s2 x = mem s1 x"
  shows "new_pages s T F s2 V H lo (n + k) perm (\<lambda>v. if v < lo + n then pg2 v else pg1 v)"
proof -
  let ?pg = "\<lambda>v. if v < lo + n then pg2 v else pg1 v"
  note a = assms(1) [unfolded new_pages_def] and b = assms(2) [unfolded new_pages_def]
  have i: "?pg ` {lo..<lo + n} = pg2 ` {lo..<lo + n}" "?pg ` {lo + n..<lo + n + k} = pg1 ` {lo + n..<lo + n + k}"
    by (auto intro!: image_cong)
  have r: "{lo..<lo + (n + k)} = {lo..<lo + n} \<union> {lo + n..<lo + n + k}" by auto
  have im: "?pg ` {lo..<lo + (n + k)} = pg2 ` {lo..<lo + n} \<union> pg1 ` {lo + n..<lo + n + k}"
    unfolding r image_Un i ..
  have p1: "pg1 v \<in> F" "pg1 v \<notin> G" "pg1 v \<notin> tables U" if "lo + n \<le> v" "v < lo + n + k" for v
    using a that by (auto simp: image_subset_iff)
  have p2: "pg2 v \<in> G" "pg2 v \<notin> H" "pg2 v \<notin> tables V" if "lo \<le> v" "v < lo + n" for v
    using b that by (auto simp: image_subset_iff)
  have "inj_on ?pg {lo..<lo + (n + k)}"
  proof (rule inj_onI)
    fix v w assume v: "v \<in> {lo..<lo + (n + k)}" "w \<in> {lo..<lo + (n + k)}" "?pg v = ?pg w"
    have "inj_on pg1 {lo + n..<lo + n + k}" "inj_on pg2 {lo..<lo + n}" using a b by auto
    with v p1 [of v] p1 [of w] p2 [of v] p2 [of w] show "v = w"
      by (cases "v < lo + n"; cases "w < lo + n") (auto dest: inj_onD)
  qed
  moreover have "?pg ` {lo..<lo + (n + k)} \<subseteq> F - H - tables V"
    unfolding im using p1 p2 sub by (fastforce simp: image_subset_iff)
  moreover have "mem s2 x = 0" if x: "page_of x \<in> ?pg ` {lo..<lo + (n + k)}" for x
  proof (cases "page_of x \<in> pg2 ` {lo..<lo + n}")
    case False
    then obtain v where v: "page_of x = pg1 v" "lo + n \<le> v" "v < lo + n + k" using x unfolding im by auto
    then have "mem s2 x = mem s1 x" using p1 [of v] by (intro out) auto
    also have "\<dots> = 0" using a v by auto
    finally show ?thesis .
  qed (use b in auto)
  moreover have "leaf (mem s2) V w = (if vpage w \<in> {lo..<lo + (n + k)}
      then Some (page_entry (page_addr (?pg (vpage w))) perm) else leaf (mem s) T w)" if "w < MAXVA" for w
    using a b that by auto
  ultimately show ?thesis unfolding new_pages_def by blast
qed

lemma grown_trans:
  assumes "stack_task s t T F" and "grown s t T F s1 U G (lo + n) k perm" and "grown s1 t U G s2 V H lo n perm"
  shows "grown s t T F s2 V H lo (n + k) perm"
proof -
  note a = assms(2) [unfolded grown_def] and b = assms(3) [unfolded grown_def]
  obtain pg1 pg2 where pg: "new_pages s T F s1 U G (lo + n) k perm pg1" "new_pages s1 U G s2 V H lo n perm pg2"
    using a b by blast
  have "mem s2 x = mem s1 x" if "page_of x \<in> F" "page_of x \<notin> G \<union> tables U" for x
    using b that stack_taskD(5) [OF assms(1)] by blast
  then have "\<exists>pg. new_pages s T F s2 V H lo (n + k) perm pg"
    using new_pages_trans [OF pg] a b by blast
  moreover have "mem s2 x = mem s x" if "page_of x \<notin> F \<union> tables T" "x \<notin> struct_bytes t" for x
  proof -
    have "page_of x \<notin> G \<union> tables U" using a that(1) by blast
    then show ?thesis using a b that by (metis (no_types, lifting))
  qed
  ultimately show ?thesis using a b by (auto simp: grown_def algebra_simps)
qed

section \<open>One page more\<close>

lemma put_cell:
  assumes "stack_task s t T F" and "c \<in> {ts_pagetable, ts_stack_start, ts_stack_size, ts_stack_permission}"
  shows "x \<notin> struct_bytes t \<Longrightarrow> mem (put64 (t + c) v s) x = mem s x"
proof -
  assume x: "x \<notin> struct_bytes t"
  have "8 \<le> x - (t + c)"
  proof (rule ccontr)
    assume "\<not> 8 \<le> x - (t + c)"
    then have "unat (x - (t + c)) < 8" by (simp add: word_le_nat_alt)
    from stack_cells(2) [OF assms(2) this, of t] x show False by simp
  qed
  then show ?thesis by (simp add: put64_def store64_other)
qed

lemma put_cell_inv:
  assumes "stack_task s t T F" and "c \<in> {ts_stack_start, ts_stack_size, ts_stack_permission}"
  shows "stack_task (put64 (t + c) v s) t T F" "leaf (mem (put64 (t + c) v s)) T w = leaf (mem s) T w"
proof -
  note d = stack_taskD [OF assms(1)]
  have c: "c \<in> {ts_pagetable, ts_stack_start, ts_stack_size, ts_stack_permission}" using assms(2) by auto
  have m: "mem (put64 (t + c) v s) x = mem s x" if "page_of x \<in> F \<union> tables T" for x
    using put_cell [OF assms(1) c] d(5,6) that by blast
  have pp: "page_pool (put64 (t + c) v s) F"
    by (rule page_pool_cong [OF pt_invD(1) [OF d(1)]]) (use m in \<open>simp_all only: put64_def Un_iff simp_thms, simp\<close>)
  have "F \<inter> tables T = {}" using d(1) by (auto simp: pt_inv_def)
  note inv = pt_inv_frame [OF d(1) pp this] 
  have "ts_pagetable \<noteq> c" using assms(2) by (auto simp: task_layout)
  then have "load64 (mem (put64 (t + c) v s)) (t + ts_pagetable) = page_addr (pt_root T)"
    using d(3,4) stack_cells(1) [OF c] stack_cells(1) [of ts_pagetable] by (simp add: load_put)
  then show "stack_task (put64 (t + c) v s) t T F"
    using assms(1) inv(1) m unfolding stack_task_def by auto
  show "leaf (mem (put64 (t + c) v s)) T w = leaf (mem s) T w" using inv(2) m by blast
qed

text \<open>A step of the routine that does not touch the structure keeps the task.\<close>

lemma stack_task_kept:
  assumes "stack_task s t T F" and "pt_inv s' T' F'" and "pt_root T' = pt_root T"
    and "F' \<union> tables T' \<subseteq> F \<union> tables T" and "\<And>x. page_of x \<notin> F \<union> tables T \<Longrightarrow> mem s' x = mem s x"
  shows "stack_task s' t T' F'"
    and "c \<in> {ts_pagetable, ts_stack_start, ts_stack_size, ts_stack_permission} \<Longrightarrow> load64 (mem s') (t + c) = load64 (mem s) (t + c)"
proof -
  note d = stack_taskD [OF assms(1)]
  show cells: "load64 (mem s') (t + c) = load64 (mem s) (t + c)"
    if "c \<in> {ts_pagetable, ts_stack_start, ts_stack_size, ts_stack_permission}" for c
    using d(5,6) assms(5) by (intro stack_cell_kept [OF that]) blast
  have "page_of ` struct_bytes t \<inter> (F' \<union> tables T') = {}" using assms(1,4) unfolding stack_task_def by blast
  then show "stack_task s' t T' F'"
    using assms(2,3) d(2-4) cells [of ts_pagetable] by (simp add: stack_task_def)
qed

text \<open>The code behind the allocation, with the result of \<open>map_page\<close>.\<close>

lemma enlarge_run:
  fixes s :: "'z kernel_scheme"
  assumes alloc: "allocate_for_user 0 s = Ok (page_addr p) s1" "page_addr p \<noteq> 0" and t: "t \<noteq> 0"
    and f: "load64 (mem s1) (t + ts_stack_start) = low" "load64 (mem s1) (t + ts_pagetable) = root"
      "load64 (mem s1) (t + ts_stack_permission) = perm"
    and m: "map_page root (low - PGSIZE) (page_addr p) perm s1 = Ok r s2"
  shows "enlarge_stack_by_a_page t s =
    (if r \<noteq> 0 then bind (deallocate (page_addr p) 0) (\<lambda>_. return (-1)) s2
     else
       let s3 = put64 (t + ts_stack_start) (load64 (mem s2) (t + ts_stack_start) - PGSIZE) s2
       in Ok 0 (put64 (t + ts_stack_size) (load64 (mem s3) (t + ts_stack_size) + PGSIZE) s3))"
proof -
  have k1: "bind (allocate_for_user 0) c s = c (page_addr p) s1" for c :: "addr \<Rightarrow> (int, 'z kernel_scheme) run"
    using alloc(1) by (rule bind_Ok)
  have k2: "bind (map_page root (low - PGSIZE) (page_addr p) perm) c s1 = c r s2" for c :: "int \<Rightarrow> (int, 'z kernel_scheme) run"
    using m by (rule bind_Ok)
  show ?thesis
    using t alloc(2) f by (simp add: enlarge_stack_by_a_page_def k1 k2 struct_simps Let_def return_def)
qed

text \<open>A page mapped below the stack, and the two fields of the structure updated.\<close>

lemma mapped_grown:
  fixes s s1 :: "'z kernel_scheme"
  assumes st: "stack_task s t T F" and "frame F s s1" and p: "p \<in> F" and zero: "\<And>x. page_of x = p \<Longrightarrow> mem s1 x = 0"
    and gr: "pt_grows s1 T (F - {p}) s2 T' F'"
    and lf: "\<And>w. leaf (mem s2) T' w = (if vpn w = vpn (of_nat (4096 * v)) then Some (page_entry (page_addr p) perm) else leaf (mem s) T w)"
    and v: "4096 * Suc v \<le> 2 ^ 38"
    and start: "load64 (mem s) (t + ts_stack_start) = of_nat (4096 * Suc v)"
    and s': "s3 = put64 (t + ts_stack_start) (load64 (mem s2) (t + ts_stack_start) - PGSIZE) s2"
      "s' = put64 (t + ts_stack_size) (load64 (mem s3) (t + ts_stack_size) + PGSIZE) s3"
  shows "grown s t T F s' T' F' v 1 perm"
proof -
  note d = stack_taskD [OF st]
  have tF: "tables T \<inter> F = {}" using d(1) by (simp add: pt_inv_def)
  have g: "pt_inv s2 T' F'" "F' \<subseteq> F - {p}" "pt_root T' = pt_root T" "tables T' \<subseteq> tables T \<union> (F - {p})"
    and g2: "\<And>x. page_of x \<notin> F - {p} \<Longrightarrow> page_of x \<notin> tables T \<Longrightarrow> mem s2 x = mem s1 x"
    using gr by (auto simp: pt_grows_def)
  have m2: "mem s2 x = mem s x" if "page_of x \<notin> F \<union> tables T" for x
    using g2 assms(2) that by (simp add: frame_def)
  have "F' \<union> tables T' \<subseteq> F \<union> tables T" using g by blast
  note t2 = stack_task_kept [OF st g(1,3) this m2]
  note t3 = put_cell_inv [OF t2(1), of ts_stack_start "load64 (mem s2) (t + ts_stack_start) - PGSIZE", simplified, folded s'(1)]
  note t4 = put_cell_inv [OF t3(1), of ts_stack_size "load64 (mem s3) (t + ts_stack_size) + PGSIZE", simplified, folded s'(2)]
  have m4: "mem s' x = mem s2 x" if "x \<notin> struct_bytes t" for x
    using put_cell [OF t3(1), of ts_stack_size] put_cell [OF t2(1), of ts_stack_start] that by (simp add: s')
  have al: "aligned8 (t + ts_stack_start)" "aligned8 (t + ts_stack_size)" "aligned8 (t + ts_stack_permission)"
    using stack_cells(1) d(3) by blast+
  have ne: "ts_stack_start \<noteq> ts_stack_size" "ts_stack_start \<noteq> ts_stack_permission" "ts_stack_size \<noteq> ts_stack_permission"
    by (simp_all add: task_layout)
  have "load64 (mem s') (t + ts_stack_start) = of_nat (4096 * v)"
    using al ne t2(2) [of ts_stack_start] start by (simp add: s' load_put PGSIZE_def)
  moreover have "load64 (mem s') (t + ts_stack_size) = load64 (mem s) (t + ts_stack_size) + of_nat (4096 * 1)"
    using al ne t2(2) [of ts_stack_size] by (simp add: s' load_put PGSIZE_def)
  moreover have "load64 (mem s') (t + ts_stack_permission) = load64 (mem s) (t + ts_stack_permission)"
    using al ne t2(2) [of ts_stack_permission] by (simp add: s' load_put)
  moreover have "new_pages s T F s' T' F' v 1 perm (\<lambda>_. p)"
  proof -
    have np: "p \<notin> tables T'" "p \<notin> F'" "p \<notin> tables T" using g p tF by auto
    have "x \<notin> struct_bytes t" if "page_of x = p" for x using d(5) p that by blast
    then have z: "mem s' x = 0" if "page_of x = p" for x using that m4 g2 [of x] np zero by simp
    have u: "unat (of_nat (4096 * v) :: uint64) = 4096 * v" using v by (intro unat_of_nat_64) simp
    then have va: "of_nat (4096 * v) < MAXVA" "vpage (of_nat (4096 * v)) = v"
      using v by (simp_all add: word_less_nat_alt unat_MAXVA vpage_def)
    have "leaf (mem s') T' w = (if vpage w = v then Some (page_entry (page_addr p) perm) else leaf (mem s) T w)" if "w < MAXVA" for w
      using t4(2) t3(2) lf vpn_vpage [OF va(1) that] va(2) by simp
    then show ?thesis using np p z by (auto simp: new_pages_def)
  qed
  moreover have "mem s' x = mem s x" if "page_of x \<notin> F \<union> tables T" "x \<notin> struct_bytes t" for x
    using m4 m2 that by simp
  moreover have "F' \<subseteq> F" "tables T' \<subseteq> tables T \<union> F" using g by auto
  ultimately show ?thesis using t4(1) g(3) unfolding grown_def by blast
qed

lemma enlarge_page:
  fixes s :: "'z kernel_scheme"
  assumes st: "stack_task s t T F" and low: "load64 (mem s) (t + ts_stack_start) = of_nat (4096 * Suc v)"
    and v: "4096 * Suc v \<le> 2 ^ 38" and free: "\<And>w. w < MAXVA \<Longrightarrow> vpage w = v \<Longrightarrow> leaf (mem s) T w = None"
    and perm: "load64 (mem s) (t + ts_stack_permission) = perm"
  shows "\<exists>T' F' s'. enlarge_stack_by_a_page t s = Ok 0 s' \<and> grown s t T F s' T' F' v 1 perm \<or>
    enlarge_stack_by_a_page t s = Ok (-1) s' \<and> grown s t T F s' T' F' (Suc v) 0 perm \<and> (\<exists>p. no_pair (F' - {p}))"
proof (cases "F = {}")
  case True
  then have "enlarge_stack_by_a_page t s = Ok (-1) s" "no_pair (F - {p})" for p
    using allocate_page [OF pt_invD(1) [OF stack_taskD(1) [OF st]]]
    by (auto simp: enlarge_stack_by_a_page_def bind_Ok return_def no_pair_def block_def)
  then show ?thesis using grown_refl [OF st low] by blast
next
  case False
  note d = stack_taskD [OF st]
  obtain p s1 where s1: "allocate_for_user 0 s = Ok (page_addr p) s1" "page_addr p \<noteq> 0" "p \<in> F" "valid_block 0 p"
    "page_pool s1 (F - {p})" "frame F s s1" and zero: "\<And>x. page_of x = p \<Longrightarrow> mem s1 x = 0"
    using allocate_page [OF pt_invD(1) [OF d(1)]] False by auto
  have tF: "tables T \<inter> F = {}" using d(1) by (simp add: pt_inv_def)
  have m1: "mem s1 x = mem s x" if "page_of x \<notin> F" for x using s1(6) that by (simp add: frame_def)
  have i1: "pt_inv s1 T (F - {p})" and l1: "leaf (mem s1) T w = leaf (mem s) T w" for w
    using pt_inv_frame [OF d(1) s1(5)] tF m1 by blast+
  note cell1 = stack_task_kept(2) [OF st i1 refl _ m1]
  let ?va = "of_nat (4096 * v) :: uint64"
  have u: "unat ?va = 4096 * v" using v by (intro unat_of_nat_64) simp
  have va: "?va < MAXVA" "vpage ?va = v" using v u by (simp_all add: word_less_nat_alt unat_MAXVA vpage_def)
  have va': "of_nat (4096 * Suc v) - PGSIZE = ?va" by (simp add: PGSIZE_def)
  have none: "leaf (mem s1) T ?va = None" using l1 free va by simp
  have f1: "load64 (mem s1) (t + ts_stack_start) = of_nat (4096 * Suc v)"
    "load64 (mem s1) (t + ts_pagetable) = page_addr (pt_root T)" "load64 (mem s1) (t + ts_stack_permission) = perm"
    using cell1 [of ts_stack_start] cell1 [of ts_pagetable] cell1 [of ts_stack_permission] low d(4) perm by auto
  note run = enlarge_run [OF s1(1,2) d(2) f1, unfolded va']
  obtain T' F' s2 where gr: "pt_grows s1 T (F - {p}) s2 T' F'" and
    r: "map_page (page_addr (pt_root T)) ?va (page_addr p) perm s1 = Ok 0 s2 \<and>
      (\<forall>w. leaf (mem s2) T' w = (if vpn w = vpn ?va then Some (page_entry (page_addr p) perm) else leaf (mem s1) T w)) \<or>
      map_page (page_addr (pt_root T)) ?va (page_addr p) perm s1 = Ok 1 s2 \<and> no_pair F' \<and>
      (\<forall>w. leaf (mem s2) T' w = leaf (mem s1) T w)"
    using map_page_result [OF i1 va(1) none, of "page_addr p" perm] by blast
  from r show ?thesis
  proof (elim disjE conjE)
    assume m: "map_page (page_addr (pt_root T)) ?va (page_addr p) perm s1 = Ok 0 s2"
      and lf: "\<forall>w. leaf (mem s2) T' w = (if vpn w = vpn ?va then Some (page_entry (page_addr p) perm) else leaf (mem s1) T w)"
    have "grown s t T F s' T' F' v 1 perm"
      if "s' = put64 (t + ts_stack_size) (load64 (mem s3) (t + ts_stack_size) + PGSIZE) s3"
        "s3 = put64 (t + ts_stack_start) (load64 (mem s2) (t + ts_stack_start) - PGSIZE) s2" for s3 s'
      using mapped_grown [OF st s1(6,3) zero gr _ v low that(2,1)] lf l1 by simp
    with run [OF m] show ?thesis by (auto simp: Let_def)
  next
    assume m: "map_page (page_addr (pt_root T)) ?va (page_addr p) perm s1 = Ok 1 s2"
      and np: "no_pair F'" and lf: "\<forall>w. leaf (mem s2) T' w = leaf (mem s1) T w"
    have g: "pt_inv s2 T' F'" "p \<notin> F'" "p \<notin> tables T'" "F' \<subseteq> F" "pt_root T' = pt_root T" "tables T' \<subseteq> tables T \<union> F"
      "\<And>x. page_of x \<notin> F \<Longrightarrow> page_of x \<notin> tables T \<Longrightarrow> mem s2 x = mem s x"
      using gr s1(3) tF m1 by (auto simp: pt_grows_def)
    obtain s3 where s3: "deallocate (page_addr p) 0 s2 = Ok () s3" "pt_inv s3 T' (insert p F')"
      "\<And>w. leaf (mem s3) T' w = leaf (mem s2) T' w" "frame (insert p F') s2 s3"
      using page_given_back [OF g(1) s1(4) g(2,3)] by blast
    have m3: "mem s3 x = mem s x" if "page_of x \<notin> F \<union> tables T" for x
      using s3(4) g(4) s1(3) g(7) [of x] that by (auto simp: frame_def)
    have sub: "insert p F' \<union> tables T' \<subseteq> F \<union> tables T" using g s1(3) by blast
    note t3 = stack_task_kept [OF st s3(2) g(5) sub m3]
    have "grown s t T F s3 T' (insert p F') (Suc v) 0 perm"
      using t3(1) t3(2) [of ts_stack_start] t3(2) [of ts_stack_size] t3(2) [of ts_stack_permission] g s1(3) m3 low lf l1 s3(3)
      by (auto simp: grown_def new_pages_def)
    moreover have "enlarge_stack_by_a_page t s = Ok (-1) s3"
      using run [OF m] s3(1) by (simp add: bind_Ok return_def)
    moreover have "no_pair (insert p F' - {p})" using np g(2) by simp
    ultimately show ?thesis by blast
  qed
qed

section \<open>The loop\<close>

lemma enlarge_stack_ok:
  fixes s :: "'z kernel_scheme"
  assumes "stack_task s t T F" and "load64 (mem s) (t + ts_stack_start) = of_nat (4096 * (v + n))"
    and "4096 * (v + n) \<le> 2 ^ 38"
    and "\<And>w. w < MAXVA \<Longrightarrow> v \<le> vpage w \<Longrightarrow> vpage w < v + n \<Longrightarrow> leaf (mem s) T w = None"
    and "load64 (mem s) (t + ts_stack_permission) = perm"
  shows "\<exists>T' F' s' k. k \<le> n \<and> grown s t T F s' T' F' (v + (n - k)) k perm \<and>
    (enlarge_stack t n s = Ok 0 s' \<and> k = n \<or> enlarge_stack t n s = Ok (-1) s' \<and> k < n \<and> (\<exists>p. no_pair (F' - {p})))"
  using assms
proof (induction n arbitrary: s T F)
  case 0
  then show ?case using grown_refl [OF "0.prems"(1), of v perm] by (auto simp: return_def)
next
  case (Suc n)
  obtain U G u where u: "enlarge_stack_by_a_page t s = Ok 0 u \<and> grown s t T F u U G (v + n) 1 perm \<or>
      enlarge_stack_by_a_page t s = Ok (-1) u \<and> grown s t T F u U G (Suc (v + n)) 0 perm \<and> (\<exists>p. no_pair (G - {p}))"
    using enlarge_page [OF Suc.prems(1), of "v + n" perm] Suc.prems(2-5) by auto
  then show ?case
  proof (elim disjE conjE)
    assume run: "enlarge_stack_by_a_page t s = Ok 0 u" and g: "grown s t T F u U G (v + n) 1 perm"
    obtain pg where pg: "new_pages s T F u U G (v + n) 1 perm pg" using g by (auto simp: grown_def)
    have unmapped: "leaf (mem u) U w = None" if "w < MAXVA" "v \<le> vpage w" "vpage w < v + n" for w
      using pg Suc.prems(4) [of w] that by (auto simp: new_pages_def)
    have f: "stack_task u t U G" "load64 (mem u) (t + ts_stack_start) = of_nat (4096 * (v + n))" "4096 * (v + n) \<le> 2 ^ 38"
      "load64 (mem u) (t + ts_stack_permission) = perm"
      using g Suc.prems(3,5) by (auto simp: grown_def)
    obtain T' F' s' k where r: "k \<le> n" "grown u t U G s' T' F' (v + (n - k)) k perm"
      "enlarge_stack t n u = Ok 0 s' \<and> k = n \<or> enlarge_stack t n u = Ok (-1) s' \<and> k < n \<and> (\<exists>p. no_pair (F' - {p}))"
      using Suc.IH [OF f(1-3) unmapped f(4)] by blast
    have "grown s t T F s' T' F' (v + (Suc n - Suc k)) (Suc k) perm"
      using grown_trans [OF Suc.prems(1), of u U G "v + (n - k)" k 1 perm s' T' F'] g r(1,2) by simp
    then show ?thesis using r(1,3) run by (intro exI [of _ T'] exI [of _ F'] exI [of _ s'] exI [of _ "Suc k"]) (auto simp: bind_def)
  next
    assume "enlarge_stack_by_a_page t s = Ok (-1) u" and "grown s t T F u U G (Suc (v + n)) 0 perm" "\<exists>p. no_pair (G - {p})"
    then show ?thesis by (intro exI [of _ U] exI [of _ G] exI [of _ u] exI [of _ 0]) (auto simp: bind_def return_def)
  qed
qed

text \<open>With a free page and the lowest table in place the page is added.\<close>

lemma enlarge_present:
  fixes s :: "'z kernel_scheme"
  assumes st: "stack_task s t T F" and "F \<noteq> {}" and "low_table T (load64 (mem s) (t + ts_stack_start) - PGSIZE) = Some q"
    and "load64 (mem s) (t + ts_stack_start) - PGSIZE < MAXVA" and "leaf (mem s) T (load64 (mem s) (t + ts_stack_start) - PGSIZE) = None"
  shows "\<exists>s'. enlarge_stack_by_a_page t s = Ok 0 s'"
proof -
  note d = stack_taskD [OF st]
  obtain p s1 where s1: "allocate_for_user 0 s = Ok (page_addr p) s1" "page_addr p \<noteq> 0" "page_pool s1 (F - {p})" "frame F s s1"
    using allocate_page [OF pt_invD(1) [OF d(1)]] assms(2) by auto
  have tF: "tables T \<inter> F = {}" using d(1) by (simp add: pt_inv_def)
  have m1: "mem s1 x = mem s x" if "page_of x \<notin> F" for x using s1(4) that by (simp add: frame_def)
  have i1: "pt_inv s1 T (F - {p})" and l1: "leaf (mem s1) T w = leaf (mem s) T w" for w
    using pt_inv_frame [OF d(1) s1(3)] tF m1 by blast+
  note cell1 = stack_task_kept(2) [OF st i1 refl _ m1]
  have f1: "load64 (mem s1) (t + ts_stack_start) = load64 (mem s) (t + ts_stack_start)"
    "load64 (mem s1) (t + ts_pagetable) = page_addr (pt_root T)"
    using cell1 [of ts_stack_start] cell1 [of ts_pagetable] d(4) by auto
  obtain s2 where "map_page (page_addr (pt_root T)) (load64 (mem s) (t + ts_stack_start) - PGSIZE) (page_addr p)
      (load64 (mem s1) (t + ts_stack_permission)) s1 = Ok 0 s2"
    using map_page_present [OF i1 assms(3,4)] l1 assms(5) by metis
  from enlarge_run [OF s1(1,2) d(2) f1 refl this] show ?thesis by (simp add: Let_def)
qed

section \<open>The page fault handler\<close>

text \<open>
  C31. A fault below the stack enlarges it. For an address in the range of the stack, if the pages
  between it and the stack are not mapped, \<open>try_enlarge_stack\<close> adds \<open>k\<close> of the \<open>n\<close> missing pages,
  from the top down, each a fresh page of zeros with the permission of the stack, moves \<open>start\<close>
  down and counts \<open>size\<close> up accordingly, and changes no other translation and no other memory. With
  the result 0 all pages are there, and the address is mapped; the only other result is -1, when
  memory has run out. Outside the range the result is -1 and nothing happens.
\<close>

theorem try_enlarge_stack_correct:
  assumes "stack_task s t T F" and "load64 (mem s) (t + ts_stack_start) = of_nat (4096 * v)" and "4096 * v \<le> 2 ^ 38"
    and "\<And>w. w < MAXVA \<Longrightarrow> vpage a \<le> vpage w \<Longrightarrow> vpage w < v \<Longrightarrow> leaf (mem s) T w = None"
    and "n = v - vpage a"
  shows "if within_stack_range a then
      \<exists>T' F' s' k. grown s t T F s' T' F' (v - k) k (load64 (mem s) (t + ts_stack_permission)) \<and>
        (try_enlarge_stack t a s = Ok 0 s' \<and> k = n \<and> (vpage a < v \<longrightarrow> leaf (mem s') T' a \<noteq> None) \<or>
         try_enlarge_stack t a s = Ok (-1) s' \<and> k < n \<and> (\<exists>p. no_pair (F' - {p})))
    else try_enlarge_stack t a s = Ok (-1) s"
proof (cases "within_stack_range a")
  case True
  let ?perm = "load64 (mem s) (t + ts_stack_permission)"
  have t: "t \<noteq> 0" using assms(1) by (simp add: stack_task_def)
  have a: "a < MAXVA" using True by (auto simp: within_stack_range_def page_consts elim: order.strict_trans)
  define low where "low = (of_nat (4096 * v) :: uint64)"
  have uv: "unat low = 4096 * v" unfolding low_def using assms(3) by (intro unat_of_nat_64) simp
  have start: "load64 (mem s) (t + ts_stack_start) = low" using assms(2) by (simp only: low_def)
  have ua: "unat (PGROUNDDOWN a) = 4096 * vpage a" by (simp add: unat_PGROUNDDOWN vpage_def)
  have lt: "PGROUNDDOWN a < low \<longleftrightarrow> vpage a < v" by (simp add: word_less_nat_alt uv ua)
  have run: "try_enlarge_stack t a s = enlarge_stack t n s"
  proof (cases "vpage a < v")
    case True
    have "unat (low - PGROUNDDOWN a) = 4096 * n"
      using True assms(5) by (simp add: unat_diff_64 uv ua)
    then have "unat ((low - PGROUNDDOWN a) div PGSIZE) = n" by (simp add: unat_div PGSIZE_def)
    then show ?thesis
      using True lt t start \<open>within_stack_range a\<close> by (simp add: try_enlarge_stack_def struct_simps Let_def)
  next
    case False
    then show ?thesis
      using lt t start assms(5) \<open>within_stack_range a\<close> by (simp add: try_enlarge_stack_def struct_simps Let_def)
  qed
  define b where "b = (if vpage a < v then vpage a else v)"
  have bn: "b + n = v" "vpage a < v \<Longrightarrow> b = vpage a" using assms(5) by (auto simp: b_def)
  have "\<exists>T' F' s' k. k \<le> n \<and> grown s t T F s' T' F' (b + (n - k)) k ?perm \<and>
    (enlarge_stack t n s = Ok 0 s' \<and> k = n \<or> enlarge_stack t n s = Ok (-1) s' \<and> k < n \<and> (\<exists>p. no_pair (F' - {p})))"
  proof (rule enlarge_stack_ok [OF assms(1)])
    show "load64 (mem s) (t + ts_stack_start) = of_nat (4096 * (b + n))" "4096 * (b + n) \<le> 2 ^ 38"
      using assms(2,3) bn(1) by simp_all
    show "leaf (mem s) T w = None" if "w < MAXVA" "b \<le> vpage w" "vpage w < b + n" for w
      using assms(4) [of w] that bn(1) by (auto simp: b_def split: if_splits)
  qed simp
  then obtain T' F' s' k where k: "k \<le> n" "grown s t T F s' T' F' (b + (n - k)) k ?perm"
    and r: "enlarge_stack t n s = Ok 0 s' \<and> k = n \<or> enlarge_stack t n s = Ok (-1) s' \<and> k < n \<and> (\<exists>p. no_pair (F' - {p}))"
    by blast
  have "b + (n - k) = v - k" using bn(1) k(1) by simp
  with k(2) have g: "grown s t T F s' T' F' (v - k) k ?perm" by simp
  moreover have "leaf (mem s') T' a \<noteq> None" if "k = n" "vpage a < v"
    using g that a assms(5) by (auto simp: grown_def new_pages_def)
  ultimately have "\<exists>T' F' s' k. grown s t T F s' T' F' (v - k) k ?perm \<and>
      (try_enlarge_stack t a s = Ok 0 s' \<and> k = n \<and> (vpage a < v \<longrightarrow> leaf (mem s') T' a \<noteq> None) \<or>
       try_enlarge_stack t a s = Ok (-1) s' \<and> k < n \<and> (\<exists>p. no_pair (F' - {p})))"
    unfolding run using r by blast
  with True show ?thesis by simp
next
  case False
  then show ?thesis by (simp add: try_enlarge_stack_def return_def)
qed

section \<open>A task with a small stack\<close>

definition stack_t :: addr where "stack_t = page_addr 0x80103"

definition stack_memory :: memory where
  "stack_memory = store64 (store64 (store64 tramp_memory (stack_t + ts_pagetable) (page_addr 0x80100))
     (stack_t + ts_stack_start) (SHARED_MEMORY - PGSIZE)) (stack_t + ts_stack_permission) (PTE_U OR PTE_R OR PTE_W)"

definition stack_state :: kernel where
  "stack_state = kernel_zero\<lparr>mem := stack_memory, space := page_addr 0x80300 # replicate 15 0\<rparr>"

lemma stack_memory_pages: "page_of x \<noteq> 0x80103 \<Longrightarrow> stack_memory x = tramp_memory x"
proof -
  assume x: "page_of x \<noteq> 0x80103"
  have "store64 m (stack_t + c) v x = m x" if "c \<in> {88, 72, 64}" for m v c
    using x that by (intro store64_outside) (auto simp: stack_t_def page_addr_def page_of_def)
  then show ?thesis by (simp add: stack_memory_def task_layout)
qed

lemma stack_pool: "page_pool stack_state {0x80300}"
proof (rule one_free_page)
  show "mem stack_state (page_addr 0x80300 + of_nat i) = 0" if "i < 8" for i
    using page_byte [of "0x80300" i] stack_memory_pages [of "page_addr 0x80300 + of_nat i"] that
    by (simp add: stack_state_def tramp_memory_def store_slot_other)
  show "valid_block 0 0x80300" by (simp add: valid_block_def first_page_def end_page_def)
qed (simp add: stack_state_def)

lemma stack_cells_loaded:
  "load64 (mem stack_state) (stack_t + ts_pagetable) = page_addr 0x80100"
  "load64 (mem stack_state) (stack_t + ts_stack_start) = of_nat (4096 * 67108860)"
  by (simp_all add: stack_state_def stack_memory_def load64_store64 stack_t_def aligned8_num page_addr_def task_layout page_consts)

lemma stack_tables: "tables tramp_tree = {0x80100, 0x80101, 0x80102}"
  by (auto simp: tables_def tramp_tree_def ran_def)

lemma stack_inv: "pt_inv stack_state tramp_tree {0x80300}" "leaf (mem stack_state) tramp_tree w = leaf tramp_memory tramp_tree w"
proof -
  have t: "tree_repr tramp_memory tramp_tree" "tree_shape tramp_tree" using tramp_frame by (simp_all add: frame_mapped_def)
  have m: "mem stack_state x = tramp_memory x" if "page_of x \<in> tables tramp_tree" for x
    using that stack_memory_pages [of x] by (auto simp: stack_state_def stack_tables)
  show "leaf (mem stack_state) tramp_tree w = leaf tramp_memory tramp_tree w"
    using m by (intro leaf_cong [OF t(2)]) (simp add: tables_def)
  show "pt_inv stack_state tramp_tree {0x80300}"
    using tree_repr_cong [OF t m] t(2) stack_pool by (simp add: pt_inv_def stack_tables)
qed

lemma stack_state_ok:
  "stack_task stack_state stack_t tramp_tree {0x80300}"
  "vpage w = 67108859 \<Longrightarrow> w < MAXVA \<Longrightarrow> leaf (mem stack_state) tramp_tree w = None"
  "low_table tramp_tree (of_nat (4096 * 67108860) - PGSIZE) = Some 0x80102"
proof -
  have "page_of x = 0x80103" if x: "x \<in> struct_bytes stack_t" for x
  proof -
    obtain i where i: "x = of_nat (0x80103000 + i)" "i < 264"
      using x by (auto simp: struct_bytes_def stack_t_def page_addr_def sizeof_task_struct_def)
    have "unat x = 0x80103000 + i" unfolding i(1) using i(2) by (intro unat_of_nat_64) simp
    then show ?thesis using i(2) by (simp add: page_of_def)
  qed
  then have "page_of ` struct_bytes stack_t \<inter> ({0x80300} \<union> tables tramp_tree) = {}" by (auto simp: stack_tables)
  then show "stack_task stack_state stack_t tramp_tree {0x80300}"
    using stack_inv(1) stack_cells_loaded(1)
    by (simp add: stack_task_def) (simp add: stack_t_def page_addr_def aligned8_num tramp_tree_def)
  show low: "low_table tramp_tree (of_nat (4096 * 67108860) - PGSIZE) = Some 0x80102"
    by (simp add: low_table_def tramp_tree_def PX_def page_consts)
  show "leaf (mem stack_state) tramp_tree w = None" if w: "vpage w = 67108859" "w < MAXVA"
  proof -
    have "vpn w = vpn (of_nat (4096 * 67108860) - PGSIZE)"
      using vpn_vpage [of "of_nat (4096 * 67108860) - PGSIZE" w] w by (simp add: vpage_def page_consts)
    then have "leaf tramp_memory tramp_tree w = leaf tramp_memory tramp_tree (of_nat (4096 * 67108860) - PGSIZE)" by (rule leaf_vpn)
    also have "\<dots> = None" unfolding leaf_def low by (simp add: load_tramp_memory PX_def page_consts)
    finally show ?thesis using stack_inv(2) by simp
  qed
qed

theorem try_enlarge_stack_correct_witness:
  "\<exists>s' T'. try_enlarge_stack stack_t (SHARED_MEMORY - PGSIZE - 8) stack_state = Ok 0 s' \<and>
     leaf (mem s') T' (SHARED_MEMORY - PGSIZE - 8) \<noteq> None \<and>
     load64 (mem s') (stack_t + ts_stack_start) = SHARED_MEMORY - 2 * PGSIZE"
proof -
  let ?a = "SHARED_MEMORY - PGSIZE - 8"
  have a: "vpage ?a = 67108859" "within_stack_range ?a" by (simp_all add: vpage_def within_stack_range_def page_consts)
  have va: "load64 (mem stack_state) (stack_t + ts_stack_start) - PGSIZE = of_nat (4096 * 67108860) - PGSIZE"
    by (simp only: stack_cells_loaded)
  have lt: "of_nat (4096 * 67108860) - PGSIZE < MAXVA" "vpage (of_nat (4096 * 67108860) - PGSIZE) = 67108859"
    by (simp_all add: page_consts vpage_def)
  obtain s' where "enlarge_stack_by_a_page stack_t stack_state = Ok 0 s'"
    using enlarge_present [OF stack_state_ok(1), unfolded va, of "0x80102"] stack_state_ok(2) [OF lt(2,1)] stack_state_ok(3) lt(1) by auto
  then have run: "enlarge_stack stack_t 1 stack_state = Ok 0 s'" by (simp add: bind_Ok return_def)
  have nz: "stack_t \<noteq> 0" by (simp add: stack_t_def page_addr_def)
  have "try_enlarge_stack stack_t ?a stack_state = enlarge_stack stack_t 1 stack_state"
    using a(2) nz unfolding try_enlarge_stack_def
    by (simp add: struct_simps stack_cells_loaded(2) PGROUNDDOWN_def page_consts del: enlarge_stack.simps One_nat_def)
  with run have ok: "try_enlarge_stack stack_t ?a stack_state = Ok 0 s'" by simp
  have "leaf (mem stack_state) tramp_tree w = None" if "w < MAXVA" "vpage ?a \<le> vpage w" "vpage w < 67108860" for w
    using stack_state_ok(2) [of w] that a(1) by simp
  note c = try_enlarge_stack_correct [where a = ?a, OF stack_state_ok(1) stack_cells_loaded(2) _ this refl, unfolded if_P [OF a(2)] ok a(1)]
  then obtain T' F' where "grown stack_state stack_t tramp_tree {0x80300} s' T' F' (67108860 - 1) 1
      (load64 (mem stack_state) (stack_t + ts_stack_permission))" "leaf (mem s') T' ?a \<noteq> None"
    by auto
  moreover from this(1) have "load64 (mem s') (stack_t + ts_stack_start) = SHARED_MEMORY - 2 * PGSIZE"
    by (simp add: grown_def page_consts)
  ultimately show ?thesis using ok by blast
qed

end
