(* ===== verification/Load_Section.thy ===== *)
theory Load_Section
  imports Copy_Memory
begin

text \<open>
  Loading a section of a program into an address space and freeing it: \<open>map_page_for_user\<close>,
  \<open>map_section_for_user\<close> and \<open>free_memory\<close> of \<open>kernel/virtual_memory.c\<close>.
\<close>

section \<open>Freeing a range\<close>

text \<open>The pages \<open>lo, \<dots>, lo + n - 1\<close> are mapped to the physical pages \<open>dp\<close>, as pages of a user.\<close>

definition mapped_to :: "memory \<Rightarrow> page_tree \<Rightarrow> nat \<Rightarrow> nat \<Rightarrow> (nat \<Rightarrow> nat) \<Rightarrow> bool" where
  "mapped_to m T lo n dp \<longleftrightarrow> (\<forall>w<MAXVA. vpage w \<in> {lo..<lo + n} \<longrightarrow>
     (\<exists>e. leaf m T w = Some e \<and> PTE2PA e = page_addr (dp (vpage w)) \<and> PTE_FLAGS e \<noteq> PTE_V))"

definition owned :: "nat set \<Rightarrow> page_tree \<Rightarrow> nat \<Rightarrow> nat \<Rightarrow> (nat \<Rightarrow> nat) \<Rightarrow> bool" where
  "owned F T lo n dp \<longleftrightarrow> inj_on dp {lo..<lo + n} \<and> (\<forall>i\<in>{lo..<lo + n}. valid_block 0 (dp i) \<and> dp i \<notin> F \<union> tables T)"

lemma free_round:
  fixes s :: "'z buddy_scheme"
  assumes inv: "pt_inv s T F" and va: "unat (va_start + i) = 4096 * v" "va_start + i < MAXVA" and less: "i < sz"
    and e: "leaf (mem s) T (va_start + i) = Some e" "PTE2PA e = page_addr p" "PTE_FLAGS e \<noteq> PTE_V"
    and p: "valid_block 0 p" "p \<notin> F" "p \<notin> tables T"
  shows "\<exists>s'. free_memory_loop (page_addr (pt_root T)) va_start sz i s =
      free_memory_loop (page_addr (pt_root T)) va_start sz (i + PGSIZE) s' \<and>
    pt_inv s' T (insert p F) \<and> (\<forall>w<MAXVA. leaf (mem s') T w = (if vpage w = v then None else leaf (mem s) T w)) \<and>
    (\<forall>x. page_of x \<notin> insert p F \<union> tables T \<longrightarrow> mem s' x = mem s x)"
proof -
  let ?va = "va_start + i"
  have "PGOFFSET ?va = 0" using page_aligned [OF va(1)] by (simp add: PGOFFSET_def)
  then have pa: "physical_address (page_addr (pt_root T)) ?va s = Ok (page_addr p) s"
    using physical_address_ok [OF pt_invD(2,3) [OF inv] va(2)] e by simp
  obtain s1 where s1: "deallocate (page_addr p) 0 s = Ok () s1" "pt_inv s1 T (insert p F)"
    "\<And>w. leaf (mem s1) T w = leaf (mem s) T w" "frame (insert p F) s s1"
    using page_given_back [OF inv p] by blast
  obtain s2 where s2: "unmap_page (page_addr (pt_root T)) ?va s1 = Ok 0 s2" "pt_grows s1 T (insert p F) s2 T (insert p F)"
    "\<And>w. leaf (mem s2) T w = (if vpn w = vpn ?va then None else leaf (mem s1) T w)"
    using unmap_page_mapped [OF s1(2) va(2), of e] e s1(3) by auto
  have "free_memory_loop (page_addr (pt_root T)) va_start sz i s = free_memory_loop (page_addr (pt_root T)) va_start sz (i + PGSIZE) s2"
    using less pa s1(1) s2(1) by (subst free_memory_loop.simps) (simp add: bind_Ok)
  moreover have "vpn w = vpn ?va \<longleftrightarrow> vpage w = v" if "w < MAXVA" for w
    using vpn_vpage [OF va(2) that] va(1) by (simp add: vpage_def)
  moreover have "mem s2 x = mem s x" if "page_of x \<notin> insert p F \<union> tables T" for x
    using s2(2) s1(4) that by (auto simp: pt_grows_def frame_def)
  ultimately show ?thesis using s2 s1(3) by (intro exI [of _ s2]) (auto simp: pt_grows_def)
qed

lemma free_loop_ok:
  fixes s :: "'z buddy_scheme"
  assumes "pt_inv s T F" and "mapped_to (mem s) T (v + i) n dp" and "owned F T (v + i) n dp"
    and "unat va_start = 4096 * v" and "4096 * (v + i + n) \<le> 2 ^ 38"
    and "unat sz \<le> 4096 * (i + n)" and "n \<noteq> 0 \<Longrightarrow> 4096 * (i + n) < unat sz + 4096"
  shows "\<exists>s'. free_memory_loop (page_addr (pt_root T)) va_start sz (of_nat (4096 * i)) s = Ok () s' \<and>
    pt_inv s' T (F \<union> dp ` {v + i..<v + i + n}) \<and>
    (\<forall>w<MAXVA. leaf (mem s') T w = (if vpage w \<in> {v + i..<v + i + n} then None else leaf (mem s) T w)) \<and>
    (\<forall>x. page_of x \<notin> F \<union> dp ` {v + i..<v + i + n} \<union> tables T \<longrightarrow> mem s' x = mem s x)"
  using assms
proof (induction n arbitrary: i s F)
  case 0
  have "unat (of_nat (4096 * i) :: uint64) = 4096 * i" using "0.prems"(5) by (intro unat_of_nat_64) simp
  then have "\<not> of_nat (4096 * i) < sz" using "0.prems"(6) by (simp add: word_less_nat_alt)
  then show ?case using "0.prems"(1) by (simp add: free_memory_loop.simps return_def)
next
  case (Suc n)
  let ?o = "of_nat (4096 * i) :: uint64" and ?p = "dp (v + i)"
  have o: "unat ?o = 4096 * i" using Suc.prems(5) by (intro unat_of_nat_64) simp
  have less: "?o < sz" using Suc.prems(7) o by (simp add: word_less_nat_alt)
  have u: "unat (va_start + ?o) = 4096 * (v + i)"
    using Suc.prems(4,5) o by (subst unat_add_no_overflow) (simp_all add: algebra_simps)
  have va: "va_start + ?o < MAXVA" "vpage (va_start + ?o) = v + i"
    using Suc.prems(5) u by (simp_all add: word_less_nat_alt unat_MAXVA vpage_def)
  have r: "{v + i..<v + i + Suc n} = insert (v + i) {v + Suc i..<v + Suc i + n}" by auto
  have p: "valid_block 0 ?p" "?p \<notin> F" "?p \<notin> tables T" "?p \<notin> dp ` {v + Suc i..<v + Suc i + n}"
    using Suc.prems(3) unfolding owned_def r by auto
  obtain e where "leaf (mem s) T (va_start + ?o) = Some e" "PTE2PA e = page_addr ?p" "PTE_FLAGS e \<noteq> PTE_V"
    using Suc.prems(2) va unfolding mapped_to_def by auto
  from free_round [OF Suc.prems(1) u va(1) less this p(1-3)]
  obtain t where run: "free_memory_loop (page_addr (pt_root T)) va_start sz ?o s = free_memory_loop (page_addr (pt_root T)) va_start sz (?o + PGSIZE) t"
    and t: "pt_inv t T (insert ?p F)" and lt: "\<And>w. w < MAXVA \<Longrightarrow> leaf (mem t) T w = (if vpage w = v + i then None else leaf (mem s) T w)"
    and mt: "\<And>x. page_of x \<notin> insert ?p F \<union> tables T \<Longrightarrow> mem t x = mem s x" by blast
  have step: "?o + PGSIZE = of_nat (4096 * Suc i)" by (simp add: PGSIZE_def algebra_simps)
  have "\<exists>s'. free_memory_loop (page_addr (pt_root T)) va_start sz (of_nat (4096 * Suc i)) t = Ok () s' \<and>
    pt_inv s' T (insert ?p F \<union> dp ` {v + Suc i..<v + Suc i + n}) \<and>
    (\<forall>w<MAXVA. leaf (mem s') T w = (if vpage w \<in> {v + Suc i..<v + Suc i + n} then None else leaf (mem t) T w)) \<and>
    (\<forall>x. page_of x \<notin> insert ?p F \<union> dp ` {v + Suc i..<v + Suc i + n} \<union> tables T \<longrightarrow> mem s' x = mem t x)"
  proof (rule Suc.IH [OF t])
    show "mapped_to (mem t) T (v + Suc i) n dp" using Suc.prems(2) lt unfolding mapped_to_def r by simp
    have "dp j \<noteq> ?p" if "j \<in> {v + Suc i..<v + Suc i + n}" for j using p(4) that by (metis imageI)
    then show "owned (insert ?p F) T (v + Suc i) n dp" using Suc.prems(3) unfolding owned_def r by auto
  qed (use Suc.prems(4-7) in simp_all)
  then obtain s' where s': "free_memory_loop (page_addr (pt_root T)) va_start sz (of_nat (4096 * Suc i)) t = Ok () s'"
    "pt_inv s' T (insert ?p F \<union> dp ` {v + Suc i..<v + Suc i + n})"
    "\<And>w. w < MAXVA \<Longrightarrow> leaf (mem s') T w = (if vpage w \<in> {v + Suc i..<v + Suc i + n} then None else leaf (mem t) T w)"
    "\<And>x. page_of x \<notin> insert ?p F \<union> dp ` {v + Suc i..<v + Suc i + n} \<union> tables T \<Longrightarrow> mem s' x = mem t x"
    by blast
  have im: "F \<union> dp ` {v + i..<v + i + Suc n} = insert ?p F \<union> dp ` {v + Suc i..<v + Suc i + n}" unfolding r by simp
  show ?case unfolding im run step
    using s' lt mt by (intro exI [of _ s']) (auto simp: r)
qed

section \<open>Loading a page\<close>

text \<open>
  The pages \<open>lo, \<dots>, lo + n - 1\<close> are new: page \<open>i\<close> is the formerly free page \<open>dp i\<close> with the contents
  \<open>cont i\<close>; the other translations are as before.
\<close>

definition loaded_pages :: "memory \<Rightarrow> page_tree \<Rightarrow> nat set \<Rightarrow> memory \<Rightarrow> page_tree \<Rightarrow> nat set \<Rightarrow>
    nat \<Rightarrow> nat \<Rightarrow> uint64 \<Rightarrow> (nat \<Rightarrow> nat \<Rightarrow> byte) \<Rightarrow> (nat \<Rightarrow> nat) \<Rightarrow> bool" where
  "loaded_pages m T F m' T' F' lo n perm cont dp \<longleftrightarrow>
     inj_on dp {lo..<lo + n} \<and> dp ` {lo..<lo + n} \<subseteq> F - F' - tables T' \<and>
     (\<forall>i\<in>{lo..<lo + n}. \<forall>k<4096. m' (page_addr (dp i) + of_nat k) = cont i k) \<and>
     (\<forall>w<MAXVA. leaf m' T' w =
        (if vpage w \<in> {lo..<lo + n} then Some (page_entry (page_addr (dp (vpage w))) perm) else leaf m T w))"

lemma loaded_pages_step:
  assumes a: "loaded_pages m T F m1 U G lo 1 perm cont dp1" and b: "loaded_pages m1 U G m2 T' F' (Suc lo) n perm cont dp"
    and F: "F \<subseteq> {..<2 ^ 51}" "G \<subseteq> F" "F' \<subseteq> G" "tables U \<subseteq> tables T \<union> F" "tables T' \<subseteq> tables U \<union> G"
    and m2: "\<And>x. page_of x \<notin> G \<union> tables U \<Longrightarrow> m2 x = m1 x"
  shows "loaded_pages m T F m2 T' F' lo (Suc n) perm cont (dp(lo := dp1 lo))"
proof -
  note a' = a [unfolded loaded_pages_def] and b' = b [unfolded loaded_pages_def]
  let ?dp = "dp(lo := dp1 lo)"
  have r: "{lo..<lo + Suc n} = insert lo {Suc lo..<Suc lo + n}" by auto
  have p: "dp1 lo \<in> F" "dp1 lo \<notin> G" "dp1 lo \<notin> tables U" using a' by auto
  have im: "?dp ` {lo..<lo + Suc n} = insert (dp1 lo) (dp ` {Suc lo..<Suc lo + n})" unfolding r by auto
  have "inj_on ?dp {lo..<lo + Suc n}" unfolding r using b' p by (auto simp: inj_on_def image_subset_iff)
  moreover have "?dp ` {lo..<lo + Suc n} \<subseteq> F - F' - tables T'" unfolding im using b' p F by blast
  moreover have "m2 (page_addr (?dp i) + of_nat k) = cont i k" if i: "i \<in> {lo..<lo + Suc n}" "k < 4096" for i k
  proof (cases "i = lo")
    case True
    have "page_of (page_addr (dp1 lo) + of_nat k) = dp1 lo" using p(1) F(1) i(2) by (intro page_byte) auto
    then have "m2 (page_addr (dp1 lo) + of_nat k) = m1 (page_addr (dp1 lo) + of_nat k)" using m2 p by simp
    with True a' i(2) show ?thesis by simp
  qed (use b' i in auto)
  moreover have "leaf m2 T' w = (if vpage w \<in> {lo..<lo + Suc n} then Some (page_entry (page_addr (?dp (vpage w))) perm) else leaf m T w)"
    if w: "w < MAXVA" for w
    using a' [THEN conjunct2, THEN conjunct2, THEN conjunct2, rule_format, OF w]
      b' [THEN conjunct2, THEN conjunct2, THEN conjunct2, rule_format, OF w] by (cases "vpage w = lo") auto
  ultimately show ?thesis unfolding loaded_pages_def by blast
qed

text \<open>\<open>c\<close> bytes from \<open>src\<close>, then zeros.\<close>

lemma page_filled:
  assumes p: "p < 2 ^ 51" and c: "unat c \<le> 4096" and z: "\<And>x. page_of x = p \<Longrightarrow> m x = 0"
    and src: "\<And>k. k < unat c \<Longrightarrow> page_of (src + of_nat k) \<noteq> p"
  shows "memcpy m (page_addr p) src c x = (if page_of x = p \<and> x - page_addr p < c then m (src + (x - page_addr p)) else m x)"
    and "k < 4096 \<Longrightarrow> memcpy m (page_addr p) src c (page_addr p + of_nat k) = (if k < unat c then m (src + of_nat k) else 0)"
proof -
  have cs: "c \<le> PGSIZE" using c by (simp add: word_le_nat_alt PGSIZE_def)
  have "c \<le> page_addr p - src"
  proof (rule ccontr)
    assume "\<not> c \<le> page_addr p - src"
    then have "unat (page_addr p - src) < unat c" by (simp add: word_le_nat_alt)
    from src [OF this] p show False by (simp add: page_of_page_addr)
  qed
  moreover have "c \<le> src - page_addr p"
  proof (rule ccontr)
    assume a: "\<not> c \<le> src - page_addr p"
    then have "src - page_addr p < PGSIZE" using cs by (simp add: not_le)
    then have "page_of src = p" using in_page [OF p] by blast
    moreover have "0 < unat c" using a by (simp add: word_le_nat_alt)
    ultimately show False using src [of 0] by simp
  qed
  ultimately have ap: "ranges_apart (page_addr p) src c" by (simp add: ranges_apart_def)
  have lt: "x - page_addr p < c \<Longrightarrow> page_of x = p" for x using cs in_page [OF p, of x] by (metis order.strict_trans2)
  show x: "memcpy m (page_addr p) src c x = (if page_of x = p \<and> x - page_addr p < c then m (src + (x - page_addr p)) else m x)" for x
    using lt by (auto simp: memcpy_eq [OF ap])
  assume k: "k < 4096"
  have "unat (of_nat k :: uint64) = k" using k by (intro unat_of_nat_64) simp
  then show "memcpy m (page_addr p) src c (page_addr p + of_nat k) = (if k < unat c then m (src + of_nat k) else 0)"
    using page_byte [OF p k] z by (simp add: x word_less_nat_alt)
qed

lemma page_prepared:
  fixes s :: "'z buddy_scheme"
  assumes inv: "pt_inv s T F" and "F \<noteq> {}" and c: "unat c \<le> 4096" "c \<noteq> 0 \<Longrightarrow> src \<noteq> 0"
    and src: "\<And>k. k < unat c \<Longrightarrow> page_of (src + of_nat k) \<notin> F"
  obtains p s2 where "page_addr p \<noteq> 0" "p \<in> F" "valid_block 0 p" "pt_inv s2 T (F - {p})"
    "\<And>w. leaf (mem s2) T w = leaf (mem s) T w" "\<And>x. page_of x \<notin> F \<Longrightarrow> mem s2 x = mem s x"
    "\<And>k. k < 4096 \<Longrightarrow> mem s2 (page_addr p + of_nat k) = (if k < unat c then mem s (src + of_nat k) else 0)"
    "\<And>root va perm. map_page_for_user root va src c perm s =
      bind (map_page root va (page_addr p) perm) (\<lambda>r. if r \<noteq> 0 then bind (deallocate (page_addr p) 0) (\<lambda>_. return (-1)) else return 0) s2"
proof -
  obtain p s1 where s1: "allocate_for_user 0 s = Ok (page_addr p) s1" "page_addr p \<noteq> 0" "p \<in> F" "valid_block 0 p"
    "page_pool s1 (F - {p})" "frame F s s1" and zero: "\<And>x. page_of x = p \<Longrightarrow> mem s1 x = 0"
    using allocate_page [OF pt_invD(1) [OF inv]] assms(2) by auto
  note pb = valid_page_small [OF s1(4)]
  define s2 where "s2 = s1\<lparr>mem := memcpy (mem s1) (page_addr p) src c\<rparr>"
  have apart: "page_of (src + of_nat k) \<noteq> p" if "k < unat c" for k using src [OF that] s1(3) by blast
  note fill = page_filled [OF pb c(1) zero apart]
  have tF: "tables T \<inter> F = {}" using inv by (simp add: pt_inv_def)
  have m1: "mem s1 x = mem s x" if "page_of x \<notin> F" for x using s1(6) that by (simp add: frame_def)
  have m2: "mem s2 x = mem s1 x" if "page_of x \<noteq> p" for x using that fill(1) by (simp add: s2_def)
  have out: "mem s2 x = mem s x" if "page_of x \<notin> F" for x using m2 [of x] m1 s1(3) that by auto
  have cont: "mem s2 (page_addr p + of_nat k) = (if k < unat c then mem s (src + of_nat k) else 0)" if "k < 4096" for k
    using fill(2) [OF _ _ that] m1 src by (simp add: s2_def)
  have pool2: "page_pool s2 (F - {p})" by (rule page_pool_cong [OF s1(5)]) (simp_all add: m2, simp add: s2_def)
  have inv2: "pt_inv s2 T (F - {p})" and l2: "leaf (mem s2) T w = leaf (mem s) T w" for w
    using pt_inv_frame [OF inv pool2] tF out by blast+
  have k: "bind (allocate_for_user 0) c s = c (page_addr p) s1" for c :: "addr \<Rightarrow> (int, 'z buddy_scheme) run"
    using s1(1) by (rule bind_Ok)
  have "map_page_for_user root va src c perm s =
      bind (map_page root va (page_addr p) perm) (\<lambda>r. if r \<noteq> 0 then bind (deallocate (page_addr p) 0) (\<lambda>_. return (-1)) else return 0) s2"
    for root va perm
    using s1(2) c(2) by (cases "c = 0") (simp_all add: map_page_for_user_def k do_memcpy_def s2_def run_simps)
  then show thesis using that s1(2-4) inv2 l2 out cont by blast
qed

lemma load_page:
  fixes s :: "'z buddy_scheme"
  assumes inv: "pt_inv s T F" and va: "unat va = 4096 * v" "va < MAXVA" and none: "leaf (mem s) T va = None"
    and c: "unat c \<le> 4096" "c \<noteq> 0 \<Longrightarrow> src \<noteq> 0" and src: "\<And>k. k < unat c \<Longrightarrow> page_of (src + of_nat k) \<notin> F"
  shows "\<exists>T' F' s'. pt_grows s T F s' T' F' \<and>
    (map_page_for_user (page_addr (pt_root T)) va src c perm s = Ok 0 s' \<and>
     (\<exists>dp. loaded_pages (mem s) T F (mem s') T' F' v 1 perm (\<lambda>_ k. if k < unat c then mem s (src + of_nat k) else 0) dp) \<or>
     map_page_for_user (page_addr (pt_root T)) va src c perm s = Ok (-1) s' \<and>
     (\<forall>w. leaf (mem s') T' w = leaf (mem s) T w) \<and> (\<exists>p. no_pair (F' - {p})))"
proof (cases "F = {}")
  case True
  then have "map_page_for_user (page_addr (pt_root T)) va src c perm s = Ok (-1) s" "no_pair (F - {p})" for p
    using allocate_page [OF pt_invD(1) [OF inv]] by (auto simp: map_page_for_user_def bind_Ok return_def no_pair_def block_def)
  then show ?thesis using pt_grows_refl [OF inv] by blast
next
  case False
  obtain p s2 where p: "page_addr p \<noteq> 0" "p \<in> F" "valid_block 0 p" and inv2: "pt_inv s2 T (F - {p})"
    and l2: "\<And>w. leaf (mem s2) T w = leaf (mem s) T w" and out: "\<And>x. page_of x \<notin> F \<Longrightarrow> mem s2 x = mem s x"
    and cont: "\<And>k. k < 4096 \<Longrightarrow> mem s2 (page_addr p + of_nat k) = (if k < unat c then mem s (src + of_nat k) else 0)"
    and run: "\<And>root va perm. map_page_for_user root va src c perm s =
      bind (map_page root va (page_addr p) perm) (\<lambda>r. if r \<noteq> 0 then bind (deallocate (page_addr p) 0) (\<lambda>_. return (-1)) else return 0) s2"
    by (rule page_prepared [OF inv False c src]) blast+
  obtain T' F' s' where gr: "pt_grows s2 T (F - {p}) s' T' F'"
    and r: "map_page (page_addr (pt_root T)) va (page_addr p) perm s2 = Ok 0 s' \<and>
      (\<forall>w. leaf (mem s') T' w = (if vpn w = vpn va then Some (page_entry (page_addr p) perm) else leaf (mem s) T w)) \<or>
      map_page (page_addr (pt_root T)) va (page_addr p) perm s2 = Ok 1 s' \<and> no_pair F' \<and>
      (\<forall>w. leaf (mem s') T' w = leaf (mem s) T w)"
    using map_page_result [OF inv2 va(2), of "page_addr p" perm] none l2 by fastforce
  have g: "pt_inv s' T' F'" "F' \<subseteq> F - {p}" "pt_root T' = pt_root T" "tables T' \<subseteq> tables T \<union> (F - {p})"
    and m': "\<And>x. page_of x \<notin> F - {p} \<Longrightarrow> page_of x \<notin> tables T \<Longrightarrow> mem s' x = mem s2 x" using gr by (auto simp: pt_grows_def)
  have pT: "p \<notin> tables T" "p \<notin> tables T'" "p \<notin> F'" using inv p(2) g by (auto simp: pt_inv_def)
  have same: "mem s' x = mem s x" if "page_of x \<notin> F" "page_of x \<notin> tables T" for x using m' [of x] out that by simp
  from r show ?thesis
  proof (elim disjE conjE)
    assume m: "map_page (page_addr (pt_root T)) va (page_addr p) perm s2 = Ok 0 s'"
      and lf: "\<forall>w. leaf (mem s') T' w = (if vpn w = vpn va then Some (page_entry (page_addr p) perm) else leaf (mem s) T w)"
    have "mem s' (page_addr p + of_nat k) = (if k < unat c then mem s (src + of_nat k) else 0)" if "k < 4096" for k
      using m' [of "page_addr p + of_nat k"] page_byte [OF valid_page_small [OF p(3)] that] pT cont [OF that] by simp
    moreover have "vpn w = vpn va \<longleftrightarrow> vpage w = v" if "w < MAXVA" for w
      using vpn_vpage [OF va(2) that] va(1) by (simp add: vpage_def)
    moreover have "{v..<v + 1} = {v}" by auto
    ultimately have "loaded_pages (mem s) T F (mem s') T' F' v 1 perm (\<lambda>_ k. if k < unat c then mem s (src + of_nat k) else 0) (\<lambda>_. p)"
      using lf pT p(2) by (simp add: loaded_pages_def)
    moreover have "pt_grows s T F s' T' F'" using g same unfolding pt_grows_def by blast
    ultimately show ?thesis using run m by (intro exI [of _ T'] exI [of _ F'] exI [of _ s']) (auto simp: bind_Ok return_def)
  next
    assume m: "map_page (page_addr (pt_root T)) va (page_addr p) perm s2 = Ok 1 s'" and np: "no_pair F'"
      and lf: "\<forall>w. leaf (mem s') T' w = leaf (mem s) T w"
    obtain s3 where s3: "deallocate (page_addr p) 0 s' = Ok () s3" "pt_inv s3 T' (insert p F')"
      "\<And>w. leaf (mem s3) T' w = leaf (mem s') T' w" "frame (insert p F') s' s3"
      using page_given_back [OF g(1) p(3) pT(3,2)] by blast
    have "mem s3 x = mem s x" if "page_of x \<notin> F" "page_of x \<notin> tables T" for x
    proof -
      have "page_of x \<notin> insert p F'" using that(1) p(2) g(2) by blast
      then show ?thesis using s3(4) same [OF that] by (simp add: frame_def)
    qed
    then have "pt_grows s T F s3 T' (insert p F')" using s3(2) g p(2) unfolding pt_grows_def by blast
    moreover have "no_pair (insert p F' - {p})" using np pT(3) by simp
    moreover have "map_page_for_user (page_addr (pt_root T)) va src c perm s = Ok (-1) s3"
      using run m s3(1) by (simp add: bind_Ok return_def)
    moreover have "\<forall>w. leaf (mem s3) T' w = leaf (mem s) T w" using s3(3) lf by simp
    ultimately show ?thesis by blast
  qed
qed

section \<open>Loading a section\<close>

text \<open>
  The image \<open>img\<close> of \<open>ss\<close> bytes at \<open>src\<close>, outside the free pages and the tables; and the contents of
  the pages of a section that starts at page \<open>v\<close>: the image, then zeros.
\<close>

definition image_at :: "memory \<Rightarrow> page_tree \<Rightarrow> nat set \<Rightarrow> addr \<Rightarrow> nat \<Rightarrow> (nat \<Rightarrow> byte) \<Rightarrow> bool" where
  "image_at m T F src ss img \<longleftrightarrow> (\<forall>j < ss. src + of_nat j \<noteq> 0 \<and> m (src + of_nat j) = img j \<and> page_of (src + of_nat j) \<notin> F \<union> tables T)"

definition section_bytes :: "nat \<Rightarrow> nat \<Rightarrow> (nat \<Rightarrow> byte) \<Rightarrow> nat \<Rightarrow> nat \<Rightarrow> byte" where
  "section_bytes v ss img i k = (if 4096 * (i - v) + k < ss then img (4096 * (i - v) + k) else 0)"

lemma image_kept:
  assumes "image_at m T F src ss img" and "F' \<union> tables T' \<subseteq> F \<union> tables T" and "\<And>x. page_of x \<notin> F \<union> tables T \<Longrightarrow> m' x = m x"
  shows "image_at m' T' F' src ss img"
  using assms unfolding image_at_def by (metis subsetD)

text \<open>The sizes of one round, \<open>k\<close> pages into the section.\<close>

lemma section_round:
  fixes va_start ss pg c :: uint64
  assumes v: "unat va_start = 4096 * v" "4096 * (v + k) + 4096 \<le> 2 ^ 38" and ss: "unat va_start + unat ss < 2 ^ 38"
    and pg_def: "pg = va_start + of_nat (4096 * k)" and c_def: "c = (if min (va_start + ss) (pg + PGSIZE) > pg then min (va_start + ss) (pg + PGSIZE) - pg else 0)"
  shows "unat pg = 4096 * (v + k)" "max va_start pg = pg" "pg < MAXVA" "unat c = min (unat ss - 4096 * k) 4096"
    "4096 * Suc k < unat ss \<Longrightarrow> min (va_start + ss) (pg + PGSIZE) - pg = PGSIZE" "pg + PGSIZE = va_start + of_nat (4096 * Suc k)"
proof -
  have o: "unat (of_nat (4096 * k) :: uint64) = 4096 * k" using v(2) by (intro unat_of_nat_64) simp
  show u: "unat pg = 4096 * (v + k)"
    unfolding pg_def using v o by (subst unat_add_no_overflow) (simp_all add: algebra_simps)
  then show "max va_start pg = pg" using v(1) by (intro max_absorb2) (simp add: word_le_nat_alt)
  show "pg < MAXVA" using u v(2) by (simp add: word_less_nat_alt unat_MAXVA)
  show "pg + PGSIZE = va_start + of_nat (4096 * Suc k)" by (simp add: pg_def PGSIZE_def algebra_simps)
  have ue: "unat (pg + PGSIZE) = 4096 * (v + k) + 4096"
    using u v(2) by (subst unat_add_no_overflow) (simp_all add: PGSIZE_def)
  have us: "unat (va_start + ss) = 4096 * v + unat ss"
    using v(1) ss by (subst unat_add_no_overflow) simp_all
  have m: "unat (min (va_start + ss) (pg + PGSIZE)) = min (4096 * v + unat ss) (4096 * (v + k) + 4096)"
    using ue us by (simp add: min_def word_le_nat_alt)
  show "unat c = min (unat ss - 4096 * k) 4096"
    using m u unfolding c_def by (auto simp: word_less_nat_alt unat_diff_64)
  show "min (va_start + ss) (pg + PGSIZE) - pg = PGSIZE" if "4096 * Suc k < unat ss"
  proof -
    have "pg + PGSIZE \<le> va_start + ss" using that ue us by (simp add: word_le_nat_alt)
    then show ?thesis by (simp add: min_absorb2)
  qed
qed

lemma loaded_cong:
  assumes "loaded_pages m T F m' T' F' lo n perm cont dp" and "\<And>i k. i \<in> {lo..<lo + n} \<Longrightarrow> k < 4096 \<Longrightarrow> cont i k = cont' i k"
  shows "loaded_pages m T F m' T' F' lo n perm cont' dp"
  using assms unfolding loaded_pages_def by simp

lemma section_step:
  fixes s :: "'z buddy_scheme" and ss pg c :: uint64
  assumes inv: "pt_inv s T F" and img: "image_at (mem s) T F src (unat ss) img"
    and v: "unat va_start = 4096 * v" and b: "4096 * (v + k) + 4096 \<le> 2 ^ 38" "unat va_start + unat ss < 2 ^ 38"
    and pg: "pg = va_start + of_nat (4096 * k)" and less: "pg < va_end"
    and ptr: "4096 * k < unat ss \<Longrightarrow> ptr = src + of_nat (4096 * k)" and none: "leaf (mem s) T pg = None"
    and loop_def: "loop = map_section_loop (page_addr (pt_root T)) va_start va_end (va_start + ss) perm va_start"
  shows "\<exists>T' F' s'. pt_grows s T F s' T' F' \<and>
    (loop pg ptr s = loop (pg + PGSIZE) (ptr + (min (va_start + ss) (pg + PGSIZE) - pg)) s' \<and>
     (\<exists>dp. loaded_pages (mem s) T F (mem s') T' F' (v + k) 1 perm (section_bytes v (unat ss) img) dp) \<or>
     loop pg ptr s = bind (free_memory (page_addr (pt_root T)) va_start (of_nat (4096 * k))) (\<lambda>_. return (-1)) s' \<and>
     (\<forall>w. leaf (mem s') T' w = leaf (mem s) T w) \<and> (\<exists>p. no_pair (F' - {p})))"
proof -
  define de where "de = min (va_start + ss) (pg + PGSIZE)"
  define c where "c = (if de > pg then de - pg else 0)"
  note rd = section_round [OF v b pg c_def [unfolded de_def], folded de_def]
  have byte: "ptr + of_nat j = src + of_nat (4096 * k + j)" "4096 * k + j < unat ss" if "j < unat c" for j
    using that rd(4) ptr by (auto simp: add.assoc)
  have 1: "unat c \<le> 4096" using rd(4) by simp
  have 2: "ptr \<noteq> 0" if "c \<noteq> 0"
  proof -
    have "0 < unat c" using that by (simp add: unat_gt_0)
    from byte [OF this] img show ?thesis by (auto simp: image_at_def)
  qed
  have 3: "page_of (ptr + of_nat j) \<notin> F" if "j < unat c" for j
    unfolding byte(1) [OF that] using byte(2) [OF that] img unfolding image_at_def by blast
  obtain T' F' s' where g: "pt_grows s T F s' T' F'" and r:
    "map_page_for_user (page_addr (pt_root T)) pg ptr c perm s = Ok 0 s' \<and>
     (\<exists>dp. loaded_pages (mem s) T F (mem s') T' F' (v + k) 1 perm (\<lambda>_ j. if j < unat c then mem s (ptr + of_nat j) else 0) dp) \<or>
     map_page_for_user (page_addr (pt_root T)) pg ptr c perm s = Ok (-1) s' \<and>
     (\<forall>w. leaf (mem s') T' w = leaf (mem s) T w) \<and> (\<exists>p. no_pair (F' - {p}))"
    using load_page [OF inv rd(1,3) none 1 2 3, of perm] by blast
  have unroll: "loop pg ptr s = bind (map_page_for_user (page_addr (pt_root T)) pg ptr c perm) (\<lambda>r.
      if r \<noteq> 0 then bind (free_memory (page_addr (pt_root T)) va_start (pg - va_start)) (\<lambda>_. return (-1))
      else loop (pg + PGSIZE) (ptr + (de - pg))) s"
    unfolding loop_def
    by (subst map_section_loop.simps) (simp only: less rd(2) Let_def if_True de_def [symmetric] c_def [symmetric])
  have "(if j < unat c then mem s (ptr + of_nat j) else 0) = section_bytes v (unat ss) img (v + k) j" if "j < 4096" for j
  proof (cases "j < unat c")
    case True
    have "mem s (ptr + of_nat j) = img (4096 * k + j)"
      unfolding byte(1) [OF True] using byte(2) [OF True] img unfolding image_at_def by blast
    with True byte(2) show ?thesis by (simp add: section_bytes_def)
  qed (use rd(4) that in \<open>auto simp: section_bytes_def\<close>)
  then have "loaded_pages (mem s) T F (mem s') T' F' (v + k) 1 perm (section_bytes v (unat ss) img) dp"
    if "loaded_pages (mem s) T F (mem s') T' F' (v + k) 1 perm (\<lambda>_ j. if j < unat c then mem s (ptr + of_nat j) else 0) dp" for dp
    by (intro loaded_cong [OF that]) simp
  moreover have "pg - va_start = of_nat (4096 * k)" by (simp add: pg)
  ultimately show ?thesis using g r unfolding unroll de_def [symmetric]
    by (intro exI [of _ T'] exI [of _ F'] exI [of _ s']) (auto simp: bind_Ok)
qed

lemma section_loop_ok:
  fixes s :: "'z buddy_scheme" and ss :: uint64
  assumes "pt_inv s T F" and "image_at (mem s) T F src (unat ss) img"
    and "unat va_start = 4096 * v" and "4096 * (v + k + n) \<le> 2 ^ 38" and "unat va_start + unat sz < 2 ^ 38" and "unat ss \<le> unat sz"
    and "unat sz \<le> 4096 * (k + n)" and "n \<noteq> 0 \<Longrightarrow> 4096 * (k + n) < unat sz + 4096"
    and "4096 * k < unat ss \<Longrightarrow> ptr = src + of_nat (4096 * k)"
    and "\<And>w. w < MAXVA \<Longrightarrow> vpage w \<in> {v + k..<v + k + n} \<Longrightarrow> leaf (mem s) T w = None"
  shows "\<exists>j dp T' F' s'. j \<le> n \<and> pt_grows s T F s' T' F' \<and>
    loaded_pages (mem s) T F (mem s') T' F' (v + k) j perm (section_bytes v (unat ss) img) dp \<and>
    (j = n \<and> map_section_loop (page_addr (pt_root T)) va_start (va_start + sz) (va_start + ss) perm va_start (va_start + of_nat (4096 * k)) ptr s = Ok 0 s' \<or>
     j < n \<and> (\<exists>p. no_pair (F' - {p})) \<and>
       map_section_loop (page_addr (pt_root T)) va_start (va_start + sz) (va_start + ss) perm va_start (va_start + of_nat (4096 * k)) ptr s =
       bind (free_memory (page_addr (pt_root T)) va_start (of_nat (4096 * (k + j)))) (\<lambda>_. return (-1)) s')"
  using assms
proof (induction n arbitrary: k s T F ptr)
  case 0
  have o: "unat (of_nat (4096 * k) :: uint64) = 4096 * k" using "0.prems"(4) by (intro unat_of_nat_64) simp
  have "unat (va_start + of_nat (4096 * k)) = 4096 * (v + k)" "unat (va_start + sz) = 4096 * v + unat sz"
    using "0.prems"(3-5) o by (subst unat_add_no_overflow; simp)+
  then have "\<not> va_start + of_nat (4096 * k) < va_start + sz" using "0.prems"(7) by (simp add: word_less_nat_alt)
  then have "map_section_loop (page_addr (pt_root T)) va_start (va_start + sz) (va_start + ss) perm va_start (va_start + of_nat (4096 * k)) ptr s = Ok 0 s"
    by (simp add: map_section_loop.simps return_def)
  then show ?case using pt_grows_refl [OF "0.prems"(1)] by (intro exI [of _ 0] exI [of _ id] exI [of _ T] exI [of _ F] exI [of _ s])
      (simp add: loaded_pages_def)
next
  case (Suc n)
  define pg where "pg = va_start + of_nat (4096 * k)"
  let ?loop = "map_section_loop (page_addr (pt_root T)) va_start (va_start + sz) (va_start + ss) perm va_start"
  have b: "4096 * (v + k) + 4096 \<le> 2 ^ 38" "unat va_start + unat ss < 2 ^ 38" using Suc.prems(4,5,6) by simp_all
  note rd = section_round [OF Suc.prems(3) b pg_def refl]
  have "unat (va_start + sz) = 4096 * v + unat sz" using Suc.prems(3,5) by (subst unat_add_no_overflow) simp_all
  then have less: "pg < va_start + sz" using rd(1) Suc.prems(8) by (simp add: word_less_nat_alt)
  have "vpage pg = v + k" using rd(1) by (simp add: vpage_def)
  then have none: "leaf (mem s) T pg = None" using Suc.prems(10) rd(3) by simp
  obtain U G t where g: "pt_grows s T F t U G" and r:
    "?loop pg ptr s = ?loop (pg + PGSIZE) (ptr + (min (va_start + ss) (pg + PGSIZE) - pg)) t \<and>
     (\<exists>dp. loaded_pages (mem s) T F (mem t) U G (v + k) 1 perm (section_bytes v (unat ss) img) dp) \<or>
     ?loop pg ptr s = bind (free_memory (page_addr (pt_root T)) va_start (of_nat (4096 * k))) (\<lambda>_. return (-1)) t \<and>
     (\<forall>w. leaf (mem t) U w = leaf (mem s) T w) \<and> (\<exists>p. no_pair (G - {p}))"
    using section_step [OF Suc.prems(1-3) b pg_def less Suc.prems(9) none refl, of perm] by blast
  from r show ?case
  proof (elim disjE conjE exE)
    fix p assume "?loop pg ptr s = bind (free_memory (page_addr (pt_root T)) va_start (of_nat (4096 * k))) (\<lambda>_. return (-1)) t"
      and lf: "\<forall>w. leaf (mem t) U w = leaf (mem s) T w" and "no_pair (G - {p})"
    moreover have "loaded_pages (mem s) T F (mem t) U G (v + k) 0 perm (section_bytes v (unat ss) img) (\<lambda>i. i)"
      using lf by (simp add: loaded_pages_def)
    ultimately show ?thesis using g unfolding pg_def
      by (intro exI [of _ 0] exI [of _ "\<lambda>i. i"] exI [of _ U] exI [of _ G] exI [of _ t]) auto
  next
    fix dp1 assume run: "?loop pg ptr s = ?loop (pg + PGSIZE) (ptr + (min (va_start + ss) (pg + PGSIZE) - pg)) t"
      and pc: "loaded_pages (mem s) T F (mem t) U G (v + k) 1 perm (section_bytes v (unat ss) img) dp1"
    have g': "pt_inv t U G" "G \<subseteq> F" "pt_root U = pt_root T" "tables U \<subseteq> tables T \<union> F"
      and m1: "\<And>x. page_of x \<notin> F \<union> tables T \<Longrightarrow> mem t x = mem s x" using g by (auto simp: pt_grows_def)
    let ?ptr = "ptr + (min (va_start + ss) (pg + PGSIZE) - pg)"
    have img: "image_at (mem t) U G src (unat ss) img"
      by (rule image_kept [OF Suc.prems(2)]) (use g' in blast, erule m1)
    have bs: "4096 * (v + Suc k + n) \<le> 2 ^ 38" "unat sz \<le> 4096 * (Suc k + n)" "n \<noteq> 0 \<Longrightarrow> 4096 * (Suc k + n) < unat sz + 4096"
      using Suc.prems(4,7,8) by simp_all
    have pt: "?ptr = src + of_nat (4096 * Suc k)" if "4096 * Suc k < unat ss"
      using rd(5) [OF that] Suc.prems(9) that by (simp add: PGSIZE_def)
    have un: "leaf (mem t) U w = None" if "w < MAXVA" "vpage w \<in> {v + Suc k..<v + Suc k + n}" for w
      using pc Suc.prems(10) [of w] that by (auto simp: loaded_pages_def)
    from Suc.IH [OF g'(1) img Suc.prems(3) bs(1) Suc.prems(5,6) bs(2,3) pt un, unfolded g'(3) rd(6) [symmetric]]
    obtain j dp T' F' s' where j: "j \<le> n" "pt_grows t U G s' T' F'"
      "loaded_pages (mem t) U G (mem s') T' F' (v + Suc k) j perm (section_bytes v (unat ss) img) dp"
      and rr: "j = n \<and> ?loop (pg + PGSIZE) ?ptr t = Ok 0 s' \<or> j < n \<and> (\<exists>p. no_pair (F' - {p})) \<and>
        ?loop (pg + PGSIZE) ?ptr t = bind (free_memory (page_addr (pt_root T)) va_start (of_nat (4096 * (Suc k + j)))) (\<lambda>_. return (-1)) s'"
      by blast
    have "loaded_pages (mem s) T F (mem s') T' F' (v + k) (Suc j) perm (section_bytes v (unat ss) img) (dp(v + k := dp1 (v + k)))"
    proof (rule loaded_pages_step [OF pc])
      show "loaded_pages (mem t) U G (mem s') T' F' (Suc (v + k)) j perm (section_bytes v (unat ss) img) dp" using j(3) by simp
      show "F \<subseteq> {..<2 ^ 51}" using pool_small pt_invD(1) [OF Suc.prems(1)] by blast
      show "F' \<subseteq> G" "tables T' \<subseteq> tables U \<union> G" "\<And>x. page_of x \<notin> G \<union> tables U \<Longrightarrow> mem s' x = mem t x"
        using j(2) by (auto simp: pt_grows_def)
    qed (use g' in auto)
    moreover have "pt_grows s T F s' T' F'" using g j(2) by (rule pt_grows_trans)
    moreover have "k + Suc j = Suc k + j" by simp
    ultimately show ?thesis using rr j(1) run unfolding pg_def
      by (intro exI [of _ "Suc j"]) (metis Suc_le_mono Suc_less_eq)
  qed
qed

text \<open>The pages loaded so far, as \<open>free_memory\<close> finds them.\<close>

lemma pool_pages: "page_pool s F \<Longrightarrow> p \<in> F \<Longrightarrow> valid_block 0 p"
  unfolding page_pool_def using free_pages_in_range by (fastforce simp: valid_block_def)

lemma loaded_owned:
  assumes "loaded_pages m T F m' T' F' v j perm cont dp" and "page_pool s F" and perm: "perm_ok perm" "perm AND NOT PTE_V \<noteq> 0"
  shows "mapped_to m' T' v j dp" "owned F' T' v j dp"
proof -
  note l = assms(1) [unfolded loaded_pages_def]
  have sub: "dp ` {v..<v + j} \<subseteq> F - F' - tables T'" using l by blast
  have val: "valid_block 0 (dp i)" if "i \<in> {v..<v + j}" for i using pool_pages [OF assms(2)] sub that by blast
  have "PTE2PA (page_entry (page_addr (dp i)) perm) = page_addr (dp i)" if "i \<in> {v..<v + j}" for i
    using perm(1) valid_page_small [OF val [OF that]] by (simp add: page_entry_def PTE2PA_PA2PTE PGROUNDDOWN_page)
  then show "mapped_to m' T' v j dp"
    using l [THEN conjunct2, THEN conjunct2, THEN conjunct2] page_entry_flags [OF perm] unfolding mapped_to_def by simp
  show "owned F' T' v j dp" using l sub val by (auto simp: owned_def image_subset_iff)
qed

text \<open>Freeing them again.\<close>

lemma section_undone:
  fixes s :: "'z buddy_scheme"
  assumes g: "pt_grows s T F s' T' F'" and l: "loaded_pages (mem s) T F (mem s') T' F' v j perm cont dp" and inv: "pt_inv s T F"
    and perm: "perm_ok perm" "perm AND NOT PTE_V \<noteq> 0" and v: "unat va_start = 4096 * v" "4096 * (v + j) \<le> 2 ^ 38"
    and un: "\<And>w. w < MAXVA \<Longrightarrow> vpage w \<in> {v..<v + j} \<Longrightarrow> leaf (mem s) T w = None"
  shows "\<exists>u. free_memory (page_addr (pt_root T)) va_start (of_nat (4096 * j)) s' = Ok () u \<and>
    pt_grows s T F u T' (F' \<union> dp ` {v..<v + j}) \<and> (\<forall>w<MAXVA. leaf (mem u) T' w = leaf (mem s) T w)"
proof -
  let ?D = "dp ` {v..<v + j}" and ?sz = "of_nat (4096 * j) :: uint64"
  have g': "pt_inv s' T' F'" "F' \<subseteq> F" "pt_root T' = pt_root T" "tables T' \<subseteq> tables T \<union> F"
    and m': "\<And>x. page_of x \<notin> F \<union> tables T \<Longrightarrow> mem s' x = mem s x" using g by (auto simp: pt_grows_def)
  note ow = loaded_owned [OF l pt_invD(1) [OF inv] perm]
  note lf = l [unfolded loaded_pages_def, THEN conjunct2, THEN conjunct2, THEN conjunct2, rule_format]
  have D: "?D \<subseteq> F" using l by (auto simp: loaded_pages_def)
  have sj: "unat ?sz = 4096 * j" using v(2) by (intro unat_of_nat_64) simp
  have al: "PGROUNDDOWN va_start = va_start" using v(1) by (simp add: uint64_eq_iff_unat unat_PGROUNDDOWN)
  have "\<exists>u. free_memory_loop (page_addr (pt_root T')) va_start ?sz (of_nat (4096 * 0)) s' = Ok () u \<and>
      pt_inv u T' (F' \<union> dp ` {v + 0..<v + 0 + j}) \<and>
      (\<forall>w<MAXVA. leaf (mem u) T' w = (if vpage w \<in> {v + 0..<v + 0 + j} then None else leaf (mem s') T' w)) \<and>
      (\<forall>x. page_of x \<notin> F' \<union> dp ` {v + 0..<v + 0 + j} \<union> tables T' \<longrightarrow> mem u x = mem s' x)"
    by (rule free_loop_ok [OF g'(1)]) (use ow v sj in simp_all)
  then obtain u where u: "free_memory (page_addr (pt_root T)) va_start ?sz s' = Ok () u" "pt_inv u T' (F' \<union> ?D)"
    and lu: "\<And>w. w < MAXVA \<Longrightarrow> leaf (mem u) T' w = (if vpage w \<in> {v..<v + j} then None else leaf (mem s') T' w)"
    and mu: "\<And>x. page_of x \<notin> F' \<union> ?D \<union> tables T' \<Longrightarrow> mem u x = mem s' x"
    by (auto simp: g'(3) free_memory_def al)
  have "leaf (mem u) T' w = leaf (mem s) T w" if w: "w < MAXVA" for w
    using lu [OF w] un [OF w] lf [OF w] by (simp split: if_splits)
  moreover have "mem u x = mem s x" if "page_of x \<notin> F" "page_of x \<notin> tables T" for x
  proof -
    have "page_of x \<notin> F' \<union> ?D \<union> tables T'" using that g'(2,4) D by blast
    from mu [OF this] m' [of x] that show ?thesis by simp
  qed
  then have "pt_grows s T F u T' (F' \<union> ?D)" using u(2) g' D by (simp add: pt_grows_def)
  ultimately show ?thesis using u(1) by blast
qed


text \<open>A word in the page \<open>0x80200\<close>, loaded at page 1 of the address space \<open>small_tree\<close>, with one free page.\<close>

definition section_state :: buddy where
  "section_state = fork_state\<lparr>mem := store64 fork_memory (slot 0x80200 0) 0x1122334455667788\<rparr>"

lemma section_state_ok: "pt_inv section_state small_tree {0x80300}"
  "w < MAXVA \<Longrightarrow> vpage w = 1 \<Longrightarrow> leaf (mem section_state) small_tree w = None"
  "image_at (mem section_state) small_tree {0x80300} (page_addr 0x80200) 8 (\<lambda>j. mem section_state (page_addr 0x80200 + of_nat j))"
proof -
  have m: "mem section_state x = mem fork_state x" if "page_of x \<noteq> 0x80200" for x
    using that by (simp add: section_state_def fork_state_def store_slot_other)
  have "page_pool fork_state {0x80300}" using fork_target by (simp add: pt_inv_def)
  then have pool: "page_pool section_state {0x80300}"
    by (rule page_pool_cong) (simp_all add: m, simp add: section_state_def)
  have src: "tree_repr (mem fork_state) small_tree" "tree_shape small_tree" using fork_source by (simp_all add: source_space_def)
  have "pt_inv fork_state small_tree {0x80300}" using fork_target src by (simp add: pt_inv_def fork_tables)
  note fr = pt_inv_frame [OF this pool]
  have "mem section_state x = mem fork_state x" if "page_of x \<in> tables small_tree" for x using m that by (auto simp: fork_tables)
  with fr have i: "pt_inv section_state small_tree {0x80300}" and l: "leaf (mem section_state) small_tree w = leaf (mem fork_state) small_tree w" for w
    by (simp_all add: fork_tables)
  show "pt_inv section_state small_tree {0x80300}" by (rule i)
  have "vpn 0 = (0, 0, 0)" by (simp add: vpn_def PX_def)
  then show "leaf (mem section_state) small_tree w = None" if "w < MAXVA" "vpage w = 1"
    using vpn_vpage [of 0 w] that by (simp add: l fork_state_def fork_leaf vpage_def MAXVA_def)
  have pg: "page_of (page_addr 0x80200 + of_nat j) = 0x80200" if "j < 8" for j
    using that by (intro page_byte) simp_all
  have "page_addr 0x80200 + of_nat j \<noteq> 0" if "j < 8" for j using pg [OF that] by (auto simp: page_of_def)
  with pg show "image_at (mem section_state) small_tree {0x80300} (page_addr 0x80200) 8 (\<lambda>j. mem section_state (page_addr 0x80200 + of_nat j))"
    by (simp add: image_at_def fork_tables)
qed


end
