(* ===== verification/Space_Invariant.thy ===== *)
theory Space_Invariant
  imports Copy_Memory
begin

text \<open>
  An address space under any sequence of the operations on it: its page table stays a well-formed
  tree of tables, which no page handed out to a user and no free page is part of.
\<close>

section \<open>Steps\<close>

text \<open>
  A state with the pages that have been handed out. Pages are allocated and given back, mapped and
  unmapped in the page table with root \<open>r\<close>, and written, as a user does, in any way.
\<close>

type_synonym space_state = "buddy \<times> nat set"

inductive space_step :: "nat \<Rightarrow> space_state \<Rightarrow> space_state \<Rightarrow> bool" for r where
  get_page: "allocate_for_user 0 s = Ok a s' \<Longrightarrow> a \<noteq> 0 \<Longrightarrow> space_step r (s, D) (s', insert (page_of a) D)"
| no_page: "allocate_for_user 0 s = Ok 0 s' \<Longrightarrow> space_step r (s, D) (s', D)"
| free_page: "p \<in> D \<Longrightarrow> deallocate (page_addr p) 0 s = Ok () s' \<Longrightarrow> space_step r (s, D) (s', D - {p})"
| map: "va < MAXVA \<Longrightarrow> perm_ok f \<Longrightarrow> f AND NOT PTE_V \<noteq> 0 \<Longrightarrow> map_page (page_addr r) va pa f s = Ok x s' \<Longrightarrow>
    space_step r (s, D) (s', D)"
| unmap: "va < MAXVA \<Longrightarrow> unmap_page (page_addr r) va s = Ok x s' \<Longrightarrow> space_step r (s, D) (s', D)"
| user_write: "page_of a \<in> D \<Longrightarrow> space_step r (s, D) (s\<lparr>mem := (mem s)(a := b)\<rparr>, D)"

inductive space_run :: "nat \<Rightarrow> space_state \<Rightarrow> space_state \<Rightarrow> bool" for r where
  stay: "space_run r c c"
| more: "space_run r c c' \<Longrightarrow> space_step r c' c'' \<Longrightarrow> space_run r c c''"

section \<open>Well-formed address spaces\<close>

text \<open>
  Entries of the lowest tables are pages, not tables, and the pages handed out are neither free
  nor tables.
\<close>

definition space_typed :: "nat \<Rightarrow> space_state \<Rightarrow> page_tree \<Rightarrow> nat set \<Rightarrow> bool" where
  "space_typed r c T F \<longleftrightarrow> pt_inv (fst c) T F \<and> pt_root T = r \<and>
     (\<forall>w e. leaf (mem (fst c)) T w = Some e \<longrightarrow> PTE_FLAGS e \<noteq> PTE_V) \<and>
     (\<forall>p\<in>snd c. valid_block 0 p \<and> p \<notin> F \<and> p \<notin> tables T)"

lemma space_typedD:
  assumes "space_typed r (s, D) T F"
  shows "pt_inv s T F" "pt_root T = r" "\<And>w e. leaf (mem s) T w = Some e \<Longrightarrow> PTE_FLAGS e \<noteq> PTE_V"
    "\<And>p. p \<in> D \<Longrightarrow> valid_block 0 p" "\<And>p. p \<in> D \<Longrightarrow> p \<notin> F" "\<And>p. p \<in> D \<Longrightarrow> p \<notin> tables T"
  using assms by (auto simp: space_typed_def)

lemma typed_get:
  assumes t: "space_typed r (s, D) T F" and a: "allocate_for_user 0 s = Ok a s'" "a \<noteq> 0"
  shows "\<exists>T F. space_typed r (s', insert (page_of a) D) T F"
proof -
  note d = space_typedD [OF t]
  have tF: "tables T \<inter> F = {}" using d(1) by (simp add: pt_inv_def)
  obtain q where q: "a = page_addr q" "q \<in> F" "valid_block 0 q" "page_pool s' (F - {q})" "frame F s s'"
    using allocate_page [OF pt_invD(1) [OF d(1)]] a by auto
  have pq: "page_of a = q" using q(1) valid_page_small [OF q(3)] by (simp add: page_of_page_addr)
  have m: "mem s' x = mem s x" if "page_of x \<in> tables T" for x using that tF q(5) by (auto simp: frame_def)
  have "(F - {q}) \<inter> tables T = {}" using tF by blast
  note k = pt_inv_frame [OF d(1) q(4) this m]
  then have "space_typed r (s', insert q D) T (F - {q})" using d q(2,3) tF by (auto simp: space_typed_def)
  then show ?thesis unfolding pq by blast
qed

lemma typed_free:
  assumes t: "space_typed r (s, D) T F" and p: "p \<in> D" and f: "deallocate (page_addr p) 0 s = Ok () s'"
  shows "space_typed r (s', D - {p}) T (insert p F)"
proof -
  note d = space_typedD [OF t]
  have "pt_inv s' T (insert p F)" "\<And>w. leaf (mem s') T w = leaf (mem s) T w"
    using page_given_back [OF d(1) d(4-6) [OF p]] f by auto
  then show ?thesis using d by (auto simp: space_typed_def)
qed

lemma typed_map:
  assumes t: "space_typed r (s, D) T F" and va: "va < MAXVA" and f: "perm_ok f" "f AND NOT PTE_V \<noteq> 0"
    and run: "map_page (page_addr r) va pa f s = Ok x s'"
  shows "\<exists>T' F'. space_typed r (s', D) T' F'"
proof -
  note d = space_typedD [OF t]
  have none: "leaf (mem s) T va = None" using map_page_mapped [OF d(1) va, of _ pa f] run d(2) by fastforce
  obtain T' F' where g: "pt_grows s T F s' T' F'" and l: "(\<forall>w. leaf (mem s') T' w = (if vpn w = vpn va then Some (page_entry pa f) else leaf (mem s) T w)) \<or>
      (\<forall>w. leaf (mem s') T' w = leaf (mem s) T w)"
    using map_page_result [OF d(1) va none, of pa f] run d(2) by auto
  have "PTE_FLAGS e \<noteq> PTE_V" if "leaf (mem s') T' w = Some e" for w e
    using l
  proof
    assume "\<forall>w. leaf (mem s') T' w = (if vpn w = vpn va then Some (page_entry pa f) else leaf (mem s) T w)"
    then have "leaf (mem s') T' w = (if vpn w = vpn va then Some (page_entry pa f) else leaf (mem s) T w)" by blast
    then show ?thesis using d(3) [of w e] that page_entry_flags [OF f, of pa] by (simp split: if_splits)
  qed (use d(3) [of w e] that in simp)
  moreover have "p \<notin> F' \<and> p \<notin> tables T'" if "p \<in> D" for p
    using g d(5,6) [OF that] by (auto simp: pt_grows_def)
  ultimately have "space_typed r (s', D) T' F'" using g d(2,4) by (simp add: space_typed_def pt_grows_def)
  then show ?thesis by blast
qed

lemma typed_unmap:
  assumes t: "space_typed r (s, D) T F" and va: "va < MAXVA" and run: "unmap_page (page_addr r) va s = Ok x s'"
  shows "space_typed r (s', D) T F"
proof -
  note d = space_typedD [OF t]
  obtain y t where "unmap_page (page_addr r) va s = Ok y t \<and> pt_grows s T F t T F \<and>
      (\<forall>w e. leaf (mem t) T w = Some e \<longrightarrow> leaf (mem s) T w = Some e)"
    using unmap_cases [OF d(1) va] d(3) unfolding d(2) run by blast
  moreover from this have "t = s'" using run by simp
  ultimately have g: "pt_grows s T F s' T F" and l: "\<And>w e. leaf (mem s') T w = Some e \<Longrightarrow> leaf (mem s) T w = Some e" by blast+
  have "PTE_FLAGS e \<noteq> PTE_V" if "leaf (mem s') T w = Some e" for w e using d(3) [OF l [OF that]] .
  then show ?thesis using d(2,4-6) g by (simp add: space_typed_def pt_grows_def)
qed

lemma typed_write:
  assumes t: "space_typed r (s, D) T F" and a: "page_of a \<in> D"
  shows "space_typed r (s\<lparr>mem := (mem s)(a := b)\<rparr>, D) T F"
proof -
  note d = space_typedD [OF t]
  let ?s = "s\<lparr>mem := (mem s)(a := b)\<rparr>"
  have pool: "page_pool ?s F" by (rule page_pool_cong [OF pt_invD(1) [OF d(1)]]) (use d(5) [OF a] in auto)
  have tF: "F \<inter> tables T = {}" using d(1) by (auto simp: pt_inv_def)
  have m: "mem ?s x = mem s x" if "page_of x \<in> tables T" for x using that d(6) [OF a] by auto
  show ?thesis using pt_inv_frame [OF d(1) pool tF m] d by (auto simp: space_typed_def)
qed

lemma typed_step:
  assumes "space_step r (s, D) (s', D')" and t: "space_typed r (s, D) T F"
  shows "\<exists>T' F'. space_typed r (s', D') T' F'"
  using assms(1)
proof (cases rule: space_step.cases)
  case get_page
  then show ?thesis using typed_get [OF t] by blast
next
  case no_page
  then have "s' = s" using allocate_page [OF pt_invD(1) [OF space_typedD(1) [OF t]]] by auto
  then show ?thesis using t no_page by blast
next
  case free_page
  then show ?thesis using typed_free [OF t] by blast
next
  case map
  then show ?thesis using typed_map [OF t] by blast
next
  case unmap
  then show ?thesis using typed_unmap [OF t] by blast
next
  case user_write
  then show ?thesis using typed_write [OF t] by blast
qed

text \<open>
  C13. Whatever sequence of allocating, freeing, mapping and unmapping pages and of writing to pages
  handed out is run on a well-formed address space, it stays well-formed: from its root it is a
  tree of tables in which no table is used twice, every valid entry of a lowest table is a page,
  the free pages are the buddy allocator's intact pool, and no page handed out is free or a table.
\<close>

theorem address_space_stays_typed:
  assumes "space_run r c c'" and "space_typed r c T F"
  shows "\<exists>T' F'. space_typed r c' T' F'"
  using assms
proof (induction rule: space_run.induct)
  case (more c c' c'')
  then show ?case by (cases c'; cases c'') (blast dest: typed_step)
qed blast

theorem address_space_stays_typed_witness:
  "\<exists>s' T' F'. space_run 0x80110 (fork_state, {}) (s', {0x80300}) \<and> space_typed 0x80110 (s', {0x80300}) T' F'"
proof -
  have t: "space_typed 0x80110 (fork_state, {}) (empty_tree 0x80110) {0x80300}"
    using fork_target by (simp add: space_typed_def) (simp add: empty_tree_def)
  obtain s' where "allocate_for_user 0 fork_state = Ok (page_addr 0x80300) s'" "page_addr 0x80300 \<noteq> 0"
    using allocate_page [OF pt_invD(1) [OF fork_target]] by auto
  then have "space_step 0x80110 (fork_state, {}) (s', insert (page_of (page_addr 0x80300)) {})" by (rule get_page)
  then have "space_step 0x80110 (fork_state, {}) (s', {0x80300})" by (simp add: page_of_page_addr)
  then have "space_run 0x80110 (fork_state, {}) (s', {0x80300})" by (blast intro: stay more)
  with address_space_stays_typed [OF this t] show ?thesis by blast
qed

end
