(* ===== verification/Free_Pagetable.thy ===== *)
theory Free_Pagetable
  imports Copy_Memory
begin

text \<open>
  Giving back the tables of an address space: \<open>free_pagetable\<close> of \<open>kernel/virtual_memory.c\<close>.
\<close>

section \<open>The loops over the entries\<close>

lemma entry_index: "n < 512 \<Longrightarrow> (of_nat n :: uint64) < 512"
  by (simp add: word_less_nat_alt unat_of_nat_64)

lemma load_entry:
  assumes "sub_table m p i = map_option table_entry x"
  shows "load64 m (slot p i) AND PTE_V \<noteq> 0 \<longleftrightarrow> x \<noteq> None" and "x = Some q \<Longrightarrow> load64 m (slot p i) = table_entry q"
  using assms by (cases x; simp add: sub_table_def Let_def split: if_splits)+

text \<open>Below the root the entries are read and left alone.\<close>

lemma entries_skipped:
  fixes s :: "'z buddy_scheme"
  assumes "page_addr p \<noteq> 0"
  shows "free_entries f (page_addr p) (Suc 0) n s = Ok () s"
proof (induction n)
  case (Suc n)
  have "get_field (page_addr p) off s = Ok (load64 (mem s) (page_addr p + off)) s" for off
    using assms by (simp add: run_simps)
  with Suc show ?case by (simp add: bind_Ok if_then_def return_def)
qed (simp add: return_def)

lemma table_valid: "table_page p \<Longrightarrow> valid_block 0 p"
  by (simp add: table_page_def valid_block_def)

lemma table_given_back:
  fixes s :: "'z buddy_scheme"
  assumes "page_pool s F" and "table_page p" and "p \<notin> F"
  shows "\<exists>s'. deallocate (page_addr p) 0 s = Ok () s' \<and> page_pool s' (insert p F) \<and> frame (insert p F) s s'"
proof -
  have "block 0 p = {p}" by (auto simp: block_def)
  then show ?thesis using page_pool_release [OF assms(1) table_valid [OF assms(2)]] assms(3) by auto
qed

lemma middle_freed:
  fixes s :: "'z buddy_scheme"
  assumes "table_page p"
  shows "free_pagetable_internal (Suc 0) (page_addr p) s = deallocate (page_addr p) 0 s"
  using entries_skipped [OF table_nonzero [OF assms], of "free_pagetable_internal 0" 512 s]
  by (simp add: bind_Ok del: free_entries.simps)

text \<open>The middle tables entered at the last \<open>n\<close> indices of the root.\<close>

definition middle_from :: "page_tree \<Rightarrow> nat \<Rightarrow> nat set" where
  "middle_from T n = {p. \<exists>i. 512 - n \<le> i \<and> i < 512 \<and> pt_mid T (of_nat i) = Some p}"

lemma middle_from_Suc:
  assumes "n < 512"
  shows "middle_from T (Suc n) = set_option (pt_mid T (of_nat (512 - Suc n))) \<union> middle_from T n"
proof -
  have "512 - Suc n \<le> i \<longleftrightarrow> i = 512 - Suc n \<or> 512 - n \<le> i" if "i < 512" for i using assms that by auto
  moreover have "512 - Suc n < 512" by simp
  ultimately show ?thesis unfolding middle_from_def by auto
qed

lemma middle_new:
  assumes "tree_shape T" and "n < 512" and "pt_mid T (of_nat (512 - Suc n)) = Some p"
  shows "p \<notin> middle_from T n"
proof
  assume "p \<in> middle_from T n"
  then obtain j where j: "512 - n \<le> j" "j < 512" "pt_mid T (of_nat j) = Some p" by (auto simp: middle_from_def)
  have "inj_on (pt_mid T) (dom (pt_mid T))" using assms(1) by (simp add: tree_shape_def)
  then have "(of_nat j :: uint64) = of_nat (512 - Suc n)" using j(3) assms(3) by (auto simp: inj_on_def dom_def)
  then have "unat (of_nat j :: uint64) = unat (of_nat (512 - Suc n) :: uint64)" by (rule arg_cong)
  moreover have "unat (of_nat j :: uint64) = j" "unat (of_nat (512 - Suc n) :: uint64) = 512 - Suc n"
    using j(2) by (intro unat_of_nat_64; simp)+
  ultimately show False using j(1) assms(2) by linarith
qed

lemma root_freed:
  fixes s :: "'z buddy_scheme"
  assumes "page_pool s F" and "tree_shape T" and "\<And>i. i < 512 \<Longrightarrow> sub_table (mem s) (pt_root T) i = map_option table_entry (pt_mid T i)"
    and "pt_root T \<notin> F" and "middle_from T n \<inter> F = {}" and "n \<le> 512"
  shows "\<exists>s'. free_entries (free_pagetable_internal (Suc 0)) (page_addr (pt_root T)) 2 n s = Ok () s' \<and>
    page_pool s' (F \<union> middle_from T n) \<and> frame (F \<union> middle_from T n) s s'"
  using assms(1,3-)
proof (induction n arbitrary: s F)
  case 0
  have "middle_from T 0 = {}" by (auto simp: middle_from_def)
  with 0 show ?case by (simp add: return_def)
next
  case (Suc n)
  let ?i = "of_nat (512 - Suc n) :: uint64" and ?r = "pt_root T"
  have r: "table_page ?r" by (rule tree_shape_page [OF assms(2) tables_member(1)])
  have i: "?i < 512" by (rule entry_index) simp
  have m: "middle_from T (Suc n) = set_option (pt_mid T ?i) \<union> middle_from T n"
    using Suc.prems(5) by (intro middle_from_Suc) simp
  note e = load_entry [OF Suc.prems(2) [OF i]]
  have read: "get_field (page_addr ?r) (8 * ?i) s = Ok (load64 (mem s) (slot ?r ?i)) s"
    using table_nonzero [OF r] by (simp add: run_simps slot_def)
  then have k: "bind (get_field (page_addr ?r) (8 * ?i)) c s = c (load64 (mem s) (slot ?r ?i)) s"
    for c :: "uint64 \<Rightarrow> (unit, 'z buddy_scheme) run" by (rule bind_Ok)
  show ?case
  proof (cases "pt_mid T ?i")
    case None
    then have "free_entries (free_pagetable_internal (Suc 0)) (page_addr ?r) 2 (Suc n) s =
        free_entries (free_pagetable_internal (Suc 0)) (page_addr ?r) 2 n s"
      using e(1) unfolding free_entries.simps k by (simp add: if_then_def bind_def return_def)
    moreover have same: "middle_from T (Suc n) = middle_from T n" using m None by simp
    moreover have "middle_from T n \<inter> F = {}" "n \<le> 512" using Suc.prems(4,5) unfolding same by simp_all
    ultimately show ?thesis using Suc.IH [OF Suc.prems(1-3)] by (simp only:)
  next
    case (Some p)
    have pT: "p \<in> ran (pt_mid T)" using Some by (auto simp: ran_def)
    then have p: "table_page p" "p \<noteq> ?r" using assms(2) by (auto simp: tree_shape_def tables_def)
    have mF: "p \<notin> F" "middle_from T n \<inter> F = {}" using Suc.prems(4) m Some by auto
    have new: "p \<notin> middle_from T n" using Suc.prems(5) by (intro middle_new [OF assms(2) _ Some]) simp
    obtain t where t: "free_pagetable_internal (Suc 0) (page_addr p) s = Ok () t" "page_pool t (insert p F)" "frame (insert p F) s t"
      using table_given_back [OF Suc.prems(1) p(1) mF(1)] unfolding middle_freed [OF p(1)] by blast
    have kept: "sub_table (mem t) ?r k = map_option table_entry (pt_mid T k)" if "k < 512" for k
    proof -
      have "sub_table (mem t) ?r k = sub_table (mem s) ?r k"
        using t(3) p(2) Suc.prems(3) by (intro sub_table_cong [OF r that]) (auto simp: frame_def)
      then show ?thesis using Suc.prems(2) [OF that] by simp
    qed
    have "?r \<notin> insert p F" "middle_from T n \<inter> insert p F = {}" "n \<le> 512" using p(2) Suc.prems(3,5) mF(2) new by auto
    with Suc.IH [OF t(2) kept] obtain u where u: "free_entries (free_pagetable_internal (Suc 0)) (page_addr ?r) 2 n t = Ok () u"
      "page_pool u (insert p F \<union> middle_from T n)" "frame (insert p F \<union> middle_from T n) t u"
      by blast
    have "free_entries (free_pagetable_internal (Suc 0)) (page_addr ?r) 2 (Suc n) s =
        free_entries (free_pagetable_internal (Suc 0)) (page_addr ?r) 2 n t"
      using e Some p(1) unfolding free_entries.simps k
      by (simp add: if_then_def bind_Ok t(1) del: free_pagetable_internal.simps)
    moreover have eq: "F \<union> middle_from T (Suc n) = insert p F \<union> middle_from T n" using m Some by auto
    moreover have "frame (insert p F \<union> middle_from T n) s u"
      using frame_trans [OF frame_mono [OF t(3)] u(3)] by auto
    ultimately show ?thesis using u by metis
  qed
qed

section \<open>The whole table\<close>

definition middle_tables :: "page_tree \<Rightarrow> nat set" where
  "middle_tables T = {p. \<exists>i<512. pt_mid T i = Some p}"

lemma middle_from_all: "middle_from T 512 = middle_tables T"
proof -
  have "\<exists>j<512. pt_mid T (of_nat j) = Some p" if "i < 512" "pt_mid T i = Some p" for i p
    using that by (intro exI [of _ "unat i"]) (simp add: word_less_nat_alt)
  then show ?thesis unfolding middle_from_def middle_tables_def using entry_index by auto
qed

text \<open>
  C16. \<open>free_pagetable\<close> always returns, and what it gives back is the root and the middle tables,
  one page each. The lowest tables stay allocated for ever, although nothing refers to them any
  more, and so does the second page of every table, which was allocated as a pair of pages.
\<close>

theorem free_pagetable_leaks:
  fixes s :: "'z buddy_scheme"
  assumes "pt_inv s T F"
  shows "\<exists>s'. free_pagetable (page_addr (pt_root T)) s = Ok () s' \<and>
    page_pool s' (F \<union> {pt_root T} \<union> middle_tables T) \<and> frame (F \<union> {pt_root T} \<union> middle_tables T) s s' \<and>
    ran (pt_low T) \<inter> (F \<union> {pt_root T} \<union> middle_tables T) = {}"
proof -
  note d = pt_invD [OF assms]
  let ?r = "pt_root T" and ?G = "F \<union> middle_tables T"
  have sub: "middle_tables T \<subseteq> ran (pt_mid T)" by (auto simp: middle_tables_def ran_def)
  have tF: "tables T \<inter> F = {}" using assms by (simp add: pt_inv_def)
  have r: "?r \<notin> F" "?r \<notin> middle_tables T" and mF: "middle_tables T \<inter> F = {}"
    using tF sub d(3) by (auto simp: tables_def tree_shape_def)
  have ent: "sub_table (mem s) ?r i = map_option table_entry (pt_mid T i)" if "i < 512" for i
    using d(2) that by (simp add: tree_repr_def)
  obtain t where t: "free_entries (free_pagetable_internal (Suc 0)) (page_addr ?r) 2 512 s = Ok () t"
    "page_pool t ?G" "frame ?G s t"
    using root_freed [OF d(1,3) ent r(1), of 512] mF unfolding middle_from_all by auto
  have "table_page ?r" by (rule tree_shape_page [OF d(3) tables_member(1)])
  then obtain u where u: "deallocate (page_addr ?r) 0 t = Ok () u" "page_pool u (insert ?r ?G)" "frame (insert ?r ?G) t u"
    using table_given_back [OF t(2)] r by blast
  have "free_pagetable (page_addr ?r) s = Ok () u"
    using t(1) u(1) by (simp add: free_pagetable_def numeral_2_eq_2 bind_Ok del: free_entries.simps)
  moreover have "frame (insert ?r ?G) s u" by (rule frame_trans [OF frame_mono [OF t(3)] u(3)]) auto
  moreover have "F \<union> {?r} \<union> middle_tables T = insert ?r ?G" by auto
  moreover have "ran (pt_low T) \<inter> insert ?r ?G = {}"
    using tF sub d(3) by (auto simp: tables_def tree_shape_def)
  ultimately show ?thesis using u(2) by metis
qed

theorem free_pagetable_leaks_witness:
  "\<exists>s'. free_pagetable (page_addr 0x80100) small_space = Ok () s' \<and> page_pool s' {0x80100, 0x80101}"
proof -
  have "middle_tables small_tree = {0x80101}" by (auto simp: middle_tables_def small_tree_def)
  moreover have "pt_root small_tree = 0x80100" by (simp add: small_tree_def)
  ultimately show ?thesis using free_pagetable_leaks [OF small_space_ok(1)] by (auto simp: insert_commute)
qed

end
