(* ===== verification/Exit.thy ===== *)
theory Exit
  imports Run_Queue Copy_Memory
begin

text \<open>
  The end of a process, \<open>exit_process\<close> of \<open>kernel/process.c\<close>: its children are handed to init, and a
  parent that waits gets number and exit status of the child.
\<close>

section \<open>Handing over the children\<close>

text \<open>The parent a task has after \<open>reparent\<close>.\<close>

definition adopter :: "'z kernel_scheme \<Rightarrow> addr \<Rightarrow> addr" where
  "adopter s t = (let p = parent_of s t in if p \<noteq> 0 \<and> state_of s p = state_code ZOMBIE then init_task s else p)"

text \<open>
  All tasks, with the nodes \<open>ns\<close> of the list: the parent pointers lie outside the list and are no
  states, and lead to tasks of the list or to NULL.
\<close>

definition tasks_linked :: "'z kernel_scheme \<Rightarrow> addr list \<Rightarrow> addr list \<Rightarrow> bool" where
  "tasks_linked s ns ts \<longleftrightarrow> list_at s (all_tasks s) ns ts \<and> nodes_sep (all_tasks s) ns \<and> distinct ts \<and>
     (\<forall>t\<in>set ts. t \<noteq> 0 \<and> aligned8 t \<and> t + ts_parent \<notin> queue_cells (all_tasks s) ns \<and> t + ts_parent \<notin> set ts \<and>
        parent_of s t \<in> insert 0 (set ts))"

lemma tasks_linkedD:
  assumes "tasks_linked s ns ts"
  shows "list_at s (all_tasks s) ns ts" "nodes_sep (all_tasks s) ns" "distinct ts"
    "\<And>t. t \<in> set ts \<Longrightarrow> t \<noteq> 0" "\<And>t. t \<in> set ts \<Longrightarrow> aligned8 t" "\<And>t. t \<in> set ts \<Longrightarrow> aligned8 (t + ts_parent)"
    "\<And>t. t \<in> set ts \<Longrightarrow> t + ts_parent \<notin> queue_cells (all_tasks s) ns" "\<And>t. t \<in> set ts \<Longrightarrow> t + ts_parent \<notin> set ts"
    "\<And>t. t \<in> set ts \<Longrightarrow> parent_of s t \<in> insert 0 (set ts)"
  using assms by (auto simp: tasks_linked_def task_layout)

lemma touches_init: "touches C s s' \<Longrightarrow> init_task s' = init_task s"
  unfolding touches_iff by (elim exE conjE) simp

lemma touches_load: "touches C s s' \<Longrightarrow> aligned8 a \<Longrightarrow> a \<notin> C \<Longrightarrow> load64 (mem s') a = load64 (mem s) a"
  by (simp add: touches_def)

lemma reparent_step:
  assumes "t \<noteq> 0" and "aligned8 t"
  shows "\<exists>s'. reparent t s = Ok () s' \<and> touches {t + ts_parent} s s' \<and> parent_of s' t = adopter s t"
proof (cases "parent_of s t \<noteq> 0 \<and> state_of s (parent_of s t) = state_code ZOMBIE")
  case True
  have al: "aligned8 (t + ts_parent)" using assms(2) by (simp add: task_layout)
  have "reparent t s = Ok () (put64 (t + ts_parent) (init_task s) s)"
    using True assms(1) by (simp add: reparent_def struct_simps bind_get_state) (simp add: bind_def gets_def put64_def run_simps)
  moreover have "parent_of (put64 (t + ts_parent) (init_task s) s) t = adopter s t"
    using al True by (simp add: load_put adopter_def)
  ultimately show ?thesis using touches_put [OF al] by blast
next
  case False
  then have "reparent t s = Ok () s"
    using assms(1) by (auto simp: reparent_def struct_simps bind_get_state return_def)
  moreover have "parent_of s t = adopter s t" using False by (auto simp: adopter_def Let_def)
  ultimately show ?thesis using touches_refl by blast
qed

lemma visit_snoc: "visit f (xs @ [x]) s = bind (visit f xs) (\<lambda>_. f x) s"
proof (induction xs arbitrary: s)
  case (Cons y ys)
  then have "visit f (ys @ [x]) = bind (visit f ys) (\<lambda>_. f x)" by (intro ext)
  then show ?case by (simp add: bind_assoc)
qed (auto simp: bind_def return_def split: option.splits sum.splits)

lemma visit_reparent:
  assumes "tasks_linked s ns ts" and "distinct us" and "set us \<subseteq> set ts"
  shows "\<exists>s'. visit reparent us s = Ok () s' \<and> touches ((\<lambda>t. t + ts_parent) ` set us) s s' \<and>
    (\<forall>t\<in>set us. parent_of s' t = adopter s t)"
  using assms(2,3)
proof (induction us rule: rev_induct)
  case Nil
  then show ?case by (simp add: return_def)
next
  case (snoc u us)
  note d = tasks_linkedD [OF assms(1)]
  obtain t where t: "visit reparent us s = Ok () t" "touches ((\<lambda>t. t + ts_parent) ` set us) s t"
    "\<forall>v\<in>set us. parent_of t v = adopter s v" using snoc by auto
  have u: "u \<in> set ts" "u \<notin> set us" "set us \<subseteq> set ts" using snoc.prems by auto
  have pu: "parent_of t u = parent_of s u" using u(2) by (intro touches_load [OF t(2) d(6) [OF u(1)]]) auto
  have "state_of t (parent_of s u) = state_of s (parent_of s u)" if "parent_of s u \<noteq> 0"
  proof (rule touches_state_of [OF t(2)])
    have p: "parent_of s u \<in> set ts" using d(9) [OF u(1)] that by simp
    then show "aligned8 (parent_of s u)" by (rule d(5))
    show "parent_of s u \<notin> (\<lambda>t. t + ts_parent) ` set us" proof
      assume "parent_of s u \<in> (\<lambda>t. t + ts_parent) ` set us"
      then obtain v where "v \<in> set us" "parent_of s u = v + ts_parent" by (rule imageE) 
      then show False using d(8) [of v] u(3) p by auto
    qed
  qed
  moreover have "init_task t = init_task s" using t(2) by (rule touches_init)
  ultimately have a: "adopter t u = adopter s u" using pu by (cases "parent_of s u = 0") (simp_all add: adopter_def Let_def)
  obtain s' where s': "reparent u t = Ok () s'" "touches {u + ts_parent} t s'" "parent_of s' u = adopter s u"
    using reparent_step [OF d(4,5), OF u(1) u(1), of t] a by auto
  have "visit reparent (us @ [u]) s = Ok () s'" unfolding visit_snoc using t(1) s'(1) by (simp add: bind_Ok)
  moreover have "parent_of s' v = adopter s v" if "v \<in> set us" for v
    using touches_load [OF s'(2) d(6), of v] t(3) that u by auto
  ultimately show ?case using touches_trans [OF t(2) s'(2)] s'(3) by auto
qed

lemma for_each_reparent:
  assumes "tasks_linked s ns ts"
  shows "for_each_node (all_tasks s) reparent s = visit reparent ts s"
proof -
  note d = tasks_linkedD [OF assms]
  let ?C = "(\<lambda>t. t + ts_parent) ` set ts"
  have dis: "?C \<inter> queue_cells (all_tasks s) ns = {}" using d(7) by auto
  have at: "list_at t (all_tasks s) ns ts" if "touches ?C s t" for t
    by (rule touches_list_at [OF that d(1,2) dis])
  have h: "all_tasks s \<noteq> 0" using d(2) by (simp add: nodes_sep_def)
  have "for_each_loop reparent (load64 (mem s) (all_tasks s + ls_head)) s = visit reparent ts s"
  proof (rule for_each_loop_ok [where I = "touches ?C s"])
    have "all_tasks s \<notin> ?C" "aligned8 (all_tasks s)" using dis d(2) by (auto simp: queue_cells_def nodes_sep_def)
    then have hd: "load64 (mem t) (all_tasks s + ls_head) = load64 (mem s) (all_tasks s + ls_head)" if "touches ?C s t" for t
      using touches_load [OF that] by (simp add: list_layout)
    show "chain (load64 (mem t)) (load64 (mem s) (all_tasks s + ls_head)) ns" "map (datum t) ns = ts" if "touches ?C s t" for t
      using at [OF that] hd [OF that] by (simp_all add: list_at_def)
    show "touches ?C s t'" if x: "x \<in> set ts" and t: "touches ?C s t" and r: "reparent x t = Ok () t'" for x t t'
    proof -
      have "touches {x + ts_parent} t t'" using reparent_step [OF d(4,5) [OF x], of t] r by simp
      from touches_trans [OF t this] show ?thesis using x by (simp add: insert_absorb)
    qed
  qed simp
  then show ?thesis using h by (simp add: for_each_node_def struct_simps)
qed

text \<open>
  C22. When a process exits it is a ZOMBIE, and \<open>for_each_node(all_tasks, reparent)\<close> visits every task
  once: exactly the tasks whose parent is a ZOMBIE get init as their parent, every other task
  keeps its parent, and nothing else in memory changes. So, as init is alive, no task is left with
  a parent that has exited.
\<close>

theorem exit_reparents_children:
  assumes "tasks_linked s ns ts" and "init_task s \<in> set ts" and "state_of s (init_task s) \<noteq> state_code ZOMBIE"
  shows "\<exists>s'. for_each_node (all_tasks s) reparent s = Ok () s' \<and> tasks_linked s' ns ts \<and>
    (\<forall>t\<in>set ts. parent_of s' t =
       (if parent_of s t \<noteq> 0 \<and> state_of s (parent_of s t) = state_code ZOMBIE then init_task s else parent_of s t)) \<and>
    (\<forall>t\<in>set ts. parent_of s' t \<noteq> 0 \<longrightarrow> state_of s' (parent_of s' t) \<noteq> state_code ZOMBIE) \<and>
    touches ((\<lambda>t. t + ts_parent) ` set ts) s s'"
proof -
  note d = tasks_linkedD [OF assms(1)]
  let ?C = "(\<lambda>t. t + ts_parent) ` set ts"
  obtain s' where s': "visit reparent ts s = Ok () s'" "touches ?C s s'" "\<forall>t\<in>set ts. parent_of s' t = adopter s t"
    using visit_reparent [OF assms(1) d(3)] by blast
  have st: "state_of s' t = state_of s t" if "t \<in> set ts" for t
    using d(8) that by (intro touches_state_of [OF s'(2) d(5) [OF that]]) auto
  have ad: "adopter s t \<in> insert 0 (set ts)" if "t \<in> set ts" for t
    using d(9) [OF that] assms(2) by (auto simp: adopter_def Let_def)
  have all: "all_tasks s' = all_tasks s" by (rule touches_vars(3) [OF s'(2)])
  have "list_at s' (all_tasks s) ns ts" using d(7) by (intro touches_list_at [OF s'(2) d(1,2)]) auto
  then have "tasks_linked s' ns ts" using assms(1) s'(3) ad unfolding tasks_linked_def all by simp
  moreover have "state_of s' (parent_of s' t) \<noteq> state_code ZOMBIE" if t: "t \<in> set ts" and p: "parent_of s' t \<noteq> 0" for t
  proof -
    have e: "parent_of s' t = adopter s t" using s'(3) t by blast
    then have "adopter s t \<in> set ts" using ad [OF t] p by simp
    then show ?thesis using assms(3) p st e by (auto simp: adopter_def Let_def)
  qed
  moreover have "parent_of s' t = (if parent_of s t \<noteq> 0 \<and> state_of s (parent_of s t) = state_code ZOMBIE then init_task s else parent_of s t)"
    if "t \<in> set ts" for t using bspec [OF s'(3) that] by (simp only: adopter_def Let_def)
  ultimately show ?thesis using for_each_reparent [OF assms(1)] s'(1,2) by metis
qed

section \<open>Memory outside the heap\<close>

text \<open>Objects lie in the pages of the heap's block.\<close>

lemma object_page:
  assumes "live_objects s (F, Block p k n u) A" and "(a, z) \<in> A" and "i < z"
  shows "page_of (a + of_nat i) \<in> block k p"
proof -
  obtain P where inv: "heap_inv s F (Block p k n u)" and P: "objects_in s p u P" "A = object_at p ` P"
    using assms(1) by auto
  obtain v where v: "(v, z) \<in> P" "a = page_addr p + of_nat (v + 16)" using assms(2) P(2) by (auto simp: object_at_def)
  have le: "v + 16 + z \<le> u" using objects_inD [OF P(1) v(1)] by blast
  note d = heap_invD [OF inv]
  have "unat (a + of_nat i) = 4096 * p + (v + 16 + i)" using object_byte_unat [OF inv le assms(3)] v(2) by (simp add: add.assoc)
  then have "page_of (a + of_nat i) = p + (v + 16 + i) div 4096" by (simp add: page_of_def)
  moreover have "(v + 16 + i) div 4096 < 2 ^ k" using le assms(3) d(2) by (intro less_mult_imp_div_less) simp
  ultimately show ?thesis by (simp add: block_def)
qed

text \<open>A write outside the heap and the free pages does not concern the heap.\<close>

lemma live_elsewhere:
  assumes live: "live_objects s (F, Block p k n u) A" and m: "\<And>x. page_of x \<in> F \<union> block k p \<Longrightarrow> m x = mem s x"
  shows "live_objects (s\<lparr>mem := m\<rparr>) (F, Block p k n u) A"
proof -
  obtain P where inv: "heap_inv s F (Block p k n u)" and P: "finite P" "card P = n" "objects_in s p u P" "A = object_at p ` P"
    using live by auto
  note d = heap_invD [OF inv]
  have in_block: "m x = mem s x" if "4096 * p \<le> unat x" "unat x < 4096 * p + u" for x
  proof (rule m)
    have "p \<le> page_of x" "page_of x < p + 2 ^ k" using that d(2) by (auto simp: page_of_def div_le_mono less_mult_imp_div_less)
    then show "page_of x \<in> F \<union> block k p" by (simp add: block_def)
  qed
  have "load64 m (page_addr p + of_nat c) = load64 (mem s) (page_addr p + of_nat c)" if "c + 8 \<le> 40" for c
  proof (rule load64_cong)
    fix i :: nat assume i: "i < 8"
    have "unat (page_addr p + of_nat (c + i)) = 4096 * p + (c + i)" using that i by (intro unat_in_block [OF d(1)]) simp
    then show "m (page_addr p + of_nat c + of_nat i) = mem s (page_addr p + of_nat c + of_nat i)"
      using in_block [of "page_addr p + of_nat (c + i)"] that i d(3) by (simp add: add.assoc)
  qed
  from this [of 0] this [of 8] this [of 16] this [of 24] this [of 32]
  have "heap_repr (s\<lparr>mem := m\<rparr>) (Block p k n u)" using inv by (simp add: heap_inv_def heap_layout)
  moreover have "page_pool (s\<lparr>mem := m\<rparr>) F"
  proof (rule page_pool_cong)
    show "page_pool s F" using inv by (simp add: heap_inv_def)
  qed (simp_all add: m)
  ultimately have "heap_inv (s\<lparr>mem := m\<rparr>) F (Block p k n u)" using inv by (simp add: heap_inv_def)
  moreover have "objects_in (s\<lparr>mem := m\<rparr>) p u P"
    by (rule objects_in_kept [OF P(3) inv]) (simp add: in_block)
  ultimately show ?thesis using P by auto
qed

text \<open>A new node changes memory in the heap only.\<close>

lemma node_elsewhere:
  assumes live: "live_objects s (F, Block p k n u) A" and room: "heap_room (F, Block p k n u) sizeof_node"
    and make: "make_single_linked_list_node v s = Ok nd s'"
  shows "page_of x \<notin> block k p \<Longrightarrow> mem s' x = mem s x" and "kheap.more s' = kheap.more s"
    and "page_of nd \<in> block k p" and "page_of (nd + 8) \<in> block k p"
proof -
  have inv: "heap_inv s F (Block p k n u)" using live by auto
  note d = heap_invD [OF inv]
  have sz: "unat sizeof_node < 2 ^ 63" and fits: "u + unat (gross_size sizeof_node) \<le> 4096 * 2 ^ k" "n + 1 < 2 ^ 63"
    using room by (simp_all add: sizeof_node_def)
  have g: "unat (gross_size sizeof_node) = 32" by (simp add: sizeof_node_def gross_unat)
  define a where "a = page_addr p + of_nat (u + 16)"
  obtain t where t: "kmalloc sizeof_node s = Ok a t" "kheap.more t = kheap.more s"
    and mem: "\<And>x. (unat x < 4096 * p + 8 \<or> 4096 * p + 24 \<le> unat x) \<Longrightarrow>
        (unat x < 4096 * p + u \<or> 4096 * p + u + 16 \<le> unat x) \<Longrightarrow> mem t x = mem s x"
    using kmalloc_fits [OF inv sz fits] unfolding a_def by blast
  have "a \<noteq> 0" unfolding a_def using d(6) by (intro in_block_nonzero [OF d(1)]) simp
  then have s': "s' = put64 a 0 (put64 (a + 8) v t)"
    using make t(1) by (auto simp: make_single_linked_list_node_def bind_Ok struct_simps return_def list_layout)
  have a8: "a + 8 = page_addr p + of_nat (u + 24)" by (simp add: a_def)
  show "kheap.more s' = kheap.more s" using t(2) by (simp add: s' put64_def)
  have nd: "nd = a" using make t(1) \<open>a \<noteq> 0\<close> by (auto simp: make_single_linked_list_node_def bind_Ok struct_simps return_def)
  have pg: "page_of (page_addr p + of_nat c) \<in> block k p" if "c < 4096 * 2 ^ k" for c
  proof -
    have "c \<le> 2 ^ 63" using block_bytes [OF d(1), of c] that by simp
    then have "page_of (page_addr p + of_nat c) = p + c div 4096" using unat_in_block [OF d(1)] by (simp add: page_of_def)
    then show ?thesis using that by (simp add: block_def less_mult_imp_div_less)
  qed
  show "page_of nd \<in> block k p" "page_of (nd + 8) \<in> block k p"
    unfolding nd a8 using pg [of "u + 16"] pg [of "u + 24"] fits(1) g by (simp_all add: a_def del: of_nat_add)
  assume x: "page_of x \<notin> block k p"
  then have "unat x < 4096 * p \<or> 4096 * (p + 2 ^ k) \<le> unat x"
    by (auto simp: block_def page_of_def not_le not_less less_mult_imp_div_less div_less_iff_less_mult)
  then have "mem t x = mem s x" using fits(1) g d(3) by (intro mem) auto
  moreover have "mem s' x = mem t x"
    unfolding s' a8 put64_def using x fits(1) g by (simp add: a_def store_in_block [OF d(1)] del: of_nat_add)
  ultimately show "mem s' x = mem s x" by simp
qed

text \<open>A 32-bit field is half of a cell.\<close>

lemma store32_cell: "store32 m a v = store64 m a (load64 m a AND NOT (mask 32) OR ucast v)"
proof
  fix x
  define w :: uint64 where "w = load64 m a AND NOT (mask 32) OR ucast v"
  let ?i = "unat (x - a)"
  have xa: "a + of_nat ?i = x" by simp
  have bits: "bit w n \<longleftrightarrow> (if n < 32 then bit v n else n < 64 \<and> bit (m (a + of_nat (n div 8))) (n mod 8))" for n
    by (auto simp: w_def bit_simps bit_load64 dest: bit_imp_le_length)
  have div: "(j + 8 * ?i) div 8 = ?i" "(j + 8 * ?i) mod 8 = j" if "j < 8" for j using that by auto
  have "store32 m a v x = store64 m a w x"
  proof (cases "x - a < 8")
    case True
    then have i: "?i < 8" by (simp add: word_less_nat_alt)
    have "store32 m a v x = ucast (drop_bit (8 * ?i) w)"
    proof (rule bit_word_eqI)
      fix j assume "j < LENGTH(8)"
      then have j: "j < 8" by simp
      show "bit (store32 m a v x) j \<longleftrightarrow> bit (ucast (drop_bit (8 * ?i) w) :: byte) j"
      proof (cases "?i < 4")
        case True
        then have "x - a < 4" by (simp add: word_less_nat_alt)
        moreover have "j + 8 * ?i < 32" using True j by simp
        ultimately show ?thesis using bits [of "j + 8 * ?i"] j by (simp add: store32_def bit_ucast_iff bit_drop_bit_eq add.commute)
      next
        case False
        then have "\<not> x - a < 4" by (simp add: word_less_nat_alt)
        moreover have "\<not> j + 8 * ?i < 32" "j + 8 * ?i < 64" using False i j by simp_all
        ultimately show ?thesis
          using bits [of "j + 8 * ?i"] j div [OF j] xa by (simp add: store32_def bit_ucast_iff bit_drop_bit_eq add.commute)
      qed
    qed
    with True show ?thesis by (simp add: store64_def)
  next
    case False
    then have "\<not> x - a < 4" using less_trans [of "x - a" 4 8] by auto
    with False show ?thesis by (simp add: store32_def store64_def)
  qed
  then show "store32 m a v x = store64 m a (load64 m a AND NOT (mask 32) OR ucast v) x" by (simp only: w_def)
qed

lemma put_state_cell: "put_state t st s = put64 t (load64 (mem s) t AND NOT (mask 32) OR ucast (state_code st)) s"
  by (simp add: put_state_def put64_def store32_cell ts_state_def)

section \<open>Waking the parent\<close>

text \<open>The cells of a queue in the heap lie in its block, and apart from those of a task.\<close>

lemma queue_cells_word:
  assumes k: "kernel_list s vw A q ns xs" and a: "a \<in> queue_cells q ns"
  obtains b z j where "(b, z) \<in> A" "z \<noteq> 264" "j + 8 \<le> z" "a = b + of_nat j"
proof -
  note d = kernel_listD [OF k]
  consider "a = q + of_nat 0" | "a = q + of_nat 8" | "a = q + of_nat 16"
    | m where "m \<in> set ns" "a = m + of_nat 0" | m where "m \<in> set ns" "a = m + of_nat 8"
    using a by (auto simp: queue_cells_def)
  then show thesis
  proof cases
    case 1 then show thesis using that [OF d(2), of 0] by simp
  next
    case 2 then show thesis using that [OF d(2), of 8] by simp
  next
    case 3 then show thesis using that [OF d(2), of 16] by simp
  next
    case (4 m) then show thesis using that [OF d(3), of m 0] by simp
  next
    case (5 m) then show thesis using that [OF d(3), of m 8] by simp
  qed
qed

lemma queue_cells_heap:
  assumes k: "kernel_list s (F, Block p k n u) A q ns xs" and a: "a \<in> queue_cells q ns"
  shows "page_of a \<in> block k p" and "(t, 264) \<in> A \<Longrightarrow> i + 8 \<le> 264 \<Longrightarrow> t + of_nat i \<noteq> a"
proof -
  note live = kernel_listD(1) [OF k]
  obtain b z j where b: "(b, z) \<in> A" "z \<noteq> 264" "j + 8 \<le> z" "a = b + of_nat j" by (rule queue_cells_word [OF k a])
  show "page_of a \<in> block k p" using object_page [OF live b(1), of j] b(3,4) by simp
  show "t + of_nat i \<noteq> a" if "(t, 264) \<in> A" "i + 8 \<le> 264"
    using object_words_apart [OF live that(1) b(1) _ that(2) b(3)] b(2,4) by auto
qed

text \<open>
  A task \<open>t\<close> and its parent \<open>p\<close>, both objects of the heap; the parent's trap frame and shared page are
  the pages \<open>f\<close> and \<open>g\<close>, which are neither free nor pages of the heap.
\<close>

definition parent_known :: "'z kernel_scheme \<Rightarrow> nat set \<times> heap \<Rightarrow> (addr \<times> nat) set \<Rightarrow> addr \<Rightarrow> addr \<Rightarrow> nat \<Rightarrow> nat \<Rightarrow> bool" where
  "parent_known s vw A t p f g \<longleftrightarrow> (t, 264) \<in> A \<and> (p, 264) \<in> A \<and> t \<noteq> p \<and> parent_of s t = p \<and>
     load64 (mem s) (p + ts_trap_frame) = page_addr f \<and> load64 (mem s) (p + ts_shared_memory) = page_addr g \<and>
     f \<noteq> g \<and> {f, g} \<subseteq> {0<..<2 ^ 51} \<and> {f, g} \<inter> (fst vw \<union> heap_pages (snd vw)) = {}"

lemma frame_cell: "f < 2 ^ 51 \<Longrightarrow> page_of (page_addr f + tf_offset r) = f" "aligned8 (page_addr f + tf_offset r)"
proof -
  assume f: "f < 2 ^ 51"
  have "unat (tf_offset r) < 4096" by (cases r) simp_all
  from page_byte [OF f this] show "page_of (page_addr f + tf_offset r) = f" by simp
qed (simp add: aligned8_page_addr)

lemma frame_slot: "\<exists>i<512. page_addr f + tf_offset r = slot f i"
proof (intro exI conjI)
  show "tf_offset r div 8 < 512" by (cases r) simp_all
  show "page_addr f + tf_offset r = slot f (tf_offset r div 8)" unfolding slot_def by (cases r) simp_all
qed

declare tf_offset.simps [simp del]

text \<open>The four writes of a task that wakes its parent.\<close>

definition woken :: "addr \<Rightarrow> addr \<Rightarrow> nat \<Rightarrow> 'z kernel_scheme \<Rightarrow> 'z kernel_scheme" where
  "woken t p f s = put64 (page_addr f + tf_offset TF_a1) (scast (load32 (mem s) (t + ts_exit_status)))
     (put64 (page_addr f + tf_offset TF_a0) (pid_of s t) (put_state p RUNNABLE (put_state t DEAD s)))"

lemma parent_knownD:
  assumes "parent_known s vw A t p f g" and "live_objects s vw A"
  shows "t \<noteq> 0" "p \<noteq> 0" "aligned8 t" "aligned8 p" "(t, 264) \<in> A" "(p, 264) \<in> A" "t \<noteq> p" "parent_of s t = p"
    "load64 (mem s) (p + ts_trap_frame) = page_addr f" "load64 (mem s) (p + ts_shared_memory) = page_addr g"
    "f \<noteq> g" "f < 2 ^ 51" "g < 2 ^ 51" "page_addr f \<noteq> 0" "page_addr g \<noteq> 0"
    "f \<notin> fst vw" "f \<notin> heap_pages (snd vw)" "g \<notin> heap_pages (snd vw)"
  using assms(1) live_bound [OF assms(2)] by (auto simp: parent_known_def page_addr_zero_iff)

definition woken_cells :: "addr \<Rightarrow> addr \<Rightarrow> nat \<Rightarrow> addr set" where
  "woken_cells t p f = {t, p, page_addr f + tf_offset TF_a0, page_addr f + tf_offset TF_a1}"

lemma woken_cells_task:
  assumes k: "parent_known s vw A t p f g" and live: "live_objects s vw A" and x: "x \<in> {t, p}" and i: "8 dvd i" "0 < i" "i + 8 \<le> 264"
  shows "aligned8 (x + of_nat i)" and "x + of_nat i \<notin> woken_cells t p f"
proof -
  note d = parent_knownD [OF k live]
  show "aligned8 (x + of_nat i)" using x d(3,4) aligned8_of_nat [OF i(1)] by auto
  have xA: "(x, 264) \<in> A" using x d(5,6) by auto
  obtain F q kk n u where vw: "vw = (F, Block q kk n u)" using live d(5) by (cases vw; cases "snd vw") auto
  have "page_of (x + of_nat i) \<in> block kk q" using object_page [OF live [unfolded vw] xA, of i] i by simp
  then have "page_of (x + of_nat i) \<noteq> f" using d(17) vw by auto
  then have "x + of_nat i \<noteq> page_addr f + tf_offset r" for r using frame_cell(1) [OF d(12)] by metis
  moreover have "x + of_nat i \<noteq> y" if "y \<in> {t, p}" for y
  proof (cases "y = x")
    case True
    have "unat (of_nat i :: uint64) = i" using i(3) by (intro unat_of_nat_64) simp
    then have "(of_nat i :: uint64) \<noteq> 0" using i(2) by auto
    then show ?thesis using True by simp
  next
    case False
    then show ?thesis using object_words_apart [OF live xA, of y 264 i 0] that d(5,6) i(3) by auto
  qed
  ultimately show "x + of_nat i \<notin> woken_cells t p f" by (simp add: woken_cells_def)
qed

lemma woken_touches:
  assumes "parent_known s vw A t p f g" and "live_objects s vw A"
  shows "touches (woken_cells t p f) s (woken t p f s)" "touches (woken_cells t p f) s (put_state p RUNNABLE (put_state t DEAD s))"
    "touches (woken_cells t p f) s (put_state t DEAD s)"
    "touches (woken_cells t p f) s (put64 (page_addr f + tf_offset TF_a0) v (put_state p RUNNABLE (put_state t DEAD s)))"
proof -
  note d = parent_knownD [OF assms]
  show "touches (woken_cells t p f) s (woken t p f s)" "touches (woken_cells t p f) s (put_state p RUNNABLE (put_state t DEAD s))"
    "touches (woken_cells t p f) s (put_state t DEAD s)"
    "touches (woken_cells t p f) s (put64 (page_addr f + tf_offset TF_a0) v (put_state p RUNNABLE (put_state t DEAD s)))"
    unfolding woken_def put_state_cell
    using d(3,4) frame_cell(2) [of f] by ((intro touches_puts touches_refl; simp add: woken_cells_def)+)
qed

lemma wake_run:
  assumes k: "parent_known s vw A t p f g" and live: "live_objects s vw A"
    and sl: "state_of s p = state_code SLEEPING" and ch: "load64 (mem s) (p + ts_channel) \<in> {p, t}"
  shows "wake_parent t s = bind (make_single_linked_list_node p) (\<lambda>node. bind (gets runnable_tasks) (\<lambda>q.
    bind (push_tail q node) (\<lambda>_. return ()))) (woken t p f s)"
proof -
  note d = parent_knownD [OF k live] and w = woken_touches [OF k live]
  have kept: "load64 (mem s') (x + of_nat i) = load64 (mem s) (x + of_nat i)"
    if "touches (woken_cells t p f) s s'" "x \<in> {t, p}" "8 dvd i" "0 < i" "i + 8 \<le> 264" for s' x i
    using touches_load [OF that(1) woken_cells_task [OF k live that(2-5)]] .
  let ?s1 = "put_state t DEAD s" and ?s2 = "put_state p RUNNABLE (put_state t DEAD s)"
  let ?s3 = "put64 (page_addr f + tf_offset TF_a0) (pid_of s t) ?s2"
  have "parent_of ?s1 t = p" using kept [OF w(3), of t 24] d(8) by (simp add: task_layout)
  moreover have "pid_of ?s2 t = pid_of s t" using kept [OF w(2), of t 16] by (simp add: task_layout)
  moreover have "load64 (mem ?s2) (p + ts_trap_frame) = page_addr f" using kept [OF w(2), of p 96] d(9) by (simp add: task_layout)
  moreover have "load64 (mem ?s3) (p + ts_trap_frame) = page_addr f" using kept [OF w(4), of p 96] d(9) by (simp add: task_layout)
  moreover have "load32 (mem ?s3) (t + ts_exit_status) = load32 (mem s) (t + ts_exit_status)"
    using kept [OF w(4), of t 224] by (simp add: task_layout load32_low_half)
  ultimately show ?thesis
    using d(1,2,8,14) sl ch unfolding woken_def
    by (auto simp: wake_parent_def struct_simps bind_get_state bind_set_state set_reg_def get_field32_def bind_gets)
qed

lemma frame_write:
  assumes live: "live_objects s vw A" and "f < 2 ^ 51" and "f \<notin> fst vw \<union> heap_pages (snd vw)" and "A \<noteq> {}"
  shows "live_objects (put64 (page_addr f + tf_offset r) v s) vw A"
proof -
  obtain F b k n u where vw: "vw = (F, Block b k n u)" using live assms(4) by (cases vw; cases "snd vw") auto
  obtain i where i: "i < 512" "page_addr f + tf_offset r = slot f i" using frame_slot by blast
  have "store64 (mem s) (slot f i) v x = mem s x" if "page_of x \<in> F \<union> block k b" for x
    using assms(3) that vw by (intro store_slot_other [OF assms(2) i(1)]) auto
  from live_elsewhere [OF live [unfolded vw] this] show ?thesis by (simp add: put64_def i(2) vw)
qed

lemma task_write: "live_objects s vw A \<Longrightarrow> (a, 264) \<in> A \<Longrightarrow> live_objects (put64 a v s) vw A"
  using live_put [of s vw A a 264 0 v] by simp

lemma woken_apart:
  assumes k: "parent_known s vw A t p f g" and l: "kernel_list s vw A q ns xs"
  shows "woken_cells t p f \<inter> queue_cells q ns = {}"
proof -
  note live = kernel_listD(1) [OF l]
  note d = parent_knownD [OF k live]
  obtain F b kk n u where vw: "vw = (F, Block b kk n u)" using live d(5) by (cases vw; cases "snd vw") auto
  have "a \<notin> woken_cells t p f" if a: "a \<in> queue_cells q ns" for a
  proof -
    note h = queue_cells_heap [OF l [unfolded vw] a]
    have "page_addr f + tf_offset r \<noteq> a" for r using h(1) frame_cell(1) [OF d(12), of r] d(17) vw by auto
    moreover have "t \<noteq> a" "p \<noteq> a" using h(2) [OF d(5), of 0] h(2) [OF d(6), of 0] by simp_all
    ultimately show ?thesis by (auto simp: woken_cells_def)
  qed
  then show ?thesis by blast
qed

lemma woken_list:
  assumes k: "parent_known s vw A t p f g" and l: "kernel_list s vw A q ns xs"
  shows "kernel_list (woken t p f s) vw A q ns xs"
proof -
  note live = kernel_listD(1) [OF l]
  note d = parent_knownD [OF k live]
  have "live_objects (put_state p RUNNABLE (put_state t DEAD s)) vw A"
    unfolding put_state_cell by (intro task_write live d)
  then have "live_objects (woken t p f s) vw A"
    unfolding woken_def using d(5,12,16,17) by (intro frame_write) auto
  moreover have "list_at (woken t p f s) q ns xs"
    by (rule touches_list_at [OF woken_touches(1) [OF k live] kernel_listD(4,5) [OF l] woken_apart [OF k l]])
  ultimately show ?thesis using l by (simp add: kernel_list_def)
qed

lemma woken_values:
  assumes k: "parent_known s vw A t p f g" and live: "live_objects s vw A"
  shows "state_of (woken t p f s) t = state_code DEAD" "state_of (woken t p f s) p = state_code RUNNABLE"
    "load64 (mem (woken t p f s)) (page_addr f + tf_offset TF_a0) = pid_of s t"
    "load64 (mem (woken t p f s)) (page_addr f + tf_offset TF_a1) = scast (load32 (mem s) (t + ts_exit_status))"
proof -
  note d = parent_knownD [OF k live]
  let ?a0 = "page_addr f + tf_offset TF_a0" and ?a1 = "page_addr f + tf_offset TF_a1"
  obtain F b kk n u where vw: "vw = (F, Block b kk n u)" using live d(5) by (cases vw; cases "snd vw") auto
  have pg: "x \<noteq> page_addr f + tf_offset r" if "(x, 264) \<in> A" for x r
    using object_page [OF live [unfolded vw] that, of 0] frame_cell(1) [OF d(12), of r] d(17) vw by auto
  have t1: "touches {p, ?a0, ?a1} (put_state t DEAD s) (woken t p f s)"
    and t2: "touches {?a0, ?a1} (put_state p RUNNABLE (put_state t DEAD s)) (woken t p f s)"
    unfolding woken_def put_state_cell [of p] using d(4) frame_cell(2) [of f] by ((intro touches_puts touches_refl; simp)+)
  show "state_of (woken t p f s) t = state_code DEAD"
    using touches_state_of [OF t1 d(3)] d(7) pg [OF d(5)] by simp
  show "state_of (woken t p f s) p = state_code RUNNABLE"
    using touches_state_of [OF t2 d(4)] pg [OF d(6)] by simp
  show "load64 (mem (woken t p f s)) ?a0 = pid_of s t"
    "load64 (mem (woken t p f s)) ?a1 = scast (load32 (mem s) (t + ts_exit_status))"
    unfolding woken_def using frame_cell(2) [of f] by (simp_all add: load_put)
qed

lemma append_touches:
  assumes k: "kernel_list u vw A q ns xs" and room: "heap_room vw sizeof_node"
  shows "\<exists>n vw' s' v. make_single_linked_list_node x u = Ok n v \<and> push_tail q n v = Ok 0 s' \<and>
    kernel_list s' vw' (insert (n, 16) A) q (ns @ [n]) (xs @ [x]) \<and> touches (queue_cells q (n # ns)) v s'"
proof -
  note d = kernel_listD [OF k]
  obtain n vw' s' v where n: "make_single_linked_list_node x u = Ok n v" "push_tail q n v = Ok 0 s'" "\<forall>z. (n, z) \<notin> A"
    "kernel_list s' vw' (insert (n, 16) A) q (ns @ [n]) (xs @ [x])" using append_datum [OF k room] by blast
  have w: "\<forall>(b, z)\<in>A. \<forall>i. i + 8 \<le> z \<longrightarrow> 8 dvd i \<longrightarrow> load64 (mem v) (b + of_nat i) = load64 (mem u) (b + of_nat i)"
    using make_node [OF d(1) room, of x] n(1) by auto
  have word: "load64 (mem v) (b + of_nat i) = load64 (mem u) (b + of_nat i)" if "(b, z) \<in> A" "i + 8 \<le> z" "8 dvd i" for b z i
    using bspec [OF w that(1)] that(2,3) by simp
  have at: "list_at v q ns xs"
  proof (rule list_at_cong [OF d(4)])
    show "load64 (mem v) (q + i) = load64 (mem u) (q + i)" if "i \<in> {0, 8, 16}" for i
      using that word [OF d(2), of 0] word [OF d(2), of 8] word [OF d(2), of 16] by auto
    show "load64 (mem v) (m + i) = load64 (mem u) (m + i)" if "m \<in> set ns" "i \<in> {0, 8}" for m i
      using that word [OF d(3) [OF that(1)], of 0] word [OF d(3) [OF that(1)], of 8] by auto
  qed
  have sep: "nodes_sep q (n # ns)"
    using kernel_listD(7) [OF n(4)] by (intro nodes_sepI [OF kernel_listD(1) [OF n(4)]]) (auto simp: list_objects_def)
  have "n \<notin> set ns" using n(3) d(3) by blast
  from push_tail_touches [OF at sep this] n(2) have "touches (queue_cells q (n # ns)) v s'" by auto
  with n show ?thesis by blast
qed

text \<open>What the parent finds when it runs again.\<close>

lemma resume_ok:
  assumes "p \<noteq> 0" and "load64 (mem s) (p + ts_trap_frame) = page_addr f" and "load64 (mem s) (p + ts_shared_memory) = page_addr g"
    and "page_addr f \<noteq> 0" "page_addr g \<noteq> 0" "page_addr g \<notin> {p + ts_trap_frame, page_addr f + tf_offset TF_a0}" and al: "aligned8 p"
    and "load64 (mem s) (page_addr f + tf_offset TF_a1) = scast v"
  shows "resume_wait p ptr s = Ok (load64 (mem s) (page_addr f + tf_offset TF_a0))
    (if ptr = 0 then s else s\<lparr>mem := store32 (mem s) (page_addr g) v\<rparr>)"
proof -
  have "aligned8 ts_trap_frame" by (simp add: task_layout aligned8_def)
  with al have a96: "aligned8 (p + ts_trap_frame)" by (rule aligned8_add)
  have "load64 (store32 (mem s) (page_addr g) v) (p + ts_trap_frame) = page_addr f"
    "load64 (store32 (mem s) (page_addr g) v) (page_addr f + tf_offset TF_a0) = load64 (mem s) (page_addr f + tf_offset TF_a0)"
    using mixed_cells(1) [OF aligned8_page_addr a96] mixed_cells(1) [OF aligned8_page_addr frame_cell(2)] assms(2,6) by simp_all
  moreover have "ucast (scast v :: uint64) = v" by (rule bit_word_eqI) (simp add: bit_simps)
  ultimately show ?thesis
    using assms by (simp add: resume_wait_def struct_simps get_reg_def if_then_def run_simps)
qed

lemma more_vars: "kheap.more s' = kheap.more s \<Longrightarrow> runnable_tasks s' = runnable_tasks s"
  by (cases s; cases s') simp

text \<open>Every cell of the two tasks and of the frame is the same after the parent has been queued.\<close>

lemma queued_kept:
  assumes k: "parent_known s vw A t p f g" and l: "kernel_list u vw A q ns xs" and room: "heap_room vw sizeof_node"
    and make: "make_single_linked_list_node y u = Ok n v" and tch: "touches (queue_cells q (n # ns)) v s'"
    and l': "kernel_list s' vw' (insert (n, 16) A) q (ns @ [n]) zs"
  shows "x \<in> {t, p} \<Longrightarrow> 8 dvd i \<Longrightarrow> i + 8 \<le> 264 \<Longrightarrow> load64 (mem s') (x + of_nat i) = load64 (mem u) (x + of_nat i)"
    and "load64 (mem s') (page_addr f + tf_offset r) = load64 (mem u) (page_addr f + tf_offset r)"
proof -
  note live = kernel_listD(1) [OF l]
  have A: "(t, 264) \<in> A" "(p, 264) \<in> A" and f: "f < 2 ^ 51" "f \<notin> fst vw \<union> heap_pages (snd vw)"
    using k by (auto simp: parent_known_def)
  obtain F b kk c w where vw: "vw = (F, Block b kk c w)" using live A by (cases vw; cases "snd vw") auto
  obtain F' b' kk' c' w' where vw': "vw' = (F', Block b' kk' c' w')" using kernel_listD(1) [OF l'] by (cases vw'; cases "snd vw'") auto
  have qc: "queue_cells q (n # ns) = queue_cells q (ns @ [n])" by (auto simp: queue_cells_def)
  note el = node_elsewhere [OF live [unfolded vw] room [unfolded vw] make]
  obtain n' v' where "make_single_linked_list_node y u = Ok n' v'"
    "\<forall>(b, z)\<in>A. \<forall>i. i + 8 \<le> z \<longrightarrow> 8 dvd i \<longrightarrow> load64 (mem v') (b + of_nat i) = load64 (mem u) (b + of_nat i)"
    using make_node [OF live room] by blast
  then have words: "load64 (mem v) (b + of_nat i) = load64 (mem u) (b + of_nat i)" if "(b, z) \<in> A" "i + 8 \<le> z" "8 dvd i" for b z i
    using make that by auto
  show "load64 (mem s') (x + of_nat i) = load64 (mem u) (x + of_nat i)" if x: "x \<in> {t, p}" and i: "8 dvd i" "i + 8 \<le> 264"
  proof -
    have xA: "(x, 264) \<in> A" using A x by auto
    have "aligned8 (x + of_nat i)" using live_bound [OF live xA] aligned8_of_nat [OF i(1)] by auto
    moreover have "x + of_nat i \<notin> queue_cells q (n # ns)"
      unfolding qc using queue_cells_heap(2) [OF l' [unfolded vw'], of _ x i] xA i(2) by auto
    ultimately show ?thesis using touches_load [OF tch] words [OF xA i(2,1)] by simp
  qed
  have pages: "page_of a \<in> block kk b" if "a \<in> queue_cells q (n # ns)" for a
    using that queue_cells_heap(1) [OF l [unfolded vw], of a] el(3,4) by (auto simp: queue_cells_def)
  have "page_addr f + tf_offset r \<notin> queue_cells q (n # ns)" using pages [of "page_addr f + tf_offset r"] frame_cell(1) [OF f(1), of r] f(2) vw by auto
  then have "load64 (mem s') (page_addr f + tf_offset r) = load64 (mem v) (page_addr f + tf_offset r)"
    by (rule touches_load [OF tch frame_cell(2)])
  moreover obtain j where j: "j < 512" "page_addr f + tf_offset r = slot f j" using frame_slot by blast
  have "load64 (mem v) (slot f j) = load64 (mem u) (slot f j)"
    using f(2) vw by (intro load_slot_cong [OF _ j(1)]) (use f(1) el(1) in auto)
  ultimately show "load64 (mem s') (page_addr f + tf_offset r) = load64 (mem u) (page_addr f + tf_offset r)" using j(2) by simp
qed

text \<open>
  C23. When a process \<open>t\<close> exits whose parent \<open>p\<close> sleeps in \<open>wait\<close>, that is on itself or on \<open>t\<close>, then \<open>t\<close>
  is DEAD, \<open>p\<close> is RUNNABLE and the last task of the run queue, and when \<open>p\<close> goes on, its \<open>wait\<close> returns
  the number of \<open>t\<close> and puts the exit status of \<open>t\<close>, all 32 bits of it, into the shared page if a status
  was asked for. Otherwise nothing happens.
\<close>

theorem exit_status_reaches_wait:
  assumes l: "kernel_list s vw A (runnable_tasks s) ns xs" and room: "heap_room vw sizeof_node" and k: "parent_known s vw A t p f g"
  shows "if state_of s p = state_code SLEEPING \<and> load64 (mem s) (p + ts_channel) \<in> {p, t} then
      \<exists>n vw' s'. wake_parent t s = Ok () s' \<and> state_of s' t = state_code DEAD \<and> state_of s' p = state_code RUNNABLE \<and>
        kernel_list s' vw' (insert (n, 16) A) (runnable_tasks s') (ns @ [n]) (xs @ [p]) \<and>
        (\<forall>ptr. resume_wait p ptr s' = Ok (pid_of s t) (if ptr = 0 then s'
          else s'\<lparr>mem := store32 (mem s') (page_addr g) (load32 (mem s) (t + ts_exit_status))\<rparr>))
    else wake_parent t s = Ok () s"
proof (cases "state_of s p = state_code SLEEPING \<and> load64 (mem s) (p + ts_channel) \<in> {p, t}")
  case True
  note live = kernel_listD(1) [OF l]
  note d = parent_knownD [OF k live] and w = woken_touches(1) [OF k live]
  let ?u = "woken t p f s" and ?q = "runnable_tasks s"
  have lu: "kernel_list ?u vw A ?q ns xs" by (rule woken_list [OF k l])
  have qu: "runnable_tasks ?u = ?q" by (rule touches_vars(2) [OF w])
  obtain n vw' s' v where mk: "make_single_linked_list_node p ?u = Ok n v" and pu: "push_tail ?q n v = Ok 0 s'"
    and l': "kernel_list s' vw' (insert (n, 16) A) ?q (ns @ [n]) (xs @ [p])" and tch: "touches (queue_cells ?q (n # ns)) v s'"
    using append_touches [OF lu room, of p] by blast
  obtain F b kk c e where vw: "vw = (F, Block b kk c e)" using live d(5) by (cases vw; cases "snd vw") auto
  have qv: "runnable_tasks v = ?q"
    using more_vars [OF node_elsewhere(2) [OF kernel_listD(1) [OF lu, unfolded vw] room [unfolded vw] mk]] qu by simp
  note kept = queued_kept [OF k lu room mk tch l'] and val = woken_values [OF k live]
  have "wake_parent t s = Ok () s'"
    unfolding wake_run [OF k live True [THEN conjunct1] True [THEN conjunct2]]
    using mk pu qv by (simp add: bind_Ok bind_gets return_def)
  moreover have "kernel_list s' vw' (insert (n, 16) A) (runnable_tasks s') (ns @ [n]) (xs @ [p])"
    using l' touches_vars(2) [OF tch] qv by simp
  moreover have "state_of s' t = state_code DEAD" "state_of s' p = state_code RUNNABLE"
    using kept(1) [of t 0] kept(1) [of p 0] val(1,2) by (simp_all add: load32_low_half ts_state_def)
  moreover have "resume_wait p ptr s' = Ok (pid_of s t) (if ptr = 0 then s'
          else s'\<lparr>mem := store32 (mem s') (page_addr g) (load32 (mem s) (t + ts_exit_status))\<rparr>)" for ptr
  proof -
    have "page_addr g \<notin> {p + ts_trap_frame, page_addr f + tf_offset TF_a0}"
      using object_page [OF live [unfolded vw] d(6), of 96] page_of_page_addr [of g] d(11,13,18) frame_cell(1) [OF d(12), of TF_a0] vw
      by (auto simp: task_layout)
    moreover have "load64 (mem s') (p + ts_trap_frame) = page_addr f" "load64 (mem s') (p + ts_shared_memory) = page_addr g"
      using kept(1) [of p 96] kept(1) [of p 104] touches_load [OF w woken_cells_task [OF k live, of p 96]]
        touches_load [OF w woken_cells_task [OF k live, of p 104]] d(9,10) by (simp_all add: task_layout)
    ultimately show ?thesis
      using resume_ok [OF d(2) _ _ d(14,15) _ d(4), of s' "load32 (mem s) (t + ts_exit_status)" ptr] kept(2) val(3,4) by simp
  qed
  ultimately show ?thesis unfolding if_P [OF True] by blast
next
  case False
  note d = parent_knownD [OF k kernel_listD(1) [OF l]]
  then show ?thesis using False by (auto simp: wake_parent_def struct_simps bind_get_state return_def)
qed

section \<open>Two small systems\<close>

text \<open>Init at \<open>0x1000\<close>, its child at \<open>0x2000\<close>, which has exited, and the child of that one at \<open>0x3000\<close>.\<close>

definition clan_cells :: "(addr \<times> uint64) list" where
  "clan_cells =
     [(0x100, 0x200), (0x108, 0x400), (0x110, 3), (0x200, 0x300), (0x208, 0x1000), (0x300, 0x400), (0x308, 0x2000),
      (0x400, 0), (0x408, 0x3000), (0x1000, 2), (0x1018, 0), (0x2000, 3), (0x2018, 0x1000), (0x3000, 1), (0x3018, 0x2000)]"

definition clan :: kernel where
  "clan = kernel_zero\<lparr>mem := cells clan_cells, all_tasks := 0x100, init_task := 0x1000\<rparr>"

lemma clan_mem:
  "all_tasks clan = 0x100" "init_task clan = 0x1000" "aligned8 a \<Longrightarrow> load64 (mem clan) a = cell clan_cells a"
  "aligned8 a \<Longrightarrow> load32 (mem clan) a = ucast (cell clan_cells a)"
  by (simp_all add: clan_def load64_cells load32_cells clan_cells_def aligned8_def)

lemma clan_linked: "tasks_linked clan [0x200, 0x300, 0x400] [0x1000, 0x2000, 0x3000]"
proof -
  have "list_at clan 0x100 [0x200, 0x300, 0x400] [0x1000, 0x2000, 0x3000]"
    by (simp add: list_at_def list_layout clan_mem aligned8_def cell_def clan_cells_def)
  moreover have "nodes_sep 0x100 [0x200, 0x300, 0x400]" by (simp add: nodes_sep_def aligned8_def)
  ultimately show ?thesis
    unfolding tasks_linked_def
    by (simp add: clan_mem queue_cells_def aligned8_def task_layout cell_def clan_cells_def)
qed

theorem exit_reparents_children_witness:
  "\<exists>s'. for_each_node 0x100 reparent clan = Ok () s' \<and> parent_of s' 0x3000 = 0x1000 \<and> parent_of s' 0x2000 = 0x1000"
proof -
  have st: "state_of clan 0x1000 = 2" "state_of clan 0x2000 = 3" "parent_of clan 0x3000 = 0x2000" "parent_of clan 0x2000 = 0x1000"
    by (simp_all add: clan_mem aligned8_def cell_def clan_cells_def task_layout)
  then have "init_task clan \<in> set [0x1000, 0x2000, 0x3000]" "state_of clan (init_task clan) \<noteq> state_code ZOMBIE"
    by (simp_all add: clan_mem)
  from exit_reparents_children [OF clan_linked this] st show ?thesis by (auto simp: clan_mem)
qed

text \<open>
  The queue of runnable tasks, a task that has exited with status 42 and its sleeping parent as the
  three objects of a heap of one page; trap frame and shared page of the parent are \<open>0x85000\<close>
  and \<open>0x85001\<close>.
\<close>

definition wait_cells :: "(addr \<times> uint64) list" where
  "wait_cells =
     [(0x87fff000, 0), (0x87fff008, 3), (0x87fff010, 0x87fff280),
      (0x87fff028, 24), (0x87fff030, 0x87fff000), (0x87fff050, 264), (0x87fff058, 0x87fff000),
      (0x87fff168, 264), (0x87fff170, 0x87fff000),
      (0x87fff060, 3), (0x87fff070, 2), (0x87fff078, 0x87fff178), (0x87fff140, 42),
      (0x87fff178, 0), (0x87fff180, 0x87fff178), (0x87fff1d8, 0x85000000), (0x87fff1e0, 0x85001000)]"

definition wait_state :: kernel where
  "wait_state = kernel_zero\<lparr>mem := cells wait_cells, block_list_head := 0x87fff000, block_list_tail := 0x87fff000,
     runnable_tasks := 0x87fff038\<rparr>"

lemma wait_mem:
  "aligned8 a \<Longrightarrow> load64 (mem wait_state) a = cell wait_cells a"
  "aligned8 a \<Longrightarrow> load32 (mem wait_state) a = ucast (cell wait_cells a)"
  by (simp_all add: wait_state_def load64_cells load32_cells wait_cells_def aligned8_def)

abbreviation wait_objects :: "(addr \<times> nat) set" where
  "wait_objects \<equiv> {(0x87fff038, 24), (0x87fff060, 264), (0x87fff178, 264)}"

lemma wait_pool: "page_pool wait_state {}"
proof -
  have "pool_repr wait_state (\<lambda>_. [])" by (auto simp: pool_repr_def wait_state_def kernel_zero_def BUDDY_MAX_ORDER_def)
  moreover have "buddy_wf (\<lambda>_. [])" by (simp add: buddy_wf_def disjoint_blocks_def coalesced_def)
  moreover have "free_pages (\<lambda>_. []) = {}" by (simp add: free_pages_def)
  ultimately show ?thesis by (auto simp: page_pool_def)
qed

lemma wait_live: "live_objects wait_state ({}, Block 0x87fff 0 3 640) wait_objects"
proof -
  have a: "page_addr 0x87fff = 0x87fff000" by (simp add: page_addr_def)
  have "valid_block 0 0x87fff" by (simp add: valid_block_def first_page_def end_page_def)
  then have "heap_inv wait_state {} (Block 0x87fff 0 3 640)"
    using wait_pool by (simp add: heap_inv_def a heap_layout wait_mem aligned8_def cell_def wait_cells_def)
      (simp add: wait_state_def)
  moreover have "objects_in wait_state 0x87fff 640 {(40, 24), (80, 264), (360, 264)}"
    by (simp add: objects_in_def piece_at_def a heap_layout wait_mem aligned8_def cell_def wait_cells_def)
  ultimately show ?thesis unfolding live_objects.simps
    by (intro conjI exI [of _ "{(40, 24), (80, 264), (360, 264)}"]) (simp_all add: object_at_def a)
qed

lemma wait_list: "kernel_list wait_state ({}, Block 0x87fff 0 3 640) wait_objects (runnable_tasks wait_state) [] []"
proof -
  have q: "runnable_tasks wait_state = 0x87fff038" by (simp add: wait_state_def)
  have "list_at wait_state 0x87fff038 [] []"
    by (simp add: list_at_def list_layout wait_mem aligned8_def cell_def wait_cells_def)
  then show ?thesis using wait_live by (simp add: kernel_list_def list_objects_def q)
qed

theorem exit_status_reaches_wait_witness:
  "\<exists>s' s''. wake_parent 0x87fff060 wait_state = Ok () s' \<and> resume_wait 0x87fff178 1 s' = Ok 2 s'' \<and>
     load32 (mem s'') 0x85001000 = 42"
proof -
  let ?vw = "({} :: nat set, Block 0x87fff 0 3 640)"
  have f: "load64 (mem wait_state) (0x87fff178 + ts_channel) = 0x87fff178" "state_of wait_state 0x87fff178 = state_code SLEEPING"
    "pid_of wait_state 0x87fff060 = 2" "load32 (mem wait_state) (0x87fff060 + ts_exit_status) = 42"
    "parent_of wait_state 0x87fff060 = 0x87fff178" "load64 (mem wait_state) (0x87fff178 + ts_trap_frame) = 0x85000000"
    "load64 (mem wait_state) (0x87fff178 + ts_shared_memory) = 0x85001000"
    by (simp_all add: wait_mem aligned8_def cell_def wait_cells_def task_layout)
  have g: "page_addr 0x85001 = 0x85001000" "page_addr 0x85000 = 0x85000000" by (simp_all add: page_addr_def)
  have k: "parent_known wait_state ?vw wait_objects 0x87fff060 0x87fff178 0x85000 0x85001"
    using f(5-7) by (simp add: parent_known_def g block_def)
  have r: "heap_room ?vw sizeof_node" by (simp add: sizeof_node_def gross_unat)
  from exit_status_reaches_wait [OF wait_list r k, unfolded f g] obtain s' where
    "wake_parent 0x87fff060 wait_state = Ok () s'"
    "\<forall>ptr. resume_wait 0x87fff178 ptr s' = Ok 2 (if ptr = 0 then s' else s'\<lparr>mem := store32 (mem s') 0x85001000 42\<rparr>)"
    by auto
  then show ?thesis by (intro exI [of _ s'] exI [of _ "s'\<lparr>mem := store32 (mem s') 0x85001000 42\<rparr>"]) simp
qed

end
