(* ===== verification/User_Lib.thy ===== *)
theory User_Lib
  imports Console
begin

text \<open>
  The user side: the system call wrappers of \<open>user/system.c\<close> and the library of \<open>user/ulib.c\<close>
  and \<open>user/ulib.h\<close>. Definitions whose name the kernel has too carry the suffix \<open>_user\<close>.

  The instruction \<open>ecall\<close> of \<open>user/syscall.S\<close> and the kernel behind it are a parameter of the
  definitions, the function \<open>S\<close> of the seven arguments and the number of the call. The state is
  the memory the process sees, with the static variable \<open>last\<close> of \<open>strtok\<close>.
\<close>

section \<open>State and system calls\<close>

record user = machine +
  strtok_last :: addr

type_synonym 's ecall = "uint64 \<Rightarrow> uint64 \<Rightarrow> uint64 \<Rightarrow> uint64 \<Rightarrow> uint64 \<Rightarrow> uint64 \<Rightarrow> uint64 \<Rightarrow> uint64 \<Rightarrow> (uint64, 's) run"

definition SYSCALL_FORK :: uint64 where "SYSCALL_FORK = 1"
definition SYSCALL_EXEC :: uint64 where "SYSCALL_EXEC = 2"
definition SYSCALL_EXIT :: uint64 where "SYSCALL_EXIT = 3"
definition SYSCALL_WAIT :: uint64 where "SYSCALL_WAIT = 4"
definition SYSCALL_WAIT_PID :: uint64 where "SYSCALL_WAIT_PID = 5"
definition SYSCALL_SEND_SIGNAL :: uint64 where "SYSCALL_SEND_SIGNAL = 6"
definition SYSCALL_YIELD :: uint64 where "SYSCALL_YIELD = 7"
definition SYSCALL_POWER_OFF :: uint64 where "SYSCALL_POWER_OFF = 8"
definition SYSCALL_PUT_CHAR :: uint64 where "SYSCALL_PUT_CHAR = 9"
definition SYSCALL_GET_CHAR :: uint64 where "SYSCALL_GET_CHAR = 10"

lemmas syscall_numbers = SYSCALL_FORK_def SYSCALL_EXEC_def SYSCALL_EXIT_def SYSCALL_WAIT_def SYSCALL_WAIT_PID_def
  SYSCALL_SEND_SIGNAL_def SYSCALL_YIELD_def SYSCALL_POWER_OFF_def SYSCALL_PUT_CHAR_def SYSCALL_GET_CHAR_def

definition PGSIZE_user :: uint64 where "PGSIZE_user = 4096"
definition MAXVA_user :: uint64 where "MAXVA_user = push_bit (9 + 9 + 9 + 12 - 1) 1"
definition TRAMPOLINE_user :: uint64 where "TRAMPOLINE_user = MAXVA_user - PGSIZE_user"
definition SHARED_MEMORY_user :: uint64 where "SHARED_MEMORY_user = TRAMPOLINE_user - PGSIZE_user * 2"

definition fork_user :: "'z user_scheme ecall \<Rightarrow> (uint64, 'z user_scheme) run" where
  "fork_user S = S 0 0 0 0 0 0 0 SYSCALL_FORK"

text \<open>
  The loop of \<open>exec\<close> that packs the name, the arguments and the environment into the shared
  page. Its variables: the index \<open>i\<close>, the state (0, 1, 2), the two counters and the sizes
  found; the branch that leaves the arguments undoes the increment of \<open>i\<close>.
\<close>

record exec_vars =
  idx :: nat
  phase :: nat
  count1 :: nat
  count2 :: nat
  argv_size :: nat
  envp_size :: nat

definition exec_start :: exec_vars where
  "exec_start = \<lparr>idx = 0, phase = 0, count1 = 0, count2 = 0, argv_size = 0, envp_size = 0\<rparr>"

text \<open>Copying one byte of the string \<open>vec[count1]\<close> to the page, and moving the counters.\<close>

definition exec_copy :: "addr \<Rightarrow> exec_vars \<Rightarrow> (exec_vars, 'z user_scheme) run" where
  "exec_copy vec v =
     bind (get_field vec (8 * of_nat (count1 v))) (\<lambda>p.
     bind (get_byte p (of_nat (count2 v))) (\<lambda>c.
     bind (set_byte SHARED_MEMORY_user (of_nat (idx v)) c) (\<lambda>_.
     bind (get_field vec (8 * of_nat (count1 v))) (\<lambda>p.
     bind (get_byte p (of_nat (count2 v))) (\<lambda>c.
     if c = 0 then return (v\<lparr>idx := idx v + 1, count1 := count1 v + 1, count2 := 0\<rparr>)
     else return (v\<lparr>idx := idx v + 1, count2 := count2 v + 1\<rparr>))))))"

definition exec_step :: "addr \<Rightarrow> addr \<Rightarrow> addr \<Rightarrow> exec_vars \<Rightarrow> (exec_vars, 'z user_scheme) run" where
  "exec_step name argv envp v =
     (if phase v = 0 then
        bind (get_byte name (of_nat (idx v))) (\<lambda>c.
        bind (set_byte SHARED_MEMORY_user (of_nat (idx v)) c) (\<lambda>_.
        bind (get_byte name (of_nat (idx v))) (\<lambda>c.
        return (v\<lparr>idx := idx v + 1, phase := (if c = 0 then 1 else 0)\<rparr>))))
      else if phase v = 1 then
        bind (get_field argv (8 * of_nat (count1 v))) (\<lambda>p.
        if p = 0 then return (v\<lparr>phase := 2, argv_size := count1 v, count1 := 0, count2 := 0\<rparr>)
        else exec_copy argv v)
      else
        bind (get_field envp (8 * of_nat (count1 v))) (\<lambda>p.
        if p = 0 then
          bind (set_byte SHARED_MEMORY_user (of_nat (idx v)) 0) (\<lambda>_.
          return (v\<lparr>idx := idx v + 1, envp_size := count1 v\<rparr>))
        else exec_copy envp v))"

partial_function (option) exec_loop ::
  "addr \<Rightarrow> addr \<Rightarrow> addr \<Rightarrow> exec_vars \<Rightarrow> 'z user_scheme \<Rightarrow> (fault + exec_vars \<times> 'z user_scheme) option" where
  "exec_loop name argv envp v s =
     (if idx v < 4096 then bind (exec_step name argv envp v) (\<lambda>v. exec_loop name argv envp v)
      else return v) s"

definition exec_user :: "'z user_scheme ecall \<Rightarrow> addr \<Rightarrow> addr \<Rightarrow> addr \<Rightarrow> (uint64, 'z user_scheme) run" where
  "exec_user S name argv envp =
     bind (exec_loop name argv envp exec_start) (\<lambda>v.
     bind (set_byte SHARED_MEMORY_user (PGSIZE_user - 1) 0) (\<lambda>_.
     S name argv envp (of_nat (argv_size v)) (of_nat (envp_size v)) 0 0 SYSCALL_EXEC))"

text \<open>\<open>for (;;) {}\<close>\<close>

definition forever :: "('a, 's) run" where
  "forever s = None"

definition exit_user :: "'z user_scheme ecall \<Rightarrow> 32 word \<Rightarrow> ('a, 'z user_scheme) run" where
  "exit_user S status = bind (S (scast status) 0 0 0 0 0 0 SYSCALL_EXIT) (\<lambda>_. forever)"

text \<open>The result is an \<open>int\<close>: the low half of the register.\<close>

definition fetch_status :: "addr \<Rightarrow> 32 word \<Rightarrow> (unit, 'z user_scheme) run" where
  "fetch_status status return_val =
     if_then (return_val \<noteq> 0)
       (bind (get_field32 SHARED_MEMORY_user 0) (\<lambda>v. set_field32 status 0 v))"

definition wait_user :: "'z user_scheme ecall \<Rightarrow> addr \<Rightarrow> (32 word, 'z user_scheme) run" where
  "wait_user S status =
     bind (S status 0 0 0 0 0 0 SYSCALL_WAIT) (\<lambda>r.
     let return_val = ucast r in
     bind (fetch_status status return_val) (\<lambda>_.
     return return_val))"

definition wait_pid_user :: "'z user_scheme ecall \<Rightarrow> uint64 \<Rightarrow> addr \<Rightarrow> (uint64, 'z user_scheme) run" where
  "wait_pid_user S pid status =
     bind (S pid status 0 0 0 0 0 SYSCALL_WAIT_PID) (\<lambda>r.
     let return_val = ucast r in
     bind (fetch_status status return_val) (\<lambda>_.
     return (scast return_val)))"

definition send_signal_user :: "'z user_scheme ecall \<Rightarrow> uint64 \<Rightarrow> 32 word \<Rightarrow> (32 word, 'z user_scheme) run" where
  "send_signal_user S pid sig =
     bind (S pid (scast sig) 0 0 0 0 0 SYSCALL_SEND_SIGNAL) (\<lambda>r. return (ucast r))"

definition yield_user :: "'z user_scheme ecall \<Rightarrow> (unit, 'z user_scheme) run" where
  "yield_user S = bind (S 0 0 0 0 0 0 0 SYSCALL_YIELD) (\<lambda>_. return ())"

definition power_off_user :: "'z user_scheme ecall \<Rightarrow> (32 word, 'z user_scheme) run" where
  "power_off_user S = bind (S 0 0 0 0 0 0 0 SYSCALL_POWER_OFF) (\<lambda>r. return (ucast r))"

definition put_char :: "'z user_scheme ecall \<Rightarrow> 32 word \<Rightarrow> (unit, 'z user_scheme) run" where
  "put_char S character = bind (S (scast character) 0 0 0 0 0 0 SYSCALL_PUT_CHAR) (\<lambda>_. return ())"

definition get_char :: "'z user_scheme ecall \<Rightarrow> (byte, 'z user_scheme) run" where
  "get_char S = bind (S 0 0 0 0 0 0 0 SYSCALL_GET_CHAR) (\<lambda>r. return (ucast r))"

text \<open>\<open>_start\<close>: the entry point of a program with the given \<open>main\<close>.\<close>

definition start_user :: "'z user_scheme ecall \<Rightarrow> (32 word \<Rightarrow> addr \<Rightarrow> addr \<Rightarrow> (32 word, 'z user_scheme) run) \<Rightarrow>
    32 word \<Rightarrow> addr \<Rightarrow> addr \<Rightarrow> (unit, 'z user_scheme) run" where
  "start_user S prog argc argv envp = bind (prog argc argv envp) (\<lambda>r. exit_user S r)"


section \<open>Strings\<close>

text \<open>\<open>while (n--) *pos++ = c;\<close>: \<open>n\<close> is the count that is tested.\<close>

primrec memset_user :: "addr \<Rightarrow> byte \<Rightarrow> nat \<Rightarrow> (unit, 'z user_scheme) run" where
  "memset_user pos c 0 = return ()"
| "memset_user pos c (Suc n) = bind (write8 pos c) (\<lambda>_. memset_user (pos + 1) c n)"

primrec memcpy_user :: "addr \<Rightarrow> addr \<Rightarrow> nat \<Rightarrow> (unit, 'z user_scheme) run" where
  "memcpy_user pos_dst pos_src 0 = return ()"
| "memcpy_user pos_dst pos_src (Suc n) =
     bind (read8 pos_src) (\<lambda>c.
     bind (write8 pos_dst c) (\<lambda>_.
     memcpy_user (pos_dst + 1) (pos_src + 1) n))"

partial_function (option) strlen_user :: "addr \<Rightarrow> int \<Rightarrow> 'z user_scheme \<Rightarrow> (fault + int \<times> 'z user_scheme) option" where
  "strlen_user p n s = bind (read8 p) (\<lambda>c. if c \<noteq> 0 then strlen_user (p + 1) (n + 1) else return n) s"

text \<open>\<open>strcmp\<close> and \<open>strcpy\<close> have the text of the kernel's.\<close>

definition strcmp_user :: "addr \<Rightarrow> addr \<Rightarrow> (int, 'z user_scheme) run" where
  "strcmp_user s1 s2 = strcmp s1 s2"

definition strcpy_user :: "addr \<Rightarrow> addr \<Rightarrow> uint64 \<Rightarrow> (unit, 'z user_scheme) run" where
  "strcpy_user dest src sz = strcpy dest src sz"

partial_function (option) string_includes ::
  "addr \<Rightarrow> byte \<Rightarrow> 'z user_scheme \<Rightarrow> (fault + bool \<times> 'z user_scheme) option" where
  "string_includes p c s =
     bind (read8 p) (\<lambda>d.
     if d = 0 then return False
     else if d = c then return True
     else string_includes (p + 1) c) s"

text \<open>The two loops of \<open>strtok\<close>, over the static variable \<open>last\<close>.\<close>

definition strtok_advance :: "(unit, 'z user_scheme) run" where
  "strtok_advance = modify (\<lambda>s. s\<lparr>strtok_last := strtok_last s + 1\<rparr>)"

partial_function (option) strtok_skip :: "addr \<Rightarrow> 'z user_scheme \<Rightarrow> (fault + unit \<times> 'z user_scheme) option" where
  "strtok_skip delim s =
     bind (gets strtok_last) (\<lambda>p.
     bind (read8 p) (\<lambda>c.
     bind (if c \<noteq> 0 then string_includes delim c else return False) (\<lambda>found.
     if found then bind strtok_advance (\<lambda>_. strtok_skip delim) else return ()))) s"

partial_function (option) strtok_token ::
  "addr \<Rightarrow> addr \<Rightarrow> 'z user_scheme \<Rightarrow> (fault + addr \<times> 'z user_scheme) option" where
  "strtok_token delim ret s =
     bind (gets strtok_last) (\<lambda>p.
     bind (read8 p) (\<lambda>c.
     if c \<noteq> 0 then
       bind (string_includes delim c) (\<lambda>found.
       if found then bind (write8 p 0) (\<lambda>_. bind strtok_advance (\<lambda>_. return ret))
       else bind strtok_advance (\<lambda>_. strtok_token delim ret))
     else
       bind (modify (\<lambda>s. s\<lparr>strtok_last := 0\<rparr>)) (\<lambda>_.
       bind (read8 ret) (\<lambda>c. return (if c = 0 then 0 else ret))))) s"

definition strtok_user :: "addr \<Rightarrow> addr \<Rightarrow> (addr, 'z user_scheme) run" where
  "strtok_user str delim =
     bind (if_then (str \<noteq> 0) (modify (\<lambda>s. s\<lparr>strtok_last := str\<rparr>))) (\<lambda>_.
     bind (gets strtok_last) (\<lambda>p.
     if p = 0 then return 0
     else
       bind (strtok_skip delim) (\<lambda>_.
       bind (gets strtok_last) (\<lambda>ret.
       strtok_token delim ret))))"

text \<open>A \<open>char\<close> is unsigned on RISC-V; passed to \<open>put_char\<close> it is an \<open>int\<close>.\<close>

definition put_byte :: "'z user_scheme ecall \<Rightarrow> byte \<Rightarrow> (unit, 'z user_scheme) run" where
  "put_byte S c = put_char S (ucast c)"

definition erase_char :: "'z user_scheme ecall \<Rightarrow> int \<Rightarrow> (int, 'z user_scheme) run" where
  "erase_char S i =
     (if i > 0 then
        bind (put_byte S 8) (\<lambda>_.
        bind (put_byte S 32) (\<lambda>_.
        bind (put_byte S 8) (\<lambda>_.
        return (i - 1))))
      else return i)"

partial_function (option) read_until_loop ::
  "'z user_scheme ecall \<Rightarrow> addr \<Rightarrow> int \<Rightarrow> byte \<Rightarrow> int \<Rightarrow> 'z user_scheme \<Rightarrow> (fault + int \<times> 'z user_scheme) option" where
  "read_until_loop S buffer max_length end_char i s =
     (if i + 1 < max_length then
        bind (get_char S) (\<lambda>c.
        if c = 127 then
          bind (erase_char S i) (\<lambda>i.
          read_until_loop S buffer max_length end_char i)
        else
          bind (put_byte S c) (\<lambda>_.
          bind (set_byte buffer (of_int i) c) (\<lambda>_.
          if c = end_char \<or> c = 0 then bind (set_byte buffer (of_int (i + 1)) 0) (\<lambda>_. return 0)
          else read_until_loop S buffer max_length end_char (i + 1))))
      else bind (set_byte buffer (of_int i) 0) (\<lambda>_. return (-1))) s"

definition read_until :: "'z user_scheme ecall \<Rightarrow> addr \<Rightarrow> int \<Rightarrow> byte \<Rightarrow> (int, 'z user_scheme) run" where
  "read_until S buffer max_length end_char = read_until_loop S buffer max_length end_char 0"

lemmas [code] = exec_loop.simps strlen_user.simps string_includes.simps strtok_skip.simps strtok_token.simps
  read_until_loop.simps

section \<open>Formatted output\<close>

definition print_char_user :: "'z user_scheme ecall \<Rightarrow> byte \<Rightarrow> (int, 'z user_scheme) run" where
  "print_char_user S c = bind (put_byte S c) (\<lambda>_. return 1)"

partial_function (option) print_string_user_loop ::
  "'z user_scheme ecall \<Rightarrow> addr \<Rightarrow> int \<Rightarrow> 'z user_scheme \<Rightarrow> (fault + int \<times> 'z user_scheme) option" where
  "print_string_user_loop S str i s =
     bind (get_byte str (of_int i)) (\<lambda>c.
     if c \<noteq> 0 then
       bind (put_byte S c) (\<lambda>_.
       print_string_user_loop S str (i + 1))
     else return i) s"

definition print_string_user :: "'z user_scheme ecall \<Rightarrow> addr \<Rightarrow> (int, 'z user_scheme) run" where
  "print_string_user S str = print_string_user_loop S str 0"

function print_unsigned_int :: "'z user_scheme ecall \<Rightarrow> uint64 \<Rightarrow> (int, 'z user_scheme) run" where
  "print_unsigned_int S n =
     (if n = 0 then bind (put_byte S 48) (\<lambda>_. return 1)
      else
        bind (if n \<ge> 10 then print_unsigned_int S (n div 10) else return 0) (\<lambda>len.
        bind (put_byte S (48 + ucast (n mod 10))) (\<lambda>_.
        return (len + 1))))"
  by pat_completeness auto
termination by (relation "measure (\<lambda>(S, n). unat n)") (simp_all add: unat_div_less)

text \<open>\<open>n = -n\<close> wraps around at the least number.\<close>

definition print_int_dec_user :: "'z user_scheme ecall \<Rightarrow> uint64 \<Rightarrow> bool \<Rightarrow> (int, 'z user_scheme) run" where
  "print_int_dec_user S n sign =
     (if sign \<and> sint n < 0 then
        bind (put_byte S 45) (\<lambda>_.
        bind (print_unsigned_int S (- n)) (\<lambda>l. return (1 + l)))
      else print_unsigned_int S n)"

function print_int_hex_without_header_user :: "'z user_scheme ecall \<Rightarrow> uint64 \<Rightarrow> (int, 'z user_scheme) run" where
  "print_int_hex_without_header_user S n =
     (if n = 0 then bind (put_byte S 48) (\<lambda>_. return 1)
      else
        bind (if n \<ge> 16 then print_int_hex_without_header_user S (n div 16) else return 0) (\<lambda>len.
        let digit = n mod 16 in
        bind (if digit < 10 then put_byte S (48 + ucast digit) else put_byte S (97 + ucast digit - 10)) (\<lambda>_.
        return (len + 1))))"
  by pat_completeness auto
termination by (relation "measure (\<lambda>(S, n). unat n)") (simp_all add: unat_div_less)

text \<open>The header is the string literal \<open>"0x"\<close>; \<open>L\<close> gives the addresses of the literals.\<close>

definition print_int_hex :: "'z user_scheme ecall \<Rightarrow> (string \<Rightarrow> addr) \<Rightarrow> uint64 \<Rightarrow> (int, 'z user_scheme) run" where
  "print_int_hex S L n =
     bind (print_string_user S (L ''0x'')) (\<lambda>_.
     bind (print_int_hex_without_header_user S n) (\<lambda>len.
     return (len + 2)))"

function print_int_oct_without_header :: "'z user_scheme ecall \<Rightarrow> uint64 \<Rightarrow> (int, 'z user_scheme) run" where
  "print_int_oct_without_header S n =
     (if n = 0 then bind (put_byte S 48) (\<lambda>_. return 1)
      else
        bind (if n \<ge> 8 then print_int_oct_without_header S (n div 8) else return 0) (\<lambda>len.
        bind (put_byte S (48 + ucast (n mod 8))) (\<lambda>_.
        return (len + 1))))"
  by pat_completeness auto
termination by (relation "measure (\<lambda>(S, n). unat n)") (simp_all add: unat_div_less)

declare print_unsigned_int.simps [simp del] print_int_hex_without_header_user.simps [simp del]
  print_int_oct_without_header.simps [simp del]

definition print_int_oct :: "'z user_scheme ecall \<Rightarrow> uint64 \<Rightarrow> (int, 'z user_scheme) run" where
  "print_int_oct S n =
     bind (put_byte S 48) (\<lambda>_.
     if n = 0 then return 1
     else
       bind (print_int_oct_without_header S n) (\<lambda>len.
       return (len + 1)))"

definition print_int_user :: "'z user_scheme ecall \<Rightarrow> (string \<Rightarrow> addr) \<Rightarrow> uint64 \<Rightarrow> bool \<Rightarrow> int \<Rightarrow> (int, 'z user_scheme) run" where
  "print_int_user S L n sign base =
     (if base = 16 then print_int_hex S L n
      else if base = 10 then print_int_dec_user S n sign
      else if base = 8 then print_int_oct S n
      else return (-1))"

text \<open>
  \<open>va_arg\<close>: the variable arguments are a list of registers, and reading beyond it is undefined.
  \<open>print_directive\<close> is the \<open>switch\<close> over the character after the percent sign; \<open>None\<close> is the
  return of -1. An argument of type \<open>int\<close> is the low half of its register.
\<close>

definition va_arg :: "uint64 list \<Rightarrow> (uint64, 'z user_scheme) run" where
  "va_arg args = (case args of [] \<Rightarrow> raise OutOfBounds | x # _ \<Rightarrow> return x)"

definition sign_extend_int :: "uint64 \<Rightarrow> uint64" where
  "sign_extend_int x = scast (ucast x :: 32 word)"

definition print_directive :: "'z user_scheme ecall \<Rightarrow> (string \<Rightarrow> addr) \<Rightarrow> byte \<Rightarrow> uint64 list \<Rightarrow>
    ((int \<times> uint64 list) option, 'z user_scheme) run" where
  "print_directive S L d args =
     (let with_arg = (\<lambda>f. bind (va_arg args) (\<lambda>x. bind (f x) (\<lambda>l. return (Some (l, tl args))))) in
      if d = 99 then with_arg (\<lambda>x. print_char_user S (ucast x))
      else if d = 100 \<or> d = 105 then with_arg (\<lambda>x. print_int_user S L (sign_extend_int x) True 10)
      else if d = 111 then with_arg (\<lambda>x. print_int_oct S x)
      else if d = 112 then with_arg (\<lambda>x. print_int_hex S L x)
      else if d = 115 then with_arg (\<lambda>x. print_string_user S x)
      else if d = 117 then with_arg (\<lambda>x. print_int_user S L x False 10)
      else if d = 120 then with_arg (\<lambda>x. print_int_user S L x False 16)
      else if d = 37 then bind (print_char_user S 37) (\<lambda>l. return (Some (l, args)))
      else return None)"

partial_function (option) vprintf_loop ::
  "'z user_scheme ecall \<Rightarrow> (string \<Rightarrow> addr) \<Rightarrow> addr \<Rightarrow> uint64 list \<Rightarrow> int \<Rightarrow>
   'z user_scheme \<Rightarrow> (fault + int \<times> 'z user_scheme) option" where
  "vprintf_loop S L format args len s =
     bind (read8 format) (\<lambda>c.
     if c = 0 then return len
     else if c = 37 then
       bind (read8 (format + 1)) (\<lambda>d.
       if d = 0 then return (-1)
       else
         bind (print_directive S L d args) (\<lambda>r.
         if r = None then return (-1)
         else vprintf_loop S L (format + 2) (snd (the r)) (len + fst (the r))))
     else
       bind (print_char_user S c) (\<lambda>_.
       vprintf_loop S L (format + 1) args (len + 1))) s"

definition printf :: "'z user_scheme ecall \<Rightarrow> (string \<Rightarrow> addr) \<Rightarrow> addr \<Rightarrow> uint64 list \<Rightarrow> (int, 'z user_scheme) run" where
  "printf S L format args =
     (if format = 0 then raise NullDeref else vprintf_loop S L format args 0)"

lemmas [code] = print_string_user_loop.simps vprintf_loop.simps

end
