(* ===== verification/User_Output.thy ===== *)
theory User_Output
  imports User_Lib
begin

text \<open>
  What the output routines of the user library print: the numerals of \<open>print_int\<close> and its
  helpers, and \<open>printf\<close> against a declarative reading of format strings.
\<close>

section \<open>A console behind the system call\<close>

definition user_same :: "'z user_scheme \<Rightarrow> 'z user_scheme \<Rightarrow> bool" where
  "user_same s s' \<longleftrightarrow> user.truncate s' = user.truncate s"

lemma user_same_refl [simp]: "user_same s s"
  by (simp add: user_same_def)

lemma user_same_trans: "user_same s t \<Longrightarrow> user_same t u \<Longrightarrow> user_same s u"
  by (simp add: user_same_def)

lemma user_sameD: "user_same s s' \<Longrightarrow> mem s' = mem s"
  by (simp add: user_same_def user.truncate_def)

text \<open>The call \<open>put_char\<close> sends the byte and leaves the memory of the process alone.\<close>

definition console_call :: "'z user_scheme ecall \<Rightarrow> ('z user_scheme \<Rightarrow> byte list) \<Rightarrow> bool" where
  "console_call S out \<longleftrightarrow>
     (\<forall>s c. \<exists>r s'. S (ucast (c :: byte)) 0 0 0 0 0 0 SYSCALL_PUT_CHAR s = Ok r s' \<and> user_same s s' \<and> out s' = out s @ [c])"

definition prints :: "('z user_scheme \<Rightarrow> byte list) \<Rightarrow> ('a, 'z user_scheme) run \<Rightarrow> byte list \<Rightarrow> 'a \<Rightarrow> 'z user_scheme \<Rightarrow> bool" where
  "prints out m cs x s \<longleftrightarrow> (\<exists>s'. m s = Ok x s' \<and> user_same s s' \<and> out s' = out s @ cs)"

lemma prints_return [simp]: "prints out (return x) [] x s"
  by (simp add: prints_def return_def)

lemma prints_bind:
  assumes "prints out m as x s" and "\<And>s'. user_same s s' \<Longrightarrow> prints out (k x) bs y s'"
  shows "prints out (bind m k) (as @ bs) y s"
proof -
  obtain t where t: "m s = Ok x t" "user_same s t" "out t = out s @ as" using assms(1) by (auto simp: prints_def)
  from assms(2) [OF t(2)] obtain u where u: "k x t = Ok y u" "user_same t u" "out u = out t @ bs" by (auto simp: prints_def)
  from t(2) u(2) have "user_same s u" by (rule user_same_trans)
  moreover have "bind m k s = Ok y u" using t(1) u(1) by (simp add: bind_def)
  ultimately show ?thesis using t(3) u(3) by (simp add: prints_def)
qed

lemma prints_then_return: "prints out m cs x s \<Longrightarrow> prints out (bind m (\<lambda>x. return (f x))) cs (f x) s"
  using prints_bind [of out m cs x s "\<lambda>x. return (f x)" "[]" "f x"] by simp

lemma prints_byte:
  assumes "console_call S out"
  shows "prints out (put_byte S c) [c] () s"
proof -
  have "(scast (ucast c :: 32 word) :: uint64) = ucast c"
  proof (rule bit_word_eqI)
    fix n
    have "\<not> bit c m" if "8 \<le> m" for m using bit_imp_le_length [of c m] that by auto
    then show "bit (scast (ucast c :: 32 word) :: uint64) n = bit (ucast c :: uint64) n" if "n < LENGTH(64)"
      using that by (auto simp: bit_simps min_def split: if_splits)
  qed
  with assms show ?thesis
    by (force simp: console_call_def prints_def put_byte_def put_char_def bind_def return_def split: option.splits)
qed

section \<open>Numerals\<close>

function digits_of :: "nat \<Rightarrow> nat \<Rightarrow> nat list" where
  "digits_of b n = (if n < b \<or> b < 2 then [n] else digits_of b (n div b) @ [n mod b])"
  by pat_completeness auto
termination by (relation "measure (\<lambda>(b, n). n)") (auto intro: div_less_dividend)

declare digits_of.simps [simp del]

lemma digits_of_value: "2 \<le> b \<Longrightarrow> digits_value b (digits_of b n) = n \<and> (\<forall>d\<in>set (digits_of b n). d < b)"
proof (induction n rule: less_induct)
  case (less n)
  show ?case
  proof (cases "n < b")
    case False
    then have "n div b < n" using less.prems by (auto intro: div_less_dividend)
    from less.IH [OF this less.prems] less.prems False show ?thesis by (subst (1 2) digits_of.simps) auto
  qed (subst (1 2) digits_of.simps, simp)
qed

text \<open>The three recursive printers are one scheme, in base 10, 16 and 8.\<close>

lemma prints_positional:
  fixes f :: "uint64 \<Rightarrow> (int, 'z user_scheme) run"
  assumes con: "console_call S out" and b: "2 \<le> b"
    and f: "\<And>n. f n = (if n = 0 then bind (put_byte S 48) (\<lambda>_. return 1) else
      bind (if n \<ge> b then f (n div b) else return 0) (\<lambda>len.
      bind (put_byte S (digit_char (unat n mod unat b))) (\<lambda>_. return (len + 1))))"
  shows "prints out (f n) (map digit_char (digits_of (unat b) (unat n))) (int (length (digits_of (unat b) (unat n)))) s"
proof (induction "unat n" arbitrary: n s rule: less_induct)
  case (less n s)
  have b2: "2 \<le> unat b" using b by (simp add: word_le_nat_alt)
  have last: "prints out (bind (put_byte S (digit_char d)) (\<lambda>_. return (l + 1))) [digit_char d] (l + 1) s" for d s and l :: int
    using prints_then_return [OF prints_byte [OF con], where f = "\<lambda>_. l + 1"] by simp
  consider "n = 0" | "n \<noteq> 0" "\<not> b \<le> n" | "n \<noteq> 0" "b \<le> n" by fastforce
  then show ?case
  proof cases
    case 1
    then show ?thesis using last [of 0 0 s] b2 by (subst f) (simp add: digits_of.simps digit_char_def)
  next
    case 2
    then have n: "unat n < unat b" by (simp add: word_le_nat_alt)
    then have "digits_of (unat b) (unat n) = [unat n]" "unat n mod unat b = unat n" by (simp_all add: digits_of.simps)
    with 2 last [of "unat n" 0 s] show ?thesis by (subst f) simp
  next
    case 3
    then have n: "unat b \<le> unat n" by (simp add: word_le_nat_alt)
    have d: "unat (n div b) = unat n div unat b" by (simp add: unat_div)
    have "unat (n div b) < unat n" using n b2 unfolding d by (intro div_less_dividend) auto
    note IH = less.hyps [OF this]
    have dg: "digits_of (unat b) (unat n) = digits_of (unat b) (unat (n div b)) @ [unat n mod unat b]"
      using n b2 unfolding d by (subst digits_of.simps) simp
    let ?ds = "digits_of (unat b) (unat (n div b))" and ?d = "unat n mod unat b"
    have "prints out (bind (f (n div b)) (\<lambda>len. bind (put_byte S (digit_char ?d)) (\<lambda>_. return (len + 1))))
        (map digit_char ?ds @ [digit_char ?d]) (int (length ?ds) + 1) s"
      by (rule prints_bind [OF IH]) (rule last)
    with 3 show ?thesis by (subst f) (simp add: dg add.commute)
  qed
qed

lemma unsigned_scheme:
  "print_unsigned_int S n = (if n = 0 then bind (put_byte S 48) (\<lambda>_. return 1) else
     bind (if n \<ge> 10 then print_unsigned_int S (n div 10) else return 0) (\<lambda>len.
     bind (put_byte S (digit_char (unat n mod unat (10 :: uint64)))) (\<lambda>_. return (len + 1))))"
proof -
  have "48 + ucast (n mod 10) = digit_char (unat n mod unat (10 :: uint64))"
    unfolding ucast_of_nat unat_mod_distrib by (simp add: digit_char_def)
  then show ?thesis by (simp only: print_unsigned_int.simps [of S n])
qed

lemma oct_scheme:
  "print_int_oct_without_header S n = (if n = 0 then bind (put_byte S 48) (\<lambda>_. return 1) else
     bind (if n \<ge> 8 then print_int_oct_without_header S (n div 8) else return 0) (\<lambda>len.
     bind (put_byte S (digit_char (unat n mod unat (8 :: uint64)))) (\<lambda>_. return (len + 1))))"
proof -
  have "unat n mod 8 < 8" by simp
  then have "unat n mod 8 < 10" by linarith
  then have "48 + ucast (n mod 8) = digit_char (unat n mod unat (8 :: uint64))"
    unfolding ucast_of_nat unat_mod_distrib by (simp add: digit_char_def)
  then show ?thesis by (simp only: print_int_oct_without_header.simps [of S n])
qed

lemma hex_user_scheme:
  "print_int_hex_without_header_user S n = (if n = 0 then bind (put_byte S 48) (\<lambda>_. return 1) else
     bind (if n \<ge> 16 then print_int_hex_without_header_user S (n div 16) else return 0) (\<lambda>len.
     bind (put_byte S (digit_char (unat n mod unat (16 :: uint64)))) (\<lambda>_. return (len + 1))))"
proof -
  have u: "unat (n mod 16) = unat n mod 16" by (simp add: unat_mod_distrib)
  have l: "n mod 16 < 10 \<longleftrightarrow> unat n mod 16 < 10" using u by (simp add: word_less_nat_alt)
  have "(if n mod 16 < 10 then put_byte S (48 + ucast (n mod 16)) else put_byte S (97 + ucast (n mod 16) - 10)) =
      put_byte S (digit_char (unat n mod unat (16 :: uint64)))"
    unfolding l ucast_of_nat u by (simp add: digit_char_def)
  then show ?thesis by (simp only: print_int_hex_without_header_user.simps [of S n] Let_def)
qed

definition numeral_text :: "nat \<Rightarrow> nat \<Rightarrow> byte list" where
  "numeral_text b n = map digit_char (digits_of b n)"

lemma prints_numerals:
  assumes "console_call S out"
  shows "prints out (print_unsigned_int S n) (numeral_text 10 (unat n)) (int (length (numeral_text 10 (unat n)))) s"
    "prints out (print_int_oct_without_header S n) (numeral_text 8 (unat n)) (int (length (numeral_text 8 (unat n)))) s"
    "prints out (print_int_hex_without_header_user S n) (numeral_text 16 (unat n)) (int (length (numeral_text 16 (unat n)))) s"
  using prints_positional [OF assms _ unsigned_scheme, of n s] prints_positional [OF assms _ oct_scheme, of n s]
    prints_positional [OF assms _ hex_user_scheme, of n s]
  by (simp_all add: numeral_text_def)

lemma prints_string:
  assumes "console_call S out" and "str \<noteq> 0"
  shows "cstring (mem s) (str + of_int i) cs \<Longrightarrow> 0 \<le> i \<Longrightarrow>
    prints out (print_string_user_loop S str i) cs (i + int (length cs)) s"
proof (induction cs arbitrary: i s)
  case Nil
  then show ?case using assms(2)
    by (simp add: prints_def print_string_user_loop.simps run_simps)
next
  case (Cons c cs)
  have k: "prints out (bind (put_byte S c) (\<lambda>_. print_string_user_loop S str (i + 1))) ([c] @ cs) (i + int (length (c # cs))) s"
  proof (rule prints_bind [OF prints_byte [OF assms(1)]])
    fix s' assume "user_same s s'"
    then have "mem s' = mem s" by (rule user_sameD)
    with Cons show "prints out (print_string_user_loop S str (i + 1)) cs (i + int (length (c # cs))) s'"
      using Cons.IH [of s' "i + 1"] by (simp add: algebra_simps)
  qed
  have "print_string_user_loop S str i s = bind (put_byte S c) (\<lambda>_. print_string_user_loop S str (i + 1)) s"
    using Cons.prems assms(2) by (subst print_string_user_loop.simps) (simp add: run_simps)
  with k show ?case by (simp add: prints_def)
qed

section \<open>Format strings\<close>

text \<open>A signed number: a minus sign where it is negative, and the numeral of its absolute value.\<close>

definition signed_text :: "int \<Rightarrow> byte list" where
  "signed_text x = (if x < 0 then [45] else []) @ numeral_text 10 (nat \<bar>x\<bar>)"

text \<open>The text of a conversion: its letter, its argument, and what is printed.\<close>

inductive conversion :: "memory \<Rightarrow> byte \<Rightarrow> uint64 \<Rightarrow> byte list \<Rightarrow> bool" for m where
  character: "conversion m 99 x [ucast x]"
| decimal: "conversion m 100 x (signed_text (sint (ucast x :: 32 word)))"
| integer: "conversion m 105 x (signed_text (sint (ucast x :: 32 word)))"
| octal: "conversion m 111 x (48 # (if x = 0 then [] else numeral_text 8 (unat x)))"
| pointer: "conversion m 112 x ([48, 120] @ numeral_text 16 (unat x))"
| str: "cstring m x cs \<Longrightarrow> x \<noteq> 0 \<Longrightarrow> conversion m 115 x cs"
| unsigned: "conversion m 117 x (numeral_text 10 (unat x))"
| hexadecimal: "conversion m 120 x ([48, 120] @ numeral_text 16 (unat x))"

inductive renders :: "memory \<Rightarrow> byte list \<Rightarrow> uint64 list \<Rightarrow> byte list \<Rightarrow> bool" for m where
  empty: "renders m [] args []"
| plain: "c \<noteq> 37 \<Longrightarrow> renders m fmt args cs \<Longrightarrow> renders m (c # fmt) args (c # cs)"
| percent: "renders m fmt args cs \<Longrightarrow> renders m (37 # 37 # fmt) args (37 # cs)"
| convert: "conversion m d x piece \<Longrightarrow> renders m fmt args cs \<Longrightarrow> renders m (37 # d # fmt) (x # args) (piece @ cs)"

lemma prints_char: "console_call S out \<Longrightarrow> prints out (print_char_user S c) [c] 1 s"
  unfolding print_char_user_def by (rule prints_then_return [OF prints_byte])

lemma prints_dec:
  assumes "console_call S out"
  shows "prints out (print_int_dec_user S n True) (signed_text (sint n)) (int (length (signed_text (sint n)))) s"
    "prints out (print_int_dec_user S n False) (numeral_text 10 (unat n)) (int (length (numeral_text 10 (unat n)))) s"
proof -
  show "prints out (print_int_dec_user S n False) (numeral_text 10 (unat n)) (int (length (numeral_text 10 (unat n)))) s"
    by (simp add: print_int_dec_user_def prints_numerals [OF assms])
  show "prints out (print_int_dec_user S n True) (signed_text (sint n)) (int (length (signed_text (sint n)))) s"
  proof (cases "sint n < 0")
    case True
    have u: "unat (- n) = nat \<bar>sint n\<bar>"
    proof -
      have "uint (- n) = (- sint n) mod 2 ^ 64"
        by (simp add: uint_word_ariths uint_sint [of n] take_bit_eq_mod mod_minus_eq)
      moreover have "0 \<le> - sint n" "- sint n \<le> 2 ^ 63" using True sint_ge [of n] by simp_all
      ultimately have "uint (- n) = - sint n" by simp
      with True show ?thesis by (simp add: unat_eq_nat_uint)
    qed
    let ?d = "numeral_text 10 (nat \<bar>sint n\<bar>)"
    have p: "prints out (bind (print_unsigned_int S (- n)) (\<lambda>l. return (1 + l))) ?d (1 + int (length ?d)) s" for s
      by (rule prints_then_return) (use prints_numerals(1) [OF assms, of "- n" s] in \<open>simp add: u\<close>)
    have "prints out (bind (put_byte S 45) (\<lambda>_. bind (print_unsigned_int S (- n)) (\<lambda>l. return (1 + l)))) ([45] @ ?d) (1 + int (length ?d)) s"
      by (rule prints_bind [OF prints_byte [OF assms]]) (rule p)
    with True show ?thesis by (simp add: print_int_dec_user_def signed_text_def)
  next
    case False
    have "sint n < 2 ^ 63" using sint_lt [of n] by simp
    then have "uint n = sint n" using False by (simp add: uint_sint [of n] take_bit_eq_mod)
    then have "unat n = nat \<bar>sint n\<bar>" using False by (simp add: unat_eq_nat_uint)
    with False prints_numerals(1) [OF assms, of n s] show ?thesis by (simp add: print_int_dec_user_def signed_text_def)
  qed
qed

lemma sint_extend: "sint (sign_extend_int x) = sint (ucast x :: 32 word)"
  unfolding sign_extend_int_def by (simp add: sint_up_scast is_up)

text \<open>The literal \<open>"0x"\<close> is in the memory of the program.\<close>

definition header_ok :: "(string \<Rightarrow> addr) \<Rightarrow> memory \<Rightarrow> bool" where
  "header_ok L m \<longleftrightarrow> L ''0x'' \<noteq> 0 \<and> cstring m (L ''0x'') [48, 120]"

lemma prints_hex:
  assumes "console_call S out" and "header_ok L (mem s)"
  shows "prints out (print_int_hex S L n) ([48, 120] @ numeral_text 16 (unat n)) (2 + int (length (numeral_text 16 (unat n)))) s"
proof -
  have "prints out (print_string_user S (L ''0x'')) [48, 120] 2 s"
    using prints_string [OF assms(1), of "L ''0x''" s 0 "[48, 120]"] assms(2) by (simp add: print_string_user_def header_ok_def)
  moreover have "prints out (bind (print_int_hex_without_header_user S n) (\<lambda>len. return (len + 2)))
      (numeral_text 16 (unat n)) (int (length (numeral_text 16 (unat n))) + 2) s'" for s'
    using prints_then_return [OF prints_numerals(3) [OF assms(1)], where f = "\<lambda>l. l + 2"] .
  ultimately show ?thesis unfolding print_int_hex_def add.commute [of 2] by (rule prints_bind)
qed

lemma prints_oct:
  assumes "console_call S out"
  shows "prints out (print_int_oct S n) (48 # (if n = 0 then [] else numeral_text 8 (unat n)))
    (1 + int (length (if n = 0 then [] else numeral_text 8 (unat n)))) s"
proof -
  have "prints out (if n = 0 then return 1 else bind (print_int_oct_without_header S n) (\<lambda>len. return (len + 1)))
      (if n = 0 then [] else numeral_text 8 (unat n)) (1 + int (length (if n = 0 then [] else numeral_text 8 (unat n)))) s'" for s'
    using prints_then_return [OF prints_numerals(2) [OF assms], where f = "\<lambda>l. l + 1"] by (simp add: add.commute)
  then have "prints out (print_int_oct S n) ([48] @ (if n = 0 then [] else numeral_text 8 (unat n)))
      (1 + int (length (if n = 0 then [] else numeral_text 8 (unat n)))) s"
    unfolding print_int_oct_def by (rule prints_bind [OF prints_byte [OF assms]])
  then show ?thesis by simp
qed

lemma prints_directive:
  assumes con: "console_call S out" and hd: "header_ok L (mem s)" and "conversion (mem s) d x piece"
  shows "prints out (print_directive S L d (x # args)) piece (Some (int (length piece), args)) s"
proof -
  have w: "prints out (bind m (\<lambda>l. return (Some (l, args)))) piece' (Some (l, args)) s"
    if "prints out m piece' l s" for m :: "(int, 'a user_scheme) run" and piece' l
    using prints_then_return [OF that, where f = "\<lambda>l. Some (l, args)"] by simp
  note u = print_directive_def Let_def print_int_user_def va_arg_def
  from assms(3) show ?thesis
  proof cases
    case character
    with w [OF prints_char [OF con, of "ucast x" s]] show ?thesis by (simp add: u)
  next
    case decimal
    with w [OF prints_dec(1) [OF con, of "sign_extend_int x" s]] show ?thesis by (simp add: u sint_extend)
  next
    case integer
    with w [OF prints_dec(1) [OF con, of "sign_extend_int x" s]] show ?thesis by (simp add: u sint_extend)
  next
    case octal
    with w [OF prints_oct [OF con, of x s]] show ?thesis by (simp add: u split del: if_split)
  next
    case pointer
    with w [OF prints_hex [OF con hd, of x]] show ?thesis by (simp add: u)
  next
    case str
    with w [OF prints_string [OF con str(3), of s 0 piece]] show ?thesis by (simp add: u print_string_user_def)
  next
    case unsigned
    with w [OF prints_dec(2) [OF con, of x s]] show ?thesis by (simp add: u)
  next
    case hexadecimal
    with w [OF prints_hex [OF con hd, of x]] show ?thesis by (simp add: u)
  qed
qed

lemma conversion_letter: "conversion m d x piece \<Longrightarrow> d \<noteq> 0"
  by (erule conversion.cases) simp_all

lemma prints_after_directive:
  assumes "mem s p = 37" and "mem s (p + 1) = d" and "d \<noteq> 0"
    and pd: "prints out (print_directive S L d args) piece (Some (n, args')) s"
    and rest: "\<And>s'. user_same s s' \<Longrightarrow> prints out (vprintf_loop S L (p + 2) args' (l + n)) cs y s'"
  shows "prints out (vprintf_loop S L p args l) (piece @ cs) y s"
proof -
  have "prints out (bind (print_directive S L d args) (\<lambda>r. if r = None then return (-1)
      else vprintf_loop S L (p + 2) (snd (the r)) (l + fst (the r)))) (piece @ cs) y s"
    by (rule prints_bind [OF pd]) (simp add: rest)
  moreover have "vprintf_loop S L p args l s = bind (print_directive S L d args) (\<lambda>r. if r = None then return (-1)
      else vprintf_loop S L (p + 2) (snd (the r)) (l + fst (the r))) s"
    using assms(1-3) by (subst vprintf_loop.simps) (simp add: run_simps)
  ultimately show ?thesis by (simp add: prints_def)
qed

lemma prints_format:
  assumes con: "console_call S out" and "renders m fmt args cs"
  shows "mem s = m \<Longrightarrow> header_ok L m \<Longrightarrow> cstring m p fmt \<Longrightarrow>
    prints out (vprintf_loop S L p args l) cs (l + int (length cs)) s"
  using assms(2)
proof (induction arbitrary: p l s rule: renders.induct)
  case (empty args)
  then show ?case by (simp add: prints_def vprintf_loop.simps run_simps)
next
  case (plain c fmt args cs)
  have c: "mem s p = c" "c \<noteq> 0" "c \<noteq> 37" "cstring m (p + 1) fmt" using plain by auto
  have k: "prints out (bind (print_char_user S c) (\<lambda>_. vprintf_loop S L (p + 1) args (l + 1))) ([c] @ cs) (l + int (length (c # cs))) s"
  proof (rule prints_bind [OF prints_char [OF con]])
    fix s' assume "user_same s s'"
    then have "mem s' = m" using user_sameD plain.prems(1) by auto
    from plain.IH [OF this plain.prems(2) c(4), of "l + 1"]
    show "prints out (vprintf_loop S L (p + 1) args (l + 1)) cs (l + int (length (c # cs))) s'" by (simp add: algebra_simps)
  qed
  have "vprintf_loop S L p args l s = bind (print_char_user S c) (\<lambda>_. vprintf_loop S L (p + 1) args (l + 1)) s"
    using c by (subst vprintf_loop.simps) (simp add: run_simps)
  with k show ?case by (simp add: prints_def)
next
  case (percent fmt args cs)
  have c: "mem s p = 37" "mem s (p + 1) = 37" "cstring m (p + 2) fmt" using percent.prems by (auto simp: add.assoc)
  have pd: "prints out (print_directive S L 37 args) [37] (Some (1, args)) s"
    unfolding print_directive_def Let_def using prints_then_return [OF prints_char [OF con], where f = "\<lambda>l. Some (l, args)"] by simp
  have "prints out (vprintf_loop S L p args l) ([37] @ cs) (l + int (length (37 # cs))) s"
  proof (rule prints_after_directive [OF c(1,2) _ pd])
    fix s' assume "user_same s s'"
    then have "mem s' = m" using user_sameD percent.prems(1) by auto
    from percent.IH [OF this percent.prems(2) c(3), of "l + 1"]
    show "prints out (vprintf_loop S L (p + 2) args (l + 1)) cs (l + int (length (37 # cs))) s'" by (simp add: algebra_simps)
  qed simp
  then show ?case by simp
next
  case (convert d x piece fmt args cs)
  have c: "mem s p = 37" "mem s (p + 1) = d" "d \<noteq> 0" "cstring m (p + 2) fmt"
    using convert.prems conversion_letter [OF convert.hyps(1)] by (auto simp: add.assoc)
  have "prints out (print_directive S L d (x # args)) piece (Some (int (length piece), args)) s"
    by (rule prints_directive [OF con]) (use convert.prems convert.hyps(1) in simp_all)
  then show ?case
  proof (rule prints_after_directive [OF c(1-3)])
    fix s' assume "user_same s s'"
    then have "mem s' = m" using user_sameD convert.prems(1) by auto
    from convert.IH [OF this convert.prems(2) c(4), of "l + int (length piece)"]
    show "prints out (vprintf_loop S L (p + 2) args (l + int (length piece))) cs (l + int (length (piece @ cs))) s'"
      by (simp add: algebra_simps)
  qed
qed

section \<open>Properties\<close>

text \<open>
  C39: \<open>printf\<close> prints what its format says. When the format string, read with the arguments,
  renders as a text, \<open>printf\<close> returns, sends exactly this text to the console, leaves the
  memory of the process alone, and its result is the number of characters sent.
\<close>

theorem printf_correct:
  assumes "console_call S out" and "header_ok L (mem s)" and "format \<noteq> 0" and "cstring (mem s) format fmt"
    and "renders (mem s) fmt args text"
  shows "\<exists>s'. printf S L format args s = Ok (int (length text)) s' \<and> out s' = out s @ text \<and> user_same s s'"
  using prints_format [OF assms(1,5) refl assms(2,4), of 0] assms(3) by (auto simp: prints_def printf_def)

text \<open>A console that appends the characters to the extension of the state, and a program with a format string.\<close>

definition sink_call :: "byte list user_scheme ecall" where
  "sink_call a0 a1 a2 a3 a4 a5 a6 a7 s =
     Ok 0 (if a7 = SYSCALL_PUT_CHAR then user.more_update (\<lambda>cs. cs @ [ucast a0]) s else s)"

definition prompt_memory :: memory where
  "prompt_memory = (\<lambda>_. 0)(64 := 37, 65 := 100, 66 := 32, 67 := 35, 68 := 32, 128 := 48, 129 := 120)"

definition prompt_program :: "byte list user_scheme" where
  "prompt_program = \<lparr>mem = prompt_memory, sstatus = 0, strtok_last = 0, \<dots> = []\<rparr>"

lemma sink_console: "console_call sink_call user.more"
proof -
  have "user_same s (user.more_update f s)" for s :: "byte list user_scheme" and f
    by (cases s) (simp add: user_same_def user.truncate_def)
  moreover have "(ucast (ucast c :: uint64) :: byte) = c" for c
    by (rule bit_word_eqI) (simp add: bit_simps)
  ultimately show ?thesis by (simp add: console_call_def sink_call_def)
qed

theorem printf_correct_witness:
  "\<exists>s'. printf sink_call (\<lambda>_. 128) 64 [-1] prompt_program = Ok 5 s' \<and> user.more s' = [45, 49, 32, 35, 32]"
proof -
  have m: "mem prompt_program = prompt_memory" "user.more prompt_program = []" by (simp_all add: prompt_program_def)
  have h: "header_ok (\<lambda>_. 128) (mem prompt_program)" by (simp add: m header_ok_def prompt_memory_def)
  have f: "cstring (mem prompt_program) 64 [37, 100, 32, 35, 32]" by (simp add: m prompt_memory_def)
  have t: "signed_text (sint (ucast (-1 :: uint64) :: 32 word)) = [45, 49]"
  proof -
    have "(ucast (-1 :: uint64) :: 32 word) = -1" by (rule bit_word_eqI) (simp add: bit_simps)
    then have "sint (ucast (-1 :: uint64) :: 32 word) = -1" by simp
    then show ?thesis by (simp add: signed_text_def numeral_text_def digits_of.simps digit_char_def)
  qed
  have "renders (mem prompt_program) [37, 100, 32, 35, 32] [-1] (signed_text (sint (ucast (-1 :: uint64) :: 32 word)) @ [32, 35, 32])"
    by (intro renders.intros conversion.decimal) simp_all
  then have r: "renders (mem prompt_program) [37, 100, 32, 35, 32] [-1] [45, 49, 32, 35, 32]" unfolding t by simp
  from printf_correct [OF sink_console h _ f r] m(2) show ?thesis by auto
qed

end
