(* ===== verification/User_Exec.thy ===== *)
theory User_Exec
  imports User_Output
begin

text \<open>
  The user half of \<open>exec\<close>: the loop packs the name, the arguments and the environment, each
  string with its terminator, one after the other into the page shared with the kernel.
\<close>

section \<open>The page\<close>

abbreviation shared :: addr where "shared \<equiv> SHARED_MEMORY_user"

lemma shared_nonnull: "shared \<noteq> 0"
  by (simp add: SHARED_MEMORY_user_def TRAMPOLINE_user_def MAXVA_user_def PGSIZE_user_def)

text \<open>Memory with the bytes \<open>w\<close> at the start of the page.\<close>

definition paged :: "byte list \<Rightarrow> memory \<Rightarrow> memory" where
  "paged w m = (\<lambda>a. if unat (a - shared) < length w then w ! unat (a - shared) else m a)"

definition with_page :: "byte list \<Rightarrow> 'z user_scheme \<Rightarrow> 'z user_scheme" where
  "with_page w s = s\<lparr>mem := paged w (mem s)\<rparr>"

lemma with_page_nil [simp]: "with_page [] s = s"
  by (simp add: with_page_def paged_def)

lemma with_page_snoc:
  assumes "length w < 4096"
  shows "set_byte shared (of_nat (length w)) c (with_page w s) = Ok () (with_page (w @ [c]) s)"
proof -
  have u: "unat (of_nat (length w) :: uint64) = length w" using assms by (simp add: unat_of_nat_64)
  have "(paged w (mem s))(shared + of_nat (length w) := c) = paged (w @ [c]) (mem s)"
  proof
    fix a
    have "a = shared + of_nat (length w) \<longleftrightarrow> unat (a - shared) = length w"
    proof
      assume "unat (a - shared) = length w"
      then have "a - shared = of_nat (length w)" using u by (simp add: uint64_eq_iff_unat)
      then show "a = shared + of_nat (length w)" by (simp add: algebra_simps)
    qed (simp add: u)
    then show "((paged w (mem s))(shared + of_nat (length w) := c)) a = paged (w @ [c]) (mem s) a"
      by (auto simp: paged_def nth_append)
  qed
  then show ?thesis by (simp add: set_byte_def shared_nonnull with_page_def run_simps)
qed

text \<open>A property of memory that does not depend on the page.\<close>

definition off_page :: "(memory \<Rightarrow> bool) \<Rightarrow> memory \<Rightarrow> bool" where
  "off_page Q m \<longleftrightarrow> (\<forall>w. length w \<le> 4096 \<longrightarrow> Q (paged w m))"

section \<open>Vectors of strings\<close>

definition vector :: "addr \<Rightarrow> byte list list \<Rightarrow> memory \<Rightarrow> bool" where
  "vector v as m \<longleftrightarrow> v \<noteq> 0 \<and> load64 m (v + 8 * of_nat (length as)) = 0 \<and>
     (\<forall>i<length as. load64 m (v + 8 * of_nat i) \<noteq> 0 \<and> cstring m (load64 m (v + 8 * of_nat i)) (as ! i))"

definition terminated :: "byte list list \<Rightarrow> byte list" where
  "terminated as = concat (map (\<lambda>a. a @ [0]) as)"

lemma terminated_simps [simp]: "terminated [] = []" "terminated (a # as) = a @ 0 # terminated as"
  by (simp_all add: terminated_def)

lemma cstring_nth_or_end: "cstring m p cs \<Longrightarrow> k \<le> length cs \<Longrightarrow> m (p + of_nat k) = (if k < length cs then cs ! k else 0) \<and>
    (k < length cs \<longrightarrow> cs ! k \<noteq> 0)"
  using cstring_nth [of m p cs k] cstring_end [of m p cs] by auto

section \<open>The phases of the loop\<close>

lemma exec_loop_step:
  assumes "idx v < 4096" and "exec_step name argv envp v s = Ok v' s'"
  shows "exec_loop name argv envp v s = exec_loop name argv envp v' s'"
  using assms by (subst exec_loop.simps) (simp add: bind_def)

lemma name_phase:
  assumes "off_page (\<lambda>m. cstring m name nm) (mem s)" and "name \<noteq> 0" and "length nm < 4096"
  shows "k \<le> length nm \<Longrightarrow> phase v = 0 \<Longrightarrow> idx v = k \<Longrightarrow>
    exec_loop name argv envp v (with_page (take k nm) s) =
    exec_loop name argv envp (v\<lparr>idx := length nm + 1, phase := 1\<rparr>) (with_page (nm @ [0]) s)"
proof (induction "length nm - k" arbitrary: k v)
  case 0
  then have k: "k = length nm" by simp
  let ?t = "\<lambda>c. with_page (nm @ [c]) s"
  have r: "mem (with_page w s) (name + of_nat (length nm)) = 0" if "length w \<le> 4096" for w
    using assms(1) that cstring_end by (auto simp: off_page_def with_page_def)
  have "exec_step name argv envp v (with_page nm s) = Ok (v\<lparr>idx := length nm + 1, phase := 1\<rparr>) (?t 0)"
    using 0 k assms(2,3) r [of nm] r [of "nm @ [0]"] with_page_snoc [of nm 0 s]
    by (simp add: exec_step_def run_simps bind_def)
  with 0 k assms(3) show ?case by (simp add: exec_loop_step)
next
  case (Suc d)
  then have k: "k < length nm" by simp
  have r: "mem (with_page w s) (name + of_nat k) = nm ! k" "nm ! k \<noteq> 0" if "length w \<le> 4096" for w
    using assms(1) that cstring_nth [OF _ k] by (auto simp: off_page_def with_page_def)
  have t: "take k nm @ [nm ! k] = take (Suc k) nm" using k by (simp add: take_Suc_conv_app_nth)
  have "exec_step name argv envp v (with_page (take k nm) s) = Ok (v\<lparr>idx := Suc k, phase := 0\<rparr>) (with_page (take (Suc k) nm) s)"
    using Suc.prems k assms(2,3) r [of "take k nm"] r [of "take (Suc k) nm"] with_page_snoc [of "take k nm" "nm ! k" s]
    by (simp add: exec_step_def run_simps bind_def t)
  from exec_loop_step [OF _ this] Suc.prems k assms(3)
  have "exec_loop name argv envp v (with_page (take k nm) s) =
      exec_loop name argv envp (v\<lparr>idx := Suc k, phase := 0\<rparr>) (with_page (take (Suc k) nm) s)" by simp
  also have "\<dots> = exec_loop name argv envp (v\<lparr>idx := length nm + 1, phase := 1\<rparr>) (with_page (nm @ [0]) s)"
    using Suc.hyps(1) [of "Suc k" "v\<lparr>idx := Suc k, phase := 0\<rparr>"] Suc.hyps(2) k by simp
  finally show ?case .
qed

text \<open>The vector a phase copies.\<close>

definition phase_vector :: "addr \<Rightarrow> addr \<Rightarrow> nat \<Rightarrow> addr" where
  "phase_vector argv envp ph = (if ph = 1 then argv else envp)"

lemma vector_off_page:
  assumes "off_page (vector vec as) (mem s)" and "length w \<le> 4096" and "i < length as" and "k \<le> length (as ! i)"
  shows "vec \<noteq> 0" "load64 (mem (with_page w s)) (vec + 8 * of_nat i) \<noteq> 0"
    "mem (with_page w s) (load64 (mem (with_page w s)) (vec + 8 * of_nat i) + of_nat k) = (as ! i @ [0]) ! k"
    "k < length (as ! i) \<Longrightarrow> as ! i ! k \<noteq> 0"
proof -
  have v: "vector vec as (mem (with_page w s))" using assms(1,2) by (simp add: off_page_def with_page_def)
  then show "vec \<noteq> 0" "load64 (mem (with_page w s)) (vec + 8 * of_nat i) \<noteq> 0" using assms(3) by (auto simp: vector_def)
  from v assms(3) have c: "cstring (mem (with_page w s)) (load64 (mem (with_page w s)) (vec + 8 * of_nat i)) (as ! i)"
    by (auto simp: vector_def)
  from cstring_nth_or_end [OF c assms(4)] assms(4)
  show "mem (with_page w s) (load64 (mem (with_page w s)) (vec + 8 * of_nat i) + of_nat k) = (as ! i @ [0]) ! k"
    "k < length (as ! i) \<Longrightarrow> as ! i ! k \<noteq> 0"
    by (auto simp: nth_append split: if_splits)
qed

lemma copy_step:
  assumes vec: "off_page (vector vec as) (mem s)" and j: "j < length as" and k: "k \<le> length (as ! j)"
    and w: "length w < 4096" and v: "phase v = ph" "ph = 1 \<or> ph = 2" "vec = phase_vector argv envp ph" "idx v = length w" "count1 v = j" "count2 v = k"
  shows "exec_step name argv envp v (with_page w s) =
    Ok (if k < length (as ! j) then v\<lparr>idx := length w + 1, count2 := k + 1\<rparr> else v\<lparr>idx := length w + 1, count1 := j + 1, count2 := 0\<rparr>)
      (with_page (w @ [(as ! j @ [0]) ! k]) s)"
proof -
  let ?c = "(as ! j @ [0]) ! k"
  note r = vector_off_page [OF vec _ j k, of w] vector_off_page [OF vec _ j k, of "w @ [?c]"]
  have z: "?c = 0 \<longleftrightarrow> \<not> k < length (as ! j)" using r(4) w k by (auto simp: nth_append)
  have "exec_copy vec v (with_page w s) =
    Ok (if k < length (as ! j) then v\<lparr>idx := length w + 1, count2 := k + 1\<rparr> else v\<lparr>idx := length w + 1, count1 := j + 1, count2 := 0\<rparr>)
      (with_page (w @ [?c]) s)"
    using r w v(4-6) z with_page_snoc [OF w, of ?c s] by (simp add: exec_copy_def run_simps bind_def)
  moreover have "exec_step name argv envp v (with_page w s) = exec_copy vec v (with_page w s)"
    using r(1,2) w v by (auto simp: exec_step_def phase_vector_def run_simps)
  ultimately show ?thesis by simp
qed

lemma copy_string:
  assumes vec: "off_page (vector vec as) (mem s)" and j: "j < length as" and ph: "ph = 1 \<or> ph = 2" "vec = phase_vector argv envp ph"
  shows "k \<le> length (as ! j) \<Longrightarrow> phase v = ph \<Longrightarrow> idx v = length w \<Longrightarrow> count1 v = j \<Longrightarrow> count2 v = k \<Longrightarrow>
    length w + length (drop k (as ! j)) < 4096 \<Longrightarrow>
    exec_loop name argv envp v (with_page w s) =
    exec_loop name argv envp (v\<lparr>idx := length w + length (drop k (as ! j)) + 1, count1 := j + 1, count2 := 0\<rparr>)
      (with_page (w @ drop k (as ! j) @ [0]) s)"
proof (induction "length (as ! j) - k" arbitrary: k v w)
  case 0
  then have k: "k = length (as ! j)" by simp
  have "idx v < 4096" using 0 by simp
  from exec_loop_step [OF this copy_step [OF vec j, of k w v ph argv envp name]] 0 k ph
  show ?case by simp
next
  case (Suc d)
  then have k: "k < length (as ! j)" by simp
  have d: "drop k (as ! j) = as ! j ! k # drop (Suc k) (as ! j)" using k by (simp add: Cons_nth_drop_Suc)
  have i: "idx v < 4096" using Suc.prems by simp
  let ?v = "v\<lparr>idx := length w + 1, count2 := k + 1\<rparr>" and ?w = "w @ [as ! j ! k]"
  have "exec_loop name argv envp v (with_page w s) = exec_loop name argv envp ?v (with_page ?w s)"
    using exec_loop_step [OF i copy_step [OF vec j, of k w v ph argv envp name]] Suc.prems k ph by (simp add: nth_append)
  also have "\<dots> = exec_loop name argv envp (?v\<lparr>idx := length ?w + length (drop (k + 1) (as ! j)) + 1, count1 := j + 1, count2 := 0\<rparr>)
      (with_page (?w @ drop (k + 1) (as ! j) @ [0]) s)"
    by (rule Suc.hyps(1)) (use Suc.hyps(2) Suc.prems k in \<open>simp_all add: d\<close>)
  finally show ?case by (simp add: d)
qed

lemma copy_vector:
  assumes vec: "off_page (vector vec as) (mem s)" and ph: "ph = 1 \<or> ph = 2" "vec = phase_vector argv envp ph"
  shows "j \<le> length as \<Longrightarrow> phase v = ph \<Longrightarrow> idx v = length w \<Longrightarrow> count1 v = j \<Longrightarrow> count2 v = 0 \<Longrightarrow>
    length w + length (terminated (drop j as)) \<le> 4096 \<Longrightarrow>
    exec_loop name argv envp v (with_page w s) =
    exec_loop name argv envp (v\<lparr>idx := length w + length (terminated (drop j as)), count1 := length as\<rparr>)
      (with_page (w @ terminated (drop j as)) s)"
proof (induction "length as - j" arbitrary: j v w)
  case 0
  then have e: "v\<lparr>idx := length w, count1 := length as\<rparr> = v" "terminated (drop j as) = []" by (cases v; simp)+
  show ?case by (simp only: e list.size add_0_right append_Nil2)
next
  case (Suc d)
  then have j: "j < length as" by simp
  have t: "drop j as = as ! j # drop (Suc j) as" using j by (simp add: Cons_nth_drop_Suc)
  let ?v = "v\<lparr>idx := length w + length (as ! j) + 1, count1 := j + 1, count2 := 0\<rparr>" and ?w = "w @ as ! j @ [0]"
  have "exec_loop name argv envp v (with_page w s) = exec_loop name argv envp ?v (with_page ?w s)"
    using copy_string [OF vec j ph, of 0 v w name] Suc.prems by (simp add: t)
  also have "\<dots> = exec_loop name argv envp (?v\<lparr>idx := length ?w + length (terminated (drop (j + 1) as)), count1 := length as\<rparr>)
      (with_page (?w @ terminated (drop (j + 1) as)) s)"
    by (rule Suc.hyps(1)) (use Suc.hyps(2) Suc.prems j in \<open>simp_all add: t\<close>)
  also have "?v\<lparr>idx := length ?w + length (terminated (drop (j + 1) as)), count1 := length as\<rparr> =
      v\<lparr>idx := length w + length (terminated (drop j as)), count1 := length as\<rparr>"
    using Suc.prems by (simp add: t)
  finally show ?case by (simp add: t)
qed

lemma vector_end:
  assumes "off_page (vector vec as) (mem s)" and "length w \<le> 4096"
  shows "vec \<noteq> 0" "load64 (mem (with_page w s)) (vec + 8 * of_nat (length as)) = 0"
  using assms by (auto simp: off_page_def vector_def with_page_def)

lemma argv_end:
  assumes "off_page (vector argv as) (mem s)" and "phase v = 1" and "idx v = length w" and "count1 v = length as" and "length w < 4096"
  shows "exec_loop name argv envp v (with_page w s) =
    exec_loop name argv envp (v\<lparr>phase := 2, argv_size := length as, count1 := 0, count2 := 0\<rparr>) (with_page w s)"
  by (rule exec_loop_step) (use assms vector_end [OF assms(1), of w] in \<open>simp_all add: exec_step_def run_simps\<close>)

text \<open>Behind the environment the rest of the page is cleared.\<close>

lemma clear_rest:
  assumes "off_page (vector envp es) (mem s)"
  shows "phase v = 2 \<Longrightarrow> idx v = length w \<Longrightarrow> count1 v = length es \<Longrightarrow> length w < 4096 \<Longrightarrow>
    exec_loop name argv envp v (with_page w s) =
    Ok (v\<lparr>idx := 4096, envp_size := length es\<rparr>) (with_page (w @ replicate (4096 - length w) 0) s)"
proof (induction "4095 - length w" arbitrary: v w)
  case 0
  let ?v = "v\<lparr>idx := length w + 1, envp_size := length es\<rparr>"
  have l: "length w = 4095" using 0 by simp
  have "exec_step name argv envp v (with_page w s) = Ok ?v (with_page (w @ [0]) s)"
    using 0 vector_end [OF assms, of w] with_page_snoc [of w 0 s] by (simp add: exec_step_def run_simps bind_def)
  from exec_loop_step [OF _ this] 0 have "exec_loop name argv envp v (with_page w s) = exec_loop name argv envp ?v (with_page (w @ [0]) s)" by simp
  also have "\<dots> = Ok ?v (with_page (w @ [0]) s)" by (subst exec_loop.simps) (simp add: l return_def)
  finally show ?case by (simp add: l)
next
  case (Suc d)
  let ?v = "v\<lparr>idx := length w + 1, envp_size := length es\<rparr>"
  have "exec_step name argv envp v (with_page w s) = Ok ?v (with_page (w @ [0]) s)"
    using Suc.prems vector_end [OF assms, of w] with_page_snoc [of w 0 s] by (simp add: exec_step_def run_simps bind_def)
  from exec_loop_step [OF _ this] Suc.prems
  have "exec_loop name argv envp v (with_page w s) = exec_loop name argv envp ?v (with_page (w @ [0]) s)" by simp
  also have "\<dots> = Ok (?v\<lparr>idx := 4096, envp_size := length es\<rparr>) (with_page ((w @ [0]) @ replicate (4096 - length (w @ [0])) 0) s)"
    by (rule Suc.hyps(1)) (use Suc.hyps(2) Suc.prems in simp_all)
  also have "(w @ [0]) @ replicate (4096 - length (w @ [0])) 0 = w @ replicate (4096 - length w) 0"
  proof -
    have "4096 - length w = Suc (4096 - length (w @ [0]))" using Suc.hyps(2) by simp
    then show ?thesis by simp
  qed
  finally show ?case by simp
qed

text \<open>The contents of the page.\<close>

definition packed :: "byte list \<Rightarrow> byte list list \<Rightarrow> byte list list \<Rightarrow> byte list" where
  "packed nm as es = nm @ [0] @ terminated as @ terminated es"

lemma exec_loop_packs:
  assumes nm: "off_page (\<lambda>m. cstring m name nm) (mem s)" "name \<noteq> 0" and as: "off_page (vector argv as) (mem s)"
    and es: "off_page (vector envp es) (mem s)" and fit: "length (packed nm as es) < 4096"
  shows "\<exists>v. exec_loop name argv envp exec_start s =
      Ok v (with_page (packed nm as es @ replicate (4096 - length (packed nm as es)) 0) s) \<and>
    argv_size v = length as \<and> envp_size v = length es"
proof -
  let ?w1 = "nm @ [0]" and ?w2 = "(nm @ [0]) @ terminated as" and ?w3 = "((nm @ [0]) @ terminated as) @ terminated es"
  have l: "length ?w3 < 4096" "length nm < 4096" using fit by (simp_all add: packed_def)
  define v1 where "v1 = exec_start\<lparr>idx := length nm + 1, phase := 1\<rparr>"
  define v2 where "v2 = v1\<lparr>idx := length ?w2, count1 := length as\<rparr>"
  define v3 where "v3 = v2\<lparr>phase := 2, argv_size := length as, count1 := 0, count2 := 0\<rparr>"
  define v4 where "v4 = v3\<lparr>idx := length ?w3, count1 := length es\<rparr>"
  have "exec_loop name argv envp exec_start s = exec_loop name argv envp v1 (with_page ?w1 s)"
    using name_phase [OF nm l(2), of 0 exec_start] by (simp add: exec_start_def v1_def)
  also have "\<dots> = exec_loop name argv envp v2 (with_page ?w2 s)"
    using copy_vector [OF as, of 1 argv envp 0 v1 ?w1 name] l(1)
    by (simp add: v2_def v1_def exec_start_def phase_vector_def)
  also have "\<dots> = exec_loop name argv envp v3 (with_page ?w2 s)"
    unfolding v3_def by (rule argv_end [OF as]) (use l in \<open>simp_all add: v2_def v1_def\<close>)
  also have "\<dots> = exec_loop name argv envp v4 (with_page ?w3 s)"
    using copy_vector [OF es, of 2 argv envp 0 v3 ?w2 name] l(1)
    by (simp add: v4_def v3_def v2_def phase_vector_def add.assoc)
  also have "\<dots> = Ok (v4\<lparr>idx := 4096, envp_size := length es\<rparr>) (with_page (?w3 @ replicate (4096 - length ?w3) 0) s)"
    by (rule clear_rest [OF es]) (use l in \<open>simp_all add: v4_def v3_def\<close>)
  finally show ?thesis by (simp add: packed_def v4_def v3_def)
qed

section \<open>Properties\<close>

text \<open>
  C40: the user half of \<open>exec\<close>. When the name, the arguments and the environment lie outside the
  shared page and fit into it with their terminators, the loop ends and the call of the kernel is
  made with the numbers of arguments and of environment strings; at that moment the page holds
  the strings one after the other and zeros behind them, and the rest of the memory is
  unchanged.
\<close>

theorem exec_packs_page:
  assumes "off_page (\<lambda>m. cstring m name nm) (mem s)" and "name \<noteq> 0" and "off_page (vector argv as) (mem s)"
    and "off_page (vector envp es) (mem s)" and "length (packed nm as es) < 4096"
  shows "\<exists>s'. exec_user S name argv envp s = S name argv envp (of_nat (length as)) (of_nat (length es)) 0 0 SYSCALL_EXEC s' \<and>
    (\<forall>i<4096. mem s' (SHARED_MEMORY_user + of_nat i) = (if i < length (packed nm as es) then packed nm as es ! i else 0)) \<and>
    (\<forall>a. 4096 \<le> unat (a - SHARED_MEMORY_user) \<longrightarrow> mem s' a = mem s a)"
proof -
  let ?p = "packed nm as es"
  let ?w = "?p @ replicate (4096 - length ?p) 0"
  obtain v where v: "exec_loop name argv envp exec_start s = Ok v (with_page ?w s)" "argv_size v = length as" "envp_size v = length es"
    using exec_loop_packs [OF assms] by blast
  let ?u = "(with_page ?w s)\<lparr>mem := (mem (with_page ?w s))(shared + 4095 := 0)\<rparr>"
  have "exec_user S name argv envp s = S name argv envp (of_nat (length as)) (of_nat (length es)) 0 0 SYSCALL_EXEC ?u"
    using v shared_nonnull by (simp add: exec_user_def bind_def set_byte_def PGSIZE_user_def run_simps)
  moreover have "mem ?u (shared + of_nat i) = (if i < length ?p then ?p ! i else 0)" if "i < 4096" for i
  proof -
    have "(of_nat i :: uint64) = 4095 \<longleftrightarrow> i = 4095" using of_nat_64_inj [of i 4095] that by simp
    moreover have "unat (of_nat i :: uint64) = i" using that by (simp add: unat_of_nat_64)
    ultimately show ?thesis using assms(5) that by (auto simp: with_page_def paged_def nth_append)
  qed
  moreover have "mem ?u a = mem s a" if "4096 \<le> unat (a - shared)" for a
  proof -
    have "a \<noteq> shared + 4095" using that by auto
    then show ?thesis using that assms(5) by (simp add: with_page_def paged_def)
  qed
  ultimately show ?thesis by blast
qed

text \<open>A program that executes \<open>/sh\<close> with its name as the only argument.\<close>

definition exec_memory :: memory where
  "exec_memory = string_memory(0x200 := 64)"

definition exec_program :: user where
  "exec_program = \<lparr>mem = exec_memory, sstatus = 0, strtok_last = 0\<rparr>"

lemma paged_low:
  assumes "length w \<le> 4096" and "unat a < 0x1000"
  shows "paged w m a = m a"
proof -
  have s: "shared = 0x3fffffd000" by (simp add: SHARED_MEMORY_user_def TRAMPOLINE_user_def MAXVA_user_def PGSIZE_user_def)
  have "4096 \<le> unat (a - shared)" using assms(2) unfolding s unat_diff_64 by simp
  with assms(1) show ?thesis by (simp add: paged_def)
qed

lemma load64_low:
  assumes "length w \<le> 4096" and "unat a < 0xf00"
  shows "load64 (paged w m) a = load64 m a"
proof (rule load64_cong)
  fix i :: nat assume "i < 8"
  then have "unat (a + of_nat i) = unat a + i" using assms(2) by (subst unat_add_no_overflow) (simp_all add: unat_of_nat_64)
  with assms \<open>i < 8\<close> show "paged w m (a + of_nat i) = m (a + of_nat i)" by (intro paged_low) simp_all
qed

lemma exec_memory_cells: "load64 exec_memory 0x200 = 64" "load64 exec_memory 0x208 = 0" "load64 exec_memory 0x300 = 0"
proof -
  have u: "[0..<8] = [0, 1, 2, 3, 4, 5, 6, 7]" by (simp add: upt_rec)
  show "load64 exec_memory 0x200 = 64" "load64 exec_memory 0x208 = 0" "load64 exec_memory 0x300 = 0"
    unfolding load64_def u by (simp_all add: exec_memory_def string_memory_def)
qed

lemma exec_program_strings:
  "off_page (\<lambda>m. cstring m 64 [47, 115, 104]) (mem exec_program)"
  "off_page (vector 0x200 [[47, 115, 104]]) (mem exec_program)" "off_page (vector 0x300 []) (mem exec_program)"
proof -
  have c: "cstring (paged w exec_memory) 64 [47, 115, 104]" if "length w \<le> 4096" for w
    using paged_low [OF that] by (simp add: exec_memory_def string_memory_def)
  then show "off_page (\<lambda>m. cstring m 64 [47, 115, 104]) (mem exec_program)" by (simp add: off_page_def exec_program_def)
  show "off_page (vector 0x200 [[47, 115, 104]]) (mem exec_program)" "off_page (vector 0x300 []) (mem exec_program)"
    using load64_low c by (simp_all add: off_page_def exec_program_def vector_def exec_memory_cells)
qed

theorem exec_packs_page_witness:
  "\<exists>s'. exec_user (\<lambda>_ _ _ n _ _ _ _ s. Ok n s) 64 0x200 0x300 exec_program = Ok 1 s' \<and>
     cstring (mem s') SHARED_MEMORY_user [47, 115, 104] \<and> mem s' (SHARED_MEMORY_user + 7) = 0"
proof -
  have p: "packed [47, 115, 104] [[47, 115, 104]] [] = [47, 115, 104, 0, 47, 115, 104, 0]" by (simp add: packed_def)
  obtain s' where s': "exec_user (\<lambda>_ _ _ n _ _ _ _ s. Ok n s) 64 0x200 0x300 exec_program = Ok 1 s'"
    "\<forall>i<4096. mem s' (SHARED_MEMORY_user + of_nat i) = (if i < 8 then [47, 115, 104, 0, 47, 115, 104, 0] ! i else 0)"
    using exec_packs_page [OF exec_program_strings(1) _ exec_program_strings(2,3), of "\<lambda>_ _ _ n _ _ _ _ s. Ok n s"]
    by (auto simp: p)
  have "mem s' (SHARED_MEMORY_user + 0) = 47" "mem s' (SHARED_MEMORY_user + 1) = 115" "mem s' (SHARED_MEMORY_user + 2) = 104"
    "mem s' (SHARED_MEMORY_user + 3) = 0" "mem s' (SHARED_MEMORY_user + 7) = 0"
    using s'(2) [rule_format, of 0] s'(2) [rule_format, of 1] s'(2) [rule_format, of 2] s'(2) [rule_format, of 3] s'(2) [rule_format, of 7]
    by simp_all
  with s'(1) show ?thesis by (intro exI [of _ s']) (simp add: add.assoc)
qed

end
