(* ===== verification/Exec_Arguments.thy ===== *)
theory Exec_Arguments
  imports Run_Queue User_Exec
begin

text \<open>
  The kernel half of \<open>exec\<close>, \<open>exec_process\<close> of \<open>kernel/process.c\<close>: the vectors of pointers it builds from
  the strings that the user library has packed into the shared page.
\<close>

section \<open>Walking over the strings\<close>

lemma skip_string_ok: "cstring (mem s) p cs \<Longrightarrow> skip_string p s = Ok (p + of_nat (length cs)) s"
proof (induction cs arbitrary: p)
  case Nil
  then show ?case by (subst skip_string.simps) (simp add: run_simps)
next
  case (Cons c cs)
  then have "skip_string (p + 1) s = Ok (p + 1 + of_nat (length cs)) s" by simp
  with Cons.prems show ?case by (subst skip_string.simps) (simp add: run_simps add.assoc)
qed

lemma skip_zeros_one: "mem s p = 0 \<Longrightarrow> mem s (p + 1) \<noteq> 0 \<Longrightarrow> skip_zeros p s = Ok (p + 1) s"
  by (subst skip_zeros.simps, simp add: run_simps, subst skip_zeros.simps, simp add: run_simps)

text \<open>Strings one after the other, and where each begins.\<close>

fun strings_at :: "memory \<Rightarrow> addr \<Rightarrow> byte list list \<Rightarrow> bool" where
  "strings_at m p [] \<longleftrightarrow> True"
| "strings_at m p (a # as) \<longleftrightarrow> cstring m p a \<and> strings_at m (p + of_nat (Suc (length a))) as"

definition start_of :: "byte list list \<Rightarrow> nat \<Rightarrow> nat" where
  "start_of as i = length (terminated (take i as))"

lemma strings_at_cong:
  "(\<And>i. i < length (terminated as) \<Longrightarrow> m' (p + of_nat i) = m (p + of_nat i)) \<Longrightarrow> strings_at m' p as \<longleftrightarrow> strings_at m p as"
proof (induction as arbitrary: p)
  case (Cons a as)
  have "cstring m' p a \<longleftrightarrow> cstring m p a" by (intro cstring_cong Cons.prems) simp
  moreover have "strings_at m' (p + of_nat (Suc (length a))) as \<longleftrightarrow> strings_at m (p + of_nat (Suc (length a))) as"
  proof (rule Cons.IH)
    fix i assume "i < length (terminated as)"
    then show "m' (p + of_nat (Suc (length a)) + of_nat i) = m (p + of_nat (Suc (length a)) + of_nat i)"
      using Cons.prems [of "Suc (length a) + i"] by (simp add: algebra_simps)
  qed
  ultimately show ?case by simp
qed simp

lemma strings_at_nth: "strings_at m p as \<Longrightarrow> i < length as \<Longrightarrow> cstring m (p + of_nat (start_of as i)) (as ! i)"
proof (induction as arbitrary: p i)
  case (Cons a as)
  show ?case
  proof (cases i)
    case (Suc j)
    then show ?thesis using Cons.IH [of "p + of_nat (Suc (length a))" j] Cons.prems
      by (simp add: start_of_def algebra_simps)
  qed (use Cons.prems in \<open>simp add: start_of_def\<close>)
qed simp

section \<open>Filling a vector\<close>

lemma behind_cell:
  fixes x vec :: uint64
  assumes "8 * Suc n \<le> unat (x - vec)"
  shows "8 * n \<le> unat (x - (vec + 8))" "8 \<le> unat (x - vec)"
proof -
  have e: "x - (vec + 8) = (x - vec) - 8" by simp
  show "8 * n \<le> unat (x - (vec + 8))" unfolding e unat_diff_64 [of "x - vec" 8] using assms by simp
qed (use assms in simp)

lemma fill_vector_ok:
  fixes s :: "'z kernel_scheme"
  assumes "strings_at (mem s) str as" and "aligned8 vec" and "unat vec + 8 * length as < 2 ^ 64" and "vec \<noteq> 0"
    and "t \<noteq> 0" "aligned8 (t + ts_shared_memory)" and "load64 (mem s) (t + ts_shared_memory) = sh"
    and "\<And>j. j < length as \<Longrightarrow> vec + 8 * of_nat j \<noteq> t + ts_shared_memory"
    and "\<And>i. i < length (terminated as) \<Longrightarrow> 8 * length as \<le> unat (str + of_nat i - vec)"
  shows "\<exists>s'. fill_vector t va (length as) vec str s = Ok () s' \<and>
    (\<forall>j<length as. load64 (mem s') (vec + 8 * of_nat j) = va + (str + of_nat (start_of as j) - sh)) \<and>
    (\<forall>x. 8 * length as \<le> unat (x - vec) \<longrightarrow> mem s' x = mem s x)"
  using assms(1-4,7-)
proof (induction as arbitrary: str vec s)
  case Nil
  then show ?case by (simp add: return_def)
next
  case (Cons a as)
  define s1 where "s1 = put64 vec (va + (str - sh)) s"
  have other: "mem s1 x = mem s x" if "8 \<le> unat (x - vec)" for x
    unfolding s1_def put64_def using that by (simp add: store64_other word_le_nat_alt)
  have str1: "strings_at (mem s1) str (a # as)"
  proof -
    have "mem s1 (str + of_nat i) = mem s (str + of_nat i)" if "i < length (terminated (a # as))" for i
      using Cons.prems(7) [OF that] by (intro other) simp
    with Cons.prems(1) show ?thesis using strings_at_cong [of "a # as" "mem s1" str "mem s"] by blast
  qed
  have v8: "unat (vec + 8) = unat vec + 8" using Cons.prems(3) by (subst unat_add_no_overflow) simp_all
  have sh1: "load64 (mem s1) (t + ts_shared_memory) = sh"
    unfolding s1_def using Cons.prems(2,5,6) [of] assms(6) Cons.prems(6) [of 0] by (simp add: load_put)
  have "\<exists>s'. fill_vector t va (length as) (vec + 8) (str + of_nat (Suc (length a))) s1 = Ok () s' \<and>
    (\<forall>j<length as. load64 (mem s') (vec + 8 + 8 * of_nat j) = va + (str + of_nat (Suc (length a)) + of_nat (start_of as j) - sh)) \<and>
    (\<forall>x. 8 * length as \<le> unat (x - (vec + 8)) \<longrightarrow> mem s' x = mem s1 x)"
  proof (rule Cons.IH)
    show "strings_at (mem s1) (str + of_nat (Suc (length a))) as" using str1 by simp
    show "aligned8 (vec + 8)" using Cons.prems(2) by simp
    show "unat (vec + 8) + 8 * length as < 2 ^ 64" "vec + 8 \<noteq> 0" using v8 Cons.prems(3) by auto
    show "vec + 8 + 8 * of_nat j \<noteq> t + ts_shared_memory" if "j < length as" for j
      using Cons.prems(6) [of "Suc j"] that by (simp add: algebra_simps)
    show "8 * length as \<le> unat (str + of_nat (Suc (length a)) + of_nat i - (vec + 8))" if "i < length (terminated as)" for i
      using Cons.prems(7) [of "Suc (length a) + i"] that behind_cell(1) [of "length as" "str + of_nat (Suc (length a) + i)" vec]
      by (simp add: algebra_simps)
  qed (rule sh1)
  then obtain s' where s': "fill_vector t va (length as) (vec + 8) (str + of_nat (Suc (length a))) s1 = Ok () s'"
    "\<And>j. j < length as \<Longrightarrow> load64 (mem s') (vec + 8 + 8 * of_nat j) = va + (str + of_nat (Suc (length a)) + of_nat (start_of as j) - sh)"
    "\<And>x. 8 * length as \<le> unat (x - (vec + 8)) \<Longrightarrow> mem s' x = mem s1 x" by blast
  have "skip_string str s1 = Ok (str + of_nat (length a)) s1" using str1 by (intro skip_string_ok) simp
  then have "fill_vector t va (length (a # as)) vec str s = Ok () s'"
    using assms(5) Cons.prems(4,5) s'(1) unfolding s1_def by (simp add: struct_simps bind_Ok ac_simps)
  moreover have "load64 (mem s') (vec + 8 * of_nat j) = va + (str + of_nat (start_of (a # as) j) - sh)" if "j < length (a # as)" for j
  proof (cases j)
    case 0
    have "mem s' (vec + of_nat i) = mem s1 (vec + of_nat i)" if "i < 8" for i
    proof (rule s'(3))
      have "unat (of_nat i :: uint64) = i" using that by (intro unat_of_nat_64) simp
      then have "unat (of_nat i - 8 :: uint64) = i + 2 ^ 64 - 8" using that unat_diff_64 [of "of_nat i" 8] by simp
      then show "8 * length as \<le> unat (vec + of_nat i - (vec + 8))" using Cons.prems(3) by (simp add: algebra_simps)
    qed
    then have "load64 (mem s') vec = load64 (mem s1) vec" by (rule load64_cong)
    then show ?thesis using 0 by (simp add: s1_def put64_def start_of_def)
  next
    case (Suc k)
    then show ?thesis using s'(2) [of k] that by (simp add: start_of_def algebra_simps)
  qed
  moreover have "mem s' x = mem s x" if "8 * length (a # as) \<le> unat (x - vec)" for x
    using behind_cell [of "length as" x vec] that s'(3) [of x] other [of x] by simp
  ultimately show ?case by blast
qed

section \<open>The vector as the program sees it\<close>

lemma strings_at_terminated:
  assumes "\<And>i. i < length (terminated as) \<Longrightarrow> m (p + of_nat i) = terminated as ! i" and "\<And>a. a \<in> set as \<Longrightarrow> 0 \<notin> set a"
  shows "strings_at m p as"
  using assms
proof (induction as arbitrary: p)
  case (Cons a as)
  have "0 \<notin> set a" using Cons.prems(2) [of a] by simp
  then have "a ! i \<noteq> 0" if "i < length a" for i using nth_mem [OF that] by metis
  moreover have "m (p + of_nat i) = a ! i" if "i < length a" for i
    using Cons.prems(1) [of i] that by (simp add: nth_append)
  moreover have "m (p + of_nat (length a)) = 0" using Cons.prems(1) [of "length a"] by simp
  ultimately have "cstring m p a" by (simp add: cstring_iff)
  moreover have "strings_at m (p + of_nat (Suc (length a))) as"
  proof (rule Cons.IH)
    fix i assume "i < length (terminated as)"
    then show "m (p + of_nat (Suc (length a)) + of_nat i) = terminated as ! i"
      using Cons.prems(1) [of "Suc (length a) + i"] by (simp add: nth_append algebra_simps)
  qed (use Cons.prems(2) in simp)
  ultimately show ?case by simp
qed simp

text \<open>The memory of the user program, where the pages at \<open>page\<close> are mapped at \<open>va\<close>.\<close>

definition user_view :: "memory \<Rightarrow> addr \<Rightarrow> addr \<Rightarrow> memory" where
  "user_view m page va = (\<lambda>a. m (page + (a - va)))"

lemma load64_view: "load64 (user_view m page va) x = load64 m (page + (x - va))"
  unfolding load64_def user_view_def by (simp add: algebra_simps)

lemma cstring_view: "cstring (user_view m page va) x cs \<longleftrightarrow> cstring m (page + (x - va)) cs"
  unfolding cstring_iff user_view_def by (simp add: algebra_simps)

text \<open>
  The shared page at \<open>sh\<close> of the task as \<open>exec\<close> of the user library leaves it, with a first argument that
  is not empty, and its copy in the first of the two fresh pages at \<open>page\<close>.
\<close>

definition exec_page :: "'z kernel_scheme \<Rightarrow> addr \<Rightarrow> addr \<Rightarrow> addr \<Rightarrow> byte list \<Rightarrow> byte list list \<Rightarrow> byte list list \<Rightarrow> bool" where
  "exec_page s t sh page nm as es \<longleftrightarrow> t \<noteq> 0 \<and> aligned8 (t + ts_shared_memory) \<and> load64 (mem s) (t + ts_shared_memory) = sh \<and>
     length (packed nm as es) < 4096 \<and> 0 \<notin> set nm \<and> (\<forall>a\<in>set as. 0 \<notin> set a) \<and> as \<noteq> [] \<and> hd as \<noteq> [] \<and>
     (\<forall>i<length (packed nm as es). mem s (sh + of_nat i) = packed nm as es ! i) \<and>
     (\<forall>i<4096. mem s (page + of_nat i) = mem s (sh + of_nat i)) \<and>
     aligned8 page \<and> unat page + 8192 < 2 ^ 64 \<and> 8 * length as + 8 \<le> 4096 \<and>
     8192 \<le> unat (t + ts_shared_memory - page) \<and> (\<forall>i<4096. 8192 \<le> unat (sh + of_nat i - page))"

lemma exec_pageD:
  assumes "exec_page s t sh page nm as es"
  shows "strings_at (mem s) sh (nm # as)" "strings_at (mem s) page (nm # as)" "mem s (sh + of_nat (Suc (length nm))) \<noteq> 0"
    "length (terminated (nm # as)) < 4096"
proof -
  let ?w = "packed nm as es"
  have w: "?w = terminated (nm # as) @ terminated es" by (simp add: packed_def)
  show len: "length (terminated (nm # as)) < 4096" using assms unfolding exec_page_def w by simp
  have nz: "0 \<notin> set a" if "a \<in> set (nm # as)" for a using assms that by (auto simp: exec_page_def)
  have b: "mem s (sh + of_nat i) = terminated (nm # as) ! i" if "i < length (terminated (nm # as))" for i
  proof -
    have "mem s (sh + of_nat i) = ?w ! i" using assms that unfolding exec_page_def w by simp
    then show ?thesis unfolding w using that by (simp add: nth_append del: terminated_simps)
  qed
  then show "strings_at (mem s) sh (nm # as)" using nz by (intro strings_at_terminated)
  show "strings_at (mem s) page (nm # as)"
  proof (rule strings_at_terminated [OF _ nz])
    fix i assume i: "i < length (terminated (nm # as))"
    then have "mem s (page + of_nat i) = mem s (sh + of_nat i)" using assms len by (simp add: exec_page_def)
    then show "mem s (page + of_nat i) = terminated (nm # as) ! i" using b [OF i] by simp
  qed
  obtain c a' as' where as: "as = (c # a') # as'" using assms by (cases as; cases "hd as") (auto simp: exec_page_def)
  have "c \<noteq> 0" using nz [of "c # a'"] as by auto
  then show "mem s (sh + of_nat (Suc (length nm))) \<noteq> 0" using b [of "Suc (length nm)"] as by (simp add: nth_append)
qed

text \<open>Addresses outside the second page, and the cells of the vector in it.\<close>

lemma second_page:
  fixes x page :: uint64
  shows "8192 \<le> unat (x - page) \<or> unat (x - page) < 4096 \<Longrightarrow> 4096 \<le> unat (x - (page + PGSIZE))"
proof -
  assume a: "8192 \<le> unat (x - page) \<or> unat (x - page) < 4096"
  have e: "x - (page + PGSIZE) = (x - page) - 4096" by (simp add: PGSIZE_def)
  have "unat (x - page) < 2 ^ 64" by (rule unat_lt_64)
  then show ?thesis unfolding e unat_diff_64 [of "x - page" 4096] using a by auto
qed

lemma fill_argv:
  fixes s :: "'z kernel_scheme"
  assumes x: "exec_page s t sh page nm as es"
  shows "\<exists>s'. fill_vector t va (length as) (page + PGSIZE) (sh + of_nat (Suc (length nm))) s = Ok () s' \<and>
    (\<forall>j<length as. load64 (mem s') (page + PGSIZE + 8 * of_nat j) = va + of_nat (start_of (nm # as) (Suc j))) \<and>
    (\<forall>a. 8 * length as \<le> unat (a - (page + PGSIZE)) \<longrightarrow> mem s' a = mem s a)"
proof -
  have d: "t \<noteq> 0" "aligned8 (t + ts_shared_memory)" "load64 (mem s) (t + ts_shared_memory) = sh" "aligned8 page" "unat page + 8192 < 2 ^ 64"
    "8 * length as + 8 \<le> 4096" "8192 \<le> unat (t + ts_shared_memory - page)" "\<And>i. i < 4096 \<Longrightarrow> 8192 \<le> unat (sh + of_nat i - page)"
    using x by (auto simp: exec_page_def)
  let ?v = "page + PGSIZE" and ?str = "sh + of_nat (Suc (length nm))"
  have v: "unat ?v = unat page + 4096" unfolding PGSIZE_def using d(5) by (subst unat_add_no_overflow) simp_all
  have "\<exists>s'. fill_vector t va (length as) ?v ?str s = Ok () s' \<and>
    (\<forall>j<length as. load64 (mem s') (?v + 8 * of_nat j) = va + (?str + of_nat (start_of as j) - sh)) \<and>
    (\<forall>x. 8 * length as \<le> unat (x - ?v) \<longrightarrow> mem s' x = mem s x)"
  proof (rule fill_vector_ok [OF _ _ _ _ d(1-3)])
    show "strings_at (mem s) ?str as" using exec_pageD(1) [OF x] by simp
    show "aligned8 ?v" using d(4) by (intro aligned8_add) (simp_all add: PGSIZE_def aligned8_def)
    show "unat ?v + 8 * length as < 2 ^ 64" using v d(5,6) by simp
    show "?v \<noteq> 0" using v by (metis add_is_0 unat_0 zero_neq_numeral)
    show "?v + 8 * of_nat j \<noteq> t + ts_shared_memory" if "j < length as" for j
    proof -
      have "unat (8 * of_nat j :: uint64) = 8 * j" using that d(6) unat_of_nat_64 [of "8 * j"] by simp
      then have "unat (?v + 8 * of_nat j - ?v) < 4096" using that d(6) by simp
      then show ?thesis using second_page [of "t + ts_shared_memory" page] d(7) by (metis not_le)
    qed
    show "8 * length as \<le> unat (?str + of_nat i - ?v)" if "i < length (terminated as)" for i
    proof -
      have "4096 \<le> unat (sh + of_nat (Suc (length nm) + i) - ?v)"
        using exec_pageD(4) [OF x] that by (intro second_page disjI1 d(8)) simp
      then show ?thesis using d(6) by (simp add: ac_simps)
    qed
  qed
  moreover have "?str + of_nat (start_of as j) - sh = of_nat (start_of (nm # as) (Suc j))" for j by (simp add: start_of_def)
  ultimately show ?thesis by simp
qed

lemma sum_not_null:
  fixes a :: uint64
  assumes "unat a + n < 2 ^ 64" and "0 < n"
  shows "a + of_nat n \<noteq> 0"
proof
  have "unat (of_nat n :: uint64) = n" using assms(1) by (intro unat_of_nat_64) simp
  then have "unat (a + of_nat n) = unat a + n" using assms(1) by (subst unat_add_no_overflow) simp_all
  moreover assume "a + of_nat n = 0"
  ultimately show False using assms(2) by simp
qed

lemma start_in_page:
  assumes "i < length as"
  shows "start_of as i + length (as ! i) < length (terminated as)"
proof -
  have "terminated as = terminated (take i as) @ as ! i @ 0 # terminated (drop (Suc i) as)"
    using id_take_nth_drop [OF assms] by (metis concat_append map_append terminated_def terminated_simps(2) append_Cons append_assoc)
  then show ?thesis by (simp add: start_of_def)
qed

lemma fill_argv_closed:
  fixes s :: "'z kernel_scheme"
  assumes x: "exec_page s t sh page nm as es"
  shows "\<exists>s'. bind (fill_vector t va (length as) (page + PGSIZE) (sh + of_nat (Suc (length nm))))
        (\<lambda>_. set_field (page + PGSIZE + 8 * of_nat (length as)) 0 0) s = Ok () s' \<and>
    (\<forall>j<length as. load64 (mem s') (page + PGSIZE + 8 * of_nat j) = va + of_nat (start_of (nm # as) (Suc j))) \<and>
    load64 (mem s') (page + PGSIZE + 8 * of_nat (length as)) = 0 \<and>
    (\<forall>a. 4096 \<le> unat (a - (page + PGSIZE)) \<longrightarrow> mem s' a = mem s a)"
proof -
  let ?v = "page + PGSIZE" and ?e = "page + PGSIZE + 8 * of_nat (length as)"
  have d: "aligned8 page" "unat page + 8192 < 2 ^ 64" "8 * length as + 8 \<le> 4096" using x by (auto simp: exec_page_def)
  obtain u where u: "fill_vector t va (length as) ?v (sh + of_nat (Suc (length nm))) s = Ok () u"
    "\<And>j. j < length as \<Longrightarrow> load64 (mem u) (?v + 8 * of_nat j) = va + of_nat (start_of (nm # as) (Suc j))"
    "\<And>a. 8 * length as \<le> unat (a - ?v) \<Longrightarrow> mem u a = mem s a" using fill_argv [OF x, of va] by blast
  have off: "unat (8 * of_nat j :: uint64) = 8 * j" if "j \<le> length as" for j
    using that d(3) unat_of_nat_64 [of "8 * j"] by simp
  have al: "aligned8 (?v + 8 * of_nat j)" for j :: nat
    using d(1) aligned8_of_nat [of "8 * j"] by (intro aligned8_add) (simp_all add: PGSIZE_def aligned8_def)
  have nz: "?e \<noteq> 0" using sum_not_null [of page "4096 + 8 * length as"] d(2,3) by (simp add: PGSIZE_def ac_simps)
  let ?s = "put64 ?e 0 u"
  have "mem ?s a = mem s a" if "4096 \<le> unat (a - ?v)" for a
  proof -
    have "unat (a - ?e) = unat (a - ?v) - 8 * length as"
      using that d(3) off [of "length as"] unat_diff_64 [of "a - ?v" "8 * of_nat (length as)"] by (simp add: algebra_simps)
    then show ?thesis using that d(3) u(3) [of a] by (simp add: put64_def store64_other word_le_nat_alt)
  qed
  moreover have "load64 (mem ?s) (?v + 8 * of_nat j) = va + of_nat (start_of (nm # as) (Suc j))" if "j < length as" for j
  proof -
    have "?v + 8 * of_nat j \<noteq> ?e" using off [of j] off [of "length as"] that by auto
    then show ?thesis using u(2) [OF that] by (simp add: load_put [OF al al])
  qed
  moreover have "load64 (mem ?s) ?e = 0" by (simp add: load_put [OF al al])
  moreover have "bind (fill_vector t va (length as) ?v (sh + of_nat (Suc (length nm)))) (\<lambda>_. set_field ?e 0 0) s = Ok () ?s"
    using u(1) nz by (simp add: bind_Ok struct_simps)
  ultimately show ?thesis by blast
qed


section \<open>The start of the shell\<close>

text \<open>
  The task at \<open>0x1000\<close> with its shared page at \<open>0x2000\<close>, which holds \<open>/sh\<close> as name and only argument, and the
  copy of that page at \<open>0x4000\<close>.
\<close>

definition sh_bytes :: "byte list" where
  "sh_bytes = [47, 115, 104, 0, 47, 115, 104, 0]"

definition sh_state :: kernel where
  "sh_state = kernel_zero\<lparr>mem := (\<lambda>x. if x = 0x1000 + ts_shared_memory + 1 then 0x20
     else if unat (x - 0x2000) < 8 then sh_bytes ! unat (x - 0x2000)
     else if unat (x - 0x4000) < 8 then sh_bytes ! unat (x - 0x4000) else 0)\<rparr>"

lemma sh_byte:
  assumes "i < 4096"
  shows "mem sh_state (0x2000 + of_nat i) = (if i < 8 then sh_bytes ! i else 0)"
    "mem sh_state (0x4000 + of_nat i) = (if i < 8 then sh_bytes ! i else 0)"
proof -
  have u: "unat (of_nat i :: uint64) = i" using assms by (intro unat_of_nat_64) simp
  have v: "unat (0x2000 + of_nat i :: uint64) = 0x2000 + i" "unat (0x4000 + of_nat i :: uint64) = 0x4000 + i"
    using u assms by (subst unat_add_no_overflow; simp)+
  have "unat (0x1000 + ts_shared_memory + 1) = 0x1069" by (simp add: task_layout)
  then have "0x2000 + of_nat i \<noteq> 0x1000 + ts_shared_memory + 1" "0x4000 + of_nat i \<noteq> 0x1000 + ts_shared_memory + 1"
    using arg_cong [of "0x2000 + of_nat i" "0x1000 + ts_shared_memory + 1" unat]
      arg_cong [of "0x4000 + of_nat i" "0x1000 + ts_shared_memory + 1" unat] unfolding v by linarith+
  moreover have "unat (0x4000 + of_nat i - 0x2000 :: uint64) = 0x2000 + i" "unat (0x2000 + of_nat i - 0x4000 :: uint64) = 2 ^ 64 - 0x2000 + i"
    using unat_diff_64 [of "0x4000 + of_nat i" "0x2000"] unat_diff_64 [of "0x2000 + of_nat i" "0x4000"] assms v by auto
  ultimately show "mem sh_state (0x2000 + of_nat i) = (if i < 8 then sh_bytes ! i else 0)"
    "mem sh_state (0x4000 + of_nat i) = (if i < 8 then sh_bytes ! i else 0)"
    using u by (simp_all add: sh_state_def)
qed

lemma sh_page: "exec_page sh_state 0x1000 0x2000 0x4000 [47, 115, 104] [[47, 115, 104]] []"
proof -
  have p: "packed [47, 115, 104] [[47, 115, 104]] [] = sh_bytes" by (simp add: packed_def sh_bytes_def)
  have "load64 (mem sh_state) (0x1000 + ts_shared_memory) = 0x2000"
    by (simp add: load64_def sh_state_def task_layout upt_conv_Cons)
  moreover have "8192 \<le> unat (0x2000 + of_nat i - 0x4000 :: uint64)" if "i < 4096" for i
  proof -
    have "unat (of_nat i :: uint64) = i" using that by (intro unat_of_nat_64) simp
    then have "unat (0x2000 + of_nat i :: uint64) = 0x2000 + i" using that by (subst unat_add_no_overflow) simp_all
    then show ?thesis using unat_diff_64 [of "0x2000 + of_nat i" "0x4000"] that by simp
  qed
  moreover have "mem sh_state (0x2000 + of_nat i) = sh_bytes ! i" if "i < length sh_bytes" for i
    using that sh_byte(1) [of i] by (simp add: sh_bytes_def)
  moreover have "length sh_bytes = 8" by (simp add: sh_bytes_def)
  ultimately show ?thesis unfolding exec_page_def p by (simp add: sh_byte aligned8_def task_layout)
qed


end
