(* ===== verification/Self_Test.thy ===== *)
theory Self_Test
  imports Scheduler
begin

text \<open>
  The self-tests the kernel can be built with: \<open>test_mem_manage\<close> and the printers of
  \<open>kernel/mem_manage.c\<close>, \<open>test_scheduler\<close> and the printers of \<open>kernel/process.c\<close>, and \<open>test\<close> of
  \<open>kernel/test.c\<close>; and that the memory test succeeds.
\<close>

section \<open>Printing the pool and the tasks\<close>

definition capacity :: "string list" where
  "capacity = [''4KiB'', ''8KiB'', ''16KiB'', ''32KiB'', ''64KiB'', ''128KiB'', ''256KiB'', ''512KiB'',
     ''1MiB'', ''2MiB'', ''4MiB'', ''8MiB'', ''16MiB'', ''32MiB'', ''64MiB'', ''128MiB'']"

definition say :: "'z kernel_scheme platform \<Rightarrow> string \<Rightarrow> (unit, 'z kernel_scheme) run" where
  "say P msg = print_string P (literal P msg)"

partial_function (option) print_free_list ::
  "'z kernel_scheme platform \<Rightarrow> addr \<Rightarrow> 'z kernel_scheme \<Rightarrow> (fault + unit \<times> 'z kernel_scheme) option" where
  "print_free_list P p s =
     (if p = 0 then return ()
      else
        bind (print_int P p 16) (\<lambda>_.
        bind (say P '' '') (\<lambda>_.
        bind (get_next (Node p)) (\<lambda>p'.
        print_free_list P p')))) s"

text \<open>The loop over the orders; \<open>n\<close> orders remain.\<close>

primrec print_pool_orders :: "'z kernel_scheme platform \<Rightarrow> nat \<Rightarrow> (unit, 'z kernel_scheme) run" where
  "print_pool_orders P 0 = return ()"
| "print_pool_orders P (Suc n) =
     (let i = BUDDY_MAX_ORDER - n in
      bind (get_next (Space i)) (\<lambda>p.
      bind (say P (capacity ! i)) (\<lambda>_.
      bind (say P '': '') (\<lambda>_.
      bind (print_free_list P p) (\<lambda>_.
      bind (say P ''\<newline>'') (\<lambda>_.
      print_pool_orders P n))))))"

definition print_buddy_pool :: "'z kernel_scheme platform \<Rightarrow> (unit, 'z kernel_scheme) run" where
  "print_buddy_pool P = bind (say P ''BUDDY POOL:\<newline>'') (\<lambda>_. print_pool_orders P (BUDDY_MAX_ORDER + 1))"

definition print_task_meta :: "'z kernel_scheme platform \<Rightarrow> addr \<Rightarrow> (unit, 'z kernel_scheme) run" where
  "print_task_meta P task =
     bind (say P ''task: '') (\<lambda>_.
     bind (print_string P (task + ts_name)) (\<lambda>_.
     bind (say P '', pid: '') (\<lambda>_.
     bind (get_field task ts_pid) (\<lambda>pid.
     bind (print_int P pid 10) (\<lambda>_.
     bind (say P '', parent: '') (\<lambda>_.
     bind (get_field task ts_parent) (\<lambda>parent.
     bind (if parent = 0 then say P ''NULL''
           else bind (get_field parent ts_pid) (\<lambda>pid. print_int P pid 10)) (\<lambda>_.
     bind (get_state task) (\<lambda>st.
     if st = state_code RUNNING then say P '', state: RUNNING\<newline>''
     else if st = state_code ZOMBIE then say P '', state: ZOMBIE\<newline>''
     else if st = state_code SLEEPING then say P '', state: SLEEPING\<newline>''
     else if st = state_code RUNNABLE then say P '', state: RUNNABLE\<newline>''
     else if st = state_code DEAD then say P '', state: DEAD\<newline>''
     else return ())))))))))"

partial_function (option) print_tasks_from ::
  "'z kernel_scheme platform \<Rightarrow> addr \<Rightarrow> 'z kernel_scheme \<Rightarrow> (fault + unit \<times> 'z kernel_scheme) option" where
  "print_tasks_from P node s =
     (if node = 0 then return ()
      else
        bind (get_field node nd_data) (\<lambda>task.
        bind (print_task_meta P task) (\<lambda>_.
        bind (get_field node nd_next) (\<lambda>nxt.
        print_tasks_from P nxt)))) s"

definition print_all_task_meta :: "'z kernel_scheme platform \<Rightarrow> (unit, 'z kernel_scheme) run" where
  "print_all_task_meta P =
     bind (gets all_tasks) (\<lambda>l. bind (get_field l ls_head) (\<lambda>node. print_tasks_from P node))"

section \<open>The memory test\<close>

text \<open>One line of the report: the address range of a block of order \<open>i\<close>.\<close>

definition print_range :: "'z kernel_scheme platform \<Rightarrow> string \<Rightarrow> addr \<Rightarrow> nat \<Rightarrow> (unit, 'z kernel_scheme) run" where
  "print_range P what a i =
     bind (say P what) (\<lambda>_.
     bind (print_int P a 16) (\<lambda>_.
     bind (say P ''-'') (\<lambda>_.
     bind (print_int P (a + push_bit i PAGE_SIZE - 1) 16) (\<lambda>_.
     bind (say P ''\<newline>'') (\<lambda>_.
     print_buddy_pool P)))))"

text \<open>
  The two nested loops: \<open>max_power\<close> orders, \<open>times\<close> blocks of each, kept in the array \<open>addr\<close>. The
  orders of the blocks in the order of the array are \<open>test_orders\<close>; the second pair of loops
  runs through the array backwards.
\<close>

definition test_orders :: "nat list" where
  "test_orders = (let max_power = 5; times = 2 in concat (map (\<lambda>i. replicate times i) [0..<max_power]))"

primrec get_blocks :: "'z kernel_scheme platform \<Rightarrow> nat list \<Rightarrow> ((nat \<times> addr) list, 'z kernel_scheme) run" where
  "get_blocks P [] = return []"
| "get_blocks P (i # ks) =
     bind (allocate i) (\<lambda>a.
     bind (print_range P ''Get '' a i) (\<lambda>_.
     bind (get_blocks P ks) (\<lambda>rest.
     return ((i, a) # rest))))"

primrec free_blocks :: "'z kernel_scheme platform \<Rightarrow> (nat \<times> addr) list \<Rightarrow> (unit, 'z kernel_scheme) run" where
  "free_blocks P [] = return ()"
| "free_blocks P (x # xs) =
     bind (deallocate (snd x) (fst x)) (\<lambda>_.
     bind (print_range P ''Free '' (snd x) (fst x)) (\<lambda>_.
     free_blocks P xs))"

definition test_mem_manage :: "'z kernel_scheme platform \<Rightarrow> (unit, 'z kernel_scheme) run" where
  "test_mem_manage P = bind (get_blocks P test_orders) (\<lambda>addr. free_blocks P (rev addr))"

section \<open>The scheduler test\<close>

text \<open>The machine code of the two programs, as 32-bit words; the last word holds a 16-bit jump.\<close>

definition program1 :: "32 word list" where
  "program1 = [0x10000537, 0x0310059b, 0x00b50023, 0xbfd5]"

definition program2 :: "32 word list" where
  "program2 = [0x10000537, 0x0320059b, 0x00b50023, 0xbfd5]"

definition new_task_with_data ::
  "'z kernel_scheme platform \<Rightarrow> addr \<Rightarrow> addr \<Rightarrow> addr \<Rightarrow> uint64 \<Rightarrow> (addr, 'z kernel_scheme) run" where
  "new_task_with_data P name parent src_memory sz =
     bind (new_task P name parent) (\<lambda>task.
     if task = 0 then return 0
     else
       bind (kmalloc sizeof_memory_section) (\<lambda>tmp_data.
       bind (make_single_linked_list_node tmp_data) (\<lambda>tmp.
       if tmp = 0 \<or> tmp_data = 0 then
         bind (free_user_memory task) (\<lambda>_.
         bind (kfree task) (\<lambda>_.
         bind (kfree tmp_data) (\<lambda>_.
         return 0)))
       else
         bind (set_field tmp_data sec_start 0) (\<lambda>_.
         bind (set_field tmp_data sec_size sz) (\<lambda>_.
         bind (push_tail (task + ts_mem_sections) tmp) (\<lambda>_.
         bind (get_field task ts_pagetable) (\<lambda>pagetable.
         bind (map_memory pagetable src_memory sz (PTE_R OR PTE_W OR PTE_X OR PTE_U)) (\<lambda>r.
         if r = 0 then
           bind (free_user_memory task) (\<lambda>_.
           bind (kfree task) (\<lambda>_.
           return 0))
         else return task))))))))"

text \<open>\<open>prog1\<close> and \<open>prog2\<close> are the addresses of the two arrays.\<close>

definition test_scheduler :: "'z kernel_scheme platform \<Rightarrow> addr \<Rightarrow> addr \<Rightarrow> (unit, 'z kernel_scheme) run" where
  "test_scheduler P prog1 prog2 =
     (let sz = of_nat (4 * length program1); perm = PTE_R OR PTE_W OR PTE_X OR PTE_U;
          enqueue = (\<lambda>task. bind (gets runnable_tasks) (\<lambda>l. bind (make_single_linked_list_node task) (\<lambda>n. push_tail l n)));
          enlist = (\<lambda>task. bind (gets all_tasks) (\<lambda>l. bind (make_single_linked_list_node task) (\<lambda>n. push_tail l n))) in
      bind (new_task_with_data P (literal P ''task1'') 0 prog1 sz) (\<lambda>task1.
      bind (new_task_with_data P (literal P ''task2'') 0 prog2 (of_nat (4 * length program2))) (\<lambda>task2.
      bind (get_field task1 ts_pagetable) (\<lambda>pt.
      bind (map_page pt UART0 UART0 perm) (\<lambda>_.
      bind (get_field task2 ts_pagetable) (\<lambda>pt.
      bind (map_page pt UART0 UART0 perm) (\<lambda>_.
      bind (enqueue task1) (\<lambda>_.
      bind (enlist task1) (\<lambda>_.
      bind (enqueue task2) (\<lambda>_.
      bind (enlist task2) (\<lambda>_.
      scheduler P)))))))))))"

text \<open>\<open>test\<close> with the two switches of \<open>defs.h\<close>.\<close>

definition test :: "'z kernel_scheme platform \<Rightarrow> bool \<Rightarrow> bool \<Rightarrow> addr \<Rightarrow> addr \<Rightarrow> (unit, 'z kernel_scheme) run" where
  "test P TEST_MEM_MANAGE TEST_SCHEDULER prog1 prog2 =
     bind (if_then TEST_MEM_MANAGE
       (bind (say P ''Test memory management...\<newline>'') (\<lambda>_. test_mem_manage P))) (\<lambda>_.
     if_then TEST_SCHEDULER
       (bind (say P ''Test scheduler...\<newline>'') (\<lambda>_. test_scheduler P prog1 prog2)))"

lemmas [code] = print_free_list.simps print_tasks_from.simps

section \<open>The printers change nothing\<close>

text \<open>From every state that differs from \<open>s\<close> in the devices only, \<open>m\<close> leads to such a state.\<close>

definition quiet :: "(unit, 'z kernel_scheme) run \<Rightarrow> 'z kernel_scheme \<Rightarrow> bool" where
  "quiet m s \<longleftrightarrow> (\<forall>u. kernel_same s u \<longrightarrow> (\<exists>u'. m u = Ok () u' \<and> kernel_same s u'))"

lemma quiet_sends: "(\<And>u. kernel_same s u \<Longrightarrow> sends out m (cs u) u) \<Longrightarrow> quiet m s"
  unfolding sends_def quiet_def using kernel_same_trans by metis

lemma quiet_bind: "quiet m s \<Longrightarrow> quiet k s \<Longrightarrow> quiet (bind m (\<lambda>_. k)) s"
  unfolding quiet_def by (metis bind_Ok)

lemma quiet_get:
  assumes "\<And>u. kernel_same s u \<Longrightarrow> m u = Ok x u" and "quiet (k x) s"
  shows "quiet (bind m k) s"
  using assms unfolding quiet_def by (metis bind_Ok)

lemma quiet_return [simp]: "quiet (return ()) s"
  by (simp add: quiet_def return_def)

text \<open>The messages of the memory test, as the compiler has placed them in memory.\<close>

definition messages :: "string set" where
  "messages = set capacity \<union> {'' '', '': '', ''\<newline>'', ''BUDDY POOL:\<newline>'', ''Get '', ''Free '', ''-''}"

definition texts :: "'z kernel_scheme platform \<Rightarrow> 'z kernel_scheme \<Rightarrow> bool" where
  "texts P s \<longleftrightarrow> panicked s = 0 \<and>
     (\<forall>msg\<in>messages. literal P msg \<noteq> 0 \<and> cstring (mem s) (literal P msg) (map of_char msg))"

lemma texts_same: "kernel_same s s' \<Longrightarrow> texts P s \<Longrightarrow> texts P s'"
  by (simp add: texts_def kernel_sameD)

lemma quiet_say:
  assumes "serial_line P out" and "texts P s" and "msg \<in> messages"
  shows "quiet (say P msg) s"
proof (rule quiet_sends [where cs = "\<lambda>_. map of_char msg"])
  fix u assume "kernel_same s u"
  then have "texts P u" using assms(2) texts_same by blast
  then show "sends out (say P msg) (map of_char msg) u"
    using assms(1,3) by (simp add: say_def print_string_def texts_def sends_string_loop)
qed

lemma quiet_putc: "serial_line P out \<Longrightarrow> texts P s \<Longrightarrow> quiet (uart_putc_sync P c) s"
  by (rule quiet_sends, rule sends_putc) (auto simp: texts_def kernel_sameD)

lemma quiet_hex:
  assumes "serial_line P out" and "texts P s"
  shows "quiet (print_int P x 16) s"
proof -
  have "quiet (print_int_hex_without_header P x) s"
    unfolding quiet_def
  proof (intro allI impI)
    fix u assume u: "kernel_same s u"
    then have "panicked u = 0" using assms(2) by (simp add: texts_def kernel_sameD)
    from sends_hex [OF assms(1) this] show "\<exists>u'. print_int_hex_without_header P x u = Ok () u' \<and> kernel_same s u'"
      unfolding sends_def using kernel_same_trans [OF u] by blast
  qed
  then show ?thesis using assms by (simp add: print_int_def quiet_bind quiet_putc)
qed

lemma quiet_free_list:
  assumes "serial_line P out" and "texts P s"
  shows "chain (load64 (mem s)) p ns \<Longrightarrow> quiet (print_free_list P p) s"
proof (induction ns arbitrary: p)
  case Nil
  then show ?case using print_free_list.simps [of P p] by (simp add: fun_eq_iff return_def quiet_def)
next
  case (Cons n ns)
  have p: "p \<noteq> 0" and ch: "chain (load64 (mem s)) (load64 (mem s) p) ns" using Cons.prems by auto
  have "print_free_list P p = bind (print_int P p 16) (\<lambda>_. bind (say P '' '') (\<lambda>_.
      bind (get_next (Node p)) (\<lambda>p'. print_free_list P p')))"
    using p by (intro ext) (simp add: print_free_list.simps [of P p])
  moreover have "quiet (bind (get_next (Node p)) (\<lambda>p'. print_free_list P p')) s"
    using Cons.IH [OF ch] by (intro quiet_get) (auto simp: get_next_def read64_def run_simps kernel_sameD)
  ultimately show ?case
    using assms by (simp add: quiet_bind quiet_hex quiet_say messages_def)
qed

lemma capacity_message: "i \<le> BUDDY_MAX_ORDER \<Longrightarrow> capacity ! i \<in> messages"
proof -
  have "length capacity = 16" by (simp add: capacity_def)
  then show "i \<le> BUDDY_MAX_ORDER \<Longrightarrow> capacity ! i \<in> messages"
    by (auto simp: messages_def BUDDY_MAX_ORDER_def intro!: nth_mem)
qed

lemma quiet_orders:
  assumes "serial_line P out" and "texts P s" and "pool_repr s fl"
  shows "n \<le> BUDDY_MAX_ORDER + 1 \<Longrightarrow> quiet (print_pool_orders P n) s"
proof (induction n)
  case (Suc n)
  define i where "i = BUDDY_MAX_ORDER - n"
  have i: "capacity ! i \<in> messages" by (simp add: i_def capacity_message)
  have sp: "i < length (space s)" "chain (load64 (mem s)) (space s ! i) (map page_addr (fl i))"
    using assms(3) by (auto simp: pool_repr_def i_def)
  have g: "get_next (Space i) u = Ok (space s ! i) u" if "kernel_same s u" for u
    using that sp(1) by (simp add: get_next_def run_simps kernel_same_def kernel.truncate_def)
  have "quiet (bind (say P (capacity ! i)) (\<lambda>_. bind (say P '': '') (\<lambda>_. bind (print_free_list P (space s ! i)) (\<lambda>_.
      bind (say P ''\<newline>'') (\<lambda>_. print_pool_orders P n))))) s"
    using Suc assms i quiet_free_list [OF assms(1,2) sp(2)]
    by (simp add: quiet_bind quiet_say messages_def)
  with g show ?case by (simp add: Let_def flip: i_def) (rule quiet_get)
qed simp

lemma quiet_range:
  assumes "serial_line P out" and "texts P s" and "page_pool s F" and "what \<in> {''Get '', ''Free ''}"
  shows "quiet (print_range P what a k) s"
proof -
  obtain fl where fl: "pool_repr s fl" using assms(3) by (auto simp: page_pool_def)
  have "what \<in> messages" using assms(4) by (auto simp: messages_def)
  then show ?thesis
    using assms(1,2) quiet_orders [OF assms(1,2) fl order_refl]
    by (simp del: print_pool_orders.simps add: print_range_def print_buddy_pool_def quiet_bind quiet_hex quiet_say messages_def)
qed

section \<open>Enough room for the test\<close>

text \<open>Blocks of the given orders can be taken from \<open>F\<close> one after the other, whichever are chosen.\<close>

primrec fits :: "nat set \<Rightarrow> nat list \<Rightarrow> bool" where
  "fits F [] = True"
| "fits F (k # ks) \<longleftrightarrow> (\<exists>q. 2 ^ k dvd q \<and> block k q \<subseteq> F) \<and>
     (\<forall>p. valid_block k p \<longrightarrow> block k p \<subseteq> F \<longrightarrow> fits (F - block k p) ks)"

text \<open>The blocks of order \<open>k\<close> inside the aligned block of order 8 at \<open>b\<close> that are not free.\<close>

definition lost :: "nat \<Rightarrow> nat set \<Rightarrow> nat \<Rightarrow> nat set" where
  "lost b F k = {j. j < 2 ^ (8 - k) \<and> \<not> block k (b + j * 2 ^ k) \<subseteq> F}"

lemma aligned_block_unique:
  assumes "2 ^ k dvd p" and "2 ^ k dvd q" and "x \<in> block k p" and "x \<in> block k q"
  shows "p = (q :: nat)"
proof -
  have "p div 2 ^ k = x div 2 ^ k" if al: "2 ^ k dvd p" and x: "x \<in> block k p" for p
  proof -
    obtain c where p: "p = 2 ^ k * c" using al by (rule dvdE)
    then have "x = 2 ^ k * c + (x - p)" "x - p < 2 ^ k" using x by (auto simp: block_def)
    then have "x div 2 ^ k = c" by (metis add.commute add_cancel_left_left div_less div_mult_self2 power_eq_0_iff zero_neq_numeral)
    then show ?thesis using p by simp
  qed
  with assms have "p div 2 ^ k = q div 2 ^ k" by metis
  with assms(1,2) show ?thesis by (metis dvd_div_mult_self)
qed

text \<open>Taking a block of order at most \<open>k\<close> costs at most one block of order \<open>k\<close>.\<close>

lemma lost_step:
  assumes "2 ^ 8 dvd b" and "j \<le> k" and "k \<le> 8" and "2 ^ j dvd p"
  shows "card (lost b (F - block j p) k) \<le> Suc (card (lost b F k))"
proof -
  define q where "q = p div 2 ^ k * 2 ^ k"
  have sub: "block j p \<subseteq> block k q"
  proof -
    have "p mod 2 ^ k + 2 ^ j \<le> 2 ^ k"
    proof -
      obtain c where c: "p mod 2 ^ k = 2 ^ j * c"
        using assms(2,4) by (metis dvd_def dvd_mod le_imp_power_dvd)
      have "2 ^ k = 2 ^ j * (2 :: nat) ^ (k - j)" using assms(2) by (simp flip: power_add)
      moreover have "2 ^ j * c < 2 ^ k" using c by (metis mod_less_divisor zero_less_numeral zero_less_power)
      ultimately have "c < 2 ^ (k - j)" by simp
      then have "2 ^ j * (c + 1) \<le> 2 ^ j * 2 ^ (k - j)" by (intro mult_le_mono2) simp
      with c \<open>2 ^ k = _\<close> show ?thesis by simp
    qed
    moreover have "p = q + p mod 2 ^ k" by (simp only: q_def div_mult_mod_eq)
    ultimately show ?thesis by (auto simp: block_def)
  qed
  have "lost b (F - block j p) k \<subseteq> lost b F k \<union> {i. b + i * 2 ^ k = q}"
  proof
    fix i assume i: "i \<in> lost b (F - block j p) k"
    show "i \<in> lost b F k \<union> {i. b + i * 2 ^ k = q}"
    proof (cases "block k (b + i * 2 ^ k) \<subseteq> F")
      case True
      with i obtain x where x: "x \<in> block k (b + i * 2 ^ k)" "x \<in> block j p" by (auto simp: lost_def)
      have "2 ^ k dvd b" using assms(1,3) by (meson dvd_trans le_imp_power_dvd)
      then have "2 ^ k dvd b + i * 2 ^ k" "2 ^ k dvd q" by (simp_all add: q_def)
      then have "b + i * 2 ^ k = q" using x sub by (intro aligned_block_unique) auto
      then show ?thesis by simp
    qed (use i in \<open>simp add: lost_def\<close>)
  qed
  moreover have "{i. b + i * 2 ^ k = q} \<subseteq> {(q - b) div 2 ^ k}" by auto
  moreover have "finite (lost b F k)" by (simp add: lost_def)
  ultimately have "card (lost b (F - block j p) k) \<le> card (lost b F k \<union> {(q - b) div 2 ^ k})"
    by (intro card_mono) auto
  also have "\<dots> \<le> Suc (card (lost b F k))" by (metis Un_insert_right card_insert_le_m1 card_insert_if finite_insert
    \<open>finite (lost b F k)\<close> boolean_algebra.disj_zero_right le_SucI order_refl)
  finally show ?thesis .
qed

lemma fits_by_count:
  assumes b: "2 ^ 8 dvd b"
  shows "sorted ks \<Longrightarrow> \<forall>k\<in>set ks. k \<le> 4 \<Longrightarrow> n + length ks \<le> 16 \<Longrightarrow>
    (\<And>k. k \<le> 4 \<Longrightarrow> ks \<noteq> [] \<Longrightarrow> hd ks \<le> k \<Longrightarrow> card (lost b F k) \<le> n) \<Longrightarrow> fits F ks"
proof (induction ks arbitrary: F n)
  case (Cons k ks)
  have k: "k \<le> 4" "card (lost b F k) \<le> n" "n < 16" using Cons.prems by auto
  have "(16 :: nat) \<le> 2 ^ (8 - k)" using k(1) power_increasing [of 4 "8 - k" "2 :: nat"] by simp
  then have "card (lost b F k) < card {..<2 ^ (8 - k) :: nat}" using k by simp
  moreover have "lost b F k \<subseteq> {..<2 ^ (8 - k)}" by (auto simp: lost_def)
  ultimately obtain i where "i < 2 ^ (8 - k)" "i \<notin> lost b F k"
    by (metis lessThan_iff less_irrefl subsetI subset_antisym)
  then have "block k (b + i * 2 ^ k) \<subseteq> F" by (simp add: lost_def)
  moreover have "2 ^ k dvd b + i * 2 ^ k"
    using dvd_trans [OF le_imp_power_dvd b, of k] k(1) by simp
  moreover have "fits (F - block k p) ks" if "valid_block k p" "block k p \<subseteq> F" for p
  proof (rule Cons.IH [of "Suc n"])
    show "card (lost b (F - block k p) l) \<le> Suc n" if "l \<le> 4" "ks \<noteq> []" "hd ks \<le> l" for l
    proof -
      have "k \<le> l" using Cons.prems(1) that(2,3) by (cases ks) auto
      then have "card (lost b (F - block k p) l) \<le> Suc (card (lost b F l))"
        using that(1) \<open>valid_block k p\<close> by (intro lost_step [OF b]) (auto simp: valid_block_def)
      also have "\<dots> \<le> Suc n" using Cons.prems(4) [of l] \<open>k \<le> l\<close> that(1) by simp
      finally show ?thesis .
    qed
  qed (use Cons.prems in auto)
  ultimately show ?case unfolding fits.simps by blast
qed simp

lemma test_fits:
  assumes "2 ^ 8 dvd b" and "block 8 b \<subseteq> F"
  shows "fits F test_orders"
proof (rule fits_by_count [OF assms(1), of _ 0])
  have o: "test_orders = [0, 0, 1, 1, 2, 2, 3, 3, 4, 4]" by (simp add: test_orders_def Let_def upt_rec numeral_2_eq_2)
  show "sorted test_orders" "\<forall>k\<in>set test_orders. k \<le> 4" "0 + length test_orders \<le> 16" by (simp_all add: o)
  show "card (lost b F k) \<le> 0" if "k \<le> 4" for k
  proof -
    have "block k (b + j * 2 ^ k) \<subseteq> block 8 b" if "j < 2 ^ (8 - k)" for j
    proof -
      have "(j + 1) * 2 ^ k \<le> 2 ^ (8 - k) * 2 ^ k" using that by (intro mult_le_mono1) simp
      also have "\<dots> = 2 ^ 8" using \<open>k \<le> 4\<close> by (simp flip: power_add)
      finally show ?thesis by (auto simp: block_def)
    qed
    with assms(2) show ?thesis by (auto simp: lost_def)
  qed
qed

section \<open>The memory test succeeds\<close>

text \<open>The messages lie outside the pages of \<open>F\<close>.\<close>

definition texts_outside :: "'z kernel_scheme platform \<Rightarrow> nat set \<Rightarrow> bool" where
  "texts_outside P F \<longleftrightarrow> (\<forall>msg\<in>messages. \<forall>i\<le>length msg. page_of (literal P msg + of_nat i) \<notin> F)"

lemma texts_frame:
  assumes "texts P s" and "texts_outside P F" and "frame F s s'"
  shows "texts P s'"
proof -
  have "panicked s' = panicked s" using assms(3) by (cases s, cases s') (simp add: frame_def)
  moreover have "cstring (mem s') (literal P msg) (map of_char msg) \<longleftrightarrow> cstring (mem s) (literal P msg) (map of_char msg)"
    if "msg \<in> messages" for msg
    using assms(2,3) that by (intro cstring_cong) (auto simp: texts_outside_def frame_def)
  ultimately show ?thesis using assms(1) by (simp add: texts_def)
qed

lemma page_pool_same: "kernel_same s s' \<Longrightarrow> page_pool s' F = page_pool s F"
  by (simp add: page_pool_def pool_repr_def kernel_same_def kernel.truncate_def)

text \<open>\<open>taken F bs F'\<close>: the blocks \<open>bs\<close>, taken from \<open>F\<close> one after the other, leave \<open>F'\<close>.\<close>

inductive taken :: "nat set \<Rightarrow> (nat \<times> nat) list \<Rightarrow> nat set \<Rightarrow> bool" where
  none: "taken F [] F"
| take: "taken F ((k, p) # bs) F'" if "valid_block k p" and "block k p \<subseteq> F" and "taken (F - block k p) bs F'"

inductive_simps taken_simps: "taken F [] F'" "taken F (b # bs) F'"

definition block_addrs :: "(nat \<times> nat) list \<Rightarrow> (nat \<times> addr) list" where
  "block_addrs = map (\<lambda>(k, p). (k, page_addr p))"

lemma get_blocks_ok:
  assumes line: "serial_line P out"
  shows "page_pool s F \<Longrightarrow> fits F ks \<Longrightarrow> texts P s \<Longrightarrow> texts_outside P F \<Longrightarrow>
    \<exists>bs F' s'. get_blocks P ks s = Ok (block_addrs bs) s' \<and> taken F bs F' \<and> page_pool s' F' \<and> texts P s'"
proof (induction ks arbitrary: s F)
  case Nil
  then show ?case by (auto simp: return_def block_addrs_def taken_simps)
next
  case (Cons k ks)
  obtain p t where t: "allocate k s = Ok (page_addr p) t" "page_pool t (F - block k p)" "frame (F - block k p) s t"
    and p: "valid_block k p" "block k p \<subseteq> F"
    using page_pool_alloc [OF Cons.prems(1), of k] Cons.prems(2) by auto
  have tx: "texts P t" using texts_frame [OF Cons.prems(3,4)] t(3) by (blast intro: frame_mono)
  obtain u where u: "print_range P ''Get '' (page_addr p) k t = Ok () u" "kernel_same t u"
    using quiet_range [OF line tx t(2), of "''Get ''" "page_addr p" k] kernel_same_refl unfolding quiet_def by blast
  have "\<exists>bs F' s'. get_blocks P ks u = Ok (block_addrs bs) s' \<and> taken (F - block k p) bs F' \<and> page_pool s' F' \<and> texts P s'"
    using Cons.IH [of u "F - block k p"] Cons.prems(2,4) p u(2) t(2) tx
    by (auto simp: page_pool_same texts_same texts_outside_def)
  then obtain bs F' s' where r: "get_blocks P ks u = Ok (block_addrs bs) s'" "taken (F - block k p) bs F'"
    "page_pool s' F'" "texts P s'" by blast
  have "get_blocks P (k # ks) s = Ok (block_addrs ((k, p) # bs)) s'"
    using t(1) u(1) r(1) by (simp add: bind_def return_def block_addrs_def)
  with r p show ?case by (blast intro: taken.take)
qed

lemma free_blocks_append: "free_blocks P (xs @ ys) s = bind (free_blocks P xs) (\<lambda>_. free_blocks P ys) s"
  by (induction xs arbitrary: s) (simp_all add: bind_def return_def split: option.splits sum.splits prod.splits)

lemma free_blocks_ok:
  assumes line: "serial_line P out"
  shows "taken F bs F' \<Longrightarrow> page_pool s F' \<Longrightarrow> texts P s \<Longrightarrow> texts_outside P F \<Longrightarrow>
    \<exists>s'. free_blocks P (rev (block_addrs bs)) s = Ok () s' \<and> page_pool s' F \<and> texts P s'"
proof (induction arbitrary: s rule: taken.induct)
  case (none F)
  then show ?case by (simp add: block_addrs_def return_def)
next
  case (take k p F bs F')
  obtain t where t: "free_blocks P (rev (block_addrs bs)) s = Ok () t" "page_pool t (F - block k p)" "texts P t"
    using take.IH [OF take.prems(1,2)] take.prems(3) by (auto simp: texts_outside_def)
  have F: "F - block k p \<union> block k p = F" using take.hyps(2) by blast
  obtain u where u: "deallocate (page_addr p) k t = Ok () u" "page_pool u F" "frame F t u"
    using page_pool_release [OF t(2) take.hyps(1)] F by auto
  have tx: "texts P u" using texts_frame [OF t(3) take.prems(3) u(3)] .
  obtain v where v: "print_range P ''Free '' (page_addr p) k u = Ok () v" "kernel_same u v"
    using quiet_range [OF line tx u(2), of "''Free ''" "page_addr p" k] kernel_same_refl unfolding quiet_def by blast
  have "rev (block_addrs ((k, p) # bs)) = rev (block_addrs bs) @ [(k, page_addr p)]" by (simp add: block_addrs_def)
  moreover have "free_blocks P (rev (block_addrs bs) @ [(k, page_addr p)]) s = Ok () v"
    using t(1) u(1) v(1) by (simp add: free_blocks_append bind_def return_def)
  ultimately show ?case using v(2) u(2) tx by (simp add: page_pool_same texts_same)
qed

text \<open>
  C38. The memory test passes: on a pool with one free block of 256 aligned pages, whatever
  else is free, every one of its allocations succeeds, the blocks it gets are disjoint and free,
  and after it has given them back, in the opposite order, exactly the pages that were free at the
  start are free again; every \<open>print_buddy_pool\<close> in between ends.
\<close>

theorem test_mem_manage_passes:
  assumes "serial_line P out" and "texts P s" and "page_pool s F" and "texts_outside P F"
    and "2 ^ 8 dvd b" and "block 8 b \<subseteq> F"
  shows "\<exists>bs F' t s'. get_blocks P test_orders s = Ok (block_addrs bs) t \<and> taken F bs F' \<and>
    test_mem_manage P s = Ok () s' \<and> page_pool s' F"
proof -
  obtain bs F' t where t: "get_blocks P test_orders s = Ok (block_addrs bs) t" "taken F bs F'" "page_pool t F'" "texts P t"
    using get_blocks_ok [OF assms(1,3) test_fits [OF assms(5,6)] assms(2,4)] by blast
  obtain s' where s': "free_blocks P (rev (block_addrs bs)) t = Ok () s'" "page_pool s' F"
    using free_blocks_ok [OF assms(1) t(2-4) assms(4)] by blast
  have "test_mem_manage P s = Ok () s'" unfolding test_mem_manage_def using t(1) s'(1) by (simp add: bind_def)
  with t(1,2) s'(2) show ?thesis by blast
qed

section \<open>A pool for the memory test\<close>

definition message_list :: "string list" where
  "message_list = capacity @ ['' '', '': '', ''\<newline>'', ''BUDDY POOL:\<newline>'', ''Get '', ''Free '', ''-'']"

definition message_addr :: "string \<Rightarrow> addr" where
  "message_addr msg = 0x10000 + of_nat (64 * length (takeWhile (\<lambda>x. x \<noteq> msg) message_list))"

definition message_memory :: memory where
  "message_memory a = (let n = unat a - 0x10000; i = n div 64; j = n mod 64 in
     if 0x10000 \<le> unat a \<and> i < length message_list \<and> j < length (message_list ! i)
     then of_char (message_list ! i ! j) else 0)"

definition test_platform :: "byte list kernel_scheme platform" where
  "test_platform = sink_platform\<lparr>literal := message_addr\<rparr>"

text \<open>One free block, of order 8.\<close>

definition test_state :: "byte list kernel_scheme" where
  "test_state = (sink_state message_memory)\<lparr>space := (replicate 16 0)[8 := page_addr 0x80200]\<rparr>"

lemma message_list_facts:
  "messages = set message_list" "length message_list = 23" "distinct message_list"
  "\<forall>w\<in>set message_list. length w < 64 \<and> (\<forall>c\<in>set w. (of_char c :: byte) \<noteq> 0)"
proof -
  show "messages = set message_list" by (simp only: messages_def message_list_def set_append list.set)
qed (simp_all add: message_list_def capacity_def)

lemma literal_line: "serial_line (sink_platform\<lparr>literal := f\<rparr>) kernel.more"
proof -
  have r: "ReadReg (sink_platform\<lparr>literal := f\<rparr>) = ReadReg sink_platform"
    "WriteReg (sink_platform\<lparr>literal := f\<rparr>) = WriteReg sink_platform"
    by (simp_all add: ReadReg_def WriteReg_def fun_eq_iff)
  have "polls sink_platform s s' \<Longrightarrow> polls (sink_platform\<lparr>literal := f\<rparr>) s s'" for s s'
    by (induction rule: polls.induct) (use r polls.intros in \<open>metis\<close>)+
  with sink_line(1) show ?thesis unfolding serial_line_def r by blast
qed

lemma message_addr_nth: "i < 23 \<Longrightarrow> message_addr (message_list ! i) = 0x10000 + of_nat (64 * i)"
proof -
  assume i: "i < 23"
  have "takeWhile (\<lambda>x. x \<noteq> message_list ! i) message_list = take i message_list"
    using i message_list_facts(2,3) by (intro takeWhile_eq_take_P_nth) (auto simp: nth_eq_iff_index_eq)
  then show ?thesis using i message_list_facts(2) by (simp add: message_addr_def)
qed

lemma message_unat: "i < 23 \<Longrightarrow> j < 64 \<Longrightarrow> unat (0x10000 + of_nat (64 * i) + of_nat j :: addr) = 0x10000 + 64 * i + j"
proof -
  assume "i < 23" "j < 64"
  then have "unat (of_nat (0x10000 + 64 * i + j) :: addr) = 0x10000 + 64 * i + j" by (intro unat_of_nat_64) simp
  then show ?thesis by (simp add: algebra_simps)
qed

lemma message_stored:
  assumes "i < 23"
  shows "cstring message_memory (message_addr (message_list ! i)) (map of_char (message_list ! i))"
proof -
  define w where "w = message_list ! i"
  have w: "length w < 64" "\<And>j. j < length w \<Longrightarrow> (of_char (w ! j) :: byte) \<noteq> 0"
    using bspec [OF message_list_facts(4), of w] message_list_facts(2) assms by (auto simp: w_def)
  have "message_memory (0x10000 + of_nat (64 * i) + of_nat j) = (if j < length w then of_char (w ! j) else 0)"
    if "j < 64" for j
    unfolding message_memory_def message_unat [OF assms that] w_def
    using that assms by (simp add: message_list_facts(2) Let_def)
  then show ?thesis
    unfolding message_addr_nth [OF assms] cstring_iff using w by (simp flip: w_def)
qed

lemma test_line: "serial_line test_platform kernel.more"
  unfolding test_platform_def by (rule literal_line)

lemma test_texts: "texts test_platform test_state" "texts_outside test_platform (block 8 0x80200)"
proof -
  have "message_addr msg \<noteq> 0 \<and> cstring message_memory (message_addr msg) (map of_char msg) \<and>
      (\<forall>j\<le>length msg. page_of (message_addr msg + of_nat j) < 0x80000)" if msg: "msg \<in> messages" for msg
  proof -
    obtain i where i: "i < 23" "msg = message_list ! i"
      using msg message_list_facts(1,2) by (metis in_set_conv_nth)
    have "length msg < 64" using msg message_list_facts(1,4) by simp
    then have "page_of (message_addr msg + of_nat j) < 0x80000" if "j \<le> length msg" for j
      using message_unat [of i j] message_addr_nth i that by (simp add: page_of_def)
    moreover have "message_addr msg \<noteq> 0" using message_unat [of i 0] message_addr_nth i by auto
    ultimately show ?thesis using message_stored [OF i(1)] i(2) by simp
  qed
  note m = this
  then show "texts test_platform test_state" by (simp add: texts_def test_platform_def test_state_def)
  show "texts_outside test_platform (block 8 0x80200)"
    using m by (fastforce simp: texts_outside_def test_platform_def block_def)
qed

lemma test_pool: "page_pool test_state (block 8 0x80200)"
proof -
  let ?fl = "(\<lambda>_. [])(8 := [0x80200]) :: free_lists"
  have "message_memory (page_addr 0x80200 + of_nat i) = 0" if "i < 8" for i
  proof -
    have "unat (page_addr 0x80200 + of_nat i) = unat (of_nat (0x80200000 + i) :: addr)" by (simp add: page_addr_def)
    also have "\<dots> = 0x80200000 + i" using that by (intro unat_of_nat_64) simp
    finally have u: "unat (page_addr 0x80200 + of_nat i) = 0x80200000 + i" .
    have "\<not> (0x80200000 + i - 0x10000) div 64 < 23" by simp
    then show ?thesis unfolding message_memory_def u Let_def message_list_facts(2) by simp
  qed
  then have "load64 message_memory (page_addr 0x80200) = 0" by (intro load64_zeroed)
  then have "pool_repr test_state ?fl"
    by (auto simp: pool_repr_def test_state_def BUDDY_MAX_ORDER_def page_addr_def nth_list_update)
  moreover have "buddy_wf ?fl"
    by (auto simp: buddy_wf_def valid_block_def disjoint_blocks_def coalesced_def BUDDY_MAX_ORDER_def first_page_def end_page_def buddy_def)
  moreover have "free_pages ?fl = block 8 0x80200"
    by (auto simp: free_pages_def BUDDY_MAX_ORDER_def split: if_splits)
  ultimately show ?thesis unfolding page_pool_def by blast
qed

theorem test_mem_manage_passes_witness:
  "\<exists>s'. test_mem_manage test_platform test_state = Ok () s' \<and> page_pool s' (block 8 0x80200)"
  using test_mem_manage_passes [OF test_line test_texts(1) test_pool test_texts(2), of "0x80200"] by auto

end
