(* ===== verification/Shell.thy ===== *)
theory Shell
  imports User_Lib
begin

text \<open>
  The programs \<open>user/sh.c\<close> and \<open>user/echo.c\<close> on top of the user library. The addresses of the
  global arrays, of the string literals and of the local variables whose address is taken are
  the fields of a record.
\<close>

record shell_layout =
  lit :: "string \<Rightarrow> addr"
  path_at :: addr
  program_envp_at :: addr
  tmp_argv_at :: addr
  line_at :: addr
  exit_code_at :: addr

section \<open>sh\<close>

datatype builtin = HELP | EXIT | POWEROFF | NON_BUILTIN

definition parameter_delimiters :: "shell_layout \<Rightarrow> addr" where
  "parameter_delimiters E = lit E [CHR '' '', CHR 0x09, CHR 0x0D, CHR 0x0A]"

definition MAX_LINE_LENGTH :: int where "MAX_LINE_LENGTH = 4096"

definition program_type :: "shell_layout \<Rightarrow> addr \<Rightarrow> (builtin, 'z user_scheme) run" where
  "program_type E program =
     bind (strcmp_user program (lit E ''help'')) (\<lambda>r.
     if r = 0 then return HELP
     else
       bind (strcmp_user program (lit E ''exit'')) (\<lambda>r.
       if r = 0 then return EXIT
       else
         bind (strcmp_user program (lit E ''poweroff'')) (\<lambda>r.
         if r = 0 then return POWEROFF else return NON_BUILTIN)))"

text \<open>\<open>while ((*old_envp) != NULL) old_envp++;\<close>\<close>

partial_function (option) envp_end :: "addr \<Rightarrow> 'z user_scheme \<Rightarrow> (fault + addr \<times> 'z user_scheme) option" where
  "envp_end old_envp s =
     bind (get_field old_envp 0) (\<lambda>p. if p \<noteq> 0 then envp_end (old_envp + 8) else return old_envp) s"

text \<open>The body of the parsing loop: the first parameter is the name of the program.\<close>

definition add_parameter :: "shell_layout \<Rightarrow> addr \<Rightarrow> nat \<Rightarrow> builtin \<Rightarrow> (builtin, 'z user_scheme) run" where
  "add_parameter E parameter argc b =
     bind (get_byte (path_at E) 0) (\<lambda>c.
     bind (if c = 0 then
             bind (program_type E parameter) (\<lambda>b.
             bind (set_byte (path_at E) 0 47) (\<lambda>_.
             bind (strlen_user parameter 0) (\<lambda>l.
             bind (strcpy_user (path_at E + 1) parameter (of_int l)) (\<lambda>_.
             return b))))
           else return b) (\<lambda>b.
     bind (set_field (tmp_argv_at E) (8 * of_nat argc) parameter) (\<lambda>_.
     bind (set_field (tmp_argv_at E) (8 * of_nat (argc + 1)) 0) (\<lambda>_.
     return b))))"

partial_function (option) parse_loop ::
  "shell_layout \<Rightarrow> addr \<Rightarrow> nat \<Rightarrow> builtin \<Rightarrow> 'z user_scheme \<Rightarrow> (fault + builtin \<times> 'z user_scheme) option" where
  "parse_loop E parameter argc b s =
     (if parameter = 0 then return b
      else
        bind (add_parameter E parameter argc b) (\<lambda>b.
        bind (strtok_user 0 (parameter_delimiters E)) (\<lambda>parameter.
        parse_loop E parameter (argc + 1) b))) s"

definition print_help :: "'z user_scheme ecall \<Rightarrow> shell_layout \<Rightarrow> (32 word, 'z user_scheme) run" where
  "print_help S E =
     bind (print_string_user S (lit E ''help:     print this message\<newline>'')) (\<lambda>_.
     bind (print_string_user S (lit E ''exit:     exit shell\<newline>'')) (\<lambda>_.
     bind (print_string_user S (lit E ''poweroff: power off\<newline>'')) (\<lambda>_.
     return 0)))"

definition run_program :: "'z user_scheme ecall \<Rightarrow> shell_layout \<Rightarrow> (32 word, 'z user_scheme) run" where
  "run_program S E =
     bind (get_byte (path_at E) 0) (\<lambda>c.
     if c = 0 then return 0
     else
       bind (fork_user S) (\<lambda>r.
       let pid = (ucast r :: 32 word) in
       if pid = 0 then
         bind (exec_user S (path_at E) (tmp_argv_at E) (program_envp_at E)) (\<lambda>_.
         bind (printf S (lit E) (lit E ''execve failed!\<newline>'') []) (\<lambda>_.
         exit_user S (-1)))
       else
         bind (wait_user S (exit_code_at E)) (\<lambda>_.
         get_field32 (exit_code_at E) 0)))"

definition execute_line :: "'z user_scheme ecall \<Rightarrow> shell_layout \<Rightarrow> addr \<Rightarrow> (32 word, 'z user_scheme) run" where
  "execute_line S E line =
     bind (set_field (tmp_argv_at E) 0 0) (\<lambda>_.
     bind (set_byte (path_at E) 0 0) (\<lambda>_.
     bind (envp_end (program_envp_at E)) (\<lambda>_.
     bind (strtok_user line (parameter_delimiters E)) (\<lambda>parameter.
     bind (parse_loop E parameter 0 NON_BUILTIN) (\<lambda>b.
     case b of
       HELP \<Rightarrow> print_help S E
     | EXIT \<Rightarrow> exit_user S 0
     | POWEROFF \<Rightarrow> bind (power_off_user S) (\<lambda>_. return 0)
     | NON_BUILTIN \<Rightarrow> run_program S E)))))"

text \<open>One round of the endless loop of \<open>main\<close>.\<close>

definition shell_round :: "'z user_scheme ecall \<Rightarrow> shell_layout \<Rightarrow> (unit, 'z user_scheme) run" where
  "shell_round S E =
     bind (read_until S (line_at E) MAX_LINE_LENGTH 13) (\<lambda>r.
     if r \<noteq> 0 then
       bind (printf S (lit E) (lit E ''Too many characters in a line!\<newline>#'') []) (\<lambda>_. return ())
     else
       bind (put_byte S 10) (\<lambda>_.
       bind (execute_line S E (line_at E)) (\<lambda>exit_code.
       if exit_code \<noteq> 0 then
         bind (printf S (lit E) (lit E ''%d # '') [scast exit_code]) (\<lambda>_. return ())
       else
         bind (printf S (lit E) (lit E ''# '') []) (\<lambda>_. return ()))))"

partial_function (option) shell_loop ::
  "'z user_scheme ecall \<Rightarrow> shell_layout \<Rightarrow> 'z user_scheme \<Rightarrow> (fault + 32 word \<times> 'z user_scheme) option" where
  "shell_loop S E s = bind (shell_round S E) (\<lambda>_. shell_loop S E) s"

definition sh_main :: "'z user_scheme ecall \<Rightarrow> shell_layout \<Rightarrow> (32 word, 'z user_scheme) run" where
  "sh_main S E =
     bind (set_field (program_envp_at E) 0 0) (\<lambda>_.
     bind (print_string_user S (lit E ''Welcome to sh!\<newline># '')) (\<lambda>_.
     shell_loop S E))"

section \<open>echo\<close>

text \<open>\<open>n\<close> arguments are left.\<close>

primrec echo_loop :: "'z user_scheme ecall \<Rightarrow> (string \<Rightarrow> addr) \<Rightarrow> addr \<Rightarrow> nat \<Rightarrow> nat \<Rightarrow> (unit, 'z user_scheme) run" where
  "echo_loop S L argv 0 i = return ()"
| "echo_loop S L argv (Suc n) i =
     bind (get_field argv (8 * of_nat i)) (\<lambda>p.
     bind (printf S L (L ''%s '') [p]) (\<lambda>_.
     echo_loop S L argv n (i + 1)))"

definition echo_main :: "'z user_scheme ecall \<Rightarrow> (string \<Rightarrow> addr) \<Rightarrow> int \<Rightarrow> addr \<Rightarrow> (32 word, 'z user_scheme) run" where
  "echo_main S L argc argv =
     bind (echo_loop S L argv (nat (argc - 1)) 1) (\<lambda>_.
     bind (printf S L (L ''\<newline>'') []) (\<lambda>_.
     return 0))"

lemmas [code] = envp_end.simps parse_loop.simps shell_loop.simps

end
