(* ===== verification/User_Tests.thy ===== *)
theory User_Tests
  imports User_Output
begin

text \<open>
  The test programs under \<open>user/\<close> as they are written, on the system call wrappers of the user
  library, and what they print on a kernel that keeps the contract of the calls they make.
\<close>

section \<open>The programs\<close>

text \<open>\<open>put_char('F'); ...\<close>, one call per character.\<close>

primrec put_chars :: "'z user_scheme ecall \<Rightarrow> string \<Rightarrow> (unit, 'z user_scheme) run" where
  "put_chars S [] = return ()"
| "put_chars S (c # cs) = bind (put_byte S (of_char c)) (\<lambda>_. put_chars S cs)"

text \<open>\<open>for (;;) put_char(c);\<close>\<close>

partial_function (option) put_char_forever ::
  "'z user_scheme ecall \<Rightarrow> 32 word \<Rightarrow> 'z user_scheme \<Rightarrow> (fault + 32 word \<times> 'z user_scheme) option" where
  "put_char_forever S c s = bind (put_char S c) (\<lambda>_. put_char_forever S c) s"

text \<open>
  \<open>badcall.c\<close> and \<open>badinsn.c\<close>: what the instruction inside the \<open>asm\<close> statement does to the
  process is a parameter. The lines after it are there to show that it does not come back.
\<close>

definition badcall_main :: "'z user_scheme ecall \<Rightarrow> (unit, 'z user_scheme) run \<Rightarrow> (32 word, 'z user_scheme) run" where
  "badcall_main S asm_mret = bind asm_mret (\<lambda>_. bind (put_chars S ''Fail'') (\<lambda>_. forever))"

definition badinsn_main :: "'z user_scheme ecall \<Rightarrow> (unit, 'z user_scheme) run \<Rightarrow> (32 word, 'z user_scheme) run" where
  "badinsn_main S asm_zeros = bind asm_zeros (\<lambda>_. bind (put_chars S ''Fail'') (\<lambda>_. forever))"

definition null_main :: "'z user_scheme ecall \<Rightarrow> (32 word, 'z user_scheme) run" where
  "null_main S = bind (set_field32 0 0 10) (\<lambda>_. bind (put_chars S ''Fail'') (\<lambda>_. forever))"

text \<open>\<open>hello.c\<close>: the loop over the literal, \<open>n\<close> characters from the address \<open>p\<close>.\<close>

primrec put_from :: "'z user_scheme ecall \<Rightarrow> addr \<Rightarrow> nat \<Rightarrow> (unit, 'z user_scheme) run" where
  "put_from S p 0 = return ()"
| "put_from S p (Suc n) = bind (get_byte p 0) (\<lambda>c. bind (put_byte S c) (\<lambda>_. put_from S (p + 1) n))"

definition hello_main :: "'z user_scheme ecall \<Rightarrow> (string \<Rightarrow> addr) \<Rightarrow> (32 word, 'z user_scheme) run" where
  "hello_main S lits = bind (put_from S (lits ''Hello, world!\<newline>'') 14) (\<lambda>_. exit_user S 0)"

definition output_main :: "'z user_scheme ecall \<Rightarrow> (32 word, 'z user_scheme) run" where
  "output_main S = bind (put_chars S ''Hello'') (\<lambda>_. return 0)"

partial_function (option) recursion_foo ::
  "'z user_scheme ecall \<Rightarrow> 32 word \<Rightarrow> 'z user_scheme \<Rightarrow> (fault + 32 word \<times> 'z user_scheme) option" where
  "recursion_foo S a s = bind (put_char S (of_char CHR ''a'')) (\<lambda>_. recursion_foo S a) s"

definition recursion_main :: "'z user_scheme ecall \<Rightarrow> (32 word, 'z user_scheme) run" where
  "recursion_main S = bind (recursion_foo S 0) (\<lambda>_. return 0)"

definition test_fork_main :: "'z user_scheme ecall \<Rightarrow> (32 word, 'z user_scheme) run" where
  "test_fork_main S =
     bind (fork_user S) (\<lambda>pid.
     if pid \<noteq> 0 then put_char_forever S (of_char CHR ''1'') else put_char_forever S (of_char CHR ''2''))"

text \<open>\<open>char\<close> is unsigned on RISC-V.\<close>

definition test_get_char_main :: "'z user_scheme ecall \<Rightarrow> (32 word, 'z user_scheme) run" where
  "test_get_char_main S = bind (get_char S) (\<lambda>c. put_char_forever S (ucast c))"

definition test_poweroff_main :: "'z user_scheme ecall \<Rightarrow> (32 word, 'z user_scheme) run" where
  "test_poweroff_main S =
     bind (fork_user S) (\<lambda>pid.
     if pid \<noteq> 0 then
       bind (yield_user S) (\<lambda>_.
       bind (power_off_user S) (\<lambda>_.
       bind (put_chars S ''FAIL'') (\<lambda>_.
       return 0)))
     else
       bind (power_off_user S) (\<lambda>r.
       bind (if_then (r = -1) (put_chars S ''a'')) (\<lambda>_.
       exit_user S 0)))"

text \<open>\<open>status\<close> is a local variable whose address is taken.\<close>

definition test_wait_main :: "'z user_scheme ecall \<Rightarrow> addr \<Rightarrow> (32 word, 'z user_scheme) run" where
  "test_wait_main S status =
     bind (set_field32 status 0 0x32) (\<lambda>_.
     bind (fork_user S) (\<lambda>pid.
     if pid \<noteq> 0 then
       bind (wait_user S status) (\<lambda>_.
       bind (get_field32 status 0) (\<lambda>v.
       bind (put_char S v) (\<lambda>_.
       forever)))
     else exit_user S 0x31))"

definition test_yield_main :: "'z user_scheme ecall \<Rightarrow> addr \<Rightarrow> (32 word, 'z user_scheme) run" where
  "test_yield_main S status =
     bind (set_field32 status 0 0x32) (\<lambda>_.
     bind (fork_user S) (\<lambda>pid.
     if pid \<noteq> 0 then
       bind (yield_user S) (\<lambda>_.
       bind (wait_user S status) (\<lambda>_.
       bind (get_field32 status 0) (\<lambda>v.
       bind (put_char S v) (\<lambda>_.
       forever))))
     else exit_user S 0x31))"

lemmas [code] = put_char_forever.simps recursion_foo.simps

section \<open>What they print\<close>

lemma prints_chars:
  assumes "console_call S out"
  shows "prints out (put_chars S cs) (map of_char cs) () s"
proof (induction cs arbitrary: s)
  case (Cons c cs)
  show ?case using prints_bind [OF prints_byte [OF assms] Cons.IH, of "of_char c" s] by simp
qed simp

lemma prints_from:
  assumes "console_call S out"
  shows "cstring (mem s) p cs \<Longrightarrow> \<forall>i<length cs. p + of_nat i \<noteq> 0 \<Longrightarrow> prints out (put_from S p (length cs)) cs () s"
proof (induction cs arbitrary: p s)
  case (Cons c cs)
  have p: "p \<noteq> 0" "mem s p = c" and cs: "cstring (mem s) (p + 1) cs" using Cons.prems by auto
  have nx: "\<forall>i<length cs. p + 1 + of_nat i \<noteq> 0"
  proof (intro allI impI)
    fix i assume "i < length cs"
    then show "p + 1 + of_nat i \<noteq> 0" using Cons.prems(2) [rule_format, of "Suc i"] by (simp add: add.assoc)
  qed
  have "prints out (put_from S (p + 1) (length cs)) cs () s'" if "user_same s s'" for s'
    using Cons.IH [OF _ nx] cs user_sameD [OF that] by simp
  from prints_bind [OF prints_byte [OF assms, of c s] this]
  have "prints out (bind (put_byte S c) (\<lambda>_. put_from S (p + 1) (length cs))) (c # cs) () s" by simp
  moreover have "put_from S p (length (c # cs)) s = bind (put_byte S c) (\<lambda>_. put_from S (p + 1) (length cs)) s"
    using p by (simp add: get_byte_def read8_def run_simps)
  ultimately show ?case by (simp only: prints_def)
qed simp

text \<open>\<open>hello\<close> prints its literal, all fourteen characters, before it exits.\<close>

lemma hello_prints:
  assumes "console_call S out" and "cstring (mem s) (lits ''Hello, world!\<newline>'') (map of_char ''Hello, world!\<newline>'')"
    and "\<forall>i<14. lits ''Hello, world!\<newline>'' + of_nat i \<noteq> 0"
  shows "prints out (put_from S (lits ''Hello, world!\<newline>'') 14) (map of_char ''Hello, world!\<newline>'') () s"
proof -
  have n: "length (map of_char ''Hello, world!\<newline>'' :: byte list) = 14" by simp
  show ?thesis using prints_from [OF assms(1,2)] assms(3) unfolding n by blast
qed

text \<open>
  The contract of the kernel that \<open>test_wait\<close> and \<open>test_yield\<close> rely on, in the process that \<open>fork\<close>
  gives a child: yielding leaves memory alone, and waiting puts the child's exit status into
  the shared page and returns its pid.
\<close>

definition parent_kernel :: "'z user_scheme ecall \<Rightarrow> uint64 \<Rightarrow> 32 word \<Rightarrow> bool" where
  "parent_kernel S child code \<longleftrightarrow>
     (\<forall>s. \<exists>s'. S 0 0 0 0 0 0 0 SYSCALL_FORK s = Ok child s' \<and> mem s' = mem s) \<and>
     (\<forall>s. \<exists>r s'. S 0 0 0 0 0 0 0 SYSCALL_YIELD s = Ok r s' \<and> mem s' = mem s) \<and>
     (\<forall>s p. \<exists>s'. S p 0 0 0 0 0 0 SYSCALL_WAIT s = Ok child s' \<and> load32 (mem s') SHARED_MEMORY_user = code)"

text \<open>
  The programs that spin do not return; their output is observed through a kernel that stops
  the run at the first character a program prints, and reports it.
\<close>

definition reports_output :: "'z user_scheme ecall \<Rightarrow> bool" where
  "reports_output S \<longleftrightarrow> (\<forall>c s. S c 0 0 0 0 0 0 SYSCALL_PUT_CHAR s = Fault (Panic [char_of (unat c)]))"

lemma wait_fetches:
  assumes "parent_kernel S child code" and "ucast child \<noteq> (0 :: 32 word)" and "status \<noteq> 0"
  shows "\<exists>s'. wait_user S status s = Ok (ucast child) s' \<and> load32 (mem s') status = code"
proof -
  obtain t where t: "S status 0 0 0 0 0 0 SYSCALL_WAIT s = Ok child t" "load32 (mem t) SHARED_MEMORY_user = code"
    using assms(1) unfolding parent_kernel_def by blast
  have b: "bind (S status 0 0 0 0 0 0 SYSCALL_WAIT) k s = k child t" for k :: "uint64 \<Rightarrow> (32 word, 'a user_scheme) run"
    using t(1) by (rule bind_Ok)
  have "SHARED_MEMORY_user \<noteq> 0" by (simp add: SHARED_MEMORY_user_def TRAMPOLINE_user_def MAXVA_user_def PGSIZE_user_def)
  then show ?thesis
    using assms(2,3) t(2)
    by (simp add: wait_user_def b fetch_status_def get_field32_def set_field32_def run_simps Let_def)
qed

text \<open>
  The comments of \<open>test_wait.c\<close> and \<open>test_yield.c\<close> hold: on a kernel that keeps the contract of
  \<open>fork\<close>, \<open>yield\<close> and \<open>wait\<close>, the first thing the parent prints is the status its child exits
  with, the character 1, and not the initial value of the variable, the character 2.
\<close>

theorem wait_tests_print_1:
  assumes "parent_kernel S child 0x31" and "ucast child \<noteq> (0 :: 32 word)" and "status \<noteq> 0" and "reports_output S"
  shows "test_wait_main S status s = Fault (Panic ''1'') \<and> test_yield_main S status s = Fault (Panic ''1'')"
proof -
  have put: "bind (put_char S 0x31) k u = Fault (Panic ''1'')" for u and k :: "unit \<Rightarrow> (32 word, 'a user_scheme) run"
    using assms(4) by (simp add: reports_output_def put_char_def bind_def char_of_def bit_iff_odd)
  have c: "child \<noteq> 0" using assms(2) by auto
  have st: "bind (set_field32 status 0 v) k u = k () (u\<lparr>mem := store32 (mem u) status v\<rparr>)"
    for v u and k :: "unit \<Rightarrow> (32 word, 'a user_scheme) run"
    using assms(3) by (simp add: set_field32_def run_simps)
  have fork: "\<exists>t. \<forall>k :: uint64 \<Rightarrow> (32 word, 'a user_scheme) run. bind (fork_user S) k u = k child t" for u
  proof -
    obtain t where "S 0 0 0 0 0 0 0 SYSCALL_FORK u = Ok child t" using assms(1) unfolding parent_kernel_def by blast
    then show ?thesis unfolding fork_user_def by (intro exI [of _ t] allI bind_Ok)
  qed
  have yield: "\<exists>t. \<forall>k :: unit \<Rightarrow> (32 word, 'a user_scheme) run. bind (yield_user S) k u = k () t" for u
  proof -
    obtain r t where "S 0 0 0 0 0 0 0 SYSCALL_YIELD u = Ok r t" using assms(1) unfolding parent_kernel_def by blast
    then have "yield_user S u = Ok () t" by (simp add: yield_user_def bind_def return_def)
    then show ?thesis by (intro exI [of _ t] allI bind_Ok)
  qed
  have fin: "bind (wait_user S status) (\<lambda>_. bind (get_field32 status 0) (\<lambda>v. bind (put_char S v) (\<lambda>_. forever))) u =
      (Fault (Panic ''1'') :: (fault + 32 word \<times> 'a user_scheme) option)" for u
  proof -
    obtain t where t: "wait_user S status u = Ok (ucast child) t" "load32 (mem t) status = 0x31"
      using wait_fetches [OF assms(1-3)] by blast
    then have "bind (wait_user S status) k u = k (ucast child) t" for k :: "32 word \<Rightarrow> (32 word, 'a user_scheme) run"
      by (intro bind_Ok)
    then show ?thesis using assms(3) t(2) put by (simp add: get_field32_def run_simps)
  qed
  obtain f where f: "bind (fork_user S) k (s\<lparr>mem := store32 (mem s) status 0x32\<rparr>) = k child f"
    for k :: "uint64 \<Rightarrow> (32 word, 'a user_scheme) run" using fork by blast
  obtain y where y: "bind (yield_user S) k f = k () y" for k :: "unit \<Rightarrow> (32 word, 'a user_scheme) run"
    using yield by blast
  show ?thesis
    using fin [of f] fin [of y] c by (simp add: test_wait_main_def test_yield_main_def st f y)
qed

text \<open>A kernel with one child that has exited with the character 1.\<close>

definition one_child :: "user ecall" where
  "one_child a0 a1 a2 a3 a4 a5 a6 a7 s =
     (if a7 = SYSCALL_FORK then Ok 2 s
      else if a7 = SYSCALL_WAIT then Ok 2 (s\<lparr>mem := store32 (mem s) SHARED_MEMORY_user 0x31\<rparr>)
      else if a7 = SYSCALL_PUT_CHAR then Fault (Panic [char_of (unat a0)])
      else Ok 0 s)"

theorem wait_tests_print_1_witness:
  "test_wait_main one_child 0x7000 (user.truncate prompt_program) = Fault (Panic ''1'') \<and>
   test_yield_main one_child 0x7000 (user.truncate prompt_program) = Fault (Panic ''1'')"
proof -
  have "parent_kernel one_child 2 0x31" "reports_output one_child"
    by (simp_all add: parent_kernel_def reports_output_def one_child_def syscall_numbers)
  moreover have "ucast (2 :: uint64) \<noteq> (0 :: 32 word)" by simp
  ultimately show ?thesis using wait_tests_print_1 [of one_child 2 "0x7000" "user.truncate prompt_program"] by simp
qed

end
