(* ===== verification/Spec2Isabelle.thy ===== *)
theory Spec2Isabelle
  imports Context_Switch User_Resume Stack_Growth Load_Section Space_Invariant Free_Pagetable Exit Exec_Arguments
    Self_Test Shell User_Tests
begin

text \<open>
  A verification development for the toy RISC-V kernel (\<open>src/kernel\<close>) and its user side
  (\<open>src/user\<close>).

  \<^bold>\<open>The program.\<close> A kernel for one RISC-V hart with Sv39 paging. \<open>start\<close> runs in machine mode,
  installs a boot page table and the timer, and enters \<open>main\<close> in supervisor mode. \<open>main\<close> sets up
  the page allocator, the kernel's own page table, the interrupt controller and the first task,
  and ends in the scheduler. Tasks run in user mode, each in an address space of its own; timer
  interrupts, page faults and system calls bring them back into the kernel. The user side is a
  library of system call wrappers, strings and formatted output, a shell and \<open>echo\<close>.

  \<^bold>\<open>How code is modelled.\<close> Memory is one byte per 64-bit address; structs are read and written at
  their C offsets; C integers are words of their width where overflow matters. A routine is a
  function of the state with three outcomes: it does not return, it stops with a fault (a call
  of \<open>panic\<close>, a dereferenced NULL, an access beyond a static array), or it returns a value and a
  state. Loops the C code does not bound are least fixed points over these outcomes, so there
  is no fuel anywhere, and every statement that a routine returns is proved. Devices, linker
  symbols, and for the user side what the kernel does at an \<open>ecall\<close>, are parameters. The C code
  takes the assembly routines as parameters too; the assembly files are lists of instructions,
  executed on the same state extended by the registers of the hart, and the theorems about
  traps put the two together.

  \<^bold>\<open>The theories.\<close>

  \<^item> \<open>Kernel_Prelude\<close>: the type of kernel code and its laws, chains of next pointers, words.
  \<^item> \<open>Phys_Memory\<close>, \<open>Riscv\<close>: 64-bit cells, \<open>memset\<close> and \<open>memcpy\<close> (\<open>utility.h\<close>); the status register,
    the Sv39 macros and the memory layout (\<open>riscv.h\<close>, \<open>riscv_defs.h\<close>, \<open>memlayout.h\<close>).
  \<^item> \<open>Buddy_Spec\<close>, \<open>Buddy\<close>: the page allocator of \<open>mem_manage.c\<close>. An abstract pool of sorted,
    coalesced blocks; the pointer structure refines it; the interface the rest of the kernel
    relies on is the locale \<open>page_allocator\<close> with its interpretation.
  \<^item> \<open>Kmalloc\<close>, \<open>Heap_Objects\<close>: \<open>kmalloc\<close> and \<open>kfree\<close>, and the objects a client of the heap sees.
  \<^item> \<open>Linked_List\<close>: \<open>single_linked_list.h\<close>, the list in memory against a list of data.
  \<^item> \<open>Virtual_Memory\<close>: \<open>virtual_memory.c\<close>, page tables as trees; mapping, unmapping and
    translation through the locale \<open>address_space\<close>.
  \<^item> \<open>C_Strings\<close>: the string routines of \<open>utility.h\<close>.
  \<^item> \<open>Platform\<close>: global variables, control registers, and the record of the surroundings.
  \<^item> \<open>Console\<close>: \<open>uart.c\<close>, \<open>print.c\<close>, \<open>panic.c\<close>; what is printed, and the transmit buffer as a queue.
  \<^item> \<open>Task\<close>, \<open>Elf\<close>, \<open>Scheduler\<close>, \<open>Syscalls\<close>: \<open>process.c\<close> with \<open>process.h\<close>, and \<open>elf.c\<close>: tasks and
    their memory, loading of programs, \<open>yield\<close> and the scheduler, fork, exec, exit, waiting,
    signals, the system call table, growth of the stack.
  \<^item> \<open>Traps\<close>: \<open>trap.c\<close>, \<open>plic.c\<close>, \<open>start.c\<close>, \<open>main.c\<close> and the kernel page table.
  \<^item> \<open>Task_Queries\<close>: the searches over all tasks, and the system calls that rest on them.
  \<^item> \<open>Run_Queue\<close>: \<open>yield\<close> and \<open>sleep\<close> on the run queue; the locale \<open>round_robin\<close>; interleavings of
    the tasks as an inductive relation.
  \<^item> \<open>Trap_Handling\<close>: the dispatcher, preemption by the timer, the boot page table.
  \<^item> \<open>Assembly\<close>: the instructions, the address translation of the hart, and the listings of
    \<open>switch.S\<close>, \<open>trampoline.S\<close>, \<open>kernel_vectors.S\<close>, \<open>entry.S\<close> and \<open>user/syscall.S\<close>.
  \<^item> \<open>Copy_Memory\<close>, \<open>Load_Section\<close>, \<open>Stack_Growth\<close>: copying a range of an address space for \<open>fork\<close>,
    loading and freeing a section of a program, enlarging the stack on a page fault.
  \<^item> \<open>Free_Pagetable\<close>: which pages \<open>free_pagetable\<close> gives back.
  \<^item> \<open>Exit\<close>, \<open>Exec_Arguments\<close>: the children and the waiting parent of a process that exits; the
    vector of arguments \<open>exec_process\<close> builds for the new program.
  \<^item> \<open>Space_Invariant\<close>: an address space under any sequence of operations, as an inductive relation.
  \<^item> \<open>Mmu\<close>: the hardware's walk against the trees of \<open>Virtual_Memory\<close>.
  \<^item> \<open>Trampoline\<close>, \<open>User_Resume\<close>: the way into the kernel and back; a whole system call from the
    \<open>ecall\<close> to the instruction behind it.
  \<^item> \<open>Context_Switch\<close>: \<open>switch_context\<close>, \<open>kernel_vector\<close> and \<open>timer_vector\<close>.
  \<^item> \<open>Self_Test\<close>: the self-tests of the kernel and its debugging printers (\<open>test.c\<close> and the code
    under the test macros of \<open>mem_manage.c\<close> and \<open>process.c\<close>).
  \<^item> \<open>User_Lib\<close>, \<open>Shell\<close>: \<open>user/system.c\<close>, \<open>user/ulib.c\<close>, \<open>user/ulib.h\<close>, \<open>user/sh.c\<close>, \<open>user/echo.c\<close>.
  \<^item> \<open>User_Output\<close>, \<open>User_Exec\<close>: what \<open>printf\<close> prints, and what \<open>exec\<close> hands to the kernel.
  \<^item> \<open>User_Tests\<close>: the small test programs under \<open>user\<close>.

  \<^bold>\<open>What is shown.\<close> The allocator hands out aligned, disjoint runs of pages, fails exactly when
  there is none, and takes them back; heap objects never overlap and keep their contents; the
  list operations do what their names say on lists of live objects; page table operations
  change one translation and no other, and no sequence of them harms the tree of tables; a copied
  or loaded page has the contents it should, and a failed load leaves nothing behind; a fault
  below the stack makes it grow; strings and numbers are printed as they should; a
  waiting parent reaps the first zombie; a process that exits hands its children to init and its
  number and status to a parent that waits; the arguments packed by \<open>exec\<close> reach the new program
  as \<open>argv\<close>; the run queue is served round robin and no runnable
  task starves; the timer preempts; the dispatcher returns the handler's result; the boot page
  table is the identity; the hardware translates as \<open>map_page\<close> has entered; a trap from user mode
  and the return from it preserve every register, a context switch there and back the
  callee-saved ones, a trap in the kernel all of them, and a system call changes \<open>a0\<close> alone; the
  timer is rearmed at every tick; the memory self-test passes; \<open>printf\<close> and \<open>exec\<close> of the user
  library meet their specifications.

  Some theorems show where the code falls short of its intention: the early return of
  \<open>deallocate\<close> and the failure of \<open>kmalloc\<close> leave interrupts disabled, \<open>kmalloc\<close> runs over the end
  of its block, a failed copy of an address space frees the pages of the source,
  \<open>free_pagetable\<close> loses the lowest tables and the second page of every table, \<open>removeAt\<close> cannot
  remove the head, a failed \<open>map_page\<close> is not noticed, signals are
  never delivered, \<open>wait_pid\<close> misses a child that has already exited, \<open>sleep\<close> and \<open>yield\<close> come back
  at once when nothing else can run, and an unknown system call is made again for ever.

  \<^bold>\<open>Where theorems are still to be added.\<close> \<open>new_task\<close>, \<open>fork_process\<close>, the environment and the rest of
  \<open>exec_process\<close>, the freeing of the memory of a task in \<open>exit_process\<close>, the loop over the segments of
  an ELF file, and the shell are modelled in full; the theorems about them so far are those of
  the routines they call.

  \<^bold>\<open>Not modelled.\<close> \<open>init.S\<close>, which includes the images of the user programs as data. Instruction
  fetch, the accessed and dirty bits of page table entries, and the TLB: flushing it has no
  effect. Prototypes in headers. What an illegal instruction does to a user program is a parameter
  of the two test programs that have one. Signed overflow of C \<open>int\<close> counters, which is undefined
  in C, is not given a meaning: such counters are unbounded.
\<close>

section \<open>The two sides of a system call\<close>

text \<open>
  The user library and the kernel agree. Each wrapper's number selects the handler of the
  same name in the kernel's table, and both sides put the shared page at the same address.
\<close>

theorem user_kernel_interface:
  "syscall_handler P (int_of_reg SYSCALL_FORK) = Some (sys_fork P) \<and>
   syscall_handler P (int_of_reg SYSCALL_EXEC) = Some (sys_exec P) \<and>
   syscall_handler P (int_of_reg SYSCALL_EXIT) = Some (sys_exit P) \<and>
   syscall_handler P (int_of_reg SYSCALL_WAIT) = Some (sys_wait P) \<and>
   syscall_handler P (int_of_reg SYSCALL_WAIT_PID) = Some (sys_wait_pid P) \<and>
   syscall_handler P (int_of_reg SYSCALL_SEND_SIGNAL) = Some (sys_send_signal P) \<and>
   syscall_handler P (int_of_reg SYSCALL_YIELD) = Some (sys_yield P) \<and>
   syscall_handler P (int_of_reg SYSCALL_POWER_OFF) = Some (sys_power_off P) \<and>
   syscall_handler P (int_of_reg SYSCALL_PUT_CHAR) = Some (sys_put_char P) \<and>
   syscall_handler P (int_of_reg SYSCALL_GET_CHAR) = Some (sys_get_char P) \<and>
   SHARED_MEMORY_user = SHARED_MEMORY"
  by (simp add: syscall_handler_def int_of_reg_def syscall_numbers page_consts
      SHARED_MEMORY_user_def TRAMPOLINE_user_def MAXVA_user_def PGSIZE_user_def)

end
